(* ===== verification/Prelude.thy ===== *)
theory Prelude
  imports Complex_Main "HOL-Library.AList" "HOL-Library.Char_ord" "HOL-Library.List_Lexorder"
begin

text \<open>
  The prelude of the development: the names for the model's types, the collections of
  simplification rules the component theories share, and the generic facts about lists, maps
  and folds that no component owns.

  Conventions used throughout:
  \<^item> a JavaScript string is a HOL \<open>string\<close>; comparison of ids by UTF-8 bytes
    (\<open>compareTicketIds\<close>) is the lexicographic order on characters;
  \<^item> a JavaScript number is a rational, so a sum or a quotient is exact: rounding of doubles
    is not modelled;
  \<^item> a thrown error or an error result is \<open>Inl\<close>, a normal result is \<open>Inr\<close>;
  \<^item> a JavaScript \<open>Map\<close> or object whose insertion order is observable is an association list
    updated by \<open>AList.update\<close> (an existing key keeps its place, a new key goes last).
\<close>

named_theorems result_simps \<open>rewriting of results of fallible operations\<close>

type_synonym ident = string
type_synonym path = string

section \<open>Results\<close>

definition bind_res :: "'e + 'a \<Rightarrow> ('a \<Rightarrow> 'e + 'b) \<Rightarrow> 'e + 'b" where
  "bind_res r f = (case r of Inl e \<Rightarrow> Inl e | Inr x \<Rightarrow> f x)"

lemma bind_res_simps [simp]:
  "bind_res (Inl e) f = Inl e"
  "bind_res (Inr x) f = f x"
  by (simp_all add: bind_res_def)

lemma bind_res_eq_Inr [result_simps]:
  "bind_res r f = Inr y \<longleftrightarrow> (\<exists>x. r = Inr x \<and> f x = Inr y)"
  by (cases r) simp_all

definition guard_res :: "bool \<Rightarrow> 'e \<Rightarrow> 'e + unit" where
  "guard_res ok e = (if ok then Inr () else Inl e)"

lemma guard_res_eq_Inr [simp]: "guard_res ok e = Inr u \<longleftrightarrow> ok"
  by (simp add: guard_res_def)

lemma guard_res_eq_Inl [simp]: "guard_res ok e = Inl e' \<longleftrightarrow> \<not> ok \<and> e' = e"
  by (auto simp: guard_res_def)

text \<open>Mapping a fallible operation over a list stops at the first error, as a throw does.\<close>

fun map_res :: "('a \<Rightarrow> 'e + 'b) \<Rightarrow> 'a list \<Rightarrow> 'e + 'b list" where
  "map_res f [] = Inr []"
| "map_res f (x # xs) = bind_res (f x) (\<lambda>y. bind_res (map_res f xs) (\<lambda>ys. Inr (y # ys)))"

lemma map_res_cong [fundef_cong]:
  "xs = ys \<Longrightarrow> (\<And>x. x \<in> set ys \<Longrightarrow> f x = g x) \<Longrightarrow> map_res f xs = map_res g ys"
  by (induction ys arbitrary: xs) (auto simp: bind_res_def split: sum.splits)

lemma map_res_Inr_list_all2:
  "map_res f xs = Inr ys \<longleftrightarrow> list_all2 (\<lambda>x y. f x = Inr y) xs ys"
  by (induction xs arbitrary: ys) (auto simp: result_simps list_all2_Cons1)

text \<open>A loop whose body may throw: the first error ends it.\<close>

fun fold_res :: "('a \<Rightarrow> 's \<Rightarrow> 'e + 's) \<Rightarrow> 'a list \<Rightarrow> 's \<Rightarrow> 'e + 's" where
  "fold_res f [] s = Inr s"
| "fold_res f (x # xs) s = bind_res (f x s) (fold_res f xs)"

lemma fold_res_inv:
  assumes "fold_res f xs s = Inr t" and "P s"
    and "\<And>x u v. x \<in> set xs \<Longrightarrow> P u \<Longrightarrow> f x u = Inr v \<Longrightarrow> P v"
  shows "P t"
  using assms by (induction xs arbitrary: s) (auto simp: bind_res_eq_Inr)

lemma fold_res_Inl:
  assumes "fold_res f xs s = Inl e" and "P s"
    and "\<And>x u v. x \<in> set xs \<Longrightarrow> P u \<Longrightarrow> f x u = Inr v \<Longrightarrow> P v"
  shows "\<exists>x\<in>set xs. \<exists>u. P u \<and> f x u = Inl e"
  using assms
proof (induction xs arbitrary: s)
  case (Cons y ys)
  show ?case
  proof (cases "f y s")
    case (Inl e')
    with Cons.prems show ?thesis by auto
  next
    case (Inr u)
    then have "fold_res f ys u = Inl e" "P u"
      using Cons.prems(1) Cons.prems(3) [OF _ Cons.prems(2) Inr] by auto
    from Cons.IH [OF this] Cons.prems(3) show ?thesis
      by (metis list.set_intros(2))
  qed
qed simp

text \<open>An invariant of the loop, and for each element a fact the later iterations keep.\<close>

lemma fold_res_each:
  assumes "fold_res f xs s = Inr t" and "P s"
    and "\<And>x u v. x \<in> set xs \<Longrightarrow> P u \<Longrightarrow> f x u = Inr v \<Longrightarrow> P v \<and> Q x v"
    and "\<And>x y u v. y \<in> set xs \<Longrightarrow> P u \<Longrightarrow> f y u = Inr v \<Longrightarrow> Q x u \<Longrightarrow> Q x v"
  shows "P t \<and> (\<forall>x\<in>set xs. Q x t)"
  using assms
proof (induction xs arbitrary: s)
  case (Cons y ys)
  from Cons.prems(1) obtain u where u: "f y s = Inr u" and rest: "fold_res f ys u = Inr t"
    by (auto simp: bind_res_eq_Inr)
  have Pu: "P u" and Qu: "Q y u" using Cons.prems(2,3) u by auto
  have "P t \<and> (\<forall>x\<in>set ys. Q x t)"
    by (rule Cons.IH [OF rest Pu])
       (blast intro: Cons.prems(3,4) list.set_intros(2) dest: Cons.prems(3,4) [OF list.set_intros(2)])+
  moreover have "P t \<and> Q y t"
    by (rule fold_res_inv [OF rest, where P = "\<lambda>v. P v \<and> Q y v"])
       (use Pu Qu in \<open>blast dest: Cons.prems(3,4) [OF list.set_intros(2)]\<close>)+
  ultimately show ?case by auto
qed simp

section \<open>Lists\<close>

definition starts_with :: "'a list \<Rightarrow> 'a list \<Rightarrow> bool" where
  "starts_with w p \<longleftrightarrow> take (length p) w = p"

lemma starts_with_iff: "starts_with w p \<longleftrightarrow> (\<exists>v. w = p @ v)"
  unfolding starts_with_def by (metis append_eq_conv_conj append_take_drop_id)

lemma starts_with_append [simp]: "starts_with (p @ v) p"
  by (simp add: starts_with_def)

text \<open>Does the list have its first \<open>x\<close> before its first \<open>y\<close>?\<close>

definition before :: "'a \<Rightarrow> 'a \<Rightarrow> 'a list \<Rightarrow> bool" where
  "before x y xs \<longleftrightarrow> (\<exists>us vs. xs = us @ x # vs \<and> y \<in> set vs \<and> y \<notin> set us \<and> y \<noteq> x)"

lemma before_snoc_new:
  "x \<in> set xs \<Longrightarrow> y \<notin> set xs \<Longrightarrow> before x y (xs @ [y])"
  unfolding before_def
  by (metis Cons_eq_appendI Un_iff append_assoc in_set_conv_decomp list.set_intros(1) set_append)

lemma before_snoc_old: "before x y xs \<Longrightarrow> before x y (xs @ zs)"
  unfolding before_def
  by (metis Un_iff append.assoc append_Cons set_append)

lemma before_not_sym: "distinct xs \<Longrightarrow> before x y xs \<Longrightarrow> \<not> before y x xs"
  by (auto simp: before_def append_eq_append_conv2 append_eq_Cons_conv Cons_eq_append_conv)

lemma before_in_set: "before x y xs \<Longrightarrow> x \<in> set xs \<and> y \<in> set xs"
  by (auto simp: before_def)

text \<open>A fold over an index range, one iteration at a time (a counted \<open>for\<close> loop).\<close>

lemma fold_upt_Suc [simp]: "fold f [0..<Suc k] s = f k (fold f [0..<k] s)"
  by simp

lemma loop_upt:
  assumes "P 0 s" and "\<And>i t. i < k \<Longrightarrow> P i t \<Longrightarrow> P (Suc i) (f i t)"
  shows "P k (fold f [0..<k] s)"
  using assms by (induction k) auto

lemma fold_invariant_list:
  assumes "P s" and "\<And>x t. x \<in> set xs \<Longrightarrow> P t \<Longrightarrow> P (f x t)"
  shows "P (fold f xs s)"
  using assms by (induction xs arbitrary: s) auto

lemma list_all2_in_set2: "list_all2 P xs ys \<Longrightarrow> y \<in> set ys \<Longrightarrow> \<exists>x\<in>set xs. P x y"
  by (induction rule: list_all2_induct) auto

lemma map_res_map: "map_res f (map g xs) = map_res (\<lambda>x. f (g x)) xs"
  by (induction xs) simp_all

section \<open>Association lists as JavaScript maps\<close>

lemma dom_map_of_update: "dom (map_of (AList.update k v m)) = insert k (dom (map_of m))"
  by (simp add: update_conv')

lemma map_of_update [simp]: "map_of (AList.update k v m) x = (if x = k then Some v else map_of m x)"
  by (simp add: update_conv')

lemma keys_update:
  "map fst (AList.update k v m) = (if k \<in> fst ` set m then map fst m else map fst m @ [k])"
  by (induction m) auto

lemma update_fresh: "k \<notin> fst ` set m \<Longrightarrow> AList.update k v m = m @ [(k, v)]"
  by (induction m) auto

lemma set_keys_update [simp]: "fst ` set (AList.update k v m) = insert k (fst ` set m)"
  by (metis dom_map_of_conv_image_fst dom_map_of_update)

text \<open>The maximum and the minimum of a list of numbers, with the value of the empty list given
  (\<open>Math.max (0, ...xs)\<close>).\<close>

definition list_max :: "'a::linorder \<Rightarrow> 'a list \<Rightarrow> 'a" where
  "list_max a xs = fold max xs a"

lemma list_max_ge_init: "a \<le> list_max a xs"
  unfolding list_max_def
  by (rule fold_invariant_list [where P = "\<lambda>s. a \<le> s"]) (auto simp: le_max_iff_disj)

lemma list_max_simps [simp]:
  "list_max a [] = a"
  "list_max a (x # xs) = list_max (max x a) xs"
  by (simp_all add: list_max_def)

lemma list_max_ge: "x \<in> set xs \<Longrightarrow> x \<le> list_max a xs"
proof (induction xs arbitrary: a)
  case (Cons y ys)
  then show ?case
    using list_max_ge_init [of "max y a" ys] by auto
qed simp

lemma list_max_cases: "list_max a xs = a \<or> list_max a xs \<in> set xs"
proof (induction xs arbitrary: a)
  case (Cons y ys)
  then show ?case by (metis list.set_intros list_max_simps(2) max_def)
qed simp

lemma list_max_least: "a \<le> b \<Longrightarrow> \<forall>x\<in>set xs. x \<le> b \<Longrightarrow> list_max a xs \<le> b"
  using list_max_cases [of a xs] by auto

fun list_min1 :: "'a::linorder \<Rightarrow> 'a list \<Rightarrow> 'a" where
  "list_min1 a [] = a"
| "list_min1 a (x # xs) = list_min1 (min a x) xs"

lemma list_min1_cases: "list_min1 a xs = a \<or> list_min1 a xs \<in> set xs"
proof (induction xs arbitrary: a)
  case (Cons y ys)
  then show ?case by (metis list.set_intros list_min1.simps(2) min_def)
qed simp

lemma list_min1_le: "x \<in> set (a # xs) \<Longrightarrow> list_min1 a xs \<le> x"
proof (induction xs arbitrary: a x)
  case (Cons y ys)
  have "list_min1 (min a y) ys \<le> min a y" by (rule Cons.IH) simp
  moreover have "z \<in> set ys \<Longrightarrow> list_min1 (min a y) ys \<le> z" for z by (rule Cons.IH) simp
  ultimately show ?case using Cons.prems by auto
qed simp

section \<open>Depth-first search\<close>

text \<open>The finished nodes of a search: closed under the edges and free of cycles.\<close>

definition finished_dag :: "('a \<times> 'a) set \<Rightarrow> 'a set \<Rightarrow> bool" where
  "finished_dag E B \<longleftrightarrow> E `` B \<subseteq> B \<and> acyclic (E \<inter> B \<times> B)"

lemma finished_dag_empty [simp]: "finished_dag E {}"
  by (simp add: finished_dag_def acyclic_def)

lemma finished_dag_insert:
  assumes "finished_dag E B" and "E `` {i} \<subseteq> B" and "i \<notin> B"
  shows "finished_dag E (insert i B)"
proof -
  let ?R = "E \<inter> B \<times> B" and ?S = "E \<inter> insert i B \<times> insert i B"
  have closed: "E `` B \<subseteq> B" and acyc: "acyclic ?R" using assms(1) by (auto simp: finished_dag_def)
  have in_B: "y \<in> B" if "(x, y) \<in> ?S" for x y using that closed assms(2) by auto
  have stays: "(x, y) \<in> ?R\<^sup>+" if "(x, y) \<in> ?S\<^sup>+" "x \<in> B" for x y
    using that
  proof (induction rule: trancl_induct)
    case (base y)
    with closed show ?case by auto
  next
    case (step y z)
    then have "(x, y) \<in> ?R\<^sup>+" "y \<in> B" by (auto dest: tranclD2)
    with step.hyps(2) closed show ?case by (auto intro: trancl_into_trancl)
  qed
  have "(x, x) \<notin> ?S\<^sup>+" for x
  proof
    assume x: "(x, x) \<in> ?S\<^sup>+"
    then have "x \<in> B" using in_B by (metis tranclD2)
    with x stays acyc show False by (auto simp: acyclic_def)
  qed
  with closed assms(2) show ?thesis by (auto simp: finished_dag_def acyclic_def)
qed

end
