(* ===== verification/JsValue.thy ===== *)
theory JsValue
  imports Prelude
begin

text \<open>
  JavaScript values as the toolkit sees them after \<open>JSON.parse\<close> or from a caller, and the
  canonical form of \<^verbatim>\<open>packages/tickets/lib/canonical.mjs\<close>, whose hash identifies a ticket
  and a whole store. The SHA-256 digest and the text produced by \<open>JSON.stringify\<close> are parameters.
\<close>

section \<open>Values\<close>

datatype jsval =
    VUndefined
  | VNull
  | VBool bool
  | VNum rat
  | VNonFinite
  | VStr string
  | VArr "jsval list"
  | VObj "(string \<times> jsval) list"
  | VOther string \<comment> \<open>function, symbol, bigint\<close>

text \<open>Property access; a missing property is \<open>undefined\<close>.\<close>

definition js_get :: "string \<Rightarrow> jsval \<Rightarrow> jsval" where
  "js_get k v = (case v of
      VObj kvs \<Rightarrow> (case map_of kvs k of None \<Rightarrow> VUndefined | Some x \<Rightarrow> x)
    | _ \<Rightarrow> VUndefined)"

definition js_has_own :: "string \<Rightarrow> jsval \<Rightarrow> bool" where
  "js_has_own k v = (case v of VObj kvs \<Rightarrow> k \<in> fst ` set kvs | _ \<Rightarrow> False)"

definition nullish :: "jsval \<Rightarrow> bool" where
  "nullish v \<longleftrightarrow> v = VUndefined \<or> v = VNull"

definition is_str :: "jsval \<Rightarrow> bool" where
  "is_str v = (case v of VStr _ \<Rightarrow> True | _ \<Rightarrow> False)"

definition is_nonempty_str :: "jsval \<Rightarrow> bool" where
  "is_nonempty_str v = (case v of VStr s \<Rightarrow> s \<noteq> [] | _ \<Rightarrow> False)"

definition is_plain_obj :: "jsval \<Rightarrow> bool" where
  "is_plain_obj v = (case v of VObj _ \<Rightarrow> True | _ \<Rightarrow> False)"

section \<open>Canonical form (canonical.mjs)\<close>

datatype canonical_error = NonJsonValue

fun normalize :: "jsval \<Rightarrow> canonical_error + jsval" where
  "normalize VNull = Inr VNull"
| "normalize (VStr s) = Inr (VStr s)"
| "normalize (VBool b) = Inr (VBool b)"
| "normalize (VNum q) = Inr (VNum q)"
| "normalize VNonFinite = Inl NonJsonValue"
| "normalize (VArr xs) = bind_res (map_res normalize xs) (\<lambda>ys. Inr (VArr ys))"
| "normalize VUndefined = Inl NonJsonValue"
| "normalize (VOther t) = Inl NonJsonValue"
| "normalize (VObj kvs) =
     bind_res
       (map_res (\<lambda>kv. bind_res (normalize (snd kv)) (\<lambda>v. Inr (fst kv, v))) (sort_key fst kvs))
       (\<lambda>out. Inr (VObj out))"

text \<open>
  \<open>ticketHash\<close> and \<open>storeHash\<close>, over the digest \<open>sha\<close> and the text \<open>stringify\<close> of a
  canonical value.
\<close>

definition ticketHash :: "(string \<Rightarrow> string) \<Rightarrow> (jsval \<Rightarrow> string) \<Rightarrow> jsval \<Rightarrow> canonical_error + string" where
  "ticketHash sha stringify t =
     bind_res (normalize t) (\<lambda>n. Inr (sha (''adlc:ticket:v1'' @ [CHR 0x00] @ stringify n)))"

definition storeHash ::
  "(string \<Rightarrow> string) \<Rightarrow> (jsval \<Rightarrow> string) \<Rightarrow> (string \<times> jsval) list \<Rightarrow> canonical_error + string" where
  "storeHash sha stringify tickets =
     bind_res
       (map_res (\<lambda>t. bind_res (ticketHash sha stringify (snd t)) (\<lambda>h. Inr (fst t, h))) tickets)
       (\<lambda>pairs. bind_res
          (normalize (VArr (map (\<lambda>p. VArr [VStr (fst p), VStr (snd p)]) (sort_key fst pairs))))
          (\<lambda>n. Inr (sha (''adlc:active-store:v1'' @ [CHR 0x00] @ stringify n))))"

section \<open>Equality up to the order of keys\<close>

text \<open>Objects as they are: no key twice.\<close>

fun wf_js :: "jsval \<Rightarrow> bool" where
  "wf_js (VArr xs) \<longleftrightarrow> (\<forall>x\<in>set xs. wf_js x)"
| "wf_js (VObj kvs) \<longleftrightarrow> distinct (map fst kvs) \<and> (\<forall>kv\<in>set kvs. wf_js (snd kv))"
| "wf_js v \<longleftrightarrow> True"

inductive same_json :: "jsval \<Rightarrow> jsval \<Rightarrow> bool" where
  same_null: "same_json VNull VNull"
| same_str: "same_json (VStr s) (VStr s)"
| same_bool: "same_json (VBool b) (VBool b)"
| same_num: "same_json (VNum q) (VNum q)"
| same_arr: "list_all2 same_json xs ys \<Longrightarrow> same_json (VArr xs) (VArr ys)"
| same_obj: "dom (map_of kvs) = dom (map_of kvs') \<Longrightarrow>
    (\<And>k v v'. map_of kvs k = Some v \<Longrightarrow> map_of kvs' k = Some v' \<Longrightarrow> same_json v v') \<Longrightarrow>
    same_json (VObj kvs) (VObj kvs')"
monos list_all2_mono


inductive_cases same_arrE: "same_json (VArr xs) v"
inductive_cases same_objE: "same_json (VObj kvs) v"

subsection \<open>Sorting the keys\<close>

lemma sort_key_fst_eq:
  fixes kvs :: "(string \<times> 'a) list"
  assumes "distinct (map fst kvs)"
  shows "sort_key fst kvs =
    map (\<lambda>k. (k, the (map_of kvs k))) (sorted_list_of_set (fst ` set kvs))"
proof -
  let ?s = "sort_key fst kvs"
  have "distinct (map fst ?s)"
    using assms by (simp add: distinct_map)
  then have keys: "map fst ?s = sorted_list_of_set (fst ` set kvs)"
    by (metis list.set_map set_sort sorted_list_of_set.idem_if_sorted_distinct sorted_sort_key)
  have "x = (fst x, the (map_of kvs (fst x)))" if "x \<in> set ?s" for x
  proof -
    from that have "map_of kvs (fst x) = Some (snd x)" using assms by (simp add: map_of_eq_Some_iff)
    then show ?thesis by (cases x) simp
  qed
  then have "?s = map (\<lambda>x. (fst x, the (map_of kvs (fst x)))) ?s"
    by (metis (mono_tags, lifting) map_idI)
  also have "\<dots> = map (\<lambda>k. (k, the (map_of kvs k))) (map fst ?s)" by simp
  finally show ?thesis by (simp only: keys)
qed

lemma normalize_obj_sorted:
  assumes "distinct (map fst kvs)"
  shows "normalize (VObj kvs) =
     bind_res
       (map_res (\<lambda>k. bind_res (normalize (the (map_of kvs k))) (\<lambda>v. Inr (k, v)))
          (sorted_list_of_set (fst ` set kvs)))
       (\<lambda>out. Inr (VObj out))"
  by (simp add: sort_key_fst_eq [OF assms] map_res_map)

lemma dom_map_of_fst: "dom (map_of kvs) = fst ` set kvs"
  by (rule dom_map_of_conv_image_fst)

lemma wf_js_map_of: "wf_js (VObj kvs) \<Longrightarrow> map_of kvs k = Some v \<Longrightarrow> wf_js v"
  by (fastforce dest: map_of_SomeD)

lemma map_res_list_all2_cong:
  "list_all2 (\<lambda>x y. f x = f y) xs ys \<Longrightarrow> map_res f xs = map_res f ys"
  by (induction rule: list_all2_induct) auto

lemma same_json_normalize:
  "same_json a b \<Longrightarrow> wf_js a \<Longrightarrow> wf_js b \<Longrightarrow> normalize a = normalize b"
proof (induction rule: same_json.induct)
  case (same_arr xs ys)
  then have "list_all2 (\<lambda>x y. normalize x = normalize y) xs ys"
    by (auto simp: list_all2_conv_all_nth)
  from map_res_list_all2_cong [OF this] show ?case by simp
next
  case (same_obj kvs kvs')
  have keys: "fst ` set kvs = fst ` set kvs'" using same_obj.hyps by (simp add: dom_map_of_fst)
  have "normalize (the (map_of kvs k)) = normalize (the (map_of kvs' k))"
    if "k \<in> fst ` set kvs" for k
  proof -
    from that keys obtain v v' where v: "map_of kvs k = Some v" "map_of kvs' k = Some v'"
      by (metis domD dom_map_of_fst)
    with same_obj.IH wf_js_map_of same_obj.prems show ?thesis by auto
  qed
  then have "map_res (\<lambda>k. bind_res (normalize (the (map_of kvs k))) (\<lambda>v. Inr (k, v)))
        (sorted_list_of_set (fst ` set kvs))
      = map_res (\<lambda>k. bind_res (normalize (the (map_of kvs' k))) (\<lambda>v. Inr (k, v)))
        (sorted_list_of_set (fst ` set kvs'))"
    unfolding keys [symmetric] by (intro map_res_cong) auto
  with same_obj.prems show ?case
    by (subst (1 2) normalize_obj_sorted) simp_all
qed simp_all

lemma normalize_obj_Inr:
  assumes "wf_js (VObj kvs)" and "normalize (VObj kvs) = Inr (VObj out)"
  shows "map fst out = sorted_list_of_set (fst ` set kvs)"
    and "map_of kvs k = Some v \<Longrightarrow> \<exists>w. map_of out k = Some w \<and> normalize v = Inr w"
proof -
  let ?ks = "sorted_list_of_set (fst ` set kvs)"
  let ?r = "\<lambda>k kv. bind_res (normalize (the (map_of kvs k))) (\<lambda>v. Inr (k, v)) = Inr kv"
  have *: "list_all2 ?r ?ks out"
    using assms by (simp add: normalize_obj_sorted bind_res_eq_Inr map_res_Inr_list_all2 del: normalize.simps)
  then show keys: "map fst out = ?ks"
    by (auto simp: list_all2_conv_all_nth bind_res_eq_Inr list_eq_iff_nth_eq [where xs = "map fst out"])
       (metis fst_conv)
  assume k: "map_of kvs k = Some v"
  then have "k \<in> fst ` set kvs" by (metis domI dom_map_of_fst)
  then have "k \<in> set ?ks" by simp
  then obtain i where i: "i < length ?ks" "?ks ! i = k" by (metis in_set_conv_nth)
  with * k obtain w where w: "normalize v = Inr w" "out ! i = (k, w)" "i < length out"
    by (auto simp: list_all2_conv_all_nth bind_res_eq_Inr)
  moreover have "distinct (map fst out)" unfolding keys by simp
  ultimately have "map_of out k = Some w" by (metis map_of_eq_Some_iff nth_mem)
  with w show "\<exists>w. map_of out k = Some w \<and> normalize v = Inr w" by blast
qed


lemma normalize_Inr_shape:
  "normalize b = Inr (VObj out) \<Longrightarrow> \<exists>kvs. b = VObj kvs"
  "normalize b = Inr (VArr ns) \<Longrightarrow> \<exists>xs. b = VArr xs \<and> list_all2 (\<lambda>x y. normalize x = Inr y) xs ns"
  by (cases b; auto simp: bind_res_eq_Inr map_res_Inr_list_all2)+

lemma normalize_Inr_atom:
  "normalize b = Inr VNull \<Longrightarrow> b = VNull"
  "normalize b = Inr (VStr s) \<Longrightarrow> b = VStr s"
  "normalize b = Inr (VBool t) \<Longrightarrow> b = VBool t"
  "normalize b = Inr (VNum q) \<Longrightarrow> b = VNum q"
  by (cases b; auto simp: bind_res_eq_Inr)+

lemma normalize_same_json:
  "wf_js a \<Longrightarrow> wf_js b \<Longrightarrow> normalize a = Inr n \<Longrightarrow> normalize b = Inr n \<Longrightarrow> same_json a b"
proof (induction a arbitrary: b n)
  case (VArr xs)
  then obtain ns where n: "n = VArr ns" and xs: "list_all2 (\<lambda>x y. normalize x = Inr y) xs ns"
    by (auto simp: bind_res_eq_Inr map_res_Inr_list_all2)
  with VArr.prems(4) obtain ys where
    b: "b = VArr ys" and ys: "list_all2 (\<lambda>x y. normalize x = Inr y) ys ns"
    using normalize_Inr_shape(2) by blast
  have "list_all2 same_json xs ys"
    using xs ys VArr.IH VArr.prems(1,2) unfolding b list_all2_conv_all_nth
    by (metis nth_mem wf_js.simps(1))
  with b show ?case by (simp add: same_arr)
next
  case (VObj kvs)
  then obtain out where n: "n = VObj out" by (auto simp: bind_res_eq_Inr)
  with VObj.prems(4) obtain kvs' where b: "b = VObj kvs'" using normalize_Inr_shape(1) by blast
  note na = normalize_obj_Inr [OF VObj.prems(1) VObj.prems(3) [unfolded n]]
  note nb = normalize_obj_Inr [OF VObj.prems(2) [unfolded b] VObj.prems(4) [unfolded n b]]
  have "fst ` set kvs = fst ` set kvs'"
    using na(1) nb(1) by (metis List.finite_set finite_imageI set_sorted_list_of_set)
  moreover have "same_json v v'" if "map_of kvs k = Some v" "map_of kvs' k = Some v'" for k v v'
  proof -
    from na(2) [OF that(1)] nb(2) [OF that(2)] obtain w where "normalize v = Inr w" "normalize v' = Inr w"
      by auto
    moreover have "(k, v) \<in> set kvs" using that by (simp add: map_of_SomeD)
    ultimately show ?thesis
      using VObj.IH [of "(k, v)" v] wf_js_map_of that VObj.prems(1,2) b by auto
  qed
  ultimately show ?case unfolding b by (intro same_json.same_obj) (simp_all add: dom_map_of_fst)
qed (use normalize_Inr_atom in \<open>fastforce intro: same_json.intros\<close>)+

lemma wf_js_normalize: "wf_js a \<Longrightarrow> normalize a = Inr n \<Longrightarrow> wf_js n"
proof (induction a arbitrary: n)
  case (VArr xs)
  then obtain ys where n: "n = VArr ys" and ys: "list_all2 (\<lambda>x y. normalize x = Inr y) xs ys"
    by (auto simp: bind_res_eq_Inr map_res_Inr_list_all2)
  have "wf_js y" if "y \<in> set ys" for y
  proof -
    from list_all2_in_set2 [OF ys that] obtain x where x: "x \<in> set xs" "normalize x = Inr y" by blast
    with VArr.prems(1) have "wf_js x" by simp
    then show ?thesis by (rule VArr.IH [OF x(1) _ x(2)])
  qed
  then show ?case unfolding n by simp
next
  case (VObj kvs)
  then obtain out where n: "n = VObj out" by (auto simp: bind_res_eq_Inr)
  note na = normalize_obj_Inr [OF VObj.prems(1) VObj.prems(2) [unfolded n]]
  have d: "distinct (map fst out)" unfolding na(1) by simp
  have "wf_js w" if "(k, w) \<in> set out" for k w
  proof -
    have "k \<in> fst ` set kvs" using that na(1)
      by (metis List.finite_set finite_imageI fst_conv image_eqI list.set_map set_sorted_list_of_set)
    then obtain v where v: "map_of kvs k = Some v" by (metis domD dom_map_of_fst)
    with na(2) that d have "normalize v = Inr w" by fastforce
    with VObj.IH [of "(k, v)" v] wf_js_map_of [OF VObj.prems(1) v] map_of_SomeD [OF v]
    show ?thesis by auto
  qed
  with d show ?case unfolding n by auto
qed auto

text \<open>A canonical value is its own canonical form.\<close>

lemma same_json_normalize_self: "wf_js a \<Longrightarrow> normalize a = Inr n \<Longrightarrow> same_json a n"
proof (induction a arbitrary: n)
  case (VArr xs)
  then show ?case
    by (auto simp: bind_res_eq_Inr map_res_Inr_list_all2 list_all2_conv_all_nth intro!: same_arr)
next
  case (VObj kvs)
  then obtain out where n: "n = VObj out" by (auto simp: bind_res_eq_Inr)
  note na = normalize_obj_Inr [OF VObj.prems(1) VObj.prems(2) [unfolded n]]
  have "fst ` set kvs = fst ` set out"
    using na(1) by (metis List.finite_set finite_imageI list.set_map set_sorted_list_of_set)
  moreover have "same_json v w" if "map_of kvs k = Some v" "map_of out k = Some w" for k v w
    using VObj.IH [of "(k, v)" v] wf_js_map_of [OF VObj.prems(1) that(1)] na(2) [OF that(1)] that
    by (auto simp: map_of_SomeD)
  ultimately show ?case unfolding n by (intro same_json.same_obj) (simp_all add: dom_map_of_fst)
qed (auto intro: same_json.intros)

lemma normalize_idem: "wf_js a \<Longrightarrow> normalize a = Inr n \<Longrightarrow> normalize n = Inr n"
  using same_json_normalize [OF same_json_normalize_self] wf_js_normalize by metis

section \<open>The store hash does not depend on the order of the tickets\<close>

lemma normalize_error: "normalize v = Inl e \<Longrightarrow> e = NonJsonValue"
  by (cases e) simp

lemma sort_key_fst_cong:
  fixes kvs kvs' :: "(string \<times> 'a) list"
  assumes "distinct (map fst kvs)" and "distinct (map fst kvs')" and "set kvs = set kvs'"
  shows "sort_key fst kvs = sort_key fst kvs'"
proof -
  have "map_of kvs = map_of kvs'"
    using assms by (metis map_of_inject_set)
  then show ?thesis by (simp add: sort_key_fst_eq assms)
qed

definition hash_pair :: "(string \<Rightarrow> string) \<Rightarrow> (jsval \<Rightarrow> string) \<Rightarrow> string \<times> jsval \<Rightarrow> canonical_error + string \<times> string" where
  "hash_pair sha stringify t = bind_res (ticketHash sha stringify (snd t)) (\<lambda>h. Inr (fst t, h))"

lemma map_res_error_unit:
  fixes f :: "'a \<Rightarrow> canonical_error + 'b"
  shows "map_res f xs = Inl NonJsonValue \<longleftrightarrow> (\<exists>x\<in>set xs. f x = Inl NonJsonValue)"
proof (induction xs)
  case (Cons x xs)
  have u: "e = NonJsonValue" for e :: canonical_error by (cases e) simp
  show ?case by (cases "f x"; cases "map_res f xs") (use Cons u in auto)
qed simp

lemma map_res_set_perm:
  fixes f :: "string \<times> 'a \<Rightarrow> canonical_error + string \<times> 'b"
  assumes key: "\<And>x y. f x = Inr y \<Longrightarrow> fst y = fst x"
    and d: "distinct (map fst xs)" "distinct (map fst xs')" and s: "set xs = set xs'"
  shows "map_res f xs = Inl NonJsonValue \<and> map_res f xs' = Inl NonJsonValue \<or>
    (\<exists>ys ys'. map_res f xs = Inr ys \<and> map_res f xs' = Inr ys' \<and> sort_key fst ys = sort_key fst ys')"
proof (cases "\<exists>x\<in>set xs. f x = Inl NonJsonValue")
  case True
  then show ?thesis using s by (simp add: map_res_error_unit)
next
  case False
  have u: "e = NonJsonValue" for e :: canonical_error by (cases e) simp
  obtain ys where ys: "map_res f xs = Inr ys"
    using False map_res_error_unit [of f xs] u by (cases "map_res f xs") auto
  obtain ys' where ys': "map_res f xs' = Inr ys'"
    using False s map_res_error_unit [of f xs'] u by (cases "map_res f xs'") auto
  have im: "set zs = {y. \<exists>x\<in>set ws. f x = Inr y} \<and> map fst zs = map fst ws" if "map_res f ws = Inr zs" for ws zs
    using that by (induction ws arbitrary: zs) (auto simp: bind_res_eq_Inr dest: key)
  have "sort_key fst ys = sort_key fst ys'"
    by (rule sort_key_fst_cong) (use im [OF ys] im [OF ys'] d s in auto)
  then show ?thesis using ys ys' by blast
qed

lemma storeHash_perm:
  assumes "distinct (map fst ts)" and "distinct (map fst ts')" and "set ts = set ts'"
  shows "storeHash sha stringify ts = storeHash sha stringify ts'"
proof -
  have k: "fst y = fst x" if "hash_pair sha stringify x = Inr y" for x y
    using that by (auto simp: hash_pair_def bind_res_eq_Inr)
  have h: "(\<lambda>t. bind_res (ticketHash sha stringify (snd t)) (\<lambda>h. Inr (fst t, h))) = hash_pair sha stringify"
    by (simp add: hash_pair_def fun_eq_iff)
  show ?thesis
    unfolding storeHash_def h using map_res_set_perm [where f = "hash_pair sha stringify", OF k assms] by auto
qed

section \<open>Properties\<close>

text \<open>Canonicalisation identifies exactly the JSON values that are equal up to the order of object
  keys: for two values without duplicate keys, the second has the canonical form of the first iff
  the two are the same JSON.\<close>

theorem normalize_canonical:
  assumes "wf_js a" and "wf_js b" and "normalize a = Inr n"
  shows "normalize b = Inr n \<longleftrightarrow> same_json a b"
  using assms normalize_same_json same_json_normalize by metis

theorem normalize_canonical_witness:
  "same_json (VObj [(''a'', VNull), (''b'', VBool True)]) (VObj [(''b'', VBool True), (''a'', VNull)])"
  using normalize_canonical [of "VObj [(''a'', VNull), (''b'', VBool True)]" "VObj [(''b'', VBool True), (''a'', VNull)]"
      "VObj [(''a'', VNull), (''b'', VBool True)]"]
  by simp

text \<open>The hash of a store depends on the set of its tickets only, not on the order they are
  listed in: two stores with the same (id, ticket) pairs and no duplicate id have the same hash.\<close>

theorem storeHash_order:
  assumes "distinct (map fst ts)" and "distinct (map fst ts')" and "set ts = set ts'"
  shows "storeHash sha stringify ts = storeHash sha stringify ts'"
  by (rule storeHash_perm [OF assms])

theorem storeHash_order_witness:
  "storeHash (\<lambda>s. s) (\<lambda>v. ''t'') [(''b'', VNull), (''a'', VBool True)]
    = storeHash (\<lambda>s. s) (\<lambda>v. ''t'') [(''a'', VBool True), (''b'', VNull)]"
  by (rule storeHash_order) auto

end
