(* ===== verification/TicketSchema.thy ===== *)
theory TicketSchema
  imports JsValue
begin

text \<open>
  Ticket validation, \<^verbatim>\<open>packages/tickets/lib/schema.mjs\<close>: \<open>validateTicket\<close> for one ticket and
  \<open>validateTickets\<close> for a whole store, with its depth-first search for dependency cycles.
  An error message is a constructor that carries the ids the message names. The search keeps the
  code's colours (1 on the stack, 2 done); its recursion is bounded by fuel, shown to be enough.
\<close>

section \<open>One ticket\<close>

datatype ticket_error =
    NotAnObject
  | MissingId
  | MissingTitle
  | NotStringArray string
  | EdgesNotArray
  | EdgeMissingTo
  | BadDuration
  | ReservedArchive
  | BadArchiveMetadata
  | DuplicateId ident
  | UnknownEdge ident
  | Cycle "ident list"

definition string_array_ok :: "jsval \<Rightarrow> bool" where
  "string_array_ok v = (case v of VArr xs \<Rightarrow> list_all is_str xs | _ \<Rightarrow> False)"

definition edge_ok :: "jsval \<Rightarrow> bool" where
  "edge_ok e \<longleftrightarrow> is_plain_obj e \<and> is_nonempty_str (js_get ''to'' e)"

definition positive_number :: "jsval \<Rightarrow> bool" where
  "positive_number v = (case v of VNum q \<Rightarrow> 0 < q | _ \<Rightarrow> False)"

definition archive_metadata_ok :: "jsval \<Rightarrow> bool" where
  "archive_metadata_ok v \<longleftrightarrow>
     is_plain_obj v \<and> js_get ''version'' v = VNum 1 \<and> is_str (js_get ''ticketHash'' v)"

definition field_errors :: "jsval \<Rightarrow> string \<Rightarrow> ticket_error list" where
  "field_errors t f =
     (if js_get f t \<noteq> VUndefined \<and> \<not> string_array_ok (js_get f t) then [NotStringArray f] else [])"

definition edge_errors :: "jsval \<Rightarrow> ticket_error list" where
  "edge_errors t =
     (case js_get ''edges'' t of
        VUndefined \<Rightarrow> []
      | VArr es \<Rightarrow> map (\<lambda>_. EdgeMissingTo) (filter (\<lambda>e. \<not> edge_ok e) es)
      | _ \<Rightarrow> [EdgesNotArray])"

definition validateTicket :: "bool \<Rightarrow> jsval \<Rightarrow> ticket_error list" where
  "validateTicket archive t =
     (if \<not> is_plain_obj t then [NotAnObject]
      else
        (if is_nonempty_str (js_get ''id'' t) then [] else [MissingId])
        @ (if is_nonempty_str (js_get ''title'' t) then [] else [MissingTitle])
        @ field_errors t ''scope'' @ field_errors t ''rails''
        @ edge_errors t
        @ (if js_get ''duration'' t \<noteq> VUndefined \<and> \<not> positive_number (js_get ''duration'' t)
           then [BadDuration] else [])
        @ (if \<not> archive \<and> js_has_own ''_adlcArchive'' t then [ReservedArchive] else [])
        @ (if archive \<and> js_get ''_adlcArchive'' t \<noteq> VUndefined
              \<and> \<not> archive_metadata_ok (js_get ''_adlcArchive'' t)
           then [BadArchiveMetadata] else []))"

section \<open>A store of tickets\<close>

type_synonym by_id = "(ident \<times> jsval) list"

text \<open>The first loop: every ticket validated, and the \<open>byId\<close> map built.\<close>

definition collect_step :: "bool \<Rightarrow> jsval \<Rightarrow> by_id \<times> ticket_error list \<Rightarrow> by_id \<times> ticket_error list" where
  "collect_step archive t st =
     (let errs = snd st @ validateTicket archive t
      in case js_get ''id'' t of
           VStr i \<Rightarrow>
             (AList.update i t (fst st),
              if i \<in> fst ` set (fst st) then errs @ [DuplicateId i] else errs)
         | _ \<Rightarrow> (fst st, errs))"

definition ticket_edges :: "jsval \<Rightarrow> jsval list" where
  "ticket_edges t = (case js_get ''edges'' t of VArr es \<Rightarrow> es | _ \<Rightarrow> [])"

definition unknown_edges :: "by_id \<Rightarrow> jsval \<Rightarrow> ticket_error list" where
  "unknown_edges by t =
     concat (map (\<lambda>e. case js_get ''to'' e of
          VStr i \<Rightarrow> if i \<in> fst ` set by then [] else [UnknownEdge i]
        | _ \<Rightarrow> []) (ticket_edges t))"

text \<open>
  The depth-first search. Reading \<open>edge.to\<close> of a null edge throws a TypeError. \<open>NoFuel\<close> is not
  an outcome of the code: \<open>visit_fuel\<close> below shows it does not occur.
\<close>

datatype visit_fault = NullEdge | NoFuel

type_synonym visit_state = "(ident \<rightharpoonup> nat) \<times> ticket_error list"

definition known_target :: "by_id \<Rightarrow> jsval \<Rightarrow> ident option" where
  "known_target by e = (case js_get ''to'' e of
      VStr i \<Rightarrow> if i \<in> fst ` set by then Some i else None
    | _ \<Rightarrow> None)"

definition node_edges :: "by_id \<Rightarrow> ident \<Rightarrow> jsval list" where
  "node_edges by i = (case map_of by i of None \<Rightarrow> [] | Some t \<Rightarrow> ticket_edges t)"

fun visit :: "nat \<Rightarrow> by_id \<Rightarrow> ident \<Rightarrow> ident list \<Rightarrow> visit_state \<Rightarrow> visit_fault + visit_state" where
  "visit 0 by i stack st = Inl NoFuel"
| "visit (Suc n) by i stack st =
     (if fst st i = Some 1 then Inr (fst st, snd st @ [Cycle (stack @ [i])])
      else if fst st i = Some 2 then Inr st
      else bind_res
        (fold_res
           (\<lambda>e u. if nullish e then Inl NullEdge
                  else case known_target by e of
                         Some j \<Rightarrow> visit n by j (stack @ [i]) u
                       | None \<Rightarrow> Inr u)
           (node_edges by i) ((fst st)(i \<mapsto> 1), snd st))
        (\<lambda>u. Inr ((fst u)(i \<mapsto> 2), snd u)))"

datatype validate_error =
    InvalidEnvelope
  | TypeErr
  | InvalidTicketStore "ticket_error list"
  | OutOfFuel

definition validateTickets :: "bool \<Rightarrow> bool \<Rightarrow> jsval \<Rightarrow> validate_error + jsval list" where
  "validateTickets archive validateGraph v =
     (case v of
        VArr ts \<Rightarrow>
          (let (by, errs) = fold (collect_step archive) ts ([], []);
               errs2 = errs @ (if validateGraph then concat (map (unknown_edges by) ts) else [])
           in case (if validateGraph
                    then fold_res (\<lambda>i. visit (Suc (length by)) by i []) (sort (map fst by))
                           (\<lambda>_. None, errs2)
                    else Inr (\<lambda>_. None, errs2)) of
                Inl NullEdge \<Rightarrow> Inl TypeErr
              | Inl NoFuel \<Rightarrow> Inl OutOfFuel
              | Inr u \<Rightarrow> if snd u = [] then Inr ts else Inl (InvalidTicketStore (snd u)))
      | _ \<Rightarrow> Inl InvalidEnvelope)"

section \<open>The dependency graph\<close>

definition dep_edges :: "by_id \<Rightarrow> (ident \<times> ident) set" where
  "dep_edges by = {(i, j). i \<in> fst ` set by \<and> (\<exists>e\<in>set (node_edges by i). known_target by e = Some j)}"

definition gray :: "(ident \<rightharpoonup> nat) \<Rightarrow> ident set" where
  "gray c = {i. c i = Some 1}"

definition black :: "(ident \<rightharpoonup> nat) \<Rightarrow> ident set" where
  "black c = {i. c i = Some 2}"

lemma colour_simps [simp]:
  "gray (c(i \<mapsto> 1)) = insert i (gray c)"
  "gray (c(i \<mapsto> Suc 0)) = insert i (gray c)"
  "black (c(i \<mapsto> 1)) = black c - {i}"
  "black (c(i \<mapsto> Suc 0)) = black c - {i}"
  "gray (c(i \<mapsto> 2)) = gray c - {i}"
  "black (c(i \<mapsto> 2)) = insert i (black c)"
  by (auto simp: gray_def black_def)

lemma colour_mem: "c i = Some (Suc 0) \<longleftrightarrow> i \<in> gray c" "c i = Some 2 \<longleftrightarrow> i \<in> black c"
  by (auto simp: gray_def black_def)

lemma gray_black_disjoint: "i \<in> gray c \<Longrightarrow> i \<notin> black c"
  by (simp add: gray_def black_def)

definition extends :: "'a list \<Rightarrow> 'a list \<Rightarrow> bool" where
  "extends xs ys \<longleftrightarrow> (\<exists>zs. ys = xs @ zs)"

lemma extends_refl [simp]: "extends xs xs"
  and extends_trans: "extends xs ys \<Longrightarrow> extends ys zs \<Longrightarrow> extends xs zs"
  and extends_snoc [simp]: "extends xs (xs @ zs)"
  and extends_antisym: "extends xs ys \<Longrightarrow> extends ys xs \<Longrightarrow> xs = ys"
  by (auto simp: extends_def)

text \<open>What a visit may change: a gray node stays gray, a black node stays black, the errors grow.\<close>

definition visit_frame :: "visit_state \<Rightarrow> visit_state \<Rightarrow> bool" where
  "visit_frame s t \<longleftrightarrow>
     gray (fst t) = gray (fst s) \<and> black (fst s) \<subseteq> black (fst t) \<and> extends (snd s) (snd t)"

lemma visit_frame_refl [simp]: "visit_frame s s"
  and visit_frame_trans: "visit_frame s t \<Longrightarrow> visit_frame t u \<Longrightarrow> visit_frame s u"
  by (auto simp: visit_frame_def intro: extends_trans)

text \<open>The body of the loop over the edges of a node, and the three outcomes of a visit.\<close>

abbreviation visit_edge :: "nat \<Rightarrow> by_id \<Rightarrow> ident list \<Rightarrow> jsval \<Rightarrow> visit_state \<Rightarrow> visit_fault + visit_state" where
  "visit_edge n by stack \<equiv> (\<lambda>e u. if nullish e then Inl NullEdge
     else case known_target by e of Some j \<Rightarrow> visit n by j stack u | None \<Rightarrow> Inr u)"

lemma visit_Suc_cases:
  obtains (gray) "i \<in> gray (fst st)" "visit (Suc n) by i stack st = Inr (fst st, snd st @ [Cycle (stack @ [i])])"
  | (black) "i \<in> black (fst st)" "visit (Suc n) by i stack st = Inr st"
  | (white) "i \<notin> gray (fst st)" "i \<notin> black (fst st)"
      "visit (Suc n) by i stack st =
         bind_res (fold_res (visit_edge n by (stack @ [i])) (node_edges by i) ((fst st)(i \<mapsto> 1), snd st))
           (\<lambda>u. Inr ((fst u)(i \<mapsto> 2), snd u))"
  by (cases "i \<in> gray (fst st)"; cases "i \<in> black (fst st)"; simp add: colour_mem)


declare visit.simps(2) [simp del]

lemma visit_frame_visit: "visit n by i stack st = Inr st' \<Longrightarrow> visit_frame st st'"
proof (induction n arbitrary: i stack st st')
  case (Suc n)
  show ?case
  proof (cases rule: visit_Suc_cases [of i st n "by" stack])
    case white
    let ?st1 = "((fst st)(i \<mapsto> 1), snd st)"
    from Suc.prems white obtain u where
      u: "fold_res (visit_edge n by (stack @ [i])) (node_edges by i) ?st1 = Inr u"
      and st': "st' = ((fst u)(i \<mapsto> 2), snd u)"
      by (auto simp: bind_res_eq_Inr)
    from u have "visit_frame ?st1 u"
      by (rule fold_res_inv [where P = "visit_frame ?st1"])
         (auto split: if_splits option.splits intro: visit_frame_trans Suc.IH)
    with white show ?thesis
      unfolding st' visit_frame_def by auto
  qed (use Suc.prems in \<open>auto simp: visit_frame_def\<close>)
qed simp

lemma known_target_key: "known_target by e = Some j \<Longrightarrow> j \<in> fst ` set by"
  by (auto simp: known_target_def split: jsval.splits if_splits)

lemma dep_edges_keys: "dep_edges by \<subseteq> fst ` set by \<times> fst ` set by"
  using known_target_key by (auto simp: dep_edges_def)

lemma known_target_dep:
  "i \<in> fst ` set by \<Longrightarrow> e \<in> set (node_edges by i) \<Longrightarrow> known_target by e = Some j
    \<Longrightarrow> (i, j) \<in> dep_edges by \<and> j \<in> fst ` set by"
  using known_target_key by (auto simp: dep_edges_def)

subsection \<open>A search without a cycle error leaves an acyclic graph\<close>

lemma visit_complete:
  "visit n by i stack st = Inr st' \<Longrightarrow> i \<in> fst ` set by \<Longrightarrow> snd st' = snd st
    \<Longrightarrow> finished_dag (dep_edges by) (black (fst st))
    \<Longrightarrow> finished_dag (dep_edges by) (black (fst st')) \<and> i \<in> black (fst st')"
proof (induction n arbitrary: i stack st st')
  case (Suc n)
  show ?case
  proof (cases rule: visit_Suc_cases [of i st n "by" stack])
    case white
    let ?st1 = "((fst st)(i \<mapsto> 1), snd st)"
    let ?P = "\<lambda>u. visit_frame ?st1 u \<and> (snd u = snd st \<longrightarrow> finished_dag (dep_edges by) (black (fst u)))"
    let ?Q = "\<lambda>e u. snd u = snd st \<longrightarrow> (\<forall>j. known_target by e = Some j \<longrightarrow> j \<in> black (fst u))"
    from Suc.prems white obtain u where
      u: "fold_res (visit_edge n by (stack @ [i])) (node_edges by i) ?st1 = Inr u"
      and st': "st' = ((fst u)(i \<mapsto> 2), snd u)"
      by (auto simp: bind_res_eq_Inr)
    have same: "snd v = snd st" if "visit_frame ?st1 v" "visit_frame v w" "snd w = snd st" for v w
      using that by (auto simp: visit_frame_def intro: extends_antisym)
    have "?P u \<and> (\<forall>e\<in>set (node_edges by i). ?Q e u)"
    proof (rule fold_res_each [OF u])
      show "?P ?st1" using white Suc.prems(4) by simp
    next
      fix e v w assume e: "e \<in> set (node_edges by i)" and v: "?P v"
        and w: "visit_edge n by (stack @ [i]) e v = Inr w"
      show "?P w \<and> ?Q e w"
      proof (cases "known_target by e")
        case None
        with w v show ?thesis by (auto split: if_splits)
      next
        case (Some j)
        with w have vw: "visit n by j (stack @ [i]) v = Inr w" by (auto split: if_splits)
        from visit_frame_visit [OF this] v have f: "visit_frame v w" "visit_frame ?st1 w"
          by (auto intro: visit_frame_trans)
        have "j \<in> fst ` set by" using known_target_dep Suc.prems(2) e Some by blast
        have "finished_dag (dep_edges by) (black (fst w)) \<and> j \<in> black (fst w)"
          if sw: "snd w = snd st"
        proof -
          have sv: "snd v = snd st" using same v f(1) sw by blast
          with v have "finished_dag (dep_edges by) (black (fst v))" by blast
          with sv sw show ?thesis by (intro Suc.IH [OF vw \<open>j \<in> _\<close>]) simp_all
        qed
        with f(2) Some show ?thesis by simp
      qed
    next
      fix e e' v w assume v: "?P v" and w: "visit_edge n by (stack @ [i]) e' v = Inr w"
        and Q: "?Q e v"
      have f: "visit_frame v w"
        using w by (auto split: if_splits option.splits dest: visit_frame_visit)
      then have "black (fst v) \<subseteq> black (fst w)" by (simp add: visit_frame_def)
      with Q same [OF conjunct1 [OF v] f] show "?Q e w" by blast
    qed
    moreover have "snd u = snd st" using Suc.prems(3) st' by simp
    ultimately have P: "visit_frame ?st1 u" "finished_dag (dep_edges by) (black (fst u))"
      and Q: "dep_edges by `` {i} \<subseteq> black (fst u)"
      by (auto simp: dep_edges_def)
    from P(1) have "i \<notin> black (fst u)"
      by (intro gray_black_disjoint) (simp add: visit_frame_def)
    moreover have "black (fst st') = insert i (black (fst u))"
      unfolding st' fst_conv by (rule colour_simps)
    ultimately show ?thesis using finished_dag_insert [OF P(2) Q] by simp
  qed (use Suc.prems in auto)
qed simp


subsection \<open>A cycle error names a real cycle\<close>

lemma visit_sound:
  "visit n by i stack st = Inr st' \<Longrightarrow> i \<in> fst ` set by \<Longrightarrow> acyclic (dep_edges by)
    \<Longrightarrow> \<forall>g\<in>gray (fst st). (g, i) \<in> (dep_edges by)\<^sup>+ \<Longrightarrow> snd st' = snd st"
proof (induction n arbitrary: i stack st st')
  case (Suc n)
  show ?case
  proof (cases rule: visit_Suc_cases [of i st n "by" stack])
    case gray
    with Suc.prems(3,4) show ?thesis by (auto simp: acyclic_def)
  next
    case white
    let ?st1 = "((fst st)(i \<mapsto> 1), snd st)"
    from Suc.prems white obtain u where
      u: "fold_res (visit_edge n by (stack @ [i])) (node_edges by i) ?st1 = Inr u"
      and st': "st' = ((fst u)(i \<mapsto> 2), snd u)"
      by (auto simp: bind_res_eq_Inr)
    have "visit_frame ?st1 u \<and> snd u = snd st"
    proof (rule fold_res_inv [OF u, where P = "\<lambda>u. visit_frame ?st1 u \<and> snd u = snd st"])
      fix e v w assume e: "e \<in> set (node_edges by i)"
        and v: "visit_frame ?st1 v \<and> snd v = snd st" and w: "visit_edge n by (stack @ [i]) e v = Inr w"
      show "visit_frame ?st1 w \<and> snd w = snd st"
      proof (cases "known_target by e")
        case None
        with w v show ?thesis by (auto split: if_splits)
      next
        case (Some j)
        with w have vw: "visit n by j (stack @ [i]) v = Inr w" by (auto split: if_splits)
        from known_target_dep [OF Suc.prems(2) e Some]
        have ij: "(i, j) \<in> dep_edges by" and j: "j \<in> fst ` set by" by auto
        have "gray (fst v) = insert i (gray (fst st))" using v by (simp add: visit_frame_def)
        with Suc.prems(4) ij have "\<forall>g\<in>gray (fst v). (g, j) \<in> (dep_edges by)\<^sup>+"
          by (auto intro: trancl_into_trancl)
        from Suc.IH [OF vw j Suc.prems(3) this] v visit_frame_visit [OF vw] show ?thesis
          by (auto intro: visit_frame_trans)
      qed
    qed simp
    then show ?thesis by (simp add: st')
  qed (use Suc.prems in auto)
qed simp

subsection \<open>The fuel is enough, and only a null edge throws\<close>

definition whites :: "by_id \<Rightarrow> (ident \<rightharpoonup> nat) \<Rightarrow> ident set" where
  "whites by c = fst ` set by - gray c - black c"

lemma whites_frame: "visit_frame s t \<Longrightarrow> whites by (fst t) \<subseteq> whites by (fst s)"
  by (auto simp: visit_frame_def whites_def)

lemma finite_whites [simp]: "finite (whites by c)"
  by (simp add: whites_def)

lemma visit_fuel:
  "i \<in> fst ` set by \<Longrightarrow> card (whites by (fst st)) < n \<Longrightarrow> visit n by i stack st \<noteq> Inl NoFuel"
proof (induction n arbitrary: i stack st)
  case (Suc n)
  show ?case
  proof (cases rule: visit_Suc_cases [of i st n "by" stack])
    case white
    let ?st1 = "((fst st)(i \<mapsto> 1), snd st)"
    have "i \<in> whites by (fst st)" using white Suc.prems(1) by (simp add: whites_def)
    moreover have "whites by (fst ?st1) = whites by (fst st) - {i}" by (auto simp: whites_def)
    ultimately have less: "card (whites by (fst ?st1)) < n"
      using Suc.prems(2) by (simp add: card_Diff_singleton)
         (metis card_gt_0_iff empty_iff finite_whites less_Suc_eq_le Suc_pred less_eq_Suc_le not_less)
    show ?thesis
    proof
      assume "visit (Suc n) by i stack st = Inl NoFuel"
      with white have "fold_res (visit_edge n by (stack @ [i])) (node_edges by i) ?st1 = Inl NoFuel"
        by (auto simp: bind_res_def split: sum.splits)
      then have "\<exists>e\<in>set (node_edges by i). \<exists>u. visit_frame ?st1 u \<and> visit_edge n by (stack @ [i]) e u = Inl NoFuel"
        by (rule fold_res_Inl)
           (auto split: if_splits option.splits intro: visit_frame_trans visit_frame_visit)
      then obtain e u j where e: "e \<in> set (node_edges by i)" "visit_frame ?st1 u"
        "known_target by e = Some j" "visit n by j (stack @ [i]) u = Inl NoFuel"
        by (auto split: if_splits option.splits)
      have "card (whites by (fst u)) \<le> card (whites by (fst ?st1))"
        using whites_frame [OF e(2)] by (intro card_mono) auto
      with less have "card (whites by (fst u)) < n" by linarith
      with Suc.IH e known_target_dep [OF Suc.prems(1) e(1,3)] show False by blast
    qed
  qed auto
qed simp

lemma visit_no_throw:
  "visit n by i stack st = Inl NullEdge \<Longrightarrow> i \<in> fst ` set by
    \<Longrightarrow> \<exists>k\<in>fst ` set by. \<exists>e\<in>set (node_edges by k). nullish e"
proof (induction n arbitrary: i stack st)
  case (Suc n)
  show ?case
  proof (cases rule: visit_Suc_cases [of i st n "by" stack])
    case white
    then have "fold_res (visit_edge n by (stack @ [i])) (node_edges by i)
        ((fst st)(i \<mapsto> 1), snd st) = Inl NullEdge"
      using Suc.prems by (auto simp: bind_res_def split: sum.splits)
    then have "\<exists>e\<in>set (node_edges by i). \<exists>u. True \<and> visit_edge n by (stack @ [i]) e u = Inl NullEdge"
      by (rule fold_res_Inl) auto
    then obtain e u where e: "e \<in> set (node_edges by i)"
      "visit_edge n by (stack @ [i]) e u = Inl NullEdge" by blast
    then show ?thesis
      using Suc.IH Suc.prems(2) known_target_dep [OF Suc.prems(2) e(1)]
      by (auto split: if_splits option.splits)
  qed (use Suc.prems in auto)
qed simp


section \<open>What validation accepts\<close>

definition ticket_id :: "jsval \<Rightarrow> ident" where
  "ticket_id t = (case js_get ''id'' t of VStr i \<Rightarrow> i | _ \<Rightarrow> [])"

definition store_by :: "jsval list \<Rightarrow> by_id" where
  "store_by ts = map (\<lambda>t. (ticket_id t, t)) ts"

definition valid_store :: "jsval list \<Rightarrow> bool" where
  "valid_store ts \<longleftrightarrow>
     (\<forall>t\<in>set ts. validateTicket False t = []) \<and> distinct (map ticket_id ts)
     \<and> (\<forall>t\<in>set ts. \<forall>e\<in>set (ticket_edges t). \<exists>j\<in>ticket_id ` set ts. js_get ''to'' e = VStr j)
     \<and> acyclic (dep_edges (store_by ts))"

lemma validateTicket_id: "validateTicket a t = [] \<Longrightarrow> js_get ''id'' t = VStr (ticket_id t)"
  by (auto simp: validateTicket_def ticket_id_def is_nonempty_str_def split: if_splits jsval.splits)

lemma validateTicket_edges:
  "validateTicket a t = [] \<Longrightarrow> e \<in> set (ticket_edges t) \<Longrightarrow> edge_ok e"
  by (auto simp: validateTicket_def ticket_edges_def edge_errors_def filter_empty_conv
      split: if_splits jsval.splits)

lemma edge_ok_to: "edge_ok e \<Longrightarrow> \<exists>j. js_get ''to'' e = VStr j"
  by (auto simp: edge_ok_def is_nonempty_str_def split: jsval.splits)

lemma edge_ok_not_nullish: "edge_ok e \<Longrightarrow> \<not> nullish e"
  by (auto simp: edge_ok_def is_plain_obj_def nullish_def)

lemma collect_errors_grow: "extends errs0 (snd (fold (collect_step a) ts (by0, errs0)))"
proof (induction ts arbitrary: by0 errs0)
  case (Cons t ts)
  have "extends errs0 (snd (collect_step a t (by0, errs0)))"
    by (auto simp: collect_step_def Let_def extends_def split: jsval.splits)
  moreover obtain by1 errs1 where c: "collect_step a t (by0, errs0) = (by1, errs1)" by fastforce
  ultimately have "extends errs0 errs1" by simp
  from extends_trans [OF this Cons.IH [of errs1 by1]] show ?case by (simp add: c)
qed simp

lemma collect_ok:
  "snd (fold (collect_step a) ts (by0, [])) = [] \<longleftrightarrow>
     (\<forall>t\<in>set ts. validateTicket a t = []) \<and> distinct (map ticket_id ts)
     \<and> ticket_id ` set ts \<inter> fst ` set by0 = {}"
  "snd (fold (collect_step a) ts (by0, [])) = [] \<Longrightarrow>
     fst (fold (collect_step a) ts (by0, [])) = by0 @ store_by ts"
proof (induction ts arbitrary: by0)
  case Nil
  { case 1 show ?case by simp }
  { case 2 show ?case by (simp add: store_by_def) }
next
  case (Cons t ts)
  have step: "validateTicket a t = [] \<and> ticket_id t \<notin> fst ` set by0
      \<Longrightarrow> collect_step a t (by0, []) = (by0 @ [(ticket_id t, t)], [])" for by0
    by (auto simp: collect_step_def validateTicket_id update_fresh)
  have bad: "\<not> (validateTicket a t = [] \<and> ticket_id t \<notin> fst ` set by0)
      \<Longrightarrow> snd (fold (collect_step a) (t # ts) (by0, [])) \<noteq> []" for by0
  proof -
    assume "\<not> (validateTicket a t = [] \<and> ticket_id t \<notin> fst ` set by0)"
    then have "snd (collect_step a t (by0, [])) \<noteq> []"
      by (auto simp: collect_step_def Let_def validateTicket_id intro: rev_image_eqI split: jsval.splits)
    with collect_errors_grow [of "snd (collect_step a t (by0, []))" a ts "fst (collect_step a t (by0, []))"]
    show ?thesis by (auto simp: extends_def)
  qed
  { case 1
    show ?case
    proof (cases "validateTicket a t = [] \<and> ticket_id t \<notin> fst ` set by0")
      case True
      show ?thesis
        unfolding fold_simps step [OF True] Cons(1) using True by auto
    next
      case False
      with bad [OF False] show ?thesis by auto
    qed }
  { case 2
    show ?case
    proof (cases "validateTicket a t = [] \<and> ticket_id t \<notin> fst ` set by0")
      case True
      with 2 Cons(2) [of "by0 @ [(ticket_id t, t)]"] show ?thesis
        by (simp add: step [OF True] store_by_def)
    next
      case False
      with bad [OF False] 2 show ?thesis by blast
    qed }
qed

lemma keys_store_by [simp]: "fst ` set (store_by ts) = ticket_id ` set ts"
  by (force simp: store_by_def)

lemma node_edges_store:
  "distinct (map ticket_id ts) \<Longrightarrow> t \<in> set ts \<Longrightarrow> node_edges (store_by ts) (ticket_id t) = ticket_edges t"
proof -
  assume d: "distinct (map ticket_id ts)" and t: "t \<in> set ts"
  have "distinct (map fst (store_by ts))" using d by (simp add: store_by_def comp_def)
  moreover have "(ticket_id t, t) \<in> set (store_by ts)" using t by (auto simp: store_by_def)
  ultimately show ?thesis by (simp add: node_edges_def)
qed

text \<open>The search over all keys, from no colours.\<close>

definition search :: "by_id \<Rightarrow> ticket_error list \<Rightarrow> visit_fault + visit_state" where
  "search by errs = fold_res (\<lambda>i. visit (Suc (length by)) by i []) (sort (map fst by)) (\<lambda>_. None, errs)"

lemma search_step_inv:
  assumes "i \<in> fst ` set by" and "gray (fst u) = {}" and "visit n by i [] u = Inr v"
  shows "gray (fst v) = {}"
  using visit_frame_visit [OF assms(3)] assms(2) by (simp add: visit_frame_def)

lemma search_no_fuel: "search by errs \<noteq> Inl NoFuel"
proof
  assume "search by errs = Inl NoFuel"
  then have "\<exists>i\<in>set (sort (map fst by)). \<exists>u. True \<and> visit (Suc (length by)) by i [] u = Inl NoFuel"
    unfolding search_def by (rule fold_res_Inl) auto
  then obtain i u where i: "i \<in> fst ` set by" "visit (Suc (length by)) by i [] u = Inl NoFuel" by auto
  have "card (whites by (fst u)) \<le> card (fst ` set by)"
    by (intro card_mono) (auto simp: whites_def)
  also have "\<dots> \<le> length by" by (metis card_length length_map list.set_map)
  finally show False using visit_fuel i by (metis le_imp_less_Suc)
qed

lemma search_grows: "search by errs = Inr u \<Longrightarrow> extends errs (snd u)"
  unfolding search_def
proof (erule fold_res_inv [where P = "\<lambda>u. extends errs (snd u)"])
  fix i v w assume "extends errs (snd v)" "visit (Suc (length by)) by i [] v = Inr w"
  with visit_frame_visit show "extends errs (snd w)"
    unfolding visit_frame_def by (metis extends_trans)
qed simp

lemma search_iff:
  assumes "search by [] = Inr u"
  shows "snd u = [] \<longleftrightarrow> acyclic (dep_edges by)"
proof
  assume acyc: "acyclic (dep_edges by)"
  have "gray (fst u) = {} \<and> snd u = []"
    using assms unfolding search_def
  proof (rule fold_res_inv [where P = "\<lambda>u. gray (fst u) = {} \<and> snd u = []"])
    fix i v w assume i: "i \<in> set (sort (map fst by))" and v: "gray (fst v) = {} \<and> snd v = []"
      and w: "visit (Suc (length by)) by i [] v = Inr w"
    from i have "i \<in> fst ` set by" by simp
    then show "gray (fst w) = {} \<and> snd w = []"
      using visit_sound [OF w _ acyc] search_step_inv [OF _ _ w] v by simp
  qed (simp add: gray_def)
  then show "snd u = []" by simp
next
  let ?P = "\<lambda>u. snd u = [] \<longrightarrow> finished_dag (dep_edges by) (black (fst u))"
  let ?Q = "\<lambda>i u. snd u = [] \<longrightarrow> i \<in> black (fst u)"
  have nil: "snd v = []" if "visit n by i [] v = Inr w" "snd w = []" for n i v w
    using visit_frame_visit [OF that(1)] that(2) by (auto simp: visit_frame_def extends_def)
  assume "snd u = []"
  moreover have "?P u \<and> (\<forall>i\<in>set (sort (map fst by)). ?Q i u)"
  proof (rule fold_res_each [OF assms [unfolded search_def]])
    show "?P (\<lambda>_. None, [])" by (simp add: black_def)
  next
    fix i v w assume "i \<in> set (sort (map fst by))" "?P v"
      and w: "visit (Suc (length by)) by i [] v = Inr w"
    then show "?P w \<and> ?Q i w" using visit_complete [OF w] nil [OF w] by simp
  next
    fix i j v w assume w: "visit (Suc (length by)) by j [] v = Inr w" and "?Q i v"
    with nil [OF w] visit_frame_visit [OF w] show "?Q i w" by (auto simp: visit_frame_def)
  qed
  ultimately have "finished_dag (dep_edges by) (black (fst u))" "fst ` set by \<subseteq> black (fst u)" by auto
  with dep_edges_keys [of "by"] have "dep_edges by = dep_edges by \<inter> black (fst u) \<times> black (fst u)" by blast
  then show "acyclic (dep_edges by)"
    using \<open>finished_dag _ _\<close> by (simp add: finished_dag_def)
qed


lemma search_no_throw:
  assumes "\<forall>k\<in>fst ` set by. \<forall>e\<in>set (node_edges by k). \<not> nullish e"
  shows "\<exists>u. search by errs = Inr u"
proof (cases "search by errs")
  case (Inl f)
  then have "\<exists>i\<in>set (sort (map fst by)). \<exists>u. True \<and> visit (Suc (length by)) by i [] u = Inl f"
    unfolding search_def by (rule fold_res_Inl) auto
  then obtain i u where i: "i \<in> fst ` set by" "visit (Suc (length by)) by i [] u = Inl f" by auto
  then have "f \<noteq> NullEdge" using assms visit_no_throw by blast
  with Inl search_no_fuel show ?thesis by (cases f) auto
qed simp

lemma validateTickets_search:
  "validateTickets a True (VArr ts) =
     (let (by, errs) = fold (collect_step a) ts ([], []);
          errs2 = errs @ concat (map (unknown_edges by) ts)
      in case search by errs2 of
           Inl NullEdge \<Rightarrow> Inl TypeErr
         | Inl NoFuel \<Rightarrow> Inl OutOfFuel
         | Inr u \<Rightarrow> if snd u = [] then Inr ts else Inl (InvalidTicketStore (snd u)))"
  by (simp add: validateTickets_def search_def)

lemma unknown_edges_Nil:
  "\<forall>e\<in>set (ticket_edges t). edge_ok e \<Longrightarrow>
     unknown_edges by t = [] \<longleftrightarrow> (\<forall>e\<in>set (ticket_edges t). \<exists>j\<in>fst ` set by. js_get ''to'' e = VStr j)"
  unfolding unknown_edges_def concat_eq_Nil_conv set_map ball_simps
proof (rule ball_cong)
  fix e assume "e \<in> set (ticket_edges t)" and "\<forall>e\<in>set (ticket_edges t). edge_ok e"
  then obtain j where "js_get ''to'' e = VStr j" using edge_ok_to by blast
  then show "((case js_get ''to'' e of VStr i \<Rightarrow> if i \<in> fst ` set by then [] else [UnknownEdge i] | _ \<Rightarrow> []) = [])
      = (\<exists>j\<in>fst ` set by. js_get ''to'' e = VStr j)"
    by (simp del: bex_simps)
qed simp

lemma valid_search:
  assumes "\<forall>t\<in>set ts. validateTicket False t = []" and "distinct (map ticket_id ts)"
  shows "\<exists>u. search (store_by ts) [] = Inr u"
  using assms
  by (intro search_no_throw) (auto simp: node_edges_store dest: validateTicket_edges edge_ok_not_nullish)

lemma validate_Inr_iff: "validateTickets False True (VArr ts) = Inr r \<longleftrightarrow> r = ts \<and> valid_store ts"
proof -
  obtain "by" errs where f: "fold (collect_step False) ts ([], []) = (by, errs)" by fastforce
  let ?unknown = "concat (map (unknown_edges by) ts)"
  have ok: "errs = [] \<longleftrightarrow> (\<forall>t\<in>set ts. validateTicket False t = []) \<and> distinct (map ticket_id ts)"
    and by_eq: "errs = [] \<Longrightarrow> by = store_by ts"
    using collect_ok [of False ts "[]"] f by auto
  show ?thesis
  proof (cases "errs @ ?unknown = []")
    case False
    have "validateTickets False True (VArr ts) \<noteq> Inr r"
      unfolding validateTickets_search f using False search_grows [of "by" "errs @ ?unknown"]
      by (auto simp: extends_def split: sum.splits visit_fault.splits)
    moreover have "\<not> valid_store ts"
      using False ok by_eq unknown_edges_Nil [of _ "store_by ts"] validateTicket_edges [of False]
      by (fastforce simp: valid_store_def)
    ultimately show ?thesis by simp
  next
    case True
    then have v: "\<forall>t\<in>set ts. validateTicket False t = []" "distinct (map ticket_id ts)"
      and b: "by = store_by ts" and u: "\<forall>t\<in>set ts. unknown_edges by t = []" using ok by_eq by auto
    from True have n: "?unknown = []" "errs = []" by simp_all
    from valid_search [OF v] obtain w where w: "search by [] = Inr w" by (auto simp: b)
    have "validateTickets False True (VArr ts) = Inr r \<longleftrightarrow> r = ts \<and> snd w = []"
      unfolding validateTickets_search f Let_def case_prod_conv n using w by auto
    moreover have "valid_store ts \<longleftrightarrow> acyclic (dep_edges by)"
      using v u unknown_edges_Nil [of _ "by"] validateTicket_edges [of False]
      unfolding valid_store_def b by fastforce
    ultimately show ?thesis using search_iff [OF w] by simp
  qed
qed

section \<open>Properties\<close>

text \<open>C8: \<open>validateTickets\<close> accepts a list of tickets, and returns it, exactly when every ticket is
  valid on its own, the ids are distinct, every edge leads to a ticket of the store and the
  dependency graph has no cycle.\<close>

theorem validateTickets_accepts:
  "validateTickets False True (VArr ts) = Inr r \<longleftrightarrow> r = ts \<and> valid_store ts"
  by (rule validate_Inr_iff)

text \<open>C32: The depth-first search of \<open>validateTickets\<close> always ends: one more than the number of ids is
  enough fuel on every input, with or without the graph check.\<close>

theorem validateTickets_terminates: "validateTickets archive validateGraph v \<noteq> Inl OutOfFuel"
proof (cases v)
  case (VArr ts)
  show ?thesis
  proof (cases validateGraph)
    case True
    obtain "by" errs where f: "fold (collect_step archive) ts ([], []) = (by, errs)" by fastforce
    let ?errs = "errs @ concat (map (unknown_edges by) ts)"
    have g: "validateGraph = True" using True by simp
    show ?thesis
      using search_no_fuel [of "by" ?errs]
      by (cases "search by ?errs") (auto simp: VArr g validateTickets_search f split: visit_fault.splits)
  qed (auto simp: validateTickets_def VArr split: prod.splits)
qed (simp_all add: validateTickets_def)

text \<open>A ticket with a null edge is one validation error, but the graph check reads \<open>edge.to\<close> of
  it and throws a TypeError, so the store fails with that instead of the structured error.\<close>

theorem null_edge_throws:
  "validateTicket False (VObj [(''id'', VStr ''T1''), (''title'', VStr ''t''), (''edges'', VArr [VNull])]) = [EdgeMissingTo]
   \<and> validateTickets False True
      (VArr [VObj [(''id'', VStr ''T1''), (''title'', VStr ''t''), (''edges'', VArr [VNull])]]) = Inl TypeErr"
  by code_simp

end
