(* ===== verification/Glob.thy ===== *)
theory Glob
  imports Prelude
begin

text \<open>
  The rail and scope matcher of \<^verbatim>\<open>packages/core/lib/glob.mjs\<close> (copied verbatim into
  \<^verbatim>\<open>packages/tickets/lib/generated-glob-match.mjs\<close> and the harness hooks).

  \<open>glob_tokens\<close> is the split of the pattern at \<open>**/\<close>, \<open>**\<close> and \<open>*\<close>; the four
  \<open>pass_*\<close> loops are the bodies of the code's \<open>for\<close> loops over the offsets of the path, on the
  byte array \<open>reach\<close> (a list of booleans here); \<open>globMatch\<close> runs the tokens through them.
  \<open>glob_lang\<close> is the declarative meaning of a token sequence, and the loops are shown to
  compute exactly that.
\<close>

section \<open>The code\<close>

datatype glob_token = Lit string | Star | StarStar | StarStarSlash

definition flush_lit :: "string \<Rightarrow> glob_token list" where
  "flush_lit acc = (if acc = [] then [] else [Lit (rev acc)])"

text \<open>\<^verbatim>\<open>pattern.split(/(\*\*\/|\*\*|\*)/).filter((part) => part !== '')\<close>: the scanner keeps
  the literal read so far, reversed.\<close>

fun glob_tokens_from :: "string \<Rightarrow> string \<Rightarrow> glob_token list" where
  "glob_tokens_from acc [] = flush_lit acc"
| "glob_tokens_from acc (c # cs) =
     (if c = CHR ''*'' then
        (case cs of
           d # ds \<Rightarrow>
             if d = CHR ''*'' then
               (case ds of
                  e # es \<Rightarrow>
                    if e = CHR ''/'' then flush_lit acc @ StarStarSlash # glob_tokens_from [] es
                    else flush_lit acc @ StarStar # glob_tokens_from [] ds
                | [] \<Rightarrow> flush_lit acc @ [StarStar])
             else flush_lit acc @ Star # glob_tokens_from [] cs
         | [] \<Rightarrow> flush_lit acc @ [Star])
      else glob_tokens_from (c # acc) cs)"

definition glob_tokens :: "string \<Rightarrow> glob_token list" where
  "glob_tokens pattern = glob_tokens_from [] pattern"

text \<open>One iteration of each loop. The state is the flag \<open>open\<close> and the array \<open>next\<close>.\<close>

definition star_star_iter :: "bool list \<Rightarrow> nat \<Rightarrow> bool \<times> bool list \<Rightarrow> bool \<times> bool list" where
  "star_star_iter reach i st =
     (let opn = fst st \<or> reach ! i
      in (opn, if opn then (snd st)[i := True] else snd st))"

definition star_star_slash_iter ::
  "string \<Rightarrow> bool list \<Rightarrow> nat \<Rightarrow> bool \<times> bool list \<Rightarrow> bool \<times> bool list" where
  "star_star_slash_iter p reach i st =
     (let nxt = (if reach ! i then (snd st)[i := True] else snd st);
          opn = fst st \<or> reach ! i
      in (opn, if opn \<and> i < length p \<and> p ! i = CHR ''/'' then nxt[i + 1 := True] else nxt))"

definition star_iter ::
  "string \<Rightarrow> bool list \<Rightarrow> nat \<Rightarrow> bool \<times> bool list \<Rightarrow> bool \<times> bool list" where
  "star_iter p reach i st =
     (let opn = fst st \<or> reach ! i
      in (opn \<and> \<not> (i < length p \<and> p ! i = CHR ''/''),
          if opn then (snd st)[i := True] else snd st))"

definition lit_iter :: "string \<Rightarrow> string \<Rightarrow> bool list \<Rightarrow> nat \<Rightarrow> bool list \<Rightarrow> bool list" where
  "lit_iter tok p reach i nxt =
     (if reach ! i \<and> starts_with (drop i p) tok then nxt[i + length tok := True] else nxt)"

definition glob_pass :: "string \<Rightarrow> glob_token \<Rightarrow> bool list \<Rightarrow> bool list" where
  "glob_pass p tok reach =
     (let blank = replicate (length p + 1) False
      in case tok of
           StarStar \<Rightarrow> snd (fold (star_star_iter reach) [0..<length p + 1] (False, blank))
         | StarStarSlash \<Rightarrow>
             snd (fold (star_star_slash_iter p reach) [0..<length p + 1] (False, blank))
         | Star \<Rightarrow> snd (fold (star_iter p reach) [0..<length p + 1] (False, blank))
         | Lit l \<Rightarrow> fold (lit_iter l p reach) [0..<length p + 1 - length l] blank)"

definition globMatch :: "string \<Rightarrow> path \<Rightarrow> bool" where
  "globMatch pattern p =
     (let reach0 = (replicate (length p + 1) False)[0 := True];
          reach = fold (glob_pass p) (glob_tokens pattern) reach0
      in reach ! length p)"

section \<open>The meaning of a pattern\<close>

fun token_lang :: "glob_token \<Rightarrow> string \<Rightarrow> bool" where
  "token_lang (Lit l) w \<longleftrightarrow> w = l"
| "token_lang Star w \<longleftrightarrow> CHR ''/'' \<notin> set w"
| "token_lang StarStar w \<longleftrightarrow> True"
| "token_lang StarStarSlash w \<longleftrightarrow> w = [] \<or> last w = CHR ''/''"

fun glob_lang :: "glob_token list \<Rightarrow> string \<Rightarrow> bool" where
  "glob_lang [] w \<longleftrightarrow> w = []"
| "glob_lang (t # ts) w \<longleftrightarrow> (\<exists>u v. w = u @ v \<and> token_lang t u \<and> glob_lang ts v)"

lemma glob_lang_snoc:
  "glob_lang (ts @ [t]) w \<longleftrightarrow> (\<exists>u v. w = u @ v \<and> glob_lang ts u \<and> token_lang t v)"
proof (induction ts arbitrary: w)
  case (Cons a ts)
  show ?case
  proof
    assume "glob_lang ((a # ts) @ [t]) w"
    then obtain u x v where "w = u @ x @ v" "token_lang a u" "glob_lang ts x" "token_lang t v"
      by (auto simp: Cons.IH)
    then show "\<exists>u v. w = u @ v \<and> glob_lang (a # ts) u \<and> token_lang t v"
      by (intro exI [of _ "u @ x"] exI [of _ v]) auto
  next
    assume "\<exists>u v. w = u @ v \<and> glob_lang (a # ts) u \<and> token_lang t v"
    then obtain u x v where "w = u @ x @ v" "token_lang a u" "glob_lang ts x" "token_lang t v"
      by auto
    then show "glob_lang ((a # ts) @ [t]) w"
      by (auto simp: Cons.IH)
  qed
qed auto

text \<open>
  The loop invariant of the whole matcher: after the tokens \<open>ts\<close>, slot \<open>j\<close> of the array is
  set iff the first \<open>j\<close> characters of the path match \<open>ts\<close>.
\<close>

definition reach_inv :: "string \<Rightarrow> glob_token list \<Rightarrow> bool list \<Rightarrow> bool" where
  "reach_inv p ts reach \<longleftrightarrow>
     length reach = length p + 1 \<and> (\<forall>j\<le>length p. reach ! j = glob_lang ts (take j p))"

text \<open>One token from a matched prefix \<open>i\<close> to a matched prefix \<open>j\<close>.\<close>

definition seg :: "string \<Rightarrow> nat \<Rightarrow> nat \<Rightarrow> string" where
  "seg p i j = take (j - i) (drop i p)"

lemma glob_lang_snoc_take:
  assumes "j \<le> length p"
  shows "glob_lang (ts @ [t]) (take j p) \<longleftrightarrow>
    (\<exists>i\<le>j. glob_lang ts (take i p) \<and> token_lang t (seg p i j))"
proof
  assume "glob_lang (ts @ [t]) (take j p)"
  then obtain u v where uv: "take j p = u @ v" and "glob_lang ts u" "token_lang t v"
    by (auto simp: glob_lang_snoc)
  have i: "length u \<le> j" using arg_cong [OF uv, of length] assms by simp
  have "u = take (length u) (take j p)" "v = drop (length u) (take j p)" using uv by simp_all
  with i have "u = take (length u) p" "v = seg p (length u) j"
    by (simp_all add: seg_def drop_take min_absorb1)
  with i \<open>glob_lang ts u\<close> \<open>token_lang t v\<close>
  show "\<exists>i\<le>j. glob_lang ts (take i p) \<and> token_lang t (seg p i j)" by metis
next
  assume "\<exists>i\<le>j. glob_lang ts (take i p) \<and> token_lang t (seg p i j)"
  then obtain i where "i \<le> j" "glob_lang ts (take i p)" "token_lang t (seg p i j)" by blast
  moreover from \<open>i \<le> j\<close> have "take j p = take i p @ seg p i j"
    unfolding seg_def by (metis le_add_diff_inverse take_add)
  ultimately show "glob_lang (ts @ [t]) (take j p)" by (auto simp: glob_lang_snoc)
qed


section \<open>Each loop computes one token\<close>

text \<open>The invariants of the loops, for the state after the first \<open>k\<close> iterations.\<close>

definition star_star_inv :: "nat \<Rightarrow> bool list \<Rightarrow> nat \<Rightarrow> bool \<times> bool list \<Rightarrow> bool" where
  "star_star_inv n reach k st \<longleftrightarrow>
     fst st = (\<exists>i<k. reach ! i) \<and> length (snd st) = n
     \<and> (\<forall>j<n. snd st ! j = (j < k \<and> (\<exists>i\<le>j. reach ! i)))"

lemma star_star_loop:
  "star_star_inv n reach n (fold (star_star_iter reach) [0..<n] (False, replicate n False))"
proof (rule loop_upt [where P = "star_star_inv n reach"])
  fix i st assume i: "i < n" and inv: "star_star_inv n reach i st"
  have opn: "fst st \<or> reach ! i \<longleftrightarrow> (\<exists>m\<le>i. reach ! m)"
    using inv by (auto simp: star_star_inv_def le_less)
  show "star_star_inv n reach (Suc i) (star_star_iter reach i st)"
    unfolding star_star_inv_def star_star_iter_def Let_def fst_conv snd_conv opn
    using i inv unfolding star_star_inv_def
    by (auto simp: nth_list_update less_Suc_eq_le le_less [of _ i])
qed (simp add: star_star_inv_def)

text \<open>No slash between two offsets.\<close>

definition clear :: "string \<Rightarrow> nat \<Rightarrow> nat \<Rightarrow> bool" where
  "clear p i j \<longleftrightarrow> (\<forall>m. i \<le> m \<and> m < j \<and> m < length p \<longrightarrow> p ! m \<noteq> CHR ''/'')"

lemma clear_same [simp]: "clear p i i"
  unfolding clear_def by (meson leD)

lemma clear_Suc:
  "i \<le> k \<Longrightarrow> clear p i (Suc k) \<longleftrightarrow> clear p i k \<and> \<not> (k < length p \<and> p ! k = CHR ''/'')"
  by (auto simp: clear_def less_Suc_eq)

definition star_inv :: "string \<Rightarrow> bool list \<Rightarrow> nat \<Rightarrow> bool \<times> bool list \<Rightarrow> bool" where
  "star_inv p reach k st \<longleftrightarrow>
     fst st = (\<exists>i<k. reach ! i \<and> clear p i k) \<and> length (snd st) = length p + 1
     \<and> (\<forall>j\<le>length p. snd st ! j = (j < k \<and> (\<exists>i\<le>j. reach ! i \<and> clear p i j)))"

lemma star_loop:
  "star_inv p reach (length p + 1)
     (fold (star_iter p reach) [0..<length p + 1] (False, replicate (length p + 1) False))"
proof (rule loop_upt)
  fix i st assume i: "i < length p + 1" and inv: "star_inv p reach i st"
  have opn: "fst st \<or> reach ! i \<longleftrightarrow> (\<exists>m\<le>i. reach ! m \<and> clear p m i)"
    using inv by (auto simp: star_inv_def le_less)
  have "(\<exists>m<Suc i. reach ! m \<and> clear p m (Suc i))
      \<longleftrightarrow> (\<exists>m\<le>i. reach ! m \<and> clear p m i) \<and> \<not> (i < length p \<and> p ! i = CHR ''/'')"
    by (auto simp: less_Suc_eq_le clear_Suc)
  then have fst: "fst (star_iter p reach i st) = (\<exists>m<Suc i. reach ! m \<and> clear p m (Suc i))"
    unfolding star_iter_def Let_def fst_conv opn by blast
  show "star_inv p reach (Suc i) (star_iter p reach i st)"
    unfolding star_inv_def
  proof (intro conjI allI impI fst)
    show "length (snd (star_iter p reach i st)) = length p + 1"
      using inv by (simp add: star_inv_def star_iter_def Let_def)
    fix j assume j: "j \<le> length p"
    have old: "snd st ! j = (j < i \<and> (\<exists>m\<le>j. reach ! m \<and> clear p m j))" and len: "length (snd st) = length p + 1"
      using inv j unfolding star_inv_def by blast+
    have "snd (star_iter p reach i st) ! j = (snd st ! j \<or> j = i \<and> (\<exists>m\<le>i. reach ! m \<and> clear p m i))"
      using j len unfolding star_iter_def Let_def snd_conv opn by (cases "i = j") (auto simp: nth_list_update)
    with old show "snd (star_iter p reach i st) ! j = (j < Suc i \<and> (\<exists>m\<le>j. reach ! m \<and> clear p m j))"
      by (cases "j = i") (simp_all add: less_Suc_eq)
  qed
qed (simp del: replicate_Suc add: star_inv_def less_Suc_eq_le)

definition star_star_slash_inv ::
  "string \<Rightarrow> bool list \<Rightarrow> nat \<Rightarrow> bool \<times> bool list \<Rightarrow> bool" where
  "star_star_slash_inv p reach k st \<longleftrightarrow>
     fst st = (\<exists>i<k. reach ! i) \<and> length (snd st) = length p + 1
     \<and> (\<forall>j\<le>length p. snd st ! j =
          (j < k \<and> reach ! j \<or> 0 < j \<and> j \<le> k \<and> p ! (j - 1) = CHR ''/'' \<and> (\<exists>i<j. reach ! i)))"

lemma star_star_slash_loop:
  "star_star_slash_inv p reach (length p + 1)
     (fold (star_star_slash_iter p reach) [0..<length p + 1] (False, replicate (length p + 1) False))"
proof (rule loop_upt)
  fix i st assume i: "i < length p + 1" and inv: "star_star_slash_inv p reach i st"
  have opn: "fst st \<or> reach ! i \<longleftrightarrow> (\<exists>m<Suc i. reach ! m)"
    using inv by (auto simp: star_star_slash_inv_def less_Suc_eq)
  have nth: "snd (star_star_slash_iter p reach i st) ! j =
      (snd st ! j \<or> j = i \<and> reach ! i
       \<or> j = Suc i \<and> i < length p \<and> p ! i = CHR ''/'' \<and> (\<exists>m<Suc i. reach ! m))"
    if "j \<le> length p" for j
    using i inv that unfolding star_star_slash_iter_def Let_def opn star_star_slash_inv_def
    by (auto simp: nth_list_update)
  show "star_star_slash_inv p reach (Suc i) (star_star_slash_iter p reach i st)"
    unfolding star_star_slash_inv_def
  proof (intro conjI allI impI)
    fix j assume j: "j \<le> length p"
    have old: "snd st ! j = (j < i \<and> reach ! j \<or> 0 < j \<and> j \<le> i \<and> p ! (j - 1) = CHR ''/'' \<and> (\<exists>i<j. reach ! i))"
      using inv j unfolding star_star_slash_inv_def by blast
    consider "j < i" | "j = i" | "j = Suc i" | "Suc i < j" by linarith
    then show "snd (star_star_slash_iter p reach i st) ! j =
        (j < Suc i \<and> reach ! j
         \<or> 0 < j \<and> j \<le> Suc i \<and> p ! (j - 1) = CHR ''/'' \<and> (\<exists>i<j. reach ! i))"
    proof cases
      case 3
      then show ?thesis unfolding nth [OF j] old using j by simp
    qed (unfold nth [OF j] old, auto)
  qed (use inv opn in \<open>simp_all add: star_star_slash_iter_def star_star_slash_inv_def Let_def\<close>)
qed (auto simp del: replicate_Suc simp add: star_star_slash_inv_def less_Suc_eq_le)

definition lit_inv :: "string \<Rightarrow> string \<Rightarrow> bool list \<Rightarrow> nat \<Rightarrow> bool list \<Rightarrow> bool" where
  "lit_inv l p reach k nxt \<longleftrightarrow> length nxt = length p + 1
     \<and> (\<forall>j\<le>length p. nxt ! j = (\<exists>i<k. j = i + length l \<and> reach ! i \<and> starts_with (drop i p) l))"

lemma lit_loop:
  "lit_inv l p reach (length p + 1 - length l)
     (fold (lit_iter l p reach) [0..<length p + 1 - length l] (replicate (length p + 1) False))"
proof (rule loop_upt)
  fix i nxt assume i: "i < length p + 1 - length l" and inv: "lit_inv l p reach i nxt"
  have "lit_iter l p reach i nxt ! j
      = (nxt ! j \<or> j = i + length l \<and> reach ! i \<and> starts_with (drop i p) l)"
    if "j \<le> length p" for j
    using that inv by (auto simp: lit_iter_def lit_inv_def nth_list_update)
  moreover have "length (lit_iter l p reach i nxt) = length p + 1"
    using inv by (simp add: lit_iter_def lit_inv_def)
  ultimately show "lit_inv l p reach (Suc i) (lit_iter l p reach i nxt)"
    using inv unfolding lit_inv_def by (auto simp: less_Suc_eq)
qed (simp del: replicate_Suc add: lit_inv_def less_Suc_eq_le)


lemma token_lang_seg_Star: "j \<le> length p \<Longrightarrow> i \<le> j \<Longrightarrow> token_lang Star (seg p i j) \<longleftrightarrow> clear p i j"
proof -
  assume j: "j \<le> length p" and "i \<le> j"
  have "x \<in> set (seg p i j) \<longleftrightarrow> (\<exists>m. i \<le> m \<and> m < j \<and> p ! m = x)" for x
  proof
    assume "x \<in> set (seg p i j)"
    then obtain k where "k < j - i" "p ! (i + k) = x"
      using j \<open>i \<le> j\<close> by (auto simp: in_set_conv_nth seg_def)
    then show "\<exists>m. i \<le> m \<and> m < j \<and> p ! m = x" by (intro exI [of _ "i + k"]) auto
  next
    assume "\<exists>m. i \<le> m \<and> m < j \<and> p ! m = x"
    then obtain m where m: "i \<le> m" "m < j" "p ! m = x" by blast
    then have "m - i < length (seg p i j)" "seg p i j ! (m - i) = x"
      using j by (simp_all add: seg_def)
    then show "x \<in> set (seg p i j)" by (metis nth_mem)
  qed
  with j show ?thesis by (auto simp: clear_def)
qed

lemma token_lang_seg_StarStarSlash:
  "j \<le> length p \<Longrightarrow> i \<le> j \<Longrightarrow>
     token_lang StarStarSlash (seg p i j) \<longleftrightarrow> i = j \<or> 0 < j \<and> i < j \<and> p ! (j - 1) = CHR ''/''"
  unfolding seg_def by (auto simp: last_conv_nth)

lemma token_lang_seg_Lit:
  "j \<le> length p \<Longrightarrow> i \<le> j \<Longrightarrow>
     token_lang (Lit l) (seg p i j) \<longleftrightarrow> j = i + length l \<and> starts_with (drop i p) l"
  unfolding seg_def starts_with_def by auto

lemmas token_lang_seg = token_lang_seg_Star token_lang_seg_StarStarSlash token_lang_seg_Lit

lemma glob_pass_inv:
  assumes "reach_inv p ts reach"
  shows "reach_inv p (ts @ [t]) (glob_pass p t reach)"
proof -
  have reach: "\<And>i. i \<le> length p \<Longrightarrow> reach ! i = glob_lang ts (take i p)"
    using assms by (simp add: reach_inv_def)
  have "length (glob_pass p t reach) = length p + 1 \<and>
     (\<forall>j\<le>length p. glob_pass p t reach ! j = (\<exists>i\<le>j. reach ! i \<and> token_lang t (seg p i j)))"
  proof (cases t)
    case (Lit l)
    have "(\<exists>i<length p + 1 - length l. j = i + length l \<and> reach ! i \<and> starts_with (drop i p) l)
        = (\<exists>i\<le>j. reach ! i \<and> token_lang (Lit l) (seg p i j))" if "j \<le> length p" for j
      using that token_lang_seg_Lit [OF that, of _ l]
      by (auto simp del: token_lang.simps) (metis le_add1)
    with lit_loop [of l p reach] Lit show ?thesis
      unfolding glob_pass_def lit_inv_def by simp
  next
    case Star
    have "(j < length p + 1 \<and> (\<exists>i\<le>j. reach ! i \<and> clear p i j))
        = (\<exists>i\<le>j. reach ! i \<and> token_lang Star (seg p i j))" if "j \<le> length p" for j
      using that token_lang_seg_Star [OF that] by (auto simp del: token_lang.simps)
    with star_loop [of p reach] Star show ?thesis
      unfolding glob_pass_def star_inv_def by simp
  next
    case StarStar
    with star_star_loop [of "length p + 1" reach] show ?thesis
      unfolding glob_pass_def star_star_inv_def by simp
  next
    case StarStarSlash
    have "(j < length p + 1 \<and> reach ! j
           \<or> 0 < j \<and> j \<le> length p + 1 \<and> p ! (j - 1) = CHR ''/'' \<and> (\<exists>i<j. reach ! i))
        = (\<exists>i\<le>j. reach ! i \<and> token_lang StarStarSlash (seg p i j))" if "j \<le> length p" for j
      using that token_lang_seg_StarStarSlash [OF that]
      by (auto simp del: token_lang.simps) (metis less_imp_le_nat)
    with star_star_slash_loop [of p reach] StarStarSlash show ?thesis
      unfolding glob_pass_def star_star_slash_inv_def by simp
  qed
  then show ?thesis
    by (auto simp: reach_inv_def glob_lang_snoc_take reach)
qed

lemma glob_fold_inv: "reach_inv p ts reach \<Longrightarrow> reach_inv p (ts @ us) (fold (glob_pass p) us reach)"
proof (induction us arbitrary: ts reach)
  case (Cons u us)
  from Cons.IH [OF glob_pass_inv [OF Cons.prems]] show ?case by simp
qed simp

lemma reach_inv_start: "reach_inv p [] ((replicate (length p + 1) False)[0 := True])"
  by (auto simp: reach_inv_def nth_list_update simp del: replicate_Suc)

lemma globMatch_lang: "globMatch pattern p \<longleftrightarrow> glob_lang (glob_tokens pattern) p"
  using glob_fold_inv [OF reach_inv_start, of p "glob_tokens pattern"]
  by (simp add: globMatch_def reach_inv_def Let_def)

section \<open>Patterns without a wildcard, and whole subtrees\<close>

lemma glob_tokens_from_literal: "CHR ''*'' \<notin> set d \<Longrightarrow> glob_tokens_from acc (d @ s) = glob_tokens_from (rev d @ acc) s"
  by (induction d arbitrary: acc) auto

lemma glob_tokens_subtree:
  "CHR ''*'' \<notin> set d \<Longrightarrow> glob_tokens (d @ ''/**'') = [Lit (d @ ''/''), StarStar]"
  by (simp add: glob_tokens_def glob_tokens_from_literal flush_lit_def)

lemma glob_tokens_literal: "CHR ''*'' \<notin> set d \<Longrightarrow> glob_tokens d = (if d = [] then [] else [Lit d])"
  using glob_tokens_from_literal [of d "[]" "[]"] by (simp add: glob_tokens_def flush_lit_def)

section \<open>Properties\<close>

text \<open>C10: The matcher decides exactly the language of the pattern: \<open>globMatch\<close> returns true iff the
  path is a concatenation of words of the pattern's tokens, in order (a literal, a run without a
  slash for \<open>*\<close>, any run for \<open>**\<close>, the empty word or a run ending in a slash for \<open>**/\<close>).\<close>

theorem globMatch_correct: "globMatch pattern p = glob_lang (glob_tokens pattern) p"
  by (rule globMatch_lang)

text \<open>A rail \<open>dir/**\<close> freezes exactly the paths below \<open>dir/\<close>, whatever characters they contain,
  and a pattern without \<open>*\<close> matches exactly itself.\<close>

theorem globMatch_rails:
  assumes "CHR ''*'' \<notin> set d"
  shows "(globMatch (d @ ''/**'') p \<longleftrightarrow> (\<exists>r. p = d @ ''/'' @ r)) \<and> (globMatch d p \<longleftrightarrow> p = d)"
  using assms by (auto simp: globMatch_lang glob_tokens_subtree glob_tokens_literal)

theorem globMatch_rails_witness:
  "globMatch ''src/**'' ''src/a/b'' \<and> \<not> globMatch ''src/**'' ''srcs/a'' \<and> globMatch ''src'' ''src''"
  using globMatch_rails [of "''src''" "''src/a/b''"] globMatch_rails [of "''src''" "''srcs/a''"]
    globMatch_rails [of "''src''" "''src''"] by simp

end
