(* ===== verification/TicketModel.thy ===== *)
theory TicketModel
  imports TicketSchema Glob
begin

text \<open>
  A validated ticket as the planning code reads it (the fields of \<^verbatim>\<open>packages/core/lib/tickets.mjs\<close>),
  and the operations on tickets that need no graph: \<open>inScope\<close>, \<open>scopesOverlap\<close>,
  \<open>activeTickets\<close>. An absent list field is the empty list (the code writes \<open>?? []\<close>), an edge is
  the id it leads to, and \<open>t_completed\<close> says that the field is exactly \<open>true\<close>.
\<close>

record ticket =
  t_id :: ident
  t_scope :: "string list"
  t_rails :: "string list"
  t_edges :: "ident list"
  t_duration :: "rat option"
  t_category :: "string option"
  t_budget :: "rat option"
  t_completed :: bool

text \<open>Reading a JSON ticket (the fields the planning code uses).\<close>

definition str_items :: "jsval \<Rightarrow> string list" where
  "str_items v = (case v of
      VArr xs \<Rightarrow> concat (map (\<lambda>x. case x of VStr s \<Rightarrow> [s] | _ \<Rightarrow> []) xs)
    | _ \<Rightarrow> [])"

definition num_option :: "jsval \<Rightarrow> rat option" where
  "num_option v = (case v of VNum q \<Rightarrow> Some q | _ \<Rightarrow> None)"

definition str_option :: "jsval \<Rightarrow> string option" where
  "str_option v = (case v of VStr s \<Rightarrow> Some s | _ \<Rightarrow> None)"

definition edge_targets :: "jsval \<Rightarrow> ident list" where
  "edge_targets t =
     concat (map (\<lambda>e. case js_get ''to'' e of VStr j \<Rightarrow> [j] | _ \<Rightarrow> []) (ticket_edges t))"

definition as_ticket :: "jsval \<Rightarrow> ticket" where
  "as_ticket t =
     \<lparr>t_id = ticket_id t, t_scope = str_items (js_get ''scope'' t),
      t_rails = str_items (js_get ''rails'' t), t_edges = edge_targets t,
      t_duration = num_option (js_get ''duration'' t),
      t_category = str_option (js_get ''category'' t),
      t_budget = num_option (js_get ''budget'' t),
      t_completed = (js_get ''completed'' t = VBool True)\<rparr>"

section \<open>Well-formed ticket sets\<close>

definition ids :: "ticket list \<Rightarrow> ident list" where
  "ids ts = map t_id ts"

definition dep :: "ticket list \<Rightarrow> (ident \<times> ident) set" where
  "dep ts = {(t_id t, j) | t j. t \<in> set ts \<and> j \<in> set (t_edges t)}"

definition wf_graph :: "ticket list \<Rightarrow> bool" where
  "wf_graph ts \<longleftrightarrow> distinct (ids ts) \<and> (\<forall>t\<in>set ts. set (t_edges t) \<subseteq> set (ids ts))"

definition duration_pos :: "ticket \<Rightarrow> bool" where
  "duration_pos t \<longleftrightarrow> (\<forall>d. t_duration t = Some d \<longrightarrow> 0 < d)"

definition wf_tickets :: "ticket list \<Rightarrow> bool" where
  "wf_tickets ts \<longleftrightarrow> wf_graph ts \<and> acyclic (dep ts) \<and> (\<forall>t\<in>set ts. duration_pos t)"

lemma wf_tickets_graph: "wf_tickets ts \<Longrightarrow> wf_graph ts"
  by (simp add: wf_tickets_def)

lemma dep_subset: "wf_graph ts \<Longrightarrow> dep ts \<subseteq> set (ids ts) \<times> set (ids ts)"
  by (auto simp: wf_graph_def dep_def ids_def)

lemma ticket_by_id:
  "distinct (ids ts) \<Longrightarrow> t \<in> set ts \<Longrightarrow> u \<in> set ts \<Longrightarrow> t_id t = t_id u \<Longrightarrow> t = u"
  unfolding ids_def by (metis distinct_map inj_onD)

text \<open>A store that passes validation is a well-formed ticket set.\<close>

lemma t_id_as_ticket [simp]: "t_id (as_ticket t) = ticket_id t"
  and t_edges_as_ticket [simp]: "t_edges (as_ticket t) = edge_targets t"
  by (simp_all add: as_ticket_def)

lemma dep_edges_eq_dep:
  assumes "valid_store ts"
  shows "dep_edges (store_by ts) = dep (map as_ticket ts)"
proof -
  have d: "distinct (map ticket_id ts)" using assms by (simp add: valid_store_def)
  have to: "set (edge_targets t) = {j. \<exists>e\<in>set (ticket_edges t). js_get ''to'' e = VStr j}" for t
    by (auto simp: edge_targets_def split: jsval.splits)
  have known: "known_target (store_by ts) e = Some j \<longleftrightarrow> js_get ''to'' e = VStr j"
    if "t \<in> set ts" "e \<in> set (ticket_edges t)" for t e j
    using that assms by (fastforce simp: valid_store_def known_target_def)
  have "(a, b) \<in> dep_edges (store_by ts) \<longleftrightarrow> (a, b) \<in> dep (map as_ticket ts)" for a b
  proof -
    have "(a, b) \<in> dep_edges (store_by ts) \<longleftrightarrow>
        (\<exists>t\<in>set ts. a = ticket_id t \<and> (\<exists>e\<in>set (ticket_edges t). js_get ''to'' e = VStr b))"
    proof -
      have "(a, b) \<in> dep_edges (store_by ts) \<longleftrightarrow>
          (\<exists>t\<in>set ts. a = ticket_id t \<and> (\<exists>e\<in>set (node_edges (store_by ts) a).
             known_target (store_by ts) e = Some b))"
        unfolding dep_edges_def by (simp add: image_iff Bex_def)
      also have "\<dots> \<longleftrightarrow>
          (\<exists>t\<in>set ts. a = ticket_id t \<and> (\<exists>e\<in>set (ticket_edges t). js_get ''to'' e = VStr b))"
      proof (rule bex_cong [OF refl])
        fix t assume t: "t \<in> set ts"
        then have "node_edges (store_by ts) (ticket_id t) = ticket_edges t" by (rule node_edges_store [OF d])
        then show "(a = ticket_id t \<and> (\<exists>e\<in>set (node_edges (store_by ts) a). known_target (store_by ts) e = Some b))
          \<longleftrightarrow> (a = ticket_id t \<and> (\<exists>e\<in>set (ticket_edges t). js_get ''to'' e = VStr b))"
          using known [OF t] by auto
      qed
      finally show ?thesis .
    qed
    also have "\<dots> \<longleftrightarrow> (\<exists>t\<in>set ts. a = ticket_id t \<and> b \<in> set (edge_targets t))"
      by (simp add: to)
    also have "\<dots> \<longleftrightarrow> (a, b) \<in> dep (map as_ticket ts)"
      unfolding dep_def by force
    finally show ?thesis .
  qed
  then show ?thesis by auto
qed

lemma duration_ok: "validateTicket False t = [] \<Longrightarrow> duration_pos (as_ticket t)"
  by (auto simp: validateTicket_def duration_pos_def as_ticket_def num_option_def positive_number_def
      split: if_splits jsval.splits)

lemma valid_store_wf: "valid_store ts \<Longrightarrow> wf_tickets (map as_ticket ts)"
proof -
  assume v: "valid_store ts"
  have "wf_graph (map as_ticket ts)"
    using v by (fastforce simp: wf_graph_def ids_def valid_store_def comp_def edge_targets_def
        split: jsval.splits)
  moreover have "acyclic (dep (map as_ticket ts))"
    using v dep_edges_eq_dep [OF v] by (simp add: valid_store_def)
  ultimately show ?thesis
    using v duration_ok by (auto simp: wf_tickets_def valid_store_def)
qed

section \<open>Scopes\<close>

definition inScope :: "ticket \<Rightarrow> path \<Rightarrow> bool" where
  "inScope t p = list_ex (\<lambda>g. globMatch g p) (t_scope t)"

text \<open>\<open>g.split('*')[0]\<close>.\<close>

definition glob_base :: "string \<Rightarrow> string" where
  "glob_base g = takeWhile (\<lambda>c. c \<noteq> CHR ''*'') g"

definition globs_overlap :: "string \<Rightarrow> string \<Rightarrow> bool" where
  "globs_overlap ga gb \<longleftrightarrow>
     ga = gb \<or>
     (let aBase = glob_base ga; bBase = glob_base gb
      in aBase \<noteq> [] \<and> bBase \<noteq> [] \<and> (starts_with aBase bBase \<or> starts_with bBase aBase))"

definition scopesOverlap :: "ticket \<Rightarrow> ticket \<Rightarrow> bool" where
  "scopesOverlap a b = list_ex (\<lambda>ga. list_ex (\<lambda>gb. globs_overlap ga gb) (t_scope b)) (t_scope a)"

lemma scopesOverlap_sym: "scopesOverlap a b = scopesOverlap b a"
  by (auto simp: scopesOverlap_def globs_overlap_def list_ex_iff Let_def)

section \<open>Completed tickets\<close>

definition activeTickets :: "ticket list \<Rightarrow> ticket list" where
  "activeTickets ts =
     (let done = map t_id (filter t_completed ts)
      in if done = [] then ts
         else map (\<lambda>t. if list_ex (\<lambda>j. j \<in> set done) (t_edges t)
                       then t\<lparr>t_edges := filter (\<lambda>j. j \<notin> set done) (t_edges t)\<rparr> else t)
                (filter (\<lambda>t. t_id t \<notin> set done) ts))"

lemma activeTickets_eq:
  "activeTickets ts =
     map (\<lambda>t. t\<lparr>t_edges := filter (\<lambda>j. j \<notin> t_id ` {u \<in> set ts. t_completed u}) (t_edges t)\<rparr>)
       (filter (\<lambda>t. t_id t \<notin> t_id ` {u \<in> set ts. t_completed u}) ts)"
proof (cases "filter t_completed ts = []")
  case True
  then have "{u \<in> set ts. t_completed u} = {}" by (auto simp: filter_empty_conv)
  then have e: "t_id ` {u \<in> set ts. t_completed u} = {}" by simp
  from True show ?thesis unfolding e by (simp add: activeTickets_def)
next
  case False
  have "set (map t_id (filter t_completed ts)) = t_id ` {u \<in> set ts. t_completed u}" by auto
  with False show ?thesis
    unfolding activeTickets_def Let_def
    by (auto simp: list_ex_iff filter_id_conv intro!: map_cong)
qed

lemma ids_activeTickets:
  "ids (activeTickets ts) = filter (\<lambda>i. i \<notin> t_id ` {u \<in> set ts. t_completed u}) (ids ts)"
  by (simp add: activeTickets_eq ids_def comp_def filter_map)

lemma dep_activeTickets:
  "dep (activeTickets ts) = {(i, j) \<in> dep ts. i \<notin> t_id ` {u \<in> set ts. t_completed u}
     \<and> j \<notin> t_id ` {u \<in> set ts. t_completed u}}"
  (is "?L = ?R")
proof (rule set_eqI, clarify)
  fix a b
  let ?done = "t_id ` {u \<in> set ts. t_completed u}"
  have "(a, b) \<in> ?L \<longleftrightarrow> (\<exists>t\<in>set (activeTickets ts). a = t_id t \<and> b \<in> set (t_edges t))"
    by (auto simp: dep_def)
  also have "\<dots> \<longleftrightarrow> (\<exists>t\<in>set ts. t_id t \<notin> ?done \<and> a = t_id t \<and> b \<in> set (t_edges t) \<and> b \<notin> ?done)"
    unfolding activeTickets_eq by force
  also have "\<dots> \<longleftrightarrow> (a, b) \<in> ?R"
    by (auto simp: dep_def)
  finally show "(a, b) \<in> ?L \<longleftrightarrow> (a, b) \<in> ?R" .
qed

lemma activeTickets_wf:
  assumes "wf_tickets ts"
  shows "wf_tickets (activeTickets ts)"
proof -
  have "wf_graph (activeTickets ts)"
  proof -
    have "distinct (ids (activeTickets ts))"
      using assms by (simp add: ids_activeTickets wf_tickets_def wf_graph_def)
    moreover have "set (t_edges t) \<subseteq> set (ids (activeTickets ts))" if "t \<in> set (activeTickets ts)" for t
      using that assms unfolding ids_activeTickets
      by (fastforce simp: activeTickets_eq wf_tickets_def wf_graph_def)
    ultimately show ?thesis by (simp add: wf_graph_def)
  qed
  moreover have "acyclic (dep (activeTickets ts))"
    using assms by (auto simp: wf_tickets_def dep_activeTickets intro: acyclic_subset)
  moreover have "\<forall>t\<in>set (activeTickets ts). duration_pos t"
    using assms by (auto simp: wf_tickets_def activeTickets_eq duration_pos_def)
  ultimately show ?thesis by (simp add: wf_tickets_def)
qed

section \<open>Properties\<close>

text \<open>C31: Dropping the completed tickets of a well-formed set leaves a well-formed set: the edges to
  them are dropped with them, no open ticket is lost, and none of the tickets left is completed.\<close>

theorem activeTickets_wellformed:
  assumes "wf_tickets ts"
  shows "wf_tickets (activeTickets ts) \<and> (\<forall>t\<in>set (activeTickets ts). \<not> t_completed t)
    \<and> set (ids (activeTickets ts)) = t_id ` {t \<in> set ts. \<not> t_completed t}"
proof -
  have "distinct (ids ts)" using assms by (simp add: wf_tickets_def wf_graph_def)
  then have "t_completed t" if "t \<in> set ts" "u \<in> set ts" "t_completed u" "t_id t = t_id u" for t u
    using ticket_by_id that by metis
  then show ?thesis
    using activeTickets_wf [OF assms] unfolding ids_activeTickets
    by (auto simp: activeTickets_eq ids_def) 
qed

definition demo_ticket :: "ident \<Rightarrow> ident list \<Rightarrow> bool \<Rightarrow> ticket" where
  "demo_ticket i es done = \<lparr>t_id = i, t_scope = [i @ ''/**''], t_rails = [], t_edges = es, t_duration = None,
     t_category = None, t_budget = None, t_completed = done\<rparr>"

lemma acyclic_demo: "acyclic {(''A'', ''B'')}" "acyclic {(''A'', ''B''), (''B'', ''C'')}"
  by (auto intro!: acyclic_insert [THEN iffD2] acyclicI simp: rtrancl_insert)

lemma dep_Nil: "dep [] = {}"
  by (simp add: dep_def)

lemma dep_Cons: "dep (t # ts) = Pair (t_id t) ` set (t_edges t) \<union> dep ts"
  by (auto simp: dep_def)

lemma wf_demo:
  "wf_tickets [demo_ticket ''A'' [''B''] True, demo_ticket ''B'' [] False]"
  "wf_tickets [demo_ticket ''A'' [''B''] False, demo_ticket ''B'' [''C''] False, demo_ticket ''C'' [] False]"
proof -
  have 1: "dep [demo_ticket ''A'' [''B''] True, demo_ticket ''B'' [] False] = {(''A'', ''B'')}"
    and 2: "dep [demo_ticket ''A'' [''B''] False, demo_ticket ''B'' [''C''] False, demo_ticket ''C'' [] False]
      = {(''A'', ''B''), (''B'', ''C'')}"
    by (auto simp: dep_Cons dep_Nil demo_ticket_def)
  show "wf_tickets [demo_ticket ''A'' [''B''] True, demo_ticket ''B'' [] False]"
    unfolding wf_tickets_def 1 using acyclic_demo
    by (simp add: wf_graph_def ids_def demo_ticket_def duration_pos_def)
  show "wf_tickets [demo_ticket ''A'' [''B''] False, demo_ticket ''B'' [''C''] False, demo_ticket ''C'' [] False]"
    unfolding wf_tickets_def 2 using acyclic_demo
    by (simp add: wf_graph_def ids_def demo_ticket_def duration_pos_def)
qed

theorem activeTickets_wellformed_witness:
  "ids (activeTickets [demo_ticket ''A'' [''B''] True, demo_ticket ''B'' [] False]) = [''B'']
   \<and> wf_tickets (activeTickets [demo_ticket ''A'' [''B''] True, demo_ticket ''B'' [] False])"
  using activeTickets_wellformed [OF wf_demo(1)]
  by (simp add: activeTickets_def demo_ticket_def ids_def)

end
