(* ===== verification/TicketDag.thy ===== *)
theory TicketDag
  imports TicketModel
begin

text \<open>
  Kahn's algorithm, \<open>topoSort\<close> of \<^verbatim>\<open>packages/core/lib/tickets.mjs\<close>.

  \<open>indegree\<close> is an association list; an edge to an id that is no ticket makes \<open>indegree[e.to]\<close>
  \<open>NaN\<close> in the code, which never compares equal to 0: here the id stays absent.
\<close>

type_synonym degrees = "(ident \<times> int) list"

definition count_edge :: "ident \<Rightarrow> degrees \<Rightarrow> degrees" where
  "count_edge j m = (case map_of m j of None \<Rightarrow> m | Some n \<Rightarrow> AList.update j (n + 1) m)"

definition topo_indegree :: "ticket list \<Rightarrow> degrees" where
  "topo_indegree ts =
     fold (\<lambda>t. fold count_edge (t_edges t)) ts (map (\<lambda>i. (i, 0)) (ids ts))"

definition topo_out :: "ticket list \<Rightarrow> ident \<Rightarrow> ident list" where
  "topo_out ts = fold (\<lambda>t out. out(t_id t := out (t_id t) @ t_edges t)) ts (\<lambda>_. [])"

definition dec_edge :: "ident \<Rightarrow> degrees \<times> ident list \<Rightarrow> degrees \<times> ident list" where
  "dec_edge next mq = (case mq of (m, queue) \<Rightarrow>
     (case map_of m next of
        None \<Rightarrow> (m, queue)
      | Some n \<Rightarrow> (AList.update next (n - 1) m, if n - 1 = 0 then queue @ [next] else queue)))"

text \<open>How many ids still have a positive indegree: an upper bound on the pushes to come.\<close>

definition positive :: "degrees \<Rightarrow> nat" where
  "positive m = length (filter (\<lambda>(k, n). 0 < n) m)"

lemma positive_update:
  "map_of m j = Some n \<Longrightarrow>
     positive (AList.update j k m) + (if 0 < n then 1 else 0) = positive m + (if 0 < k then 1 else 0)"
  by (induction m) (auto simp: positive_def split: if_splits)

lemma dec_edge_measure:
  "length (snd (dec_edge j mq)) + positive (fst (dec_edge j mq)) \<le> length (snd mq) + positive (fst mq)"
proof (cases mq)
  case (Pair m q)
  show ?thesis
  proof (cases "map_of m j")
    case (Some n)
    from positive_update [OF this, of "n - 1"] show ?thesis
      by (cases "n = 1") (auto simp: Pair Some dec_edge_def split: if_splits)
  qed (simp add: Pair dec_edge_def)
qed

lemma dec_edges_measure:
  "length (snd (fold dec_edge js mq)) + positive (fst (fold dec_edge js mq)) \<le> length (snd mq) + positive (fst mq)"
proof (induction js arbitrary: mq)
  case (Cons j js)
  show ?case
    using Cons.IH [of "dec_edge j mq"] dec_edge_measure [of j mq] by simp
qed simp

function kahn :: "(ident \<Rightarrow> ident list) \<Rightarrow> degrees \<Rightarrow> ident list \<Rightarrow> ident list \<Rightarrow> ident list" where
  "kahn out m [] order = order"
| "kahn out m (i # q) order =
     (let mq = fold dec_edge (out i) (m, q) in kahn out (fst mq) (snd mq) (order @ [i]))"
  by pat_completeness auto
termination
proof (relation "measure (\<lambda>(out, m, q, order). length q + positive m)")
  fix out :: "ident \<Rightarrow> ident list" and m i q order mq
  assume "mq = fold dec_edge (out i) (m, q)"
  then show "((out, fst mq, snd mq, order @ [i]), (out, m, i # q, order))
      \<in> measure (\<lambda>(out, m, q, order). length q + positive m)"
    using dec_edges_measure [of "out i" "(m, q)"] by simp
qed simp

definition zero_ids :: "degrees \<Rightarrow> ident list \<Rightarrow> ident list" where
  "zero_ids m is = filter (\<lambda>i. map_of m i = Some 0) is"

definition topo_order :: "ticket list \<Rightarrow> ident list" where
  "topo_order ts = kahn (topo_out ts) (topo_indegree ts) (zero_ids (topo_indegree ts) (ids ts)) []"

definition topoSort :: "ticket list \<Rightarrow> ident list \<times> ident list option" where
  "topoSort ts =
     (let order = topo_order ts
      in if length order \<noteq> length (ids ts)
         then (order, Some (filter (\<lambda>i. i \<notin> set order) (ids ts)))
         else (order, None))"

lemma dep_edge_iff:
  assumes "distinct (ids ts)" and "t \<in> set ts"
  shows "(t_id t, b) \<in> dep ts \<longleftrightarrow> b \<in> set (t_edges t)"
proof
  assume "(t_id t, b) \<in> dep ts"
  then obtain u where u: "u \<in> set ts" "t_id t = t_id u" "b \<in> set (t_edges u)"
    unfolding dep_def by blast
  have "u = t" by (rule ticket_by_id [OF assms(1) u(1) assms(2)]) (simp add: u(2))
  with u show "b \<in> set (t_edges t)" by simp
next
  assume "b \<in> set (t_edges t)"
  with assms(2) show "(t_id t, b) \<in> dep ts" unfolding dep_def by blast
qed

section \<open>The invariant of the loop\<close>

text \<open>\<open>pending ts S v\<close>: the number of edges into \<open>v\<close> from tickets outside \<open>S\<close>.\<close>

definition pending :: "ticket list \<Rightarrow> ident set \<Rightarrow> ident \<Rightarrow> nat" where
  "pending ts S v = count_list (concat (map t_edges (filter (\<lambda>t. t_id t \<notin> S) ts))) v"

lemma count_list_append: "count_list (xs @ ys) v = count_list xs v + count_list ys v"
  by (induction xs) auto

lemma count_list_0: "count_list xs v = 0 \<longleftrightarrow> v \<notin> set xs"
  by (induction xs) auto

lemma pending_0: "pending ts S v = 0 \<longleftrightarrow> (\<forall>a. (a, v) \<in> dep ts \<longrightarrow> a \<in> S)"
  by (auto simp: pending_def count_list_0 dep_def)

lemma pending_insert:
  assumes "distinct (ids ts)" and "t \<in> set ts" and "t_id t \<notin> S"
  shows "pending ts S v = pending ts (insert (t_id t) S) v + count_list (t_edges t) v"
proof -
  from assms(2) obtain us vs where ts: "ts = us @ t # vs" by (meson split_list)
  have other: "\<forall>u\<in>set us \<union> set vs. t_id u \<noteq> t_id t"
    using assms(1) by (auto simp: ts ids_def image_iff)
  then have "filter (\<lambda>u. t_id u \<notin> insert (t_id t) S) us = filter (\<lambda>u. t_id u \<notin> S) us"
    "filter (\<lambda>u. t_id u \<notin> insert (t_id t) S) vs = filter (\<lambda>u. t_id u \<notin> S) vs"
    by (auto intro!: filter_cong)
  then show ?thesis
    using assms(3) by (simp add: pending_def ts count_list_append)
qed

lemma topo_out_eq:
  assumes "distinct (ids ts)" and "t \<in> set ts"
  shows "topo_out ts (t_id t) = t_edges t"
proof -
  have "fold (\<lambda>t out. out(t_id t := out (t_id t) @ t_edges t)) us f i =
      f i @ concat (map t_edges (filter (\<lambda>u. t_id u = i) us))"
    for us :: "ticket list" and f i
    by (induction us arbitrary: f) auto
  moreover have "filter (\<lambda>u. t_id u = t_id t) ts = [t]"
    using assms by (induction ts) (auto simp: ids_def filter_empty_conv image_iff)
  ultimately show ?thesis by (simp add: topo_out_def)
qed

lemma count_edge_map_of:
  "map_of (count_edge j m) v = (if v = j then map_option (\<lambda>n. n + 1) (map_of m v) else map_of m v)"
  by (auto simp: count_edge_def split: option.splits)

lemma count_edges_map_of:
  "map_of (fold count_edge js m) v = map_option (\<lambda>n. n + int (count_list js v)) (map_of m v)"
  by (induction js arbitrary: m)
     (auto simp: count_edge_map_of option.map_comp comp_def add.assoc intro!: option.map_cong
       simp: option.map_id [unfolded id_def])

lemma topo_indegree_map_of:
  "map_of (topo_indegree ts) v = (if v \<in> set (ids ts) then Some (int (pending ts {} v)) else None)"
proof -
  have "map_of (fold (\<lambda>t. fold count_edge (t_edges t)) us m) v =
      map_option (\<lambda>n. n + int (count_list (concat (map t_edges us)) v)) (map_of m v)"
    for us :: "ticket list" and m
    by (induction us arbitrary: m)
       (auto simp: count_edges_map_of count_list_append option.map_comp comp_def add.assoc
         simp: option.map_id [unfolded id_def])
  moreover have "map_of (map (\<lambda>i. (i, 0::int)) xs) v = (if v \<in> set xs then Some 0 else None)" for xs
    by (induction xs) auto
  ultimately show ?thesis by (simp add: topo_indegree_def pending_def)
qed

text \<open>State of the loop while the out-edges \<open>rest\<close> of the last id are still to be counted down.\<close>

definition kahn_inv :: "ticket list \<Rightarrow> ident list \<Rightarrow> ident list \<Rightarrow> degrees \<times> ident list \<Rightarrow> bool" where
  "kahn_inv ts order rest mq \<longleftrightarrow>
     (\<forall>v. map_of (fst mq) v = (if v \<in> set (ids ts)
        then Some (int (pending ts (set order) v + count_list rest v)) else None))
     \<and> distinct (order @ snd mq) \<and> set (order @ snd mq) \<subseteq> set (ids ts)
     \<and> (\<forall>v\<in>set (ids ts). pending ts (set order) v + count_list rest v = 0 \<longleftrightarrow> v \<in> set (order @ snd mq))"

definition ordered :: "ticket list \<Rightarrow> ident list \<Rightarrow> bool" where
  "ordered ts order \<longleftrightarrow> (\<forall>(a, b)\<in>dep ts. b \<in> set order \<longrightarrow> before a b order)"

lemma kahn_inv_start:
  assumes "distinct (ids ts)"
  shows "kahn_inv ts [] [] (topo_indegree ts, zero_ids (topo_indegree ts) (ids ts))"
  using assms by (auto simp: kahn_inv_def topo_indegree_map_of zero_ids_def)

lemma kahn_inv_dec:
  assumes "kahn_inv ts order (j # rest) mq" and "j \<in> set (ids ts)"
  shows "kahn_inv ts order rest (dec_edge j mq)"
proof (cases mq)
  case (Pair m q)
  let ?n = "pending ts (set order) j + count_list rest j"
  have j: "map_of m j = Some (int ?n + 1)" and new: "j \<notin> set order" "j \<notin> set q"
    using assms by (auto simp: kahn_inv_def Pair)
  have dec: "dec_edge j mq = (AList.update j (int ?n) m, if ?n = 0 then q @ [j] else q)"
    using j by (simp add: dec_edge_def Pair)
  have other: "count_list (j # rest) v = count_list rest v" if "v \<noteq> j" for v
    using that by simp
  have q: "distinct (order @ q)" "set (order @ q) \<subseteq> set (ids ts)"
    and m: "map_of m v = (if v \<in> set (ids ts)
        then Some (int (pending ts (set order) v + count_list (j # rest) v)) else None)"
    and z: "v \<in> set (ids ts) \<Longrightarrow>
      pending ts (set order) v + count_list (j # rest) v = 0 \<longleftrightarrow> v \<in> set (order @ q)" for v
    using assms(1) by (auto simp: kahn_inv_def Pair)
  let ?q = "snd (dec_edge j mq)"
  have "distinct (order @ ?q)" "set (order @ ?q) \<subseteq> set (ids ts)"
    using q new assms(2) by (auto simp: dec)
  moreover have "map_of (fst (dec_edge j mq)) v = (if v \<in> set (ids ts)
        then Some (int (pending ts (set order) v + count_list rest v)) else None)" for v
    using m [of v] other [of v] assms(2) by (cases "v = j") (simp_all add: dec)
  moreover have "pending ts (set order) v + count_list rest v = 0 \<longleftrightarrow> v \<in> set (order @ ?q)"
    if "v \<in> set (ids ts)" for v
  proof (cases "v = j")
    case True
    with new show ?thesis by (simp add: dec)
  next
    case False
    with z [OF that] other [OF False] show ?thesis by (simp add: dec)
  qed
  ultimately show ?thesis unfolding kahn_inv_def by (intro conjI allI ballI)
qed

lemma kahn_inv_decs:
  "kahn_inv ts order js mq \<Longrightarrow> set js \<subseteq> set (ids ts) \<Longrightarrow> kahn_inv ts order [] (fold dec_edge js mq)"
  by (induction js arbitrary: mq) (simp_all add: kahn_inv_dec)

lemma kahn_inv_pop:
  assumes "distinct (ids ts)" and "t \<in> set ts" and "kahn_inv ts order [] (m, t_id t # q)"
  shows "kahn_inv ts (order @ [t_id t]) (t_edges t) (m, q)"
proof -
  have "t_id t \<notin> set order" using assms(3) by (simp add: kahn_inv_def)
  then have "pending ts (set (order @ [t_id t])) v + count_list (t_edges t) v = pending ts (set order) v" for v
    using pending_insert [OF assms(1,2), of "set order" v] by simp
  then show ?thesis using assms(3) unfolding kahn_inv_def by auto
qed

lemma ordered_snoc:
  assumes "ordered ts order" and "kahn_inv ts order [] (m, i # q)"
  shows "ordered ts (order @ [i])"
proof -
  have i: "pending ts (set order) i = 0" "i \<notin> set order"
    using assms(2) by (auto simp: kahn_inv_def)
  then have "before a i (order @ [i])" if "(a, i) \<in> dep ts" for a
    using that by (intro before_snoc_new) (auto simp: pending_0)
  then show ?thesis
    using assms(1) by (auto simp: ordered_def intro: before_snoc_old)
qed

lemma kahn_step_inv:
  assumes "wf_graph ts" and "kahn_inv ts order [] (m, i # q)"
  shows "kahn_inv ts (order @ [i]) [] (fold dec_edge (topo_out ts i) (m, q))"
proof -
  have d: "distinct (ids ts)" using assms(1) by (simp add: wf_graph_def)
  from assms(2) have "i \<in> set (ids ts)" by (auto simp: kahn_inv_def)
  then obtain t where t: "t \<in> set ts" "i = t_id t" by (auto simp: ids_def)
  have "kahn_inv ts (order @ [i]) (t_edges t) (m, q)"
    using kahn_inv_pop [OF d t(1)] assms(2) t(2) by simp
  moreover have "set (t_edges t) \<subseteq> set (ids ts)" using assms(1) t(1) by (simp add: wf_graph_def)
  ultimately show ?thesis
    using kahn_inv_decs topo_out_eq [OF d t(1)] t(2) by simp
qed

lemma kahn_final:
  assumes "wf_graph ts"
  shows "kahn_inv ts order [] (m, q) \<Longrightarrow> ordered ts order \<Longrightarrow>
     \<exists>m'. kahn_inv ts (kahn (topo_out ts) m q order) [] (m', []) \<and> ordered ts (kahn (topo_out ts) m q order)"
proof (induction "topo_out ts" m q order rule: kahn.induct)
  case (2 m i q order)
  show ?case
    using 2(1) [OF refl] kahn_step_inv [OF assms 2(2)] ordered_snoc [OF 2(3) 2(2)]
    by (simp add: Let_def)
qed auto

lemma topo_order_final:
  assumes "wf_graph ts"
  shows "\<exists>m. kahn_inv ts (topo_order ts) [] (m, [])" and "ordered ts (topo_order ts)"
  using kahn_final [OF assms kahn_inv_start] assms
  by (auto simp: topo_order_def wf_graph_def ordered_def)

section \<open>What \<open>topoSort\<close> returns\<close>

lemma before_split_left:
  assumes "distinct xs" and "xs = us @ y # vs" and "before x y xs"
  shows "x \<in> set us"
proof -
  obtain us' vs' where *: "xs = us' @ x # vs'" "y \<in> set vs'"
    using assms(3) by (auto simp: before_def)
  from *(2) obtain ys zs where "vs' = ys @ y # zs" by (meson split_list)
  then have "us @ y # vs = (us' @ x # ys) @ y # zs" using * assms(2) by simp
  moreover have "y \<notin> set us" "y \<notin> set vs" using assms(1,2) by auto
  ultimately have "us = us' @ x # ys"
    using append_Cons_eq_iff [of y us vs "us' @ x # ys" zs] by blast
  then show ?thesis by simp
qed

lemma before_split_right:
  assumes "distinct xs" and "xs = us @ x # vs" and "before x y xs"
  shows "y \<in> set vs"
proof -
  obtain us' vs' where *: "xs = us' @ x # vs'" "y \<in> set vs'"
    using assms(3) by (auto simp: before_def)
  moreover have "x \<notin> set us" "x \<notin> set vs" using assms(1,2) by auto
  ultimately have "vs = vs'"
    using assms(2) append_Cons_eq_iff [of x us vs us' vs'] by metis
  then show ?thesis using * by simp
qed

lemma topo_order_facts:
  assumes "wf_graph ts"
  shows "distinct (topo_order ts)" and "set (topo_order ts) \<subseteq> set (ids ts)"
    and "ordered ts (topo_order ts)"
    and "\<And>v. v \<in> set (ids ts) \<Longrightarrow> v \<notin> set (topo_order ts)
      \<Longrightarrow> \<exists>a. (a, v) \<in> dep ts \<and> a \<notin> set (topo_order ts)"
  using topo_order_final [OF assms] by (auto simp: kahn_inv_def pending_0)

lemma ordered_acyclic:
  assumes "ordered ts order" and "distinct order" and "dep ts \<subseteq> set order \<times> set order"
  shows "acyclic (dep ts)"
proof -
  have step: "(a, b) \<in> dep ts \<Longrightarrow> before a b order" for a b
    using assms(1,3) by (auto simp: ordered_def)
  have trans: "before a c order" if "before a b order" "before b c order" for a b c
  proof -
    from that(1) obtain us vs where 1: "order = us @ a # vs" "b \<in> set vs"
      by (auto simp: before_def)
    from that(2) obtain us' vs' where 2: "order = us' @ b # vs'" "c \<in> set vs'"
      by (auto simp: before_def)
    from 1(2) obtain xs ys where vs: "vs = xs @ b # ys" by (meson split_list)
    have "us' = us @ a # xs" "vs' = ys"
      using assms(2) 1(1) 2(1) unfolding vs
      by (auto simp: append_eq_append_conv2 append_eq_Cons_conv Cons_eq_append_conv)
    then show ?thesis
      using assms(2) 1(1) 2(2) unfolding vs before_def by force
  qed
  have "before a b order" if "(a, b) \<in> (dep ts)\<^sup>+" for a b
    using that by (induction rule: trancl_induct) (auto intro: step trans)
  moreover have "\<not> before a a order" for a by (auto simp: before_def)
  ultimately show ?thesis by (auto simp: acyclic_def)
qed

lemma no_source_cyclic:
  assumes "finite A" and "x \<in> A" and "\<And>v. v \<in> A \<Longrightarrow> \<exists>a\<in>A. (a, v) \<in> r"
  shows "\<not> acyclic r"
proof
  assume "acyclic r"
  then have "acyclic (r \<inter> A \<times> A)" by (auto intro: acyclic_subset)
  moreover have "finite (r \<inter> A \<times> A)" using assms(1) by auto
  ultimately have "wf (r \<inter> A \<times> A)" by (simp add: finite_acyclic_wf)
  then obtain z where "z \<in> A" "\<And>y. (y, z) \<in> r \<inter> A \<times> A \<Longrightarrow> y \<notin> A"
    using wfE_min [OF _ assms(2)] by blast
  then show False using assms(3) by blast
qed

lemma topo_order_complete:
  assumes "wf_graph ts"
  shows "set (topo_order ts) = set (ids ts) \<longleftrightarrow> acyclic (dep ts)"
proof
  assume "set (topo_order ts) = set (ids ts)"
  then show "acyclic (dep ts)"
    using ordered_acyclic [OF topo_order_facts(3,1) [OF assms]] dep_subset [OF assms] by simp
next
  assume ac: "acyclic (dep ts)"
  show "set (topo_order ts) = set (ids ts)"
  proof (rule ccontr)
    let ?A = "set (ids ts) - set (topo_order ts)"
    assume "set (topo_order ts) \<noteq> set (ids ts)"
    then obtain x where "x \<in> ?A" using topo_order_facts(2) [OF assms] by auto
    moreover have "\<exists>a\<in>?A. (a, v) \<in> dep ts" if "v \<in> ?A" for v
      using topo_order_facts(4) [OF assms, of v] that dep_subset [OF assms] by blast
    ultimately show False using no_source_cyclic [of ?A] ac by blast
  qed
qed

lemma topo_order_length:
  assumes "wf_graph ts"
  shows "length (topo_order ts) = length (ids ts) \<longleftrightarrow> set (topo_order ts) = set (ids ts)"
proof -
  have d: "distinct (ids ts)" using assms by (simp add: wf_graph_def)
  show ?thesis
    using topo_order_facts(1,2) [OF assms] d
    by (metis List.finite_set card_subset_eq distinct_card)
qed

lemma topoSort_acyclic:
  assumes "wf_graph ts"
  shows "snd (topoSort ts) = None \<longleftrightarrow> acyclic (dep ts)"
  using topo_order_length [OF assms] topo_order_complete [OF assms] by (simp add: topoSort_def Let_def)

lemma topo_order_wf:
  assumes "wf_tickets ts"
  shows "set (topo_order ts) = set (ids ts)" and "distinct (topo_order ts)"
    and "ordered ts (topo_order ts)" and "topoSort ts = (topo_order ts, None)"
proof -
  have g: "wf_graph ts" "acyclic (dep ts)" using assms by (simp_all add: wf_tickets_def)
  show *: "set (topo_order ts) = set (ids ts)" using topo_order_complete g by blast
  show "distinct (topo_order ts)" "ordered ts (topo_order ts)" using topo_order_facts [OF g(1)] by auto
  show "topoSort ts = (topo_order ts, None)"
    using * topo_order_length [OF g(1)] by (simp add: topoSort_def)
qed

section \<open>Schedules\<close>

lemma fold_upd_other: "i \<notin> set xs \<Longrightarrow> fold (\<lambda>i f. f(i := F i f)) xs f0 i = f0 i"
  by (induction xs arbitrary: f0) auto

lemma fold_upd_eq:
  assumes "distinct xs"
    and "\<And>us i vs. xs = us @ i # vs \<Longrightarrow> D i \<subseteq> set us"
    and "\<And>i f g. (\<And>d. d \<in> D i \<Longrightarrow> f d = g d) \<Longrightarrow> F i f = F i g"
    and "i \<in> set xs"
  shows "fold (\<lambda>i f. f(i := F i f)) xs f0 i = F i (fold (\<lambda>i f. f(i := F i f)) xs f0)"
  using assms(1,2,4)
proof (induction xs rule: rev_induct)
  case (snoc x xs)
  let ?f = "fold (\<lambda>i f. f(i := F i f)) xs f0"
  have x: "x \<notin> set xs" using snoc.prems(1) by simp
  have D: "x \<notin> D j" if "j \<in> set (xs @ [x])" for j
  proof -
    from that obtain us vs where us: "xs @ [x] = us @ j # vs" by (meson split_list)
    then have "x \<notin> set us" using snoc.prems(1)
      by (metis butlast_append butlast_snoc list.distinct(1) in_set_butlastD x Un_iff set_append)
    then show ?thesis using snoc.prems(2) [OF us] by auto
  qed
  show ?case
  proof (cases "i = x")
    case True
    have "F x ?f = F x (?f(x := F x ?f))" by (rule assms(3)) (use D [of x] in auto)
    then show ?thesis unfolding True by (simp del: fun_upd_apply add: fun_upd_same)
  next
    case False
    then have i: "i \<in> set xs" using snoc.prems(3) by simp
    have "?f i = F i ?f"
      by (rule snoc.IH) (use snoc.prems(1) i in \<open>auto intro: subsetD [OF snoc.prems(2)]\<close>)
    also have "\<dots> = F i (?f(x := F x ?f))" by (rule assms(3)) (use D [of i] i in auto)
    finally show ?thesis using False by (simp del: fun_upd_apply add: fun_upd_other)
  qed
qed simp

lemma ordered_split:
  "ordered ts xs \<Longrightarrow> distinct xs \<Longrightarrow> xs = us @ i # vs \<Longrightarrow> (a, i) \<in> dep ts \<Longrightarrow> a \<in> set us"
  by (rule before_split_left [of xs]) (auto simp: ordered_def)

lemma ordered_split_rev:
  assumes "ordered ts xs" and "distinct xs" and "rev xs = us @ i # vs" and "(i, b) \<in> dep ts" and "b \<in> set xs"
  shows "b \<in> set us"
proof -
  have "rev (rev xs) = rev (us @ i # vs)" using assms(3) by (rule arg_cong)
  then have xs: "xs = rev vs @ i # rev us" by simp
  have "before i b xs" using assms(1,4,5) by (auto simp: ordered_def)
  from before_split_right [OF assms(2) xs this] show ?thesis by simp
qed


text \<open>
  What the planner's clients need of an order of the tickets: it is complete, without repetition, and
  has every prerequisite before its dependent. Then a pass over the order that computes a value of a
  ticket from those of its prerequisites (or, backwards, of its dependents) solves the equation of
  every ticket.
\<close>

locale schedule =
  fixes order :: "ticket list \<Rightarrow> ident list"
  assumes complete: "wf_tickets ts \<Longrightarrow> set (order ts) = set (ids ts)"
    and once: "wf_tickets ts \<Longrightarrow> distinct (order ts)"
    and prerequisites_first: "wf_tickets ts \<Longrightarrow> (a, b) \<in> dep ts \<Longrightarrow> before a b (order ts)"
begin

lemma ordered_schedule: "wf_tickets ts \<Longrightarrow> ordered ts (order ts)"
  by (auto simp: ordered_def intro: prerequisites_first)

lemma schedule_length: "wf_tickets ts \<Longrightarrow> length (order ts) = length ts"
  using complete [of ts] once [of ts]
  by (metis distinct_card ids_def length_map wf_graph_def wf_tickets_graph)

lemma ancestors_first:
  assumes w: "wf_tickets ts" and "order ts = us @ b # vs" and "(a, b) \<in> (dep ts)\<^sup>+"
  shows "a \<in> set us"
  using assms(3,2)
proof (induction arbitrary: us vs rule: trancl_induct)
  case (base b)
  then show ?case using ordered_split [OF ordered_schedule [OF w] once [OF w]] by blast
next
  case (step y z)
  then have "y \<in> set us" using ordered_split [OF ordered_schedule [OF w] once [OF w]] by blast
  then obtain as bs where "us = as @ y # bs" by (meson split_list)
  with step.IH [of as "bs @ z # vs"] step.prems show ?case by simp
qed

lemma forward_pass:
  assumes w: "wf_tickets ts" and i: "i \<in> set (ids ts)"
    and cong: "\<And>j f g. (\<And>p. (p, j) \<in> dep ts \<Longrightarrow> f p = g p) \<Longrightarrow> F j f = F j g"
  shows "fold (\<lambda>i f. f(i := F i f)) (order ts) f0 i = F i (fold (\<lambda>i f. f(i := F i f)) (order ts) f0)"
proof (rule fold_upd_eq [where D = "\<lambda>i. {p. (p, i) \<in> dep ts}"])
  show "distinct (order ts)" "i \<in> set (order ts)" using complete [OF w] once [OF w] i by auto
  show "{p. (p, j) \<in> dep ts} \<subseteq> set us" if "order ts = us @ j # vs" for us j vs
    using ordered_split [OF ordered_schedule [OF w] once [OF w] that] by blast
  show "F j f = F j g" if "\<And>d. d \<in> {p. (p, j) \<in> dep ts} \<Longrightarrow> f d = g d" for j f g
    by (rule cong) (use that in simp)
qed

lemma backward_pass:
  assumes w: "wf_tickets ts" and i: "i \<in> set (ids ts)"
    and cong: "\<And>j f g. (\<And>s. (j, s) \<in> dep ts \<Longrightarrow> f s = g s) \<Longrightarrow> F j f = F j g"
  shows "fold (\<lambda>i f. f(i := F i f)) (rev (order ts)) f0 i
    = F i (fold (\<lambda>i f. f(i := F i f)) (rev (order ts)) f0)"
proof (rule fold_upd_eq [where D = "\<lambda>i. {s. (i, s) \<in> dep ts}"])
  show "distinct (rev (order ts))" "i \<in> set (rev (order ts))" using complete [OF w] once [OF w] i by auto
  show "{s. (j, s) \<in> dep ts} \<subseteq> set us" if us: "rev (order ts) = us @ j # vs" for us j vs
  proof clarify
    fix s assume s: "(j, s) \<in> dep ts"
    then have "s \<in> set (order ts)"
      using complete [OF w] dep_subset [OF wf_tickets_graph [OF w]] by auto
    then show "s \<in> set us" by (rule ordered_split_rev [OF ordered_schedule [OF w] once [OF w] us s])
  qed
  show "F j f = F j g" if "\<And>d. d \<in> {s. (j, s) \<in> dep ts} \<Longrightarrow> f d = g d" for j f g
    by (rule cong) (use that in simp)
qed

end

interpretation kahn: schedule topo_order
proof unfold_locales
  fix ts a b assume w: "wf_tickets ts"
  show "set (topo_order ts) = set (ids ts)" "distinct (topo_order ts)" by (fact topo_order_wf [OF w])+
  assume d: "(a, b) \<in> dep ts"
  then show "before a b (topo_order ts)"
    using topo_order_wf(1,3) [OF w] dep_subset [OF wf_tickets_graph [OF w]] by (auto simp: ordered_def)
qed

section \<open>Properties\<close>

text \<open>On tickets with distinct ids whose edges stay in the set, \<open>topoSort\<close> reports no cycle exactly
  when the dependency graph has none; then its order holds every ticket once, after all of its
  direct and indirect prerequisites.\<close>

theorem topoSort_correct:
  assumes "wf_graph ts"
  shows "(snd (topoSort ts) = None \<longleftrightarrow> acyclic (dep ts))
    \<and> (snd (topoSort ts) = None \<longrightarrow> distinct (fst (topoSort ts)) \<and> set (fst (topoSort ts)) = set (ids ts)
        \<and> (\<forall>us b vs a. fst (topoSort ts) = us @ b # vs \<and> (a, b) \<in> dep ts \<longrightarrow> a \<in> set us))"
proof -
  have f: "fst (topoSort ts) = topo_order ts" by (simp add: topoSort_def Let_def)
  show ?thesis
    using topoSort_acyclic [OF assms] topo_order_complete [OF assms] topo_order_facts(1,3) [OF assms]
    unfolding f by (blast intro: ordered_split)
qed

lemma wf_graph_demo:
  "wf_graph [demo_ticket ''A'' [''B''] False, demo_ticket ''B'' [''C''] False, demo_ticket ''C'' [] False]"
  using wf_demo(2) by (simp add: wf_tickets_def)

theorem topoSort_correct_witness:
  "acyclic (dep [demo_ticket ''A'' [''B''] False, demo_ticket ''B'' [''C''] False, demo_ticket ''C'' [] False])"
proof -
  have "snd (topoSort [demo_ticket ''A'' [''B''] False, demo_ticket ''B'' [''C''] False, demo_ticket ''C'' [] False])
    = None" by code_simp
  with topoSort_correct [OF wf_graph_demo] show ?thesis by simp
qed

text \<open>The tickets \<open>topoSort\<close> leaves out, which the code names as the cycle, are never an acyclic
  rest: each of them waits for another of them.\<close>

theorem topoSort_stuck:
  assumes "wf_graph ts" and "topoSort ts = (order, Some stuck)"
  shows "stuck \<noteq> [] \<and> (\<forall>v\<in>set stuck. \<exists>a\<in>set stuck. (a, v) \<in> dep ts)"
proof
  have o: "order = topo_order ts" and s: "stuck = filter (\<lambda>i. i \<notin> set (topo_order ts)) (ids ts)"
    and l: "length (topo_order ts) \<noteq> length (ids ts)"
    using assms(2) by (auto simp: topoSort_def Let_def split: if_splits)
  show "\<forall>v\<in>set stuck. \<exists>a\<in>set stuck. (a, v) \<in> dep ts"
    using topo_order_facts(4) [OF assms(1)] dep_subset [OF assms(1)] unfolding s by fastforce
  from l have "set (topo_order ts) \<noteq> set (ids ts)" using topo_order_length [OF assms(1)] by blast
  then show "stuck \<noteq> []"
    using topo_order_facts(2) [OF assms(1)] unfolding s by (auto simp: filter_empty_conv)
qed

lemma wf_graph_cycle:
  "wf_graph [demo_ticket ''A'' [''B''] False, demo_ticket ''B'' [''A''] False, demo_ticket ''C'' [] False]"
  by (auto simp: wf_graph_def ids_def demo_ticket_def)

theorem topoSort_stuck_witness:
  "topoSort [demo_ticket ''A'' [''B''] False, demo_ticket ''B'' [''A''] False, demo_ticket ''C'' [] False]
     = ([''C''], Some [''A'', ''B''])
   \<and> (''B'', ''A'') \<in> dep [demo_ticket ''A'' [''B''] False, demo_ticket ''B'' [''A''] False, demo_ticket ''C'' [] False]"
proof -
  have 1: "topoSort [demo_ticket ''A'' [''B''] False, demo_ticket ''B'' [''A''] False, demo_ticket ''C'' [] False]
     = ([''C''], Some [''A'', ''B''])" by code_simp
  from topoSort_stuck [OF wf_graph_cycle 1] 1 show ?thesis
    by (auto simp: dep_def demo_ticket_def)
qed

end
