(* ===== verification/Reachability.thy ===== *)
theory Reachability
  imports TicketDag
begin

text \<open>
  \<^verbatim>\<open>packages/merge-forecast/lib/reachability.mjs\<close>: \<open>computeReachability\<close>,
  \<open>parallelEligiblePairs\<close>, \<open>topoWaves\<close>, \<open>mergeOrder\<close>. A JavaScript \<open>Set\<close> whose order is not
  observed is a set, one whose insertion order is observed is a list without duplicates.
\<close>

definition deg :: "degrees \<Rightarrow> ident \<Rightarrow> int" where
  "deg m j = (case map_of m j of None \<Rightarrow> 0 | Some n \<Rightarrow> n)"

definition all_indegree :: "ticket list \<Rightarrow> degrees" where
  "all_indegree ts = fold (\<lambda>t. fold (\<lambda>j m. AList.update j (deg m j + 1) m) (t_edges t)) ts
     (map (\<lambda>i. (i, 0)) (ids ts))"

definition set_add :: "'a \<Rightarrow> 'a list \<Rightarrow> 'a list" where
  "set_add x xs = (if x \<in> set xs then xs else xs @ [x])"

definition buildSuccessors :: "ticket list \<Rightarrow> ident \<Rightarrow> ident list" where
  "buildSuccessors ts =
     fold (\<lambda>t succ. fold (\<lambda>j succ. succ(t_id t := set_add j (succ (t_id t)))) (t_edges t) succ) ts (\<lambda>_. [])"

definition reach_dec :: "ident \<Rightarrow> degrees \<times> ident list \<times> ident set \<Rightarrow> degrees \<times> ident list \<times> ident set" where
  "reach_dec next st = (case st of (m, q, inQueue) \<Rightarrow>
     (let newDeg = deg m next - 1; m' = AList.update next newDeg m
      in if newDeg = 0 \<and> next \<notin> inQueue then (m', q @ [next], insert next inQueue)
         else (m', q, inQueue)))"

lemma deg_update_positive:
  "positive (AList.update j (deg m j - 1) m) + (if deg m j = 1 then 1 else 0) \<le> positive m"
proof (cases "map_of m j")
  case None
  then have "j \<notin> fst ` set m" by (simp add: map_of_eq_None_iff)
  then show ?thesis by (simp add: deg_def None update_fresh positive_def)
next
  case (Some n)
  from positive_update [OF this, of "n - 1"] show ?thesis
    by (cases "n = 1") (auto simp: deg_def Some split: if_splits)
qed

lemma reach_dec_measure:
  "length (fst (snd (fold reach_dec js st))) + positive (fst (fold reach_dec js st))
     \<le> length (fst (snd st)) + positive (fst st)"
proof (induction js arbitrary: st)
  case (Cons j js)
  obtain m q s where st: "st = (m, q, s)" by (cases st) auto
  have "length (fst (snd (reach_dec j st))) + positive (fst (reach_dec j st))
     \<le> length (fst (snd st)) + positive (fst st)"
    using deg_update_positive [of j m] by (simp add: st reach_dec_def Let_def split: if_splits)
  with Cons.IH [of "reach_dec j st"] show ?case by simp
qed simp

function reach_kahn :: "(ident \<Rightarrow> ident list) \<Rightarrow> degrees \<Rightarrow> ident list \<Rightarrow> ident set \<Rightarrow> ident list \<Rightarrow> ident list" where
  "reach_kahn succ m [] inQueue order = order"
| "reach_kahn succ m (i # q) inQueue order =
     (let st = fold reach_dec (succ i) (m, q, inQueue)
      in reach_kahn succ (fst st) (fst (snd st)) (snd (snd st)) (order @ [i]))"
  by pat_completeness auto
termination
proof (relation "measure (\<lambda>(succ, m, q, s, order). length q + positive m)")
  fix succ :: "ident \<Rightarrow> ident list" and m i q s order st
  assume "st = fold reach_dec (succ i) (m, q, s)"
  then show "((succ, fst st, fst (snd st), snd (snd st), order @ [i]), (succ, m, i # q, s, order))
      \<in> measure (\<lambda>(succ, m, q, s, order). length q + positive m)"
    using reach_dec_measure [of "succ i" "(m, q, s)"] by simp
qed simp

definition reach_order :: "ticket list \<Rightarrow> ident list" where
  "reach_order ts =
     (let m = all_indegree ts; queue = zero_ids m (ids ts)
      in reach_kahn (buildSuccessors ts) m queue (set queue) [])"

definition computeReachability :: "ticket list \<Rightarrow> ident \<Rightarrow> ident set" where
  "computeReachability ts =
     (let succ = buildSuccessors ts
      in fold (\<lambda>i. fold (\<lambda>s r. r(i := insert s (r i) \<union> r s)) (succ i)) (rev (reach_order ts)) (\<lambda>_. {}))"

fun pairs_of :: "'a list \<Rightarrow> ('a \<times> 'a) list" where
  "pairs_of [] = []"
| "pairs_of (x # xs) = map (\<lambda>y. (x, y)) xs @ pairs_of xs"

definition parallelEligiblePairs :: "ticket list \<Rightarrow> (ticket \<times> ticket) list" where
  "parallelEligiblePairs ts =
     (let reachable = computeReachability ts
      in filter (\<lambda>(a, b). t_id b \<notin> reachable (t_id a) \<and> t_id a \<notin> reachable (t_id b)) (pairs_of ts))"

definition wave_dec :: "ident \<Rightarrow> ident set \<Rightarrow> degrees \<times> ident list \<Rightarrow> degrees \<times> ident list" where
  "wave_dec next assigned st = (case st of (m, nextReady) \<Rightarrow>
     (let newDeg = deg m next - 1
      in (AList.update next newDeg m,
          if newDeg = 0 \<and> next \<notin> assigned then nextReady @ [next] else nextReady)))"

definition wave_ticket :: "(ident \<Rightarrow> ident list) \<Rightarrow> ident
    \<Rightarrow> degrees \<times> ident list \<times> ident set \<Rightarrow> degrees \<times> ident list \<times> ident set" where
  "wave_ticket succ i st = (case st of (m, nextReady, assigned) \<Rightarrow>
     (let assigned' = insert i assigned; mn = fold (\<lambda>n. wave_dec n assigned') (succ i) (m, nextReady)
      in (fst mn, snd mn, assigned')))"

lemma wave_decs_measure:
  "length (snd (fold (\<lambda>n. wave_dec n S) js mq)) + positive (fst (fold (\<lambda>n. wave_dec n S) js mq))
     \<le> length (snd mq) + positive (fst mq)"
proof (induction js arbitrary: mq)
  case (Cons j js)
  obtain m q where mq: "mq = (m, q)" by (cases mq)
  have "length (snd (wave_dec j S mq)) + positive (fst (wave_dec j S mq)) \<le> length (snd mq) + positive (fst mq)"
    using deg_update_positive [of j m] by (simp add: mq wave_dec_def Let_def split: if_splits)
  with Cons.IH [of "wave_dec j S mq"] show ?case by simp
qed simp

lemma wave_tickets_measure:
  "length (fst (snd (fold (wave_ticket succ) is st))) + positive (fst (fold (wave_ticket succ) is st))
     \<le> length (fst (snd st)) + positive (fst st)"
proof (induction "is" arbitrary: st)
  case (Cons i "is")
  obtain m q S where st: "st = (m, q, S)" by (cases st) auto
  have "length (fst (snd (wave_ticket succ i st))) + positive (fst (wave_ticket succ i st))
     \<le> length (fst (snd st)) + positive (fst st)"
    using wave_decs_measure [of "insert i S" "succ i" "(m, q)"] by (simp add: st wave_ticket_def Let_def)
  with Cons.IH [of "wave_ticket succ i st"] show ?case by simp
qed simp

function waves :: "(ident \<Rightarrow> ident list) \<Rightarrow> degrees \<Rightarrow> ident list \<Rightarrow> ident set \<Rightarrow> ident list list" where
  "waves succ m [] assigned = []"
| "waves succ m (i # is) assigned =
     (let st = fold (wave_ticket succ) (i # is) (m, [], assigned)
      in (i # is) # waves succ (fst st) (fst (snd st)) (snd (snd st)))"
  by pat_completeness auto
termination
proof (relation "measure (\<lambda>(succ, m, ready, s). length ready + positive m)")
  fix succ :: "ident \<Rightarrow> ident list" and m i "is" s st
  assume "st = fold (wave_ticket succ) (i # is) (m, [], s)"
  then show "((succ, fst st, fst (snd st), snd (snd st)), (succ, m, i # is, s))
      \<in> measure (\<lambda>(succ, m, ready, s). length ready + positive m)"
    using wave_tickets_measure [of succ "i # is" "(m, [], s)"] by (simp add: case_prod_beta)
qed simp

definition topoWaves :: "ticket list \<Rightarrow> ident list list" where
  "topoWaves ts =
     (let m = all_indegree ts in waves (topo_out ts) m (zero_ids m (ids ts)) {})"

definition mergeOrder :: "ticket list \<Rightarrow> ident list" where
  "mergeOrder ts = concat (topoWaves ts)"

section \<open>The indegrees agree with \<open>topoSort\<close>'s\<close>

lemma count_edges_eq:
  "set js \<subseteq> fst ` set m \<Longrightarrow> fold (\<lambda>j m. AList.update j (deg m j + 1) m) js m = fold count_edge js m"
proof (induction js arbitrary: m)
  case (Cons j js)
  then obtain n where n: "map_of m j = Some n" by (metis list.set_intros(1) map_of_eq_None_iff not_None_eq subset_code(1))
  then have *: "AList.update j (deg m j + 1) m = count_edge j m" by (simp add: deg_def count_edge_def)
  have "set js \<subseteq> fst ` set (count_edge j m)" using Cons.prems n by (auto simp: count_edge_def)
  then show ?case using Cons.IH by (simp add: *)
qed simp

lemma count_edge_keys: "fst ` set (fold count_edge js m) = fst ` set m"
proof (induction js arbitrary: m)
  case (Cons j js)
  have "fst ` set (count_edge j m) = fst ` set m"
    by (auto simp: count_edge_def split: option.splits dest: map_of_SomeD intro: rev_image_eqI)
  then show ?case using Cons.IH by simp
qed simp

lemma all_indegree_eq:
  assumes "wf_graph ts"
  shows "all_indegree ts = topo_indegree ts"
proof -
  have "\<forall>t\<in>set us. set (t_edges t) \<subseteq> fst ` set m \<Longrightarrow>
      fold (\<lambda>t. fold (\<lambda>j m. AList.update j (deg m j + 1) m) (t_edges t)) us m
      = fold (\<lambda>t. fold count_edge (t_edges t)) us m" for us :: "ticket list" and m
    by (induction us arbitrary: m) (simp_all add: count_edges_eq count_edge_keys)
  moreover have "fst ` set (map (\<lambda>i. (i, 0::int)) (ids ts)) = set (ids ts)" by force
  ultimately show ?thesis
    using assms by (simp add: all_indegree_def topo_indegree_def wf_graph_def)
qed

lemma kahn_inv_deg:
  "kahn_inv ts order rest (m, q) \<Longrightarrow> j \<in> set (ids ts)
    \<Longrightarrow> map_of m j = Some (deg m j) \<and> deg m j = int (pending ts (set order) j + count_list rest j)"
  by (auto simp: kahn_inv_def deg_def)

text \<open>When a count reaches 0 the id is new: it is neither ordered nor queued.\<close>

lemma kahn_inv_new:
  assumes "kahn_inv ts order (j # rest) (m, q)" and "j \<in> set (ids ts)"
  shows "j \<notin> set order \<and> j \<notin> set q"
  using assms by (force simp: kahn_inv_def)

lemma dec_edge_deg:
  assumes "kahn_inv ts order (j # rest) (m, q)" and "j \<in> set (ids ts)"
  shows "dec_edge j (m, r) = (AList.update j (deg m j - 1) m, if deg m j - 1 = 0 then r @ [j] else r)"
  using kahn_inv_deg [OF assms] by (simp add: dec_edge_def)

section \<open>The waves are the topological order, cut where the queue is drained\<close>

lemma dec_edge_append:
  "dec_edge j (m, q @ r) = (fst (dec_edge j (m, r)), q @ snd (dec_edge j (m, r)))"
  by (simp add: dec_edge_def split: option.splits)

lemma dec_edges_append:
  "fold dec_edge js (m, q @ r) = (fst (fold dec_edge js (m, r)), q @ snd (fold dec_edge js (m, r)))"
proof (induction js arbitrary: m r)
  case (Cons j js)
  show ?case
    using Cons.IH [of "fst (dec_edge j (m, r))" "snd (dec_edge j (m, r))"]
    by (simp add: dec_edge_append)
qed simp

lemma wave_decs_eq:
  assumes "kahn_inv ts order js (m, q @ r)" and "set js \<subseteq> set (ids ts)" and "set order = S"
  shows "fold (\<lambda>n. wave_dec n S) js (m, r) = fold dec_edge js (m, r)"
  using assms(1,2)
proof (induction js arbitrary: m r)
  case (Cons j js)
  have j: "j \<in> set (ids ts)" and js: "set js \<subseteq> set (ids ts)" using Cons.prems(2) by auto
  have "wave_dec j S (m, r) = dec_edge j (m, r)"
    using dec_edge_deg [OF Cons.prems(1) j, of r] kahn_inv_new [OF Cons.prems(1) j] assms(3)
    by (simp add: wave_dec_def Let_def)
  moreover have "kahn_inv ts order js (fst (dec_edge j (m, r)), q @ snd (dec_edge j (m, r)))"
    using kahn_inv_dec [OF Cons.prems(1) j] by (simp add: dec_edge_append)
  ultimately show ?case
    using Cons.IH [of "fst (dec_edge j (m, r))" "snd (dec_edge j (m, r))"] js by simp
qed simp

lemma topo_out_ids:
  assumes "wf_graph ts" and "i \<in> set (ids ts)"
  shows "set (topo_out ts i) \<subseteq> set (ids ts)"
proof -
  obtain t where "t \<in> set ts" "i = t_id t" using assms(2) by (auto simp: ids_def)
  then show ?thesis using assms(1) topo_out_eq [of ts t] by (simp add: wf_graph_def)
qed

lemma kahn_inv_pop_out:
  assumes "wf_graph ts" and "kahn_inv ts order [] (m, i # q)"
  shows "kahn_inv ts (order @ [i]) (topo_out ts i) (m, q) \<and> set (topo_out ts i) \<subseteq> set (ids ts)"
proof -
  have d: "distinct (ids ts)" using assms(1) by (simp add: wf_graph_def)
  from assms(2) have i: "i \<in> set (ids ts)" by (auto simp: kahn_inv_def)
  then obtain t where t: "t \<in> set ts" "i = t_id t" by (auto simp: ids_def)
  show ?thesis
    using kahn_inv_pop [OF d t(1)] assms(2) t(2) topo_out_eq [OF d t(1)] topo_out_ids [OF assms(1) i] by simp
qed

text \<open>One wave: draining the tickets of the wave from the queue leaves the next wave in it.\<close>

lemma wave_drain:
  assumes g: "wf_graph ts"
  shows "kahn_inv ts order [] (m, is @ r) \<Longrightarrow>
    fold (wave_ticket (topo_out ts)) is (m, r, set order) = (m', r', S') \<Longrightarrow>
    kahn_inv ts (order @ is) [] (m', r') \<and> S' = set (order @ is)
      \<and> kahn (topo_out ts) m (is @ r) order = kahn (topo_out ts) m' r' (order @ is)"
proof (induction "is" arbitrary: m r order)
  case (Cons i "is")
  let ?mr = "fold dec_edge (topo_out ts i) (m, r)"
  have inv: "kahn_inv ts (order @ [i]) (topo_out ts i) (m, is @ r)" and out: "set (topo_out ts i) \<subseteq> set (ids ts)"
    using kahn_inv_pop_out [OF g, of order m i "is @ r"] Cons.prems(1) by auto
  have "fold (\<lambda>n. wave_dec n (insert i (set order))) (topo_out ts i) (m, r) = ?mr"
    by (rule wave_decs_eq [OF inv out]) simp
  then have w: "wave_ticket (topo_out ts) i (m, r, set order) = (fst ?mr, snd ?mr, set (order @ [i]))"
    by (simp add: wave_ticket_def Let_def)
  have inv': "kahn_inv ts (order @ [i]) [] (fst ?mr, is @ snd ?mr)"
    using kahn_inv_decs [OF inv out] by (simp add: dec_edges_append)
  have "fold (wave_ticket (topo_out ts)) is (fst ?mr, snd ?mr, set (order @ [i])) = (m', r', S')"
    using Cons.prems(2) w by simp
  from Cons.IH [OF inv' this] show ?case
    by (simp add: dec_edges_append)
qed simp

lemma waves_step:
  assumes "wf_graph ts" and "kahn_inv ts order [] (m, i # is)"
    and st: "st = fold (wave_ticket (topo_out ts)) (i # is) (m, [], set order)"
  shows "snd (snd st) = set (order @ i # is)"
    and "kahn_inv ts (order @ i # is) [] (fst st, fst (snd st))"
    and "kahn (topo_out ts) m (i # is) order = kahn (topo_out ts) (fst st) (fst (snd st)) (order @ i # is)"
proof -
  have inv: "kahn_inv ts order [] (m, (i # is) @ [])" using assms(2) by simp
  have "fold (wave_ticket (topo_out ts)) (i # is) (m, [], set order) = (fst st, fst (snd st), snd (snd st))"
    using st by simp
  from wave_drain [OF assms(1) inv this]
  show "snd (snd st) = set (order @ i # is)" "kahn_inv ts (order @ i # is) [] (fst st, fst (snd st))"
    "kahn (topo_out ts) m (i # is) order = kahn (topo_out ts) (fst st) (fst (snd st)) (order @ i # is)"
    by simp_all
qed

text \<open>Every prerequisite of a ticket of a wave is in an earlier wave, and a ticket of a later wave
  waits for a ticket of the wave just before it.\<close>

fun layered :: "ticket list \<Rightarrow> ident set \<Rightarrow> ident list option \<Rightarrow> ident list list \<Rightarrow> bool" where
  "layered ts S prev [] \<longleftrightarrow> True"
| "layered ts S prev (w # ws) \<longleftrightarrow>
     w \<noteq> [] \<and>
     (\<forall>v\<in>set w. (\<forall>a. (a, v) \<in> dep ts \<longrightarrow> a \<in> S)
        \<and> (case prev of None \<Rightarrow> True | Some p \<Rightarrow> \<exists>a\<in>set p. (a, v) \<in> dep ts))
     \<and> layered ts (S \<union> set w) (Some w) ws"

lemma waves_layered:
  assumes g: "wf_graph ts"
  shows "kahn_inv ts order [] (m, ready) \<Longrightarrow>
    (\<forall>v\<in>set ready. case prev of None \<Rightarrow> True | Some p \<Rightarrow> \<exists>a\<in>set p. (a, v) \<in> dep ts) \<Longrightarrow>
    layered ts (set order) prev (waves (topo_out ts) m ready (set order))
      \<and> order @ concat (waves (topo_out ts) m ready (set order)) = kahn (topo_out ts) m ready order"
proof (induction "topo_out ts" m ready "set order" arbitrary: order prev rule: waves.induct)
  case (2 m i "is")
  define st where "st = fold (wave_ticket (topo_out ts)) (i # is) (m, [], set order)"
  note step = waves_step [OF g 2(2) st_def]
  have w: "waves (topo_out ts) m (i # is) (set order)
      = (i # is) # waves (topo_out ts) (fst st) (fst (snd st)) (set (order @ i # is))"
    unfolding waves.simps Let_def st_def [symmetric] step(1) by (rule refl)
  have here: "\<forall>a. (a, v) \<in> dep ts \<longrightarrow> a \<in> set order" if "v \<in> set (i # is)" for v
    using 2(2) that by (auto simp: kahn_inv_def pending_0)
  have next_wave: "\<exists>a\<in>set (i # is). (a, v) \<in> dep ts" if "v \<in> set (fst (snd st))" for v
  proof -
    have v: "v \<notin> set (order @ i # is)" "v \<in> set (ids ts)"
      "\<forall>a. (a, v) \<in> dep ts \<longrightarrow> a \<in> set (order @ i # is)"
      using step(2) that by (auto simp: kahn_inv_def pending_0)
    moreover have "\<exists>a. (a, v) \<in> dep ts \<and> a \<notin> set order"
      using 2(2) v(1,2) by (auto simp: kahn_inv_def pending_0)
    ultimately show ?thesis by (metis Un_iff set_append)
  qed
  have "layered ts (set (order @ i # is)) (Some (i # is))
       (waves (topo_out ts) (fst st) (fst (snd st)) (set (order @ i # is))) \<and>
     (order @ i # is) @ concat (waves (topo_out ts) (fst st) (fst (snd st)) (set (order @ i # is)))
       = kahn (topo_out ts) (fst st) (fst (snd st)) (order @ i # is)"
    using 2(1) [OF st_def step(1) step(2), of "Some (i # is)"] next_wave step(1) by simp
  then show ?case
    using here 2(3) step(3) unfolding w by (simp add: Un_commute Un_left_commute)
qed simp

lemma topoWaves_spec:
  assumes "wf_graph ts"
  shows "layered ts {} None (topoWaves ts)" and "mergeOrder ts = topo_order ts"
proof -
  have "kahn_inv ts [] [] (topo_indegree ts, zero_ids (topo_indegree ts) (ids ts))"
    using assms by (intro kahn_inv_start) (simp add: wf_graph_def)
  from waves_layered [OF assms this, of None]
  have "layered ts {} None (topoWaves ts) \<and> concat (topoWaves ts) = topo_order ts"
    by (simp add: topoWaves_def topo_order_def all_indegree_eq [OF assms] Let_def)
  then show "layered ts {} None (topoWaves ts)" "mergeOrder ts = topo_order ts"
    by (simp_all add: mergeOrder_def)
qed

lemma layered_split:
  assumes "layered ts S prev (us @ w # vs)" and "v \<in> set w"
  shows "(a, v) \<in> dep ts \<Longrightarrow> a \<in> S \<union> set (concat us)"
    and "us \<noteq> [] \<Longrightarrow> \<exists>a\<in>set (last us). (a, v) \<in> dep ts"
proof -
  have "((a, v) \<in> dep ts \<longrightarrow> a \<in> S \<union> set (concat us)) \<and>
      (case (if us = [] then prev else Some (last us)) of None \<Rightarrow> True | Some p \<Rightarrow> \<exists>a\<in>set p. (a, v) \<in> dep ts)"
    using assms(1)
  proof (induction us arbitrary: S prev)
    case (Cons u us)
    from Cons.IH [of "S \<union> set u" "Some u"] Cons.prems show ?case
      by (auto split: if_splits)
  qed (use assms(2) in auto)
  then show "(a, v) \<in> dep ts \<Longrightarrow> a \<in> S \<union> set (concat us)"
    "us \<noteq> [] \<Longrightarrow> \<exists>a\<in>set (last us). (a, v) \<in> dep ts"
    by auto
qed

section \<open>Reachability\<close>

definition simple_edges :: "ticket list \<Rightarrow> bool" where
  "simple_edges ts \<longleftrightarrow> (\<forall>t\<in>set ts. distinct (t_edges t))"

lemma buildSuccessors_eq:
  assumes "distinct (ids ts)" and "t \<in> set ts" and "distinct (t_edges t)"
  shows "buildSuccessors ts (t_id t) = t_edges t"
proof -
  have inner: "fold (\<lambda>j succ. succ(i := set_add j (succ i))) js f k =
      (if k = i then fold set_add js (f i) else f k)" for js f i and k :: ident
    by (induction js arbitrary: f) auto
  have other: "fold (\<lambda>t succ. fold (\<lambda>j succ. succ(t_id t := set_add j (succ (t_id t)))) (t_edges t) succ) us f k = f k"
    if "k \<notin> set (ids us)" for us :: "ticket list" and f and k
    using that by (induction us arbitrary: f) (simp_all add: ids_def inner)
  have adds: "fold set_add js xs = xs @ js" if "distinct (xs @ js)" for js and xs :: "ident list"
    using that by (induction js arbitrary: xs) (auto simp: set_add_def)
  obtain us vs where ts: "ts = us @ t # vs" using assms(2) by (meson split_list)
  have k: "t_id t \<notin> set (ids us)" "t_id t \<notin> set (ids vs)"
    using assms(1) by (auto simp: ts ids_def)
  show ?thesis
    by (simp add: buildSuccessors_def ts other [OF k(1)] other [OF k(2)] inner adds assms(3))
qed

lemma reach_decs_eq:
  assumes "kahn_inv ts order js (m, q)" and "set js \<subseteq> set (ids ts)"
  shows "fold reach_dec js (m, q, set (order @ q)) =
     (fst (fold dec_edge js (m, q)), snd (fold dec_edge js (m, q)), set (order @ snd (fold dec_edge js (m, q))))"
  using assms
proof (induction js arbitrary: m q)
  case (Cons j js)
  have j: "j \<in> set (ids ts)" and js: "set js \<subseteq> set (ids ts)" using Cons.prems(2) by auto
  have "reach_dec j (m, q, set (order @ q)) =
      (fst (dec_edge j (m, q)), snd (dec_edge j (m, q)), set (order @ snd (dec_edge j (m, q))))"
    using dec_edge_deg [OF Cons.prems(1) j, of q] kahn_inv_new [OF Cons.prems(1) j]
    by (simp add: reach_dec_def Let_def)
  moreover have "kahn_inv ts order js (fst (dec_edge j (m, q)), snd (dec_edge j (m, q)))"
    using kahn_inv_dec [OF Cons.prems(1) j] by simp
  ultimately show ?case
    using Cons.IH [of "fst (dec_edge j (m, q))" "snd (dec_edge j (m, q))"] js by simp
qed simp

lemma reach_kahn_eq:
  assumes g: "wf_graph ts" and s: "simple_edges ts"
  shows "kahn_inv ts order [] (m, q) \<Longrightarrow>
    reach_kahn (buildSuccessors ts) m q (set (order @ q)) order = kahn (topo_out ts) m q order"
proof (induction "topo_out ts" m q order rule: kahn.induct)
  case (2 m i q order)
  have d: "distinct (ids ts)" using g by (simp add: wf_graph_def)
  from 2(2) have "i \<in> set (ids ts)" by (auto simp: kahn_inv_def)
  then obtain t where t: "t \<in> set ts" "i = t_id t" by (auto simp: ids_def)
  have succ: "buildSuccessors ts i = topo_out ts i"
    using buildSuccessors_eq [OF d t(1)] topo_out_eq [OF d t(1)] s t by (simp add: simple_edges_def)
  have inv: "kahn_inv ts (order @ [i]) (topo_out ts i) (m, q)" and out: "set (topo_out ts i) \<subseteq> set (ids ts)"
    using kahn_inv_pop_out [OF g 2(2)] by auto
  have eq: "set (order @ i # q) = set ((order @ [i]) @ q)" by simp
  show ?case
    using 2(1) [OF refl] kahn_step_inv [OF g 2(2)]
    unfolding reach_kahn.simps kahn.simps Let_def succ eq reach_decs_eq [OF inv out] by simp
qed simp

lemma reach_order_eq:
  assumes "wf_graph ts" and "simple_edges ts"
  shows "reach_order ts = topo_order ts"
  using reach_kahn_eq [OF assms kahn_inv_start] assms(1)
  by (simp add: reach_order_def topo_order_def all_indegree_eq Let_def wf_graph_def)

lemma reach_row:
  "fold (\<lambda>s r. r(i := insert s (r i) \<union> r s)) js r = r(i := r i \<union> set js \<union> (\<Union>s\<in>set js. r s))"
proof (induction js arbitrary: r)
  case (Cons j js)
  let ?X = "insert j (r i) \<union> r j"
  have "?X \<union> set js \<union> (\<Union>s\<in>set js. (r(i := ?X)) s) = r i \<union> set (j # js) \<union> (\<Union>s\<in>set (j # js). r s)"
    by (auto split: if_splits)
  then show ?case
    unfolding fold_simps Cons.IH fun_upd_upd fun_upd_same by (rule arg_cong)
qed simp

lemma trancl_row: "{b. (i, b) \<in> E\<^sup>+} = {s. (i, s) \<in> E} \<union> (\<Union>s\<in>{s. (i, s) \<in> E}. {b. (s, b) \<in> E\<^sup>+})"
  by (auto intro: trancl_into_trancl2 dest: tranclD2 elim: converse_tranclE)

lemma computeReachability_suffix:
  assumes w: "wf_tickets ts" and s: "simple_edges ts" and "topo_order ts = us @ vs"
  shows "fold (\<lambda>i. fold (\<lambda>s r. r(i := insert s (r i) \<union> r s)) (buildSuccessors ts i)) (rev vs) (\<lambda>_. {}) =
    (\<lambda>i. if i \<in> set vs then {b. (i, b) \<in> (dep ts)\<^sup>+} else {})"
  using assms(3)
proof (induction vs arbitrary: us)
  case (Cons i vs)
  let ?r = "\<lambda>i. if i \<in> set vs then {b. (i, b) \<in> (dep ts)\<^sup>+} else {}"
  note topo = topo_order_wf [OF w]
  have g: "wf_graph ts" and d: "distinct (ids ts)" using w by (simp_all add: wf_tickets_def wf_graph_def)
  have i: "i \<in> set (ids ts)" using topo(1) Cons.prems by auto
  have iv: "i \<notin> set vs" using topo(2) Cons.prems by simp
  obtain t where t: "t \<in> set ts" "i = t_id t" using i by (auto simp: ids_def)
  have "buildSuccessors ts i = t_edges t"
    using buildSuccessors_eq [OF d t(1)] s t by (simp add: simple_edges_def)
  moreover have "(i, b) \<in> dep ts \<longleftrightarrow> b \<in> set (t_edges t)" for b
    unfolding t(2) by (rule dep_edge_iff [OF d t(1)])
  ultimately have js: "set (buildSuccessors ts i) = {b. (i, b) \<in> dep ts}" by simp
  have later: "b \<in> set vs" if "(i, b) \<in> dep ts" for b
  proof -
    have "b \<in> set (topo_order ts)" using that dep_subset [OF g] topo(1) by auto
    then have "before i b (topo_order ts)" using topo(3) that by (auto simp: ordered_def)
    then show ?thesis by (rule before_split_right [OF topo(2) Cons.prems])
  qed
  have "fold (\<lambda>s r. r(i := insert s (r i) \<union> r s)) (buildSuccessors ts i) ?r =
      ?r(i := {b. (i, b) \<in> dep ts} \<union> (\<Union>s\<in>{b. (i, b) \<in> dep ts}. {b. (s, b) \<in> (dep ts)\<^sup>+}))"
    unfolding reach_row js using later iv by (intro ext) (simp add: later)
  also have "\<dots> = (\<lambda>j. if j \<in> set (i # vs) then {b. (j, b) \<in> (dep ts)\<^sup>+} else {})"
    unfolding trancl_row [symmetric] by (intro ext) simp
  finally show ?case using Cons.IH [of "us @ [i]"] Cons.prems by (simp del: fun_upd_apply)
qed simp

lemma computeReachability_eq:
  assumes "wf_tickets ts" and "simple_edges ts" and "i \<in> set (ids ts)"
  shows "computeReachability ts i = {b. (i, b) \<in> (dep ts)\<^sup>+}"
  using computeReachability_suffix [OF assms(1,2), of "[]"] topo_order_wf(1) [OF assms(1)] assms
  by (simp add: computeReachability_def Let_def reach_order_eq wf_tickets_graph)

lemma set_pairs_of: "(x, y) \<in> set (pairs_of xs) \<longleftrightarrow> (\<exists>us vs ws. xs = us @ x # vs @ y # ws)"
proof (induction xs)
  case (Cons z zs)
  have "(x, y) \<in> set (pairs_of (z # zs)) \<longleftrightarrow> (z = x \<and> y \<in> set zs) \<or> (\<exists>us vs ws. zs = us @ x # vs @ y # ws)"
    using Cons by auto
  also have "\<dots> \<longleftrightarrow> (\<exists>us vs ws. z # zs = us @ x # vs @ y # ws)" (is "?L \<longleftrightarrow> ?R")
  proof
    assume ?L
    then show ?R
    proof
      assume "z = x \<and> y \<in> set zs"
      then show ?R by (metis append_Nil in_set_conv_decomp)
    next
      assume "\<exists>us vs ws. zs = us @ x # vs @ y # ws"
      then show ?R by (metis append_Cons)
    qed
  next
    assume ?R
    then obtain us vs ws where *: "z # zs = us @ x # vs @ y # ws" by blast
    then show ?L by (cases us) auto
  qed
  finally show ?case .
qed simp

lemma parallelEligiblePairs_iff:
  assumes "wf_tickets ts" and "simple_edges ts"
  shows "(a, b) \<in> set (parallelEligiblePairs ts) \<longleftrightarrow>
    (\<exists>us vs ws. ts = us @ a # vs @ b # ws) \<and> (t_id a, t_id b) \<notin> (dep ts)\<^sup>+ \<and> (t_id b, t_id a) \<notin> (dep ts)\<^sup>+"
proof (cases "(a, b) \<in> set (pairs_of ts)")
  case True
  then have "a \<in> set ts" "b \<in> set ts" unfolding set_pairs_of by auto
  then have "t_id a \<in> set (ids ts)" "t_id b \<in> set (ids ts)" by (auto simp: ids_def)
  then show ?thesis
    using True computeReachability_eq [OF assms] set_pairs_of [of a b ts]
    by (simp add: parallelEligiblePairs_def Let_def)
next
  case False
  then show ?thesis using set_pairs_of [of a b ts] by (simp add: parallelEligiblePairs_def Let_def)
qed

section \<open>A duplicated edge\<close>

text \<open>The pass never claims too much.\<close>

lemma buildSuccessors_fold:
  "buildSuccessors ts i = fold set_add (concat (map t_edges (filter (\<lambda>t. t_id t = i) ts))) []"
proof -
  have inner: "fold (\<lambda>j succ. succ(i := set_add j (succ i))) js f k =
      (if k = i then fold set_add js (f i) else f k)" for js f i and k :: ident
    by (induction js arbitrary: f) auto
  have "fold (\<lambda>t succ. fold (\<lambda>j succ. succ(t_id t := set_add j (succ (t_id t)))) (t_edges t) succ) us f i
      = fold set_add (concat (map t_edges (filter (\<lambda>t. t_id t = i) us))) (f i)" for us f
    by (induction us arbitrary: f) (simp_all add: inner)
  then show ?thesis by (simp add: buildSuccessors_def)
qed

lemma buildSuccessors_sub:
  shows "set (buildSuccessors ts i) \<subseteq> {b. (i, b) \<in> dep ts}" and "distinct (buildSuccessors ts i)"
proof -
  have adds: "set (fold set_add js xs) = set xs \<union> set js" "distinct xs \<Longrightarrow> distinct (fold set_add js xs)"
    for js and xs :: "ident list"
    by (induction js arbitrary: xs) (auto simp: set_add_def)
  show "set (buildSuccessors ts i) \<subseteq> {b. (i, b) \<in> dep ts}" "distinct (buildSuccessors ts i)"
    unfolding buildSuccessors_fold adds(1) using adds(2) by (auto simp: dep_def)
qed

lemma reach_rows_sound:
  assumes "\<And>i. set (succ i) \<subseteq> {b. (i, b) \<in> E}" and "\<And>i. r i \<subseteq> {b. (i, b) \<in> E\<^sup>+}"
  shows "fold (\<lambda>i. fold (\<lambda>s r. r(i := insert s (r i) \<union> r s)) (succ i)) is r i \<subseteq> {b. (i, b) \<in> E\<^sup>+}"
  using assms(2)
proof (induction "is" arbitrary: r)
  case (Cons k "is")
  have s: "s \<in> set (succ k) \<Longrightarrow> (k, s) \<in> E" for s using assms(1) [of k] by blast
  have "r k \<union> set (succ k) \<union> (\<Union>s\<in>set (succ k). r s) \<subseteq> {b. (k, b) \<in> E\<^sup>+}"
    using Cons.prems s by (blast intro: trancl_into_trancl2)
  then have "(r(k := r k \<union> set (succ k) \<union> (\<Union>s\<in>set (succ k). r s))) i \<subseteq> {b. (i, b) \<in> E\<^sup>+}" for i
    using Cons.prems [of i] by (cases "i = k") (simp_all only: fun_upd_same fun_upd_other not_False_eq_True)
  then show ?case using Cons.IH unfolding fold_simps comp_apply reach_row by blast
qed simp

lemma computeReachability_sound:
  "computeReachability ts i \<subseteq> {b. (i, b) \<in> (dep ts)\<^sup>+}"
  unfolding computeReachability_def Let_def
  by (rule reach_rows_sound) (use buildSuccessors_sub(1) in auto)

lemma computeReachability_unprocessed:
  assumes "i \<notin> set (reach_order ts)"
  shows "computeReachability ts i = {}"
proof -
  have "fold (\<lambda>i. fold (\<lambda>s r. r(i := insert s (r i) \<union> r s)) (succ i)) is r i = r i" if "i \<notin> set is"
    for "is" r and succ :: "ident \<Rightarrow> ident list"
    using that
  proof (induction "is" arbitrary: r)
    case (Cons k "is")
    then have "i \<noteq> k" "i \<notin> set is" by auto
    then show ?case
      unfolding fold_simps comp_apply reach_row
      by (intro trans [OF Cons.IH [unfolded reach_row] fun_upd_other])
  qed simp
  from this [of "rev (reach_order ts)"] show ?thesis using assms by (simp add: computeReachability_def Let_def)
qed

text \<open>A count that starts above the number of its predecessors never reaches 0.\<close>

lemma reach_decs_stuck:
  assumes "distinct js" and "int (if j \<in> set js then 1 else 0) < deg m j" and "j \<notin> S"
    and "distinct (order @ q)" and "set (order @ q) \<subseteq> S" and "fold reach_dec js (m, q, S) = (m', q', S')"
  shows "deg m' j = deg m j - (if j \<in> set js then 1 else 0) \<and> j \<notin> S' \<and> distinct (order @ q') \<and> set (order @ q') \<subseteq> S'"
  using assms
proof (induction js arbitrary: m q S)
  case (Cons k js)
  obtain m1 q1 S1 where s: "reach_dec k (m, q, S) = (m1, q1, S1)" by (metis prod_cases3)
  have d: "deg m1 i = (if i = k then deg m k - 1 else deg m i)" for i
    using s by (auto simp: reach_dec_def Let_def deg_def update_conv split: if_splits)
  have new: "q1 = q \<and> S1 = S \<or> q1 = q @ [k] \<and> S1 = insert k S \<and> k \<notin> S \<and> deg m k - 1 = 0"
    using s by (auto simp: reach_dec_def Let_def split: if_splits)
  have "int (if j \<in> set js then 1 else 0) < deg m1 j" using Cons.prems(1,2) d by (auto split: if_splits)
  moreover have "j \<notin> S1" using new Cons.prems(2,3) by (auto split: if_splits)
  moreover have "distinct (order @ q1)" "set (order @ q1) \<subseteq> S1" using new Cons.prems(4,5) by auto
  ultimately have "deg m' j = deg m1 j - (if j \<in> set js then 1 else 0) \<and> j \<notin> S' \<and> distinct (order @ q') \<and> set (order @ q') \<subseteq> S'"
    using Cons.IH [of m1 S1 q1] Cons.prems(1,6) s by simp
  then show ?case using d Cons.prems(1) by auto
qed simp

lemma reach_kahn_stuck:
  assumes "\<And>i. distinct (succ i)" and "finite P" and "\<And>i. j \<in> set (succ i) \<Longrightarrow> i \<in> P"
    and "j \<notin> S" and "j \<notin> set order" and "distinct (order @ q)" and "set (order @ q) \<subseteq> S"
    and "int (card (P - set order)) < deg m j"
  shows "j \<notin> set (reach_kahn succ m q S order)"
  using assms
proof (induction succ m q S order rule: reach_kahn.induct)
  case (2 succ m i q S order)
  obtain m' q' S' where st: "fold reach_dec (succ i) (m, q, S) = (m', q', S')" by (metis prod_cases3)
  have i: "i \<notin> set order" "i \<noteq> j" using "2.prems"(4,6,7) by auto
  have fin: "finite (P - set order)" using "2.prems"(2) by simp
  have c: "card (P - set (order @ [i])) + (if j \<in> set (succ i) then 1 else 0) \<le> card (P - set order)"
  proof (cases "j \<in> set (succ i)")
    case True
    then have "i \<in> P - set order" using "2.prems"(3) i(1) by blast
    moreover have "P - set (order @ [i]) = P - set order - {i}" by auto
    ultimately show ?thesis using card_Suc_Diff1 [OF fin, of i] True by simp
  next
    case False
    then show ?thesis using card_mono [OF fin, of "P - set (order @ [i])"] by auto
  qed
  have "int (if j \<in> set (succ i) then 1 else 0) < deg m j" using c "2.prems"(8) by auto
  from reach_decs_stuck [OF "2.prems"(1) this "2.prems"(4) _ _ st, of "order @ [i]"] "2.prems"(6,7)
  have s: "deg m' j = deg m j - (if j \<in> set (succ i) then 1 else 0)" "j \<notin> S'"
    "distinct ((order @ [i]) @ q')" "set ((order @ [i]) @ q') \<subseteq> S'" by auto
  have "int (card (P - set (order @ [i]))) < deg m' j" using c "2.prems"(8) s(1) by (auto split: if_splits)
  moreover have "j \<notin> set (order @ [i])" using "2.prems"(5) i(2) by simp
  ultimately have "j \<notin> set (reach_kahn succ m' q' S' (order @ [i]))"
    using "2.IH" [OF refl] "2.prems"(1-3) s(2-4) unfolding st fst_conv snd_conv by blast
  then show ?case by (simp add: st)
qed simp

lemma preds_le_pending:
  "finite {i. (i, j) \<in> dep ts}
   \<and> card {i. (i, j) \<in> dep ts} + (if \<exists>t\<in>set ts. 2 \<le> count_list (t_edges t) j then 1 else 0)
      \<le> count_list (concat (map t_edges ts)) j"
proof (induction ts)
  case (Cons t ts)
  have e: "{i. (i, j) \<in> dep (t # ts)} = (if j \<in> set (t_edges t) then {t_id t} else {}) \<union> {i. (i, j) \<in> dep ts}"
    by (auto simp: dep_def)
  have "count_list (t_edges t) j = 0 \<longleftrightarrow> j \<notin> set (t_edges t)" by (rule count_list_0)
  moreover have "card {i. (i, j) \<in> dep (t # ts)} \<le> (if j \<in> set (t_edges t) then 1 else 0) + card {i. (i, j) \<in> dep ts}"
    unfolding e using card_Un_le [of "if j \<in> set (t_edges t) then {t_id t} else {}" "{i. (i, j) \<in> dep ts}"]
    by (auto split: if_splits)
  ultimately show ?case using Cons e by (auto simp: count_list_append split: if_splits)
qed (simp add: dep_def)

lemma duplicate_edge_stuck:
  assumes "wf_graph ts" and "t \<in> set ts" and "2 \<le> count_list (t_edges t) j"
  shows "j \<notin> set (reach_order ts)"
proof -
  let ?P = "{i. (i, j) \<in> dep ts}"
  let ?q = "zero_ids (topo_indegree ts) (ids ts)"
  have d: "distinct (ids ts)" and "j \<in> set (t_edges t)"
    using assms count_list_0 [of "t_edges t" j] by (auto simp: wf_graph_def)
  then have j: "j \<in> set (ids ts)" using assms(1,2) by (auto simp: wf_graph_def)
  have p: "finite ?P" "card ?P < pending ts {} j"
    using preds_le_pending [of j ts] assms(2,3) by (auto simp: pending_def split: if_splits)
  have inv: "kahn_inv ts [] [] (topo_indegree ts, ?q)" by (rule kahn_inv_start [OF d])
  have g: "deg (topo_indegree ts) j = int (pending ts {} j)"
    using kahn_inv_deg [OF inv j] by simp
  then have "j \<notin> set ?q" using p(2) j by (auto simp: zero_ids_def topo_indegree_map_of)
  moreover have "distinct ?q" using inv by (simp add: kahn_inv_def)
  ultimately have "j \<notin> set (reach_kahn (buildSuccessors ts) (topo_indegree ts) ?q (set ?q) [])"
    using buildSuccessors_sub [of ts] p g by (intro reach_kahn_stuck [where P = ?P]) auto
  then show ?thesis by (simp add: reach_order_def all_indegree_eq [OF assms(1)] Let_def)
qed

lemma pairs_of_either:
  assumes "a \<in> set xs" and "b \<in> set xs" and "a \<noteq> b"
  shows "(a, b) \<in> set (pairs_of xs) \<or> (b, a) \<in> set (pairs_of xs)"
  using assms by (induction xs) auto

interpretation merge: schedule mergeOrder
proof unfold_locales
  fix ts a b assume w: "wf_tickets ts"
  have m: "mergeOrder ts = topo_order ts" by (rule topoWaves_spec(2) [OF wf_tickets_graph [OF w]])
  show "set (mergeOrder ts) = set (ids ts)" "distinct (mergeOrder ts)"
    unfolding m by (fact kahn.complete [OF w] kahn.once [OF w])+
  show "(a, b) \<in> dep ts \<Longrightarrow> before a b (mergeOrder ts)"
    unfolding m by (rule kahn.prerequisites_first [OF w])
qed

section \<open>Properties\<close>

text \<open>The wave computation and \<open>topoSort\<close>, two separate copies of Kahn's algorithm, agree: the
  waves read one after the other are exactly the order \<open>topoSort\<close> returns, also when the graph has a
  cycle.\<close>

theorem mergeOrder_topoSort:
  assumes "wf_graph ts"
  shows "mergeOrder ts = fst (topoSort ts)"
  using topoWaves_spec(2) [OF assms] by (simp add: topoSort_def Let_def)

theorem mergeOrder_topoSort_witness:
  "mergeOrder [demo_ticket ''A'' [''B''] False, demo_ticket ''B'' [''A''] False, demo_ticket ''C'' [] False] = [''C'']"
proof -
  have "fst (topoSort [demo_ticket ''A'' [''B''] False, demo_ticket ''B'' [''A''] False, demo_ticket ''C'' [] False])
    = [''C'']" by code_simp
  with mergeOrder_topoSort [OF wf_graph_cycle] show ?thesis by simp
qed

text \<open>The waves are the layers of the dependency graph: all prerequisites of a ticket are in
  earlier waves, and a ticket is not in a later wave than it has to be, because one of its direct
  prerequisites is in the wave just before its own.\<close>

theorem topoWaves_layers:
  assumes "wf_graph ts" and "topoWaves ts = us @ w # vs" and "v \<in> set w"
  shows "{a. (a, v) \<in> dep ts} \<subseteq> set (concat us) \<and> (us \<noteq> [] \<longrightarrow> (\<exists>a\<in>set (last us). (a, v) \<in> dep ts))"
proof -
  have l: "layered ts {} None (us @ w # vs)" using topoWaves_spec(1) [OF assms(1)] assms(2) by simp
  show ?thesis using layered_split [OF l assms(3)] by auto
qed

theorem topoWaves_layers_witness:
  "topoWaves [demo_ticket ''A'' [''B''] False, demo_ticket ''B'' [''C''] False, demo_ticket ''C'' [] False]
     = [[''A''], [''B''], [''C'']]
   \<and> (''B'', ''C'') \<in> dep [demo_ticket ''A'' [''B''] False, demo_ticket ''B'' [''C''] False, demo_ticket ''C'' [] False]"
proof -
  have 1: "topoWaves [demo_ticket ''A'' [''B''] False, demo_ticket ''B'' [''C''] False, demo_ticket ''C'' [] False]
     = [[''A''], [''B'']] @ [''C''] # []" by code_simp
  from topoWaves_layers [OF wf_graph_demo 1, of "''C''"] 1 show ?thesis by simp
qed

text \<open>C9: \<open>parallelEligiblePairs\<close> returns the pairs of tickets, in store order, of which neither is a
  direct or indirect prerequisite of the other, provided that no ticket lists an edge twice.\<close>

theorem parallelEligiblePairs_correct:
  assumes "wf_tickets ts" and "simple_edges ts"
  shows "(a, b) \<in> set (parallelEligiblePairs ts) \<longleftrightarrow>
    (\<exists>us vs ws. ts = us @ a # vs @ b # ws) \<and> (t_id a, t_id b) \<notin> (dep ts)\<^sup>+ \<and> (t_id b, t_id a) \<notin> (dep ts)\<^sup>+"
  by (rule parallelEligiblePairs_iff [OF assms])

theorem parallelEligiblePairs_correct_witness:
  "(''A'', ''C'') \<in> (dep [demo_ticket ''A'' [''B''] False, demo_ticket ''B'' [''C''] False, demo_ticket ''C'' [] False])\<^sup>+
   \<and> (demo_ticket ''A'' [''B''] False, demo_ticket ''C'' [] False)
     \<notin> set (parallelEligiblePairs
          [demo_ticket ''A'' [''B''] False, demo_ticket ''B'' [''C''] False, demo_ticket ''C'' [] False])"
proof -
  let ?ts = "[demo_ticket ''A'' [''B''] False, demo_ticket ''B'' [''C''] False, demo_ticket ''C'' [] False]"
  have "(''A'', ''B'') \<in> dep ?ts" "(''B'', ''C'') \<in> dep ?ts" by (simp_all add: dep_Cons demo_ticket_def)
  then have t: "(''A'', ''C'') \<in> (dep ?ts)\<^sup>+" by (meson trancl.r_into_trancl trancl_into_trancl)
  have s: "simple_edges ?ts" by (simp add: simple_edges_def demo_ticket_def)
  from parallelEligiblePairs_correct [OF wf_demo(2) s] t show ?thesis by (simp add: demo_ticket_def)
qed

text \<open>C35: When a ticket lists an edge twice, the reachability pass counts the edge twice in the indegree
  but stores it once, so the ticket \<open>a\<close> it leads to is never processed. For every well-formed store (one
  in which \<open>topoSort\<close> finds no cycle) with such an edge: the computed set of tickets reachable from
  \<open>a\<close> is empty, and every ticket \<open>b\<close> that depends on \<open>a\<close>, directly or not, is reported as eligible to run
  in parallel with it.\<close>

theorem duplicate_edge_parallel:
  assumes "wf_tickets ts" and "t \<in> set ts" and "2 \<le> count_list (t_edges t) (t_id a)"
    and "a \<in> set ts" and "b \<in> set ts" and "(t_id a, t_id b) \<in> (dep ts)\<^sup>+"
  shows "snd (topoSort ts) = None \<and> computeReachability ts (t_id a) = {}
    \<and> ((a, b) \<in> set (parallelEligiblePairs ts) \<or> (b, a) \<in> set (parallelEligiblePairs ts))"
proof -
  have g: "wf_graph ts" "acyclic (dep ts)" using assms(1) by (simp_all add: wf_tickets_def)
  have "t_id a \<notin> set (reach_order ts)" by (rule duplicate_edge_stuck [OF g(1) assms(2,3)])
  then have e: "computeReachability ts (t_id a) = {}" by (rule computeReachability_unprocessed)
  have "(t_id b, t_id a) \<notin> (dep ts)\<^sup>+" using assms(6) g(2) by (meson acyclic_def trancl_trans)
  then have nb: "t_id a \<notin> computeReachability ts (t_id b)" using computeReachability_sound by blast
  have "a \<noteq> b" using assms(6) g(2) by (auto simp: acyclic_def)
  then have "(a, b) \<in> set (pairs_of ts) \<or> (b, a) \<in> set (pairs_of ts)" by (rule pairs_of_either [OF assms(4,5)])
  then show ?thesis using e nb g topoSort_acyclic [OF g(1)] by (auto simp: parallelEligiblePairs_def Let_def)
qed

theorem duplicate_edge_parallel_witness:
  "(demo_ticket ''B'' [''C''] False, demo_ticket ''C'' [] False)
     \<in> set (parallelEligiblePairs
         [demo_ticket ''A'' [''B'', ''B''] False, demo_ticket ''B'' [''C''] False, demo_ticket ''C'' [] False])"
proof -
  let ?ts = "[demo_ticket ''A'' [''B'', ''B''] False, demo_ticket ''B'' [''C''] False, demo_ticket ''C'' [] False]"
  have dep: "dep ?ts = dep [demo_ticket ''A'' [''B''] False, demo_ticket ''B'' [''C''] False, demo_ticket ''C'' [] False]"
    by (simp add: dep_Cons demo_ticket_def)
  have w: "wf_tickets ?ts"
    using wf_demo(2) unfolding wf_tickets_def dep by (simp add: wf_graph_def ids_def demo_ticket_def duration_pos_def)
  have t: "(t_id (demo_ticket ''B'' [''C''] False), t_id (demo_ticket ''C'' [] False)) \<in> (dep ?ts)\<^sup>+"
    by (rule r_into_trancl) (simp add: dep_Cons demo_ticket_def)
  have n: "(demo_ticket ''C'' [] False, demo_ticket ''B'' [''C''] False) \<notin> set (parallelEligiblePairs ?ts)"
    by code_simp
  have "demo_ticket ''A'' [''B'', ''B''] False \<in> set ?ts" "demo_ticket ''B'' [''C''] False \<in> set ?ts"
    "demo_ticket ''C'' [] False \<in> set ?ts" by simp_all
  moreover have "2 \<le> count_list (t_edges (demo_ticket ''A'' [''B'', ''B''] False)) (t_id (demo_ticket ''B'' [''C''] False))"
    by (simp add: demo_ticket_def)
  ultimately show ?thesis using duplicate_edge_parallel [OF w _ _ _ _ t] n by blast
qed

end
