(* ===== verification/JsString.thy ===== *)
theory JsString
  imports Prelude
begin

text \<open>
  The JavaScript string operations the components use, on character lists: \<open>split\<close> by one
  character, \<open>join\<close>, \<open>endsWith\<close>, \<open>includes\<close>, digits, trimming and repetition.
\<close>

text \<open>\<open>s.split(c)\<close> for a one-character separator.\<close>

fun split_on :: "char \<Rightarrow> string \<Rightarrow> string list" where
  "split_on c [] = [[]]"
| "split_on c (x # xs) =
     (if x = c then [] # split_on c xs
      else (case split_on c xs of [] \<Rightarrow> [[x]] | p # ps \<Rightarrow> (x # p) # ps))"

text \<open>\<open>parts.join(sep)\<close>.\<close>

fun join_with :: "string \<Rightarrow> string list \<Rightarrow> string" where
  "join_with sep [] = []"
| "join_with sep [p] = p"
| "join_with sep (p # q # ps) = p @ sep @ join_with sep (q # ps)"

definition ends_with :: "string \<Rightarrow> string \<Rightarrow> bool" where
  "ends_with w s \<longleftrightarrow> length s \<le> length w \<and> drop (length w - length s) w = s"

text \<open>\<open>w.includes(s)\<close>.\<close>

fun str_includes :: "string \<Rightarrow> string \<Rightarrow> bool" where
  "str_includes [] s \<longleftrightarrow> s = []"
| "str_includes (c # w) s \<longleftrightarrow> starts_with (c # w) s \<or> str_includes w s"

definition is_digit :: "char \<Rightarrow> bool" where
  "is_digit c \<longleftrightarrow> c \<in> set ''0123456789''"

definition is_space :: "char \<Rightarrow> bool" where
  "is_space c \<longleftrightarrow> c = CHR '' '' \<or> (9 \<le> (of_char c :: nat) \<and> (of_char c :: nat) \<le> 13) \<or> (of_char c :: nat) = 160"

definition trim :: "string \<Rightarrow> string" where
  "trim s = rev (dropWhile is_space (rev (dropWhile is_space s)))"

definition code :: "char \<Rightarrow> nat" where
  "code c = of_char c"

text \<open>\<open>toLowerCase\<close> on code points below 256.\<close>

definition lower :: "char \<Rightarrow> char" where
  "lower c = (if 65 \<le> code c \<and> code c \<le> 90 \<or> 192 \<le> code c \<and> code c \<le> 222 \<and> code c \<noteq> 215
     then char_of (code c + 32) else c)"

definition to_lower :: "string \<Rightarrow> string" where
  "to_lower s = map lower s"

definition newline :: char where
  "newline = CHR 0x0A"

lemma split_on_nonempty [simp]: "split_on c s \<noteq> []"
  by (cases s) (auto split: list.splits)

lemma join_split: "join_with [c] (split_on c s) = s"
proof (induction s)
  case (Cons x xs)
  obtain p ps where s: "split_on c xs = p # ps" by (metis neq_Nil_conv split_on_nonempty)
  with Cons.IH show ?case by (cases ps) auto
qed simp

lemma split_on_parts: "p \<in> set (split_on c s) \<Longrightarrow> c \<notin> set p"
proof (induction s arbitrary: p)
  case (Cons x xs)
  obtain q qs where s: "split_on c xs = q # qs" by (metis neq_Nil_conv split_on_nonempty)
  from Cons show ?case by (auto simp: s split: if_splits)
qed simp

lemma split_on_no_sep: "c \<notin> set p \<Longrightarrow> split_on c p = [p]"
  by (induction p) auto

lemma split_on_append: "c \<notin> set p \<Longrightarrow> split_on c (p @ c # s) = p # split_on c s"
  by (induction p) auto

lemma split_join: "ps \<noteq> [] \<Longrightarrow> \<forall>p\<in>set ps. c \<notin> set p \<Longrightarrow> split_on c (join_with [c] ps) = ps"
  by (induction "[c]" ps rule: join_with.induct) (auto simp: split_on_append split_on_no_sep)

lemma ends_with_iff: "ends_with w s \<longleftrightarrow> (\<exists>v. w = v @ s)"
proof
  assume "ends_with w s"
  then have "w = take (length w - length s) w @ s"
    unfolding ends_with_def by (metis append_take_drop_id)
  then show "\<exists>v. w = v @ s" by blast
qed (auto simp: ends_with_def)

lemma str_includes_iff: "str_includes w s \<longleftrightarrow> (\<exists>u v. w = u @ s @ v)"
proof (induction w)
  case (Cons c w)
  have "(\<exists>u v. c # w = u @ s @ v) \<longleftrightarrow> (\<exists>v. c # w = s @ v) \<or> (\<exists>u v. w = u @ s @ v)"
    by (metis append_Cons append_Nil append_eq_Cons_conv)
  then show ?case by (simp add: Cons starts_with_iff)
qed simp

end
