(* ===== verification/Forecast.thy ===== *)
theory Forecast
  imports Reachability JsString
begin

text \<open>
  \<^verbatim>\<open>packages/merge-forecast/lib/signals.mjs\<close> and \<^verbatim>\<open>packages/merge-forecast/lib/forecast.mjs\<close>:
  the conflict score of a pair of tickets and the merge forecast. The file tree (\<open>walkTree\<close>), the
  import specifiers found in a file, Node's path resolution and the git history are parameters.
\<close>

section \<open>Signals\<close>

definition signalScopeOverlap :: "ticket \<Rightarrow> ticket \<Rightarrow> rat" where
  "signalScopeOverlap a b = (if scopesOverlap a b then 1 else 0)"

definition matched_files :: "ticket \<Rightarrow> path list \<Rightarrow> path list" where
  "matched_files t repoFiles = filter (inScope t) repoFiles"

text \<open>What a forecast reads of the repository.\<close>

record repo =
  repoFiles :: "path list"
  imports_of :: "path \<Rightarrow> string list"
  resolveSpecifier :: "string \<Rightarrow> path \<Rightarrow> path option"

definition import_candidates :: "path \<Rightarrow> path list" where
  "import_candidates resolved =
     [resolved, resolved @ ''.js'', resolved @ ''.mjs'', resolved @ ''.ts'',
      resolved @ ''/index.js'', resolved @ ''/index.mjs'', resolved @ ''/index.ts'']"

definition importRadiusIntersects :: "repo \<Rightarrow> ticket \<Rightarrow> ticket \<Rightarrow> bool" where
  "importRadiusIntersects r a b =
     list_ex (\<lambda>af. list_ex (\<lambda>spec. case resolveSpecifier r spec af of
           None \<Rightarrow> False
         | Some resolved \<Rightarrow> list_ex (inScope b) (import_candidates resolved)) (imports_of r af))
       (matched_files a (repoFiles r))"

definition signalImportRadius :: "repo \<Rightarrow> ticket \<Rightarrow> ticket \<Rightarrow> rat" where
  "signalImportRadius r a b =
     (if importRadiusIntersects r a b then 6 / 10
      else if importRadiusIntersects r b a then 6 / 10 else 0)"

text \<open>\<open>pairKey\<close> of \<^verbatim>\<open>packages/core/lib/git.mjs\<close>.\<close>

definition pairKey :: "path \<Rightarrow> path \<Rightarrow> string" where
  "pairKey a b = (if a < b then a @ CHR 0x00 # b else b @ CHR 0x00 # a)"

record cochange =
  pairCounts :: "(string \<times> nat) list"
  fileCounts :: "(path \<times> nat) list"

definition count_of :: "(string \<times> nat) list \<Rightarrow> string \<Rightarrow> nat" where
  "count_of m k = (case map_of m k of None \<Rightarrow> 0 | Some n \<Rightarrow> n)"

definition MIN_COCHANGE_SUPPORT :: nat where
  "MIN_COCHANGE_SUPPORT = 3"

definition cochange_file_score :: "cochange \<Rightarrow> path \<Rightarrow> path \<Rightarrow> rat" where
  "cochange_file_score d fa fb =
     (if fa = fb then 0
      else let pc = count_of (pairCounts d) (pairKey fa fb)
      in if pc < MIN_COCHANGE_SUPPORT then 0
         else let minCount = min (count_of (fileCounts d) fa) (count_of (fileCounts d) fb)
         in if minCount = 0 then 0 else of_nat pc / of_nat minCount * (1 / 2))"

text \<open>Both loops keep the largest score seen; a skipped pair leaves it as it is (its score is 0 here).\<close>

definition signalCoChange :: "ticket \<Rightarrow> ticket \<Rightarrow> cochange option \<Rightarrow> path list \<Rightarrow> rat" where
  "signalCoChange a b d files = (case d of None \<Rightarrow> 0 | Some d \<Rightarrow>
     min (1 / 2)
       (fold (\<lambda>fa m. fold (\<lambda>fb m. if cochange_file_score d fa fb > m then cochange_file_score d fa fb else m)
          (matched_files b files) m) (matched_files a files) 0))"

text \<open>The regular expression \<open>^\[(.+)\]$\<close> on one path segment.\<close>

definition dynamic_segment :: "string \<Rightarrow> string option" where
  "dynamic_segment part = (case part of [] \<Rightarrow> None | c # rest \<Rightarrow>
     if c = CHR ''['' \<and> rest \<noteq> [] \<and> last rest = CHR '']'' \<and> butlast rest \<noteq> []
       \<and> newline \<notin> set rest \<and> CHR 0x0D \<notin> set rest
     then Some (butlast rest) else None)"

text \<open>The segments of a path that are dynamic, with the path that leads to them.\<close>

fun dynamic_from :: "string list \<Rightarrow> string list \<Rightarrow> (string \<times> string) list" where
  "dynamic_from pre [] = []"
| "dynamic_from pre (part # parts) =
     (case dynamic_segment part of
        None \<Rightarrow> dynamic_from (pre @ [part]) parts
      | Some name \<Rightarrow> (join_with ''/'' pre, name) # dynamic_from (pre @ [part]) parts)"

definition extractDynamicSegments :: "path \<Rightarrow> (string \<times> string) list" where
  "extractDynamicSegments p = dynamic_from [] (split_on CHR ''/'' p)"

definition routeSegments :: "ticket \<Rightarrow> path list \<Rightarrow> (string \<times> string) list" where
  "routeSegments t files = concat (map extractDynamicSegments
     (filter (\<lambda>f. starts_with f ''app/'' \<or> starts_with f ''pages/'') (matched_files t files)))"

definition signalNamespaceRoutes :: "ticket \<Rightarrow> ticket \<Rightarrow> path list \<Rightarrow> bool" where
  "signalNamespaceRoutes a b files =
     list_ex (\<lambda>(pa, sa). list_ex (\<lambda>(pb, sb). pa = pb \<and> sa \<noteq> sb) (routeSegments b files))
       (routeSegments a files)"

text \<open>The regular expression \<open>(?:^|\/)(?:drizzle|migrations)\/(\d+)_\<close>, leftmost match.\<close>

definition mig_digits :: "string \<Rightarrow> string option" where
  "mig_digits s = (let ds = takeWhile is_digit s
     in if ds \<noteq> [] \<and> starts_with (dropWhile is_digit s) ''_'' then Some ds else None)"

definition mig_at :: "string \<Rightarrow> string option" where
  "mig_at s =
     (if starts_with s ''drizzle/'' then mig_digits (drop 8 s)
      else if starts_with s ''migrations/'' then mig_digits (drop 11 s) else None)"

fun mig_scan :: "bool \<Rightarrow> string \<Rightarrow> string option" where
  "mig_scan start [] = None"
| "mig_scan start (c # cs) =
     (case (if start then mig_at (c # cs) else None) of
        Some d \<Rightarrow> Some d
      | None \<Rightarrow> mig_scan (c = CHR ''/'') cs)"

definition migPrefixes :: "ticket \<Rightarrow> path list \<Rightarrow> string set" where
  "migPrefixes t files = set (List.map_filter (mig_scan True) (matched_files t files))"

definition signalMigrationCollision :: "ticket \<Rightarrow> ticket \<Rightarrow> path list \<Rightarrow> bool" where
  "signalMigrationCollision a b files \<longleftrightarrow> migPrefixes a files \<inter> migPrefixes b files \<noteq> {}"

definition signalNamespace :: "ticket \<Rightarrow> ticket \<Rightarrow> path list \<Rightarrow> rat" where
  "signalNamespace a b files =
     (if signalNamespaceRoutes a b files then 8 / 10
      else if signalMigrationCollision a b files then 8 / 10 else 0)"

text \<open>The graph-coupling data after its fields have been read: the \<open>fileCoupling\<close> object, and of
  each edge the source, the target and the weight that the chain of \<open>??\<close> selects.\<close>

record graph_edge =
  e_src :: "path option"
  e_dst :: "path option"
  e_weight :: "rat option"

record coupling =
  fileCoupling :: "(string \<times> rat) list option"
  coupling_edges :: "graph_edge list option"

definition or0 :: "rat option \<Rightarrow> rat" where
  "or0 x = (case x of None \<Rightarrow> 0 | Some v \<Rightarrow> v)"

definition coupling_value :: "(string \<times> rat) list \<Rightarrow> path \<Rightarrow> path \<Rightarrow> rat" where
  "coupling_value fc fa fb =
     (let s1 = (case map_of fc (fa @ ''|'' @ fb) of Some v \<Rightarrow> Some v | None \<Rightarrow> map_of fc (pairKey fa fb));
          s2 = map_of fc (fb @ ''|'' @ fa)
      in max (or0 s1) (or0 s2))"

definition max_coupling :: "(string \<times> rat) list \<Rightarrow> path list \<Rightarrow> path list \<Rightarrow> rat" where
  "max_coupling fc aFiles bFiles =
     fold (\<lambda>fa m. fold (\<lambda>fb m. if fa = fb then m
          else if coupling_value fc fa fb > m then coupling_value fc fa fb else m) bFiles m) aFiles 0"

definition path_matches :: "path \<Rightarrow> path \<Rightarrow> bool" where
  "path_matches s f \<longleftrightarrow> f = s \<or> ends_with f (CHR ''/'' # s) \<or> ends_with s (CHR ''/'' # f)"

definition edge_score :: "path list \<Rightarrow> path list \<Rightarrow> graph_edge \<Rightarrow> rat" where
  "edge_score aFiles bFiles e = (case (e_src e, e_dst e) of
     (Some src, Some dst) \<Rightarrow>
       if src = [] \<or> dst = [] then 0
       else if list_ex (path_matches src) aFiles \<and> list_ex (path_matches dst) bFiles
          \<or> list_ex (path_matches src) bFiles \<and> list_ex (path_matches dst) aFiles
       then (case e_weight e of Some w \<Rightarrow> min 1 w | None \<Rightarrow> 1) * (7 / 10)
       else 0
   | _ \<Rightarrow> 0)"

definition signalGraphCoupling :: "ticket \<Rightarrow> ticket \<Rightarrow> coupling option \<Rightarrow> path list \<Rightarrow> rat" where
  "signalGraphCoupling a b g files = (case g of None \<Rightarrow> 0 | Some g \<Rightarrow>
     (let aFiles = matched_files a files; bFiles = matched_files b files;
          m = (case fileCoupling g of None \<Rightarrow> 0 | Some fc \<Rightarrow> max_coupling fc aFiles bFiles)
      in if m > 0 then min (7 / 10) (if m > 1 then 7 / 10 else m * (7 / 10))
         else (case coupling_edges g of
                 None \<Rightarrow> 0
               | Some es \<Rightarrow> fold (\<lambda>e m. if edge_score aFiles bFiles e > m then edge_score aFiles bFiles e else m) es 0)))"

datatype signal = ScopeOverlap | NamespaceCollision | GraphCoupling | ImportRadius | CoChange | NoSignal | Unscoped

record evidence =
  ev_repo :: repo
  coChangeData :: "cochange option"
  graphCouplingData :: "coupling option"

definition pairScore :: "evidence \<Rightarrow> ticket \<Rightarrow> ticket \<Rightarrow> rat \<times> signal \<times> bool" where
  "pairScore ev a b =
     (if signalScopeOverlap a b \<ge> 1 then (1, ScopeOverlap, True)
      else let files = repoFiles (ev_repo ev);
               s4 = signalNamespace a b files;
               s5 = signalGraphCoupling a b (graphCouplingData ev) files;
               s2 = signalImportRadius (ev_repo ev) a b;
               s3 = signalCoChange a b (coChangeData ev) files;
               score = max (max (max s2 s3) s4) s5;
               signal = (if score = s4 \<and> s4 > 0 then NamespaceCollision
                         else if score = s5 \<and> s5 > 0 then GraphCoupling
                         else if score = s2 \<and> s2 > 0 then ImportRadius
                         else if score = s3 \<and> s3 > 0 then CoChange else NoSignal)
           in (score, signal, False))"

section \<open>The forecast\<close>

datatype verdict = VETO | SEQUENCE | PARALLEL

record pair_result =
  pr_a :: ident
  pr_b :: ident
  pr_score :: rat
  pr_signal :: signal
  pr_verdict :: verdict
  pr_hardVeto :: bool

text \<open>\<open>Math.round (x)\<close>.\<close>

definition math_round :: "rat \<Rightarrow> int" where
  "math_round x = \<lfloor>x + 1 / 2\<rfloor>"

definition round3 :: "rat \<Rightarrow> rat" where
  "round3 x = of_int (math_round (x * 1000)) / 1000"

definition score_pair :: "evidence \<Rightarrow> rat \<Rightarrow> ident set \<Rightarrow> ticket \<times> ticket \<Rightarrow> pair_result" where
  "score_pair ev conflictThreshold unscoped p = (case p of (a, b) \<Rightarrow>
     if t_id a \<in> unscoped \<or> t_id b \<in> unscoped
     then \<lparr>pr_a = t_id a, pr_b = t_id b, pr_score = 1, pr_signal = Unscoped, pr_verdict = SEQUENCE, pr_hardVeto = False\<rparr>
     else (case pairScore ev a b of (score, signal, hardVeto) \<Rightarrow>
       \<lparr>pr_a = t_id a, pr_b = t_id b, pr_score = round3 score, pr_signal = signal,
        pr_verdict = (if hardVeto then VETO else if score \<ge> conflictThreshold then SEQUENCE else PARALLEL),
        pr_hardVeto = hardVeto\<rparr>))"

definition unscopedTicketIds :: "ticket list \<Rightarrow> path list \<Rightarrow> ident set" where
  "unscopedTicketIds ts files =
     set (map t_id (filter (\<lambda>t. t_scope t = [] \<or> filter (inScope t) files = []) ts))"

definition conflict_pairs :: "ident list \<Rightarrow> pair_result list \<Rightarrow> rat \<Rightarrow> string set" where
  "conflict_pairs waveIds prs threshold =
     fold (\<lambda>pr s. if (pr_score pr \<ge> threshold \<or> pr_hardVeto pr) \<and> pr_a pr \<in> set waveIds \<and> pr_b pr \<in> set waveIds
                  then insert (pr_b pr @ ''|'' @ pr_a pr) (insert (pr_a pr @ ''|'' @ pr_b pr) s) else s) prs {}"

definition hasConflict :: "string set \<Rightarrow> ident \<Rightarrow> ident list \<Rightarrow> bool" where
  "hasConflict conflicted i chosen = list_ex (\<lambda>c. (i @ ''|'' @ c) \<in> conflicted) chosen"

definition greedy :: "string set \<Rightarrow> ident list \<Rightarrow> ident list" where
  "greedy conflicted order = fold (\<lambda>i chosen. if hasConflict conflicted i chosen then chosen else chosen @ [i]) order []"

definition computeWaveWidth :: "ident list \<Rightarrow> pair_result list \<Rightarrow> rat \<Rightarrow> nat" where
  "computeWaveWidth waveIds prs threshold =
     (let conflicted = conflict_pairs waveIds prs threshold
      in fold (\<lambda>start best. max best (length (greedy conflicted (drop start waveIds @ take start waveIds))))
           [0..<length waveIds] 0)"

datatype gate_failure =
    DependencyCycle "ident list"
  | CoChangeNotEvaluated
  | WidthExceedsFirstWave int nat nat
  | HighRiskPairs "pair_result list"
datatype warning = NoScope ident | ScopeMatchesNothing ident

record options =
  o_width :: "int option"
  o_buildMin :: "rat option"
  o_mergeMin :: "rat option"
  o_strict :: bool
  conflictThreshold :: rat

record forecast =
  fc_pairs :: "pair_result list"
  fc_waves :: "ident list list"
  fc_mergeOrder :: "ident list"
  firstWaveWidth :: nat
  scheduleWidth :: nat
  backpressureWidth :: "int option"
  recommendedWidth :: int
  coChangeEvaluated :: bool
  graphEvaluated :: bool
  warnings :: "warning list"
  gateFailures :: "gate_failure list"

definition scope_warnings :: "ticket list \<Rightarrow> path list \<Rightarrow> warning list" where
  "scope_warnings ts files = concat (map (\<lambda>t.
     if t_scope t = [] then [NoScope (t_id t)]
     else if filter (inScope t) files = [] then [ScopeMatchesNothing (t_id t)] else []) ts)"

definition cycle_forecast :: "ident list \<Rightarrow> forecast" where
  "cycle_forecast cycle =
     \<lparr>fc_pairs = [], fc_waves = [], fc_mergeOrder = [], firstWaveWidth = 0, scheduleWidth = 0,
      backpressureWidth = None, recommendedWidth = 0, coChangeEvaluated = False, graphEvaluated = False,
      warnings = [], gateFailures = [DependencyCycle cycle]\<rparr>"

text \<open>\<open>waveMap\<close>: the last wave an id is in.\<close>

definition wave_map :: "ident list list \<Rightarrow> (ident \<times> nat) list" where
  "wave_map ws = fold (\<lambda>w m. fold (\<lambda>i m. AList.update i w m) (ws ! w) m) [0..<length ws] []"

definition concurrent_veto :: "ident list list \<Rightarrow> rat \<Rightarrow> pair_result \<Rightarrow> bool" where
  "concurrent_veto ws threshold pr =
     (if pr_signal pr = Unscoped then False
      else if \<not> pr_hardVeto pr \<and> pr_score pr < threshold then False
      else (case (map_of (wave_map ws) (pr_a pr), map_of (wave_map ws) (pr_b pr)) of
              (Some wA, Some wB) \<Rightarrow> wA = wB | _ \<Rightarrow> False))"

definition schedule_width :: "ident list list \<Rightarrow> pair_result list \<Rightarrow> rat \<Rightarrow> nat" where
  "schedule_width ws prs threshold = fold (\<lambda>w widest. max widest (computeWaveWidth w prs threshold)) ws 0"

definition backpressure :: "options \<Rightarrow> int option" where
  "backpressure opts = (case (o_buildMin opts, o_mergeMin opts) of
     (Some bm, Some mm) \<Rightarrow> if mm > 0 then Some (math_round (bm / mm)) else None
   | _ \<Rightarrow> None)"

definition recommended :: "nat \<Rightarrow> options \<Rightarrow> int" where
  "recommended first opts =
     list_min1 (int first)
       ((case backpressure opts of Some b \<Rightarrow> [b] | None \<Rightarrow> []) @ (case o_width opts of Some w \<Rightarrow> [w] | None \<Rightarrow> []))"

definition gate_failures :: "options \<Rightarrow> evidence \<Rightarrow> nat \<Rightarrow> nat \<Rightarrow> pair_result list \<Rightarrow> gate_failure list" where
  "gate_failures opts ev first sched vetoes =
     (if o_strict opts \<and> coChangeData ev = None then [CoChangeNotEvaluated] else [])
     @ (case o_width opts of Some w \<Rightarrow> if w > int first then [WidthExceedsFirstWave w first sched] else [] | None \<Rightarrow> [])
     @ (if vetoes \<noteq> [] then [HighRiskPairs vetoes] else [])"

definition runForecast :: "options \<Rightarrow> evidence \<Rightarrow> ticket list \<Rightarrow> forecast" where
  "runForecast opts ev ts =
     (case topoSort ts of
        (_, Some (c # cs)) \<Rightarrow> cycle_forecast (c # cs)
      | _ \<Rightarrow>
        let files = repoFiles (ev_repo ev);
            threshold = conflictThreshold opts;
            prs = map (score_pair ev threshold (unscopedTicketIds ts files)) (parallelEligiblePairs ts);
            ws = topoWaves ts;
            wave1 = (case ws of [] \<Rightarrow> [] | w # _ \<Rightarrow> w);
            first = computeWaveWidth wave1 prs threshold;
            sched = schedule_width ws prs threshold;
            vetoes = filter (concurrent_veto ws threshold) prs
        in \<lparr>fc_pairs = prs, fc_waves = ws, fc_mergeOrder = mergeOrder ts, firstWaveWidth = first,
            scheduleWidth = sched, backpressureWidth = backpressure opts,
            recommendedWidth = recommended first opts,
            coChangeEvaluated = (coChangeData ev \<noteq> None), graphEvaluated = (graphCouplingData ev \<noteq> None),
            warnings = scope_warnings ts files, gateFailures = gate_failures opts ev first sched vetoes\<rparr>)"

section \<open>The width of a wave\<close>

definition high_risk :: "rat \<Rightarrow> pair_result \<Rightarrow> bool" where
  "high_risk threshold pr \<longleftrightarrow> pr_score pr \<ge> threshold \<or> pr_hardVeto pr"

definition conflict_free :: "pair_result list \<Rightarrow> rat \<Rightarrow> ident list \<Rightarrow> bool" where
  "conflict_free prs threshold xs \<longleftrightarrow>
     (\<forall>pr\<in>set prs. high_risk threshold pr \<longrightarrow> pr_a pr \<noteq> pr_b pr \<longrightarrow> \<not> (pr_a pr \<in> set xs \<and> pr_b pr \<in> set xs))"

lemma conflict_pairs_mono:
  "s \<subseteq> fold (\<lambda>pr s. if (pr_score pr \<ge> th \<or> pr_hardVeto pr) \<and> pr_a pr \<in> W \<and> pr_b pr \<in> W
        then insert (pr_b pr @ ''|'' @ pr_a pr) (insert (pr_a pr @ ''|'' @ pr_b pr) s) else s) prs s"
proof (induction prs arbitrary: s)
  case (Cons pr prs)
  show ?case by (simp only: fold_simps, rule order_trans [OF _ Cons.IH]) auto
qed simp

lemma conflict_pairs_mem:
  assumes "pr \<in> set prs" and "high_risk th pr" and "pr_a pr \<in> set w" and "pr_b pr \<in> set w"
  shows "pr_a pr @ ''|'' @ pr_b pr \<in> conflict_pairs w prs th" and "pr_b pr @ ''|'' @ pr_a pr \<in> conflict_pairs w prs th"
proof -
  obtain us vs where prs: "prs = us @ pr # vs" using assms(1) by (meson split_list)
  have "insert (pr_b pr @ ''|'' @ pr_a pr) (insert (pr_a pr @ ''|'' @ pr_b pr) s) \<subseteq>
     fold (\<lambda>pr s. if (pr_score pr \<ge> th \<or> pr_hardVeto pr) \<and> pr_a pr \<in> set w \<and> pr_b pr \<in> set w
        then insert (pr_b pr @ ''|'' @ pr_a pr) (insert (pr_a pr @ ''|'' @ pr_b pr) s) else s) (pr # vs) s" for s
    unfolding fold_simps
    by (rule order_trans [OF _ conflict_pairs_mono]) (use assms(2-4) in \<open>auto simp: high_risk_def\<close>)
  then show "pr_a pr @ ''|'' @ pr_b pr \<in> conflict_pairs w prs th" "pr_b pr @ ''|'' @ pr_a pr \<in> conflict_pairs w prs th"
    unfolding conflict_pairs_def prs fold_append comp_def by blast+
qed

text \<open>The greedy choice: ids of the order, and no later one in conflict with an earlier one.\<close>

definition independent :: "string set \<Rightarrow> ident list \<Rightarrow> bool" where
  "independent c xs \<longleftrightarrow> (\<forall>us i vs. xs = us @ i # vs \<longrightarrow> \<not> hasConflict c i us)"

lemma greedy_spec:
  "set (greedy c order) \<subseteq> set order \<and> independent c (greedy c order) \<and> (distinct order \<longrightarrow> distinct (greedy c order))"
proof (induction order rule: rev_induct)
  case (snoc i order)
  let ?g = "greedy c order"
  have g: "greedy c (order @ [i]) = (if hasConflict c i ?g then ?g else ?g @ [i])"
    by (simp add: greedy_def)
  have "independent c (?g @ [i])" if "\<not> hasConflict c i ?g"
    using that snoc.IH by (auto simp: independent_def append_eq_append_conv2 append_eq_Cons_conv Cons_eq_append_conv)
  with snoc.IH show ?case unfolding g by auto
qed (simp add: greedy_def independent_def)

lemma independent_conflict_free:
  assumes "independent (conflict_pairs w prs th) xs" and "set xs \<subseteq> set w"
  shows "conflict_free prs th xs"
  unfolding conflict_free_def
proof (intro ballI impI notI)
  fix pr assume pr: "pr \<in> set prs" "high_risk th pr" "pr_a pr \<noteq> pr_b pr" "pr_a pr \<in> set xs \<and> pr_b pr \<in> set xs"
  have key: "pr_a pr @ ''|'' @ pr_b pr \<in> conflict_pairs w prs th" "pr_b pr @ ''|'' @ pr_a pr \<in> conflict_pairs w prs th"
    using conflict_pairs_mem [OF pr(1,2), of w] pr(4) assms(2) by auto
  obtain us vs where xs: "xs = us @ pr_a pr # vs" using pr(4) by (meson split_list)
  show False
  proof (cases "pr_b pr \<in> set us")
    case True
    then show False using assms(1) key xs by (auto simp: independent_def hasConflict_def list_ex_iff)
  next
    case False
    then have "pr_b pr \<in> set vs" using pr(3,4) xs by auto
    then obtain ys zs where "vs = ys @ pr_b pr # zs" by (meson split_list)
    then have "xs = (us @ pr_a pr # ys) @ pr_b pr # zs" using xs by simp
    then have "\<not> hasConflict (conflict_pairs w prs th) (pr_b pr) (us @ pr_a pr # ys)"
      using assms(1) unfolding independent_def by blast
    then show False using key by (auto simp: hasConflict_def)
  qed
qed

lemma computeWaveWidth_sound:
  assumes "distinct w"
  shows "\<exists>xs. distinct xs \<and> set xs \<subseteq> set w \<and> length xs = computeWaveWidth w prs th \<and> conflict_free prs th xs"
proof -
  let ?c = "conflict_pairs w prs th"
  let ?P = "\<lambda>(k::nat) best. \<exists>xs. distinct xs \<and> set xs \<subseteq> set w \<and> length xs = best \<and> conflict_free prs th xs"
  have "?P (length w) (fold (\<lambda>start best. max best (length (greedy ?c (drop start w @ take start w)))) [0..<length w] 0)"
  proof (rule loop_upt [where P = ?P])
    show "?P 0 0" by (auto simp: conflict_free_def)
    fix i best assume "i < length w" "?P i best"
    have s: "set (drop i w @ take i w) = set w" by (metis append_take_drop_id set_append sup_commute)
    have d: "distinct (drop i w @ take i w)" using assms
      by (metis append_take_drop_id distinct_append inf_commute)
    have "?P i (length (greedy ?c (drop i w @ take i w)))"
      using greedy_spec [of ?c "drop i w @ take i w"] d s independent_conflict_free [of w prs th] by auto
    with \<open>?P i best\<close> show "?P (Suc i) (max best (length (greedy ?c (drop i w @ take i w))))"
      unfolding max_def by presburger
  qed
  then show ?thesis unfolding computeWaveWidth_def Let_def .
qed

lemma computeWaveWidth_pos:
  assumes "w \<noteq> []"
  shows "1 \<le> computeWaveWidth w prs th"
proof -
  let ?c = "conflict_pairs w prs th"
  have first: "\<exists>ys. fold (\<lambda>i chosen. if hasConflict c i chosen then chosen else chosen @ [i]) is xs = xs @ ys" for c "is" xs
  proof (induction "is" arbitrary: xs)
    case (Cons a "is")
    from Cons.IH [of "xs @ [a]"] Cons.IH [of xs] show ?case by auto
  qed simp
  have "1 \<le> length (greedy ?c w)"
  proof (cases w)
    case (Cons i "is")
    then show ?thesis using first [of ?c "is" "[i]"] by (auto simp: greedy_def hasConflict_def)
  qed (use assms in simp)
  have "0 < k \<longrightarrow> 1 \<le> fold (\<lambda>start best. max best (length (greedy ?c (drop start w @ take start w)))) [0..<k] 0" for k
  proof (rule loop_upt [where P = "\<lambda>k best. 0 < k \<longrightarrow> 1 \<le> best"])
    fix i t :: nat assume "0 < i \<longrightarrow> 1 \<le> t"
    then show "0 < Suc i \<longrightarrow> 1 \<le> max t (length (greedy ?c (drop i w @ take i w)))"
      using \<open>1 \<le> length (greedy ?c w)\<close> by (cases i) auto
  qed simp
  then show ?thesis using assms by (simp add: computeWaveWidth_def)
qed

section \<open>What a forecast without gate failures means\<close>

lemma wave_map_iff:
  assumes "distinct (concat ws)"
  shows "map_of (wave_map ws) i = Some k \<longleftrightarrow> k < length ws \<and> i \<in> set (ws ! k)"
proof -
  let ?f = "\<lambda>w m. fold (\<lambda>i m. AList.update i w m) (ws ! w) m"
  have inner: "map_of (fold (\<lambda>i m. AList.update i w m) xs m) j = (if j \<in> set xs then Some w else map_of m j)"
    for w :: nat and xs and m and j :: ident
    by (induction xs arbitrary: m) auto
  have dj: "a = b" if "i \<in> set (ws ! a)" "i \<in> set (ws ! b)" "a < length ws" "b < length ws" for i a b
  proof (rule ccontr)
    assume "a \<noteq> b"
    have "set (ws ! a) \<inter> set (ws ! b) = {}"
      if "distinct (concat ws)" "a < b" "b < length ws" for a b and ws :: "ident list list"
      using that
    proof (induction ws arbitrary: a b)
      case (Cons w ws)
      then obtain b' where b: "b = Suc b'" by (cases b) auto
      show ?case
      proof (cases a)
        case 0
        have "set (ws ! b') \<subseteq> set (concat ws)" using Cons.prems(3) b by (auto intro!: bexI [of _ "ws ! b'"])
        then show ?thesis using Cons.prems(1) 0 b by auto
      next
        case (Suc a')
        then show ?thesis using Cons.IH [of a' b'] Cons.prems b by auto
      qed
    qed simp
    from this [OF assms] \<open>a \<noteq> b\<close> that show False by (metis IntI empty_iff nat_neq_iff)
  qed
  let ?P = "\<lambda>n m. \<forall>k. map_of m i = Some k \<longleftrightarrow> k < n \<and> i \<in> set (ws ! k)"
  have "?P (length ws) (fold ?f [0..<length ws] [])"
  proof (rule loop_upt [where P = ?P])
    fix n m assume n: "n < length ws" and P: "?P n m"
    show "?P (Suc n) (?f n m)"
    proof (intro allI)
      fix k
      show "map_of (?f n m) i = Some k \<longleftrightarrow> k < Suc n \<and> i \<in> set (ws ! k)"
      proof (cases "i \<in> set (ws ! n)")
        case True
        have "k < Suc n \<and> i \<in> set (ws ! k) \<longleftrightarrow> k = n" using True dj [of i k n] n by auto
        then show ?thesis using True by (auto simp: inner)
      next
        case False
        then show ?thesis using P by (auto simp: inner less_Suc_eq)
      qed
    qed
  qed simp
  then show ?thesis by (simp add: wave_map_def)
qed

text \<open>Tickets of one wave are independent.\<close>

lemma trancl_earlier_wave:
  "(a, v) \<in> (dep ts)\<^sup>+ \<Longrightarrow> v \<in> set w \<Longrightarrow> layered ts {} None (us @ w # vs) \<Longrightarrow> a \<in> set (concat us)"
proof (induction arbitrary: us w vs rule: trancl_induct)
  case (base v)
  then show ?case using layered_split(1) [of ts "{}" None us w vs v a] by simp
next
  case (step b v)
  have "b \<in> set (concat us)" using layered_split(1) [OF step.prems(2,1)] step.hyps(2) by simp
  then obtain u where u: "u \<in> set us" "b \<in> set u" by auto
  then obtain us1 us2 where us: "us = us1 @ u # us2" by (meson split_list)
  have "a \<in> set (concat us1)" using step.IH [OF u(2), of us1 "us2 @ w # vs"] step.prems(2) us by simp
  then show ?case using us by simp
qed

lemma same_wave_independent:
  assumes w: "wf_tickets ts" and "topoWaves ts = us @ w # vs" and "a \<in> set w" and "b \<in> set w"
  shows "(a, b) \<notin> (dep ts)\<^sup>+"
proof
  assume "(a, b) \<in> (dep ts)\<^sup>+"
  have "a \<in> set (concat us)"
    by (rule trancl_earlier_wave [of a b ts w us vs])
       (use topoWaves_spec(1) [OF wf_tickets_graph [OF w]] assms \<open>(a, b) \<in> (dep ts)\<^sup>+\<close> in simp_all)
  moreover have "distinct (concat (topoWaves ts))"
    using topoWaves_spec(2) [OF wf_tickets_graph [OF w]] topo_order_wf(2) [OF w] by (simp add: mergeOrder_def)
  ultimately show False using assms(2,3) by auto
qed

lemma split_two:
  assumes "a \<in> set xs" and "b \<in> set xs" and "a \<noteq> b"
  shows "(\<exists>us vs ws. xs = us @ a # vs @ b # ws) \<or> (\<exists>us vs ws. xs = us @ b # vs @ a # ws)"
proof -
  obtain us vs where xs: "xs = us @ a # vs" using assms(1) by (meson split_list)
  show ?thesis
  proof (cases "b \<in> set vs")
    case True
    then obtain ys zs where "vs = ys @ b # zs" by (meson split_list)
    then show ?thesis using xs by blast
  next
    case False
    then have "b \<in> set us" using assms xs by auto
    then obtain ys zs where "us = ys @ b # zs" by (meson split_list)
    then have "xs = ys @ b # zs @ a # vs" using xs by simp
    then show ?thesis by blast
  qed
qed

lemma runForecast_wf:
  assumes "wf_tickets ts"
  shows "fc_waves (runForecast opts ev ts) = topoWaves ts"
    and "fc_mergeOrder (runForecast opts ev ts) = topo_order ts"
    and "fc_pairs (runForecast opts ev ts) =
      map (score_pair ev (conflictThreshold opts) (unscopedTicketIds ts (repoFiles (ev_repo ev)))) (parallelEligiblePairs ts)"
    and "gateFailures (runForecast opts ev ts) = [] \<Longrightarrow> pr \<in> set (fc_pairs (runForecast opts ev ts))
      \<Longrightarrow> \<not> concurrent_veto (topoWaves ts) (conflictThreshold opts) pr"
  using topo_order_wf(4) [OF assms] topoWaves_spec(2) [OF wf_tickets_graph [OF assms]]
  by (auto simp: runForecast_def Let_def gate_failures_def filter_empty_conv split: if_splits)

lemma forecast_clean_disjoint:
  assumes w: "wf_tickets ts" and s: "simple_edges ts"
    and clean: "gateFailures (runForecast opts ev ts) = []"
    and wave: "wv \<in> set (topoWaves ts)" and ab: "a \<in> set ts" "b \<in> set ts" "t_id a \<in> set wv" "t_id b \<in> set wv" "a \<noteq> b"
    and scoped: "\<exists>f\<in>set (repoFiles (ev_repo ev)). inScope a f" "\<exists>f\<in>set (repoFiles (ev_repo ev)). inScope b f"
  shows "\<not> scopesOverlap a b"
proof
  assume ov: "scopesOverlap a b"
  have d: "distinct (ids ts)" using w by (simp add: wf_tickets_def wf_graph_def)
  obtain us vs where ws: "topoWaves ts = us @ wv # vs" using wave by (meson split_list)
  have ind: "(t_id a, t_id b) \<notin> (dep ts)\<^sup>+" "(t_id b, t_id a) \<notin> (dep ts)\<^sup>+"
    using same_wave_independent [OF w ws] ab(3,4) by auto
  let ?U = "unscopedTicketIds ts (repoFiles (ev_repo ev))"
  have sc: "t_id x \<notin> ?U" if "x \<in> set ts" "\<exists>f\<in>set (repoFiles (ev_repo ev)). inScope x f" for x
  proof
    assume "t_id x \<in> ?U"
    then obtain y where "y \<in> set ts" "t_id y = t_id x"
      "t_scope y = [] \<or> filter (inScope y) (repoFiles (ev_repo ev)) = []"
      by (auto simp: unscopedTicketIds_def)
    moreover have "y = x" using ticket_by_id [OF d] that(1) calculation(1,2) by blast
    ultimately show False using that(2) by (auto simp: filter_empty_conv inScope_def)
  qed
  have conc: "concurrent_veto (topoWaves ts) th pr"
    if "pr_a pr \<in> set wv" "pr_b pr \<in> set wv" "pr_signal pr \<noteq> Unscoped" "pr_hardVeto pr" for th pr
  proof -
    have dc: "distinct (concat (topoWaves ts))"
      using topoWaves_spec(2) [OF wf_tickets_graph [OF w]] topo_order_wf(2) [OF w] by (simp add: mergeOrder_def)
    have "map_of (wave_map (topoWaves ts)) x = Some (length us)" if "x \<in> set wv" for x
      unfolding wave_map_iff [OF dc] using that ws by simp
    then show ?thesis using that by (simp add: concurrent_veto_def)
  qed
  have pair: "\<not> (x, y) \<in> set (parallelEligiblePairs ts)"
    if "scopesOverlap x y" "x \<in> set ts" "y \<in> set ts" "t_id x \<in> set wv" "t_id y \<in> set wv"
      "t_id x \<notin> ?U" "t_id y \<notin> ?U" for x y
  proof
    let ?pr = "score_pair ev (conflictThreshold opts) ?U (x, y)"
    assume "(x, y) \<in> set (parallelEligiblePairs ts)"
    then have "?pr \<in> set (fc_pairs (runForecast opts ev ts))"
      by (simp add: runForecast_wf(3) [OF w])
    then have "\<not> concurrent_veto (topoWaves ts) (conflictThreshold opts) ?pr"
      using runForecast_wf(4) [OF w clean] by blast
    moreover have "pr_a ?pr \<in> set wv" "pr_b ?pr \<in> set wv" "pr_signal ?pr \<noteq> Unscoped" "pr_hardVeto ?pr"
      using that by (simp_all add: score_pair_def pairScore_def signalScopeOverlap_def)
    ultimately show False using conc by blast
  qed
  from split_two [OF ab(1,2,5)] show False
  proof
    assume "\<exists>us vs ws. ts = us @ a # vs @ b # ws"
    then have "(a, b) \<in> set (parallelEligiblePairs ts)" using parallelEligiblePairs_iff [OF w s] ind by blast
    then show False using pair [OF ov] ab sc scoped by blast
  next
    assume "\<exists>us vs ws. ts = us @ b # vs @ a # ws"
    then have "(b, a) \<in> set (parallelEligiblePairs ts)" using parallelEligiblePairs_iff [OF w s] ind by blast
    then show False using pair [of b a] ov scopesOverlap_sym [of a b] ab sc scoped by blast
  qed
qed

section \<open>Properties\<close>

text \<open>The width computed for a wave is at least one for a non-empty wave, and it is achieved: there
  are that many distinct tickets of the wave of which no two form a high-risk pair.\<close>

theorem computeWaveWidth_achieved:
  assumes "distinct wave"
  shows "(\<exists>xs. distinct xs \<and> set xs \<subseteq> set wave \<and> length xs = computeWaveWidth wave prs th \<and> conflict_free prs th xs)
    \<and> (wave \<noteq> [] \<longrightarrow> 1 \<le> computeWaveWidth wave prs th)"
  using computeWaveWidth_sound [OF assms] computeWaveWidth_pos by blast

theorem computeWaveWidth_achieved_witness:
  "\<exists>xs. distinct xs \<and> set xs \<subseteq> set [''A'', ''B'', ''C''] \<and> length xs = 2 \<and> conflict_free
     [\<lparr>pr_a = ''A'', pr_b = ''B'', pr_score = 1, pr_signal = ScopeOverlap, pr_verdict = VETO, pr_hardVeto = True\<rparr>] (1/2) xs"
proof -
  have d: "distinct [''A'', ''B'', ''C'']" by simp
  have w: "computeWaveWidth [''A'', ''B'', ''C'']
    [\<lparr>pr_a = ''A'', pr_b = ''B'', pr_score = 1, pr_signal = ScopeOverlap, pr_verdict = VETO, pr_hardVeto = True\<rparr>] (1/2) = 2"
    by code_simp
  show ?thesis
    using computeWaveWidth_achieved [OF d, of "[\<lparr>pr_a = ''A'', pr_b = ''B'', pr_score = 1, pr_signal = ScopeOverlap,
      pr_verdict = VETO, pr_hardVeto = True\<rparr>]" "1/2"] unfolding w by blast
qed

text \<open>When a forecast reports no gate failure, two tickets of one wave that both match a file of the
  repository never have overlapping scopes, so they can be built at the same time.\<close>

theorem forecast_clean:
  assumes "wf_tickets ts" and "simple_edges ts" and "gateFailures (runForecast opts ev ts) = []"
    and "wv \<in> set (topoWaves ts)" and "a \<in> set ts" and "b \<in> set ts" and "t_id a \<in> set wv" and "t_id b \<in> set wv"
    and "a \<noteq> b"
    and "\<exists>f\<in>set (repoFiles (ev_repo ev)). inScope a f" and "\<exists>f\<in>set (repoFiles (ev_repo ev)). inScope b f"
  shows "\<not> scopesOverlap a b"
  by (rule forecast_clean_disjoint [OF assms])

definition demo_evidence :: "path list \<Rightarrow> coupling option \<Rightarrow> evidence" where
  "demo_evidence files g = \<lparr>ev_repo = \<lparr>repoFiles = files, imports_of = (\<lambda>_. []), resolveSpecifier = (\<lambda>_ _. None)\<rparr>,
     coChangeData = None, graphCouplingData = g\<rparr>"

definition demo_options :: options where
  "demo_options = \<lparr>o_width = None, o_buildMin = None, o_mergeMin = None, o_strict = False, conflictThreshold = 1 / 2\<rparr>"

lemma wf_pair: "wf_tickets [demo_ticket ''A'' [] False, demo_ticket ''B'' [] False]"
  by (simp add: wf_tickets_def wf_graph_def ids_def duration_pos_def dep_Cons dep_Nil demo_ticket_def acyclic_def)

theorem forecast_clean_witness:
  "\<not> scopesOverlap (demo_ticket ''A'' [] False) (demo_ticket ''B'' [] False)"
proof (rule forecast_clean [OF wf_pair, where opts = demo_options and ev = "demo_evidence [''A/x'', ''B/y''] None"
      and wv = "[''A'', ''B'']"])
  show "simple_edges [demo_ticket ''A'' [] False, demo_ticket ''B'' [] False]"
    by (simp add: simple_edges_def demo_ticket_def)
  show "gateFailures (runForecast demo_options (demo_evidence [''A/x'', ''B/y''] None)
      [demo_ticket ''A'' [] False, demo_ticket ''B'' [] False]) = []" by code_simp
  show "[''A'', ''B''] \<in> set (topoWaves [demo_ticket ''A'' [] False, demo_ticket ''B'' [] False])" by code_simp
  show "\<exists>f\<in>set (repoFiles (ev_repo (demo_evidence [''A/x'', ''B/y''] None))). inScope (demo_ticket ''A'' [] False) f"
    "\<exists>f\<in>set (repoFiles (ev_repo (demo_evidence [''A/x'', ''B/y''] None))). inScope (demo_ticket ''B'' [] False) f"
    by code_simp+
qed (simp_all add: demo_ticket_def)

text \<open>A pair score is rounded to three digits only after its verdict is chosen, while the gate reads
  the rounded score: two tickets with a coupling of 0.7137 get the verdict PARALLEL, because 0.49959
  is below the threshold 0.5, and are reported as a high-risk pair all the same.\<close>

theorem rounded_pair_contradicts_verdict:
  "map pr_verdict (fc_pairs (runForecast demo_options
       (demo_evidence [''A/x'', ''B/y''] (Some \<lparr>fileCoupling = Some [(''A/x|B/y'', 7137 / 10000)], coupling_edges = None\<rparr>))
       [demo_ticket ''A'' [] False, demo_ticket ''B'' [] False])) = [PARALLEL]
   \<and> gateFailures (runForecast demo_options
       (demo_evidence [''A/x'', ''B/y''] (Some \<lparr>fileCoupling = Some [(''A/x|B/y'', 7137 / 10000)], coupling_edges = None\<rparr>))
       [demo_ticket ''A'' [] False, demo_ticket ''B'' [] False])
     = [HighRiskPairs [\<lparr>pr_a = ''A'', pr_b = ''B'', pr_score = 1 / 2, pr_signal = GraphCoupling,
          pr_verdict = PARALLEL, pr_hardVeto = False\<rparr>]]"
  by code_simp

end
