(* ===== verification/TicketFloat.thy ===== *)
theory TicketFloat
  imports TicketDag
begin

text \<open>
  The critical-path method, \<open>computeFloat\<close> of \<^verbatim>\<open>packages/core/lib/tickets.mjs\<close>.

  A number is a \<open>rat option\<close>: \<open>None\<close> is \<open>NaN\<close>, which every arithmetic operation and
  \<open>Math.max\<close>/\<open>Math.min\<close> propagate; an absent property read as a number is \<open>NaN\<close> as well.
\<close>

type_synonym num = "rat option"

definition num_add :: "num \<Rightarrow> num \<Rightarrow> num" where
  "num_add a b = (case a of None \<Rightarrow> None | Some x \<Rightarrow> (case b of None \<Rightarrow> None | Some y \<Rightarrow> Some (x + y)))"

definition num_sub :: "num \<Rightarrow> num \<Rightarrow> num" where
  "num_sub a b = (case a of None \<Rightarrow> None | Some x \<Rightarrow> (case b of None \<Rightarrow> None | Some y \<Rightarrow> Some (x - y)))"

text \<open>\<open>Math.max (0, ...xs)\<close>.\<close>

definition math_max0 :: "num list \<Rightarrow> num" where
  "math_max0 xs = (if None \<in> set xs then None else Some (list_max 0 (map the xs)))"

text \<open>\<open>Math.min (...xs)\<close>, which the code calls on a non-empty list only.\<close>

definition math_min :: "num list \<Rightarrow> num" where
  "math_min xs = (if None \<in> set xs then None
     else (case map the xs of [] \<Rightarrow> None | y # ys \<Rightarrow> Some (list_min1 y ys)))"

lemma num_simps [simp]:
  "num_add (Some x) (Some y) = Some (x + y)"
  "num_sub (Some x) (Some y) = Some (x - y)"
  "math_max0 (map (\<lambda>a. Some (f a)) as) = Some (list_max 0 (map f as))"
  "math_min (map (\<lambda>a. Some (f a)) (a # as)) = Some (list_min1 (f a) (map f as))"
  by (auto simp: num_add_def num_sub_def math_max0_def math_min_def comp_def)

datatype float_error = CycleError "ident list" | UnknownEdgeTarget

record cpm =
  floats :: "(ident \<times> num) list"
  criticalPath :: "ident list"
  makespan :: num

definition by_id :: "ticket list \<Rightarrow> ident \<Rightarrow> ticket option" where
  "by_id ts = map_of (rev (map (\<lambda>t. (t_id t, t)) ts))"

text \<open>\<open>byId[id].duration ?? 1\<close>; the ids asked for are ids of tickets.\<close>

definition dur :: "ticket list \<Rightarrow> ident \<Rightarrow> rat" where
  "dur ts i = (case by_id ts i of
      Some t \<Rightarrow> (case t_duration t of Some d \<Rightarrow> d | None \<Rightarrow> 1)
    | None \<Rightarrow> 1)"

definition preds :: "ticket list \<Rightarrow> ident \<Rightarrow> ident list" where
  "preds ts = fold (\<lambda>t. fold (\<lambda>j p. p(j := p j @ [t_id t])) (t_edges t)) ts (\<lambda>_. [])"

definition succs :: "ticket list \<Rightarrow> ident \<Rightarrow> ident list" where
  "succs ts i = (case by_id ts i of Some t \<Rightarrow> t_edges t | None \<Rightarrow> [])"

definition finish_step :: "ticket list \<Rightarrow> ident \<Rightarrow> (ident \<Rightarrow> num) \<Rightarrow> num" where
  "finish_step ts i ef = num_add (math_max0 (map ef (preds ts i))) (Some (dur ts i))"

definition earliestFinish :: "ticket list \<Rightarrow> ident list \<Rightarrow> ident \<Rightarrow> num" where
  "earliestFinish ts order = fold (\<lambda>i ef. ef(i := finish_step ts i ef)) order (\<lambda>_. None)"

definition latest_step :: "ticket list \<Rightarrow> num \<Rightarrow> ident \<Rightarrow> (ident \<Rightarrow> num) \<Rightarrow> num" where
  "latest_step ts mk i lf =
     (if succs ts i \<noteq> [] then math_min (map (\<lambda>s. num_sub (lf s) (Some (dur ts s))) (succs ts i)) else mk)"

definition latestFinish :: "ticket list \<Rightarrow> num \<Rightarrow> ident list \<Rightarrow> ident \<Rightarrow> num" where
  "latestFinish ts mk order = fold (\<lambda>i lf. lf(i := latest_step ts mk i lf)) (rev order) (\<lambda>_. None)"

definition computeFloat :: "ticket list \<Rightarrow> float_error + cpm" where
  "computeFloat ts =
     (case topoSort ts of
        (order, Some cycle) \<Rightarrow> Inl (CycleError cycle)
      | (order, None) \<Rightarrow>
          if list_ex (\<lambda>t. list_ex (\<lambda>j. j \<notin> set (ids ts)) (t_edges t)) ts then Inl UnknownEdgeTarget
          else
            let ef = earliestFinish ts order;
                mk = math_max0 (map ef order);
                lf = latestFinish ts mk order;
                fl = (\<lambda>i. num_sub (lf i) (ef i))
            in Inr \<lparr>floats = map (\<lambda>i. (i, fl i)) order,
                    criticalPath = filter (\<lambda>i. fl i = Some 0) order,
                    makespan = mk\<rparr>)"

section \<open>Durations, predecessors and successors\<close>

lemma by_id_eq:
  assumes "distinct (ids ts)" and "t \<in> set ts"
  shows "by_id ts (t_id t) = Some t"
proof -
  have "distinct (map fst (rev (map (\<lambda>t. (t_id t, t)) ts)))"
    using assms(1) by (simp add: ids_def rev_map [symmetric] comp_def)
  moreover have "(t_id t, t) \<in> set (rev (map (\<lambda>t. (t_id t, t)) ts))" using assms(2) by auto
  ultimately show ?thesis unfolding by_id_def by simp
qed

lemma by_id_in: "by_id ts i = Some t \<Longrightarrow> t \<in> set ts \<and> t_id t = i"
  unfolding by_id_def by (auto dest: map_of_SomeD)

lemma dur_pos:
  assumes "wf_tickets ts"
  shows "0 < dur ts i"
  using assms by (auto simp: dur_def wf_tickets_def duration_pos_def dest!: by_id_in split: option.splits)

lemma set_preds: "set (preds ts v) = {a. (a, v) \<in> dep ts}"
proof -
  have 1: "set (fold (\<lambda>j p. p(j := p j @ [i])) js p v) = set (p v) \<union> (if v \<in> set js then {i} else {})"
    for js p and i :: ident
    by (induction js arbitrary: p) auto
  have dep_Cons: "{a. (a, v) \<in> dep (t # us)} = (if v \<in> set (t_edges t) then {t_id t} else {}) \<union> {a. (a, v) \<in> dep us}"
    for t and us :: "ticket list"
    by (auto simp: dep_def)
  have "set (fold (\<lambda>t. fold (\<lambda>j p. p(j := p j @ [t_id t])) (t_edges t)) us p v) = set (p v) \<union> {a. (a, v) \<in> dep us}"
    for us :: "ticket list" and p
  proof (induction us arbitrary: p)
    case (Cons t us)
    show ?case by (simp add: Cons.IH 1 dep_Cons Un_assoc del: fun_upd_apply)
  qed (simp add: dep_def)
  then show ?thesis by (simp add: preds_def)
qed

lemma set_succs:
  assumes "wf_graph ts"
  shows "set (succs ts v) = {b. (v, b) \<in> dep ts}"
proof -
  have d: "distinct (ids ts)" using assms by (simp add: wf_graph_def)
  show ?thesis
  proof (cases "by_id ts v")
    case None
    then have "v \<notin> set (ids ts)" by (force simp: ids_def dest: by_id_eq [OF d])
    then have "(v, b) \<notin> dep ts" for b unfolding dep_def ids_def by force
    then show ?thesis by (simp add: None succs_def)
  next
    case (Some t)
    from by_id_in [OF this] have t: "t \<in> set ts" "t_id t = v" by auto
    have "(v, b) \<in> dep ts \<longleftrightarrow> b \<in> set (t_edges t)" for b
      using dep_edge_iff [OF d t(1)] t(2) by simp
    then show ?thesis by (simp add: Some succs_def)
  qed
qed

section \<open>Tables filled in a topological order\<close>

section \<open>The forward and the backward pass\<close>

lemma finish_step_cong: "(\<And>p. (p, i) \<in> dep ts \<Longrightarrow> f p = g p) \<Longrightarrow> finish_step ts i f = finish_step ts i g"
proof -
  assume "\<And>p. (p, i) \<in> dep ts \<Longrightarrow> f p = g p"
  then have "map f (preds ts i) = map g (preds ts i)" by (simp add: set_preds)
  then show ?thesis unfolding finish_step_def by (simp only:)
qed

lemma latest_step_cong:
  "wf_graph ts \<Longrightarrow> (\<And>s. (i, s) \<in> dep ts \<Longrightarrow> f s = g s) \<Longrightarrow> latest_step ts mk i f = latest_step ts mk i g"
proof -
  assume "wf_graph ts" "\<And>s. (i, s) \<in> dep ts \<Longrightarrow> f s = g s"
  then have "map (\<lambda>s. num_sub (f s) (Some (dur ts s))) (succs ts i) = map (\<lambda>s. num_sub (g s) (Some (dur ts s))) (succs ts i)"
    by (simp add: set_succs)
  then show ?thesis unfolding latest_step_def by (simp only:)
qed

definition ef :: "ticket list \<Rightarrow> ident \<Rightarrow> num" where
  "ef ts = earliestFinish ts (topo_order ts)"

definition lf :: "ticket list \<Rightarrow> num \<Rightarrow> ident \<Rightarrow> num" where
  "lf ts mk = latestFinish ts mk (topo_order ts)"

lemma ef_eq:
  assumes "wf_tickets ts" and "i \<in> set (ids ts)"
  shows "ef ts i = finish_step ts i (ef ts)"
  unfolding ef_def earliestFinish_def
  by (rule kahn.forward_pass [OF assms finish_step_cong])

lemma lf_eq:
  assumes "wf_tickets ts" and "i \<in> set (ids ts)"
  shows "lf ts mk i = latest_step ts mk i (lf ts mk)"
  unfolding lf_def latestFinish_def
  by (rule kahn.backward_pass [OF assms latest_step_cong [OF wf_tickets_graph [OF assms(1)]]])

lemma dep_wf: "wf_tickets ts \<Longrightarrow> wf (dep ts) \<and> wf ((dep ts)\<inverse>)"
proof -
  assume w: "wf_tickets ts"
  have "finite (dep ts)"
    using dep_subset [OF wf_tickets_graph [OF w]] by (rule finite_subset) simp
  then show ?thesis using w by (simp add: wf_tickets_def finite_acyclic_wf finite_acyclic_wf_converse)
qed

lemma dep_ids: "wf_tickets ts \<Longrightarrow> (a, b) \<in> dep ts \<Longrightarrow> a \<in> set (ids ts) \<and> b \<in> set (ids ts)"
  using dep_subset wf_tickets_graph by blast

text \<open>No time is \<open>NaN\<close>.\<close>

lemma ef_Some:
  assumes w: "wf_tickets ts" and "i \<in> set (ids ts)"
  shows "\<exists>x. ef ts i = Some x"
  using conjunct1 [OF dep_wf [OF w]] assms(2)
proof (induction i rule: wf_induct_rule)
  case (less i)
  have "\<forall>p\<in>set (preds ts i). ef ts p \<noteq> None"
    using less.IH dep_ids [OF w] by (fastforce simp: set_preds)
  then have "None \<notin> set (map (ef ts) (preds ts i))" by force
  then show ?case
    by (simp add: ef_eq [OF w less.prems] finish_step_def math_max0_def num_add_def)
qed

lemma lf_Some:
  assumes w: "wf_tickets ts" and "i \<in> set (ids ts)"
  shows "\<exists>x. lf ts (Some mk) i = Some x"
  using conjunct2 [OF dep_wf [OF w]] assms(2)
proof (induction i rule: wf_induct_rule)
  case (less i)
  have "\<forall>s\<in>set (succs ts i). lf ts (Some mk) s \<noteq> None"
    using less.IH dep_ids [OF w] by (fastforce simp: set_succs [OF wf_tickets_graph [OF w]])
  then have "None \<notin> set (map (\<lambda>s. num_sub (lf ts (Some mk) s) (Some (dur ts s))) (succs ts i))"
    by (force simp: num_sub_def split: option.splits)
  then show ?case
    by (auto simp: lf_eq [OF w less.prems] latest_step_def math_min_def split: list.splits)
qed

definition EF :: "ticket list \<Rightarrow> ident \<Rightarrow> rat" where
  "EF ts i = the (ef ts i)"

definition LF :: "ticket list \<Rightarrow> rat \<Rightarrow> ident \<Rightarrow> rat" where
  "LF ts mk i = the (lf ts (Some mk) i)"

lemma ef_EF: "wf_tickets ts \<Longrightarrow> i \<in> set (ids ts) \<Longrightarrow> ef ts i = Some (EF ts i)"
  using ef_Some by (auto simp: EF_def)

lemma lf_LF: "wf_tickets ts \<Longrightarrow> i \<in> set (ids ts) \<Longrightarrow> lf ts (Some mk) i = Some (LF ts mk i)"
  using lf_Some by (force simp: LF_def)

lemma EF_eq:
  assumes w: "wf_tickets ts" and i: "i \<in> set (ids ts)"
  shows "EF ts i = list_max 0 (map (EF ts) (preds ts i)) + dur ts i"
proof -
  have "map (ef ts) (preds ts i) = map (\<lambda>p. Some (EF ts p)) (preds ts i)"
    using dep_ids [OF w] by (auto simp: set_preds ef_EF [OF w])
  then have "ef ts i = num_add (math_max0 (map (\<lambda>p. Some (EF ts p)) (preds ts i))) (Some (dur ts i))"
    using ef_eq [OF w i] unfolding finish_step_def by (simp only:)
  then have "ef ts i = Some (list_max 0 (map (EF ts) (preds ts i)) + dur ts i)" by simp
  then show ?thesis by (simp add: EF_def)
qed

lemma EF_pred:
  assumes w: "wf_tickets ts" and d: "(p, i) \<in> dep ts"
  shows "EF ts p + dur ts i \<le> EF ts i"
  using EF_eq [OF w, of i] dep_ids [OF w d] list_max_ge [of "EF ts p" "map (EF ts) (preds ts i)" 0] d
  by (simp add: set_preds)

lemma EF_ge_dur: "wf_tickets ts \<Longrightarrow> i \<in> set (ids ts) \<Longrightarrow> dur ts i \<le> EF ts i"
  using EF_eq [of ts i] list_max_ge_init [of 0 "map (EF ts) (preds ts i)"] by simp

lemma EF_cases:
  assumes w: "wf_tickets ts" and i: "i \<in> set (ids ts)"
  shows "EF ts i = dur ts i \<or> (\<exists>p. (p, i) \<in> dep ts \<and> EF ts i = EF ts p + dur ts i)"
  using EF_eq [OF w i] list_max_cases [of 0 "map (EF ts) (preds ts i)"]
  by (auto simp: set_preds)

lemma LF_leaf:
  assumes w: "wf_tickets ts" and i: "i \<in> set (ids ts)" and "succs ts i = []"
  shows "LF ts mk i = mk"
  using assms(3) lf_eq [OF w i, of "Some mk"] by (simp add: LF_def latest_step_def)

lemma LF_inner:
  assumes w: "wf_tickets ts" and i: "i \<in> set (ids ts)" and s: "succs ts i = s # ss"
  shows "LF ts mk i = list_min1 (LF ts mk s - dur ts s) (map (\<lambda>s. LF ts mk s - dur ts s) ss)"
proof -
  have "(i, b) \<in> dep ts" if "b \<in> set (s # ss)" for b
    using that set_succs [OF wf_tickets_graph [OF w], of i] s by auto
  then have "\<forall>b\<in>set (s # ss). b \<in> set (ids ts)" using dep_ids [OF w] by blast
  then have "map (\<lambda>s. num_sub (lf ts (Some mk) s) (Some (dur ts s))) (s # ss)
      = map (\<lambda>s. Some (LF ts mk s - dur ts s)) (s # ss)"
    by (simp add: lf_LF [OF w])
  moreover have "lf ts (Some mk) i = math_min (map (\<lambda>s. num_sub (lf ts (Some mk) s) (Some (dur ts s))) (s # ss))"
    using lf_eq [OF w i, of "Some mk"] by (simp add: latest_step_def s del: list.map)
  ultimately have "lf ts (Some mk) i = math_min (map (\<lambda>s. Some (LF ts mk s - dur ts s)) (s # ss))"
    by (simp only:)
  then show ?thesis by (simp add: LF_def del: list.map)
qed

lemma LF_succ:
  assumes w: "wf_tickets ts" and d: "(i, b) \<in> dep ts"
  shows "LF ts mk i \<le> LF ts mk b - dur ts b"
proof -
  have b: "b \<in> set (succs ts i)" using d set_succs [OF wf_tickets_graph [OF w]] by simp
  then obtain s ss where s: "succs ts i = s # ss" by (cases "succs ts i") auto
  show ?thesis
    using LF_inner [OF w _ s, of mk] dep_ids [OF w d] b
      list_min1_le [of "LF ts mk b - dur ts b" "LF ts mk s - dur ts s" "map (\<lambda>s. LF ts mk s - dur ts s) ss"]
    by (auto simp: s)
qed

lemma LF_cases:
  assumes w: "wf_tickets ts" and i: "i \<in> set (ids ts)"
  shows "LF ts mk i = mk \<or> (\<exists>b. (i, b) \<in> dep ts \<and> LF ts mk i = LF ts mk b - dur ts b)"
proof (cases "succs ts i")
  case Nil
  then show ?thesis using LF_leaf [OF w i] by simp
next
  case (Cons s ss)
  have "\<And>b. b \<in> set (s # ss) \<Longrightarrow> (i, b) \<in> dep ts"
    using set_succs [OF wf_tickets_graph [OF w], of i] Cons by auto
  then show ?thesis
    using LF_inner [OF w i Cons, of mk]
      list_min1_cases [of "LF ts mk s - dur ts s" "map (\<lambda>s. LF ts mk s - dur ts s) ss"] by auto
qed

section \<open>Floats, the makespan and the critical path\<close>

definition MK :: "ticket list \<Rightarrow> rat" where
  "MK ts = list_max 0 (map (EF ts) (topo_order ts))"

lemma EF_le_MK: "wf_tickets ts \<Longrightarrow> i \<in> set (ids ts) \<Longrightarrow> EF ts i \<le> MK ts"
  unfolding MK_def by (rule list_max_ge) (simp add: topo_order_wf(1))

lemma LF_le_MK:
  assumes w: "wf_tickets ts" and "i \<in> set (ids ts)"
  shows "LF ts (MK ts) i \<le> MK ts"
  using conjunct2 [OF dep_wf [OF w]] assms(2)
proof (induction i rule: wf_induct_rule)
  case (less i)
  show ?case
    using LF_cases [OF w less.prems, of "MK ts"]
  proof
    assume "\<exists>b. (i, b) \<in> dep ts \<and> LF ts (MK ts) i = LF ts (MK ts) b - dur ts b"
    then obtain b where b: "(i, b) \<in> dep ts" "LF ts (MK ts) i = LF ts (MK ts) b - dur ts b" by auto
    have "LF ts (MK ts) b \<le> MK ts" using less.IH [of b] b(1) dep_ids [OF w b(1)] by simp
    then show ?thesis using b(2) dur_pos [OF w, of b] by simp
  qed simp
qed

lemma EF_le_LF:
  assumes w: "wf_tickets ts" and "i \<in> set (ids ts)"
  shows "EF ts i \<le> LF ts (MK ts) i"
  using conjunct2 [OF dep_wf [OF w]] assms(2)
proof (induction i rule: wf_induct_rule)
  case (less i)
  show ?case
    using LF_cases [OF w less.prems, of "MK ts"]
  proof
    assume "LF ts (MK ts) i = MK ts"
    then show ?thesis using EF_le_MK [OF w less.prems] by simp
  next
    assume "\<exists>b. (i, b) \<in> dep ts \<and> LF ts (MK ts) i = LF ts (MK ts) b - dur ts b"
    then obtain b where b: "(i, b) \<in> dep ts" "LF ts (MK ts) i = LF ts (MK ts) b - dur ts b" by auto
    have "EF ts b \<le> LF ts (MK ts) b" using less.IH [of b] b(1) dep_ids [OF w b(1)] by simp
    then show ?thesis using b(2) EF_pred [OF w b(1)] by simp
  qed
qed

definition float_of :: "ticket list \<Rightarrow> ident \<Rightarrow> rat" where
  "float_of ts i = LF ts (MK ts) i - EF ts i"

lemma computeFloat_eq:
  assumes w: "wf_tickets ts"
  shows "computeFloat ts = Inr \<lparr>floats = map (\<lambda>i. (i, Some (float_of ts i))) (topo_order ts),
     criticalPath = filter (\<lambda>i. float_of ts i = 0) (topo_order ts), makespan = Some (MK ts)\<rparr>"
proof -
  have t: "topoSort ts = (topo_order ts, None)" and s: "set (topo_order ts) = set (ids ts)"
    using topo_order_wf [OF w] by auto
  have known: "\<not> list_ex (\<lambda>t. list_ex (\<lambda>j. j \<notin> set (ids ts)) (t_edges t)) ts"
    using wf_tickets_graph [OF w] by (auto simp: wf_graph_def list_ex_iff)
  have mk: "math_max0 (map (earliestFinish ts (topo_order ts)) (topo_order ts)) = Some (MK ts)"
  proof -
    have "map (earliestFinish ts (topo_order ts)) (topo_order ts) = map (\<lambda>i. Some (EF ts i)) (topo_order ts)"
      using s by (auto simp: ef_EF [OF w, unfolded ef_def])
    then have "math_max0 (map (earliestFinish ts (topo_order ts)) (topo_order ts))
        = math_max0 (map (\<lambda>i. Some (EF ts i)) (topo_order ts))" by (rule arg_cong)
    then show ?thesis by (simp add: MK_def)
  qed
  have fl: "num_sub (latestFinish ts (Some (MK ts)) (topo_order ts) i) (earliestFinish ts (topo_order ts) i)
      = Some (float_of ts i)" if "i \<in> set (topo_order ts)" for i
    using that s ef_EF [OF w, of i, unfolded ef_def] lf_LF [OF w, of i "MK ts", unfolded lf_def]
    by (simp add: float_of_def)
  show ?thesis
    by (simp add: computeFloat_def t known mk fl Let_def cong: filter_cong del: num_simps)
qed

lemma float_nonneg: "wf_tickets ts \<Longrightarrow> i \<in> set (ids ts) \<Longrightarrow> 0 \<le> float_of ts i"
  using EF_le_LF by (simp add: float_of_def)

text \<open>A chain: a non-empty sequence of tickets, each one a prerequisite of the next.\<close>

fun chain :: "ticket list \<Rightarrow> ident list \<Rightarrow> bool" where
  "chain ts [] \<longleftrightarrow> False"
| "chain ts [i] \<longleftrightarrow> i \<in> set (ids ts)"
| "chain ts (i # j # xs) \<longleftrightarrow> (i, j) \<in> dep ts \<and> chain ts (j # xs)"

definition chain_length :: "ticket list \<Rightarrow> ident list \<Rightarrow> rat" where
  "chain_length ts xs = sum_list (map (dur ts) xs)"

lemma chain_snoc: "chain ts xs \<Longrightarrow> (last xs, j) \<in> dep ts \<Longrightarrow> j \<in> set (ids ts) \<Longrightarrow> chain ts (xs @ [j])"
  by (induction ts xs rule: chain.induct) auto

lemma chain_ids: "wf_tickets ts \<Longrightarrow> chain ts xs \<Longrightarrow> set xs \<subseteq> set (ids ts)"
  by (induction ts xs rule: chain.induct) (auto dest: dep_ids)

lemma chain_length_le:
  assumes w: "wf_tickets ts" and "chain ts xs"
  shows "chain_length ts xs \<le> EF ts (last xs) \<and> EF ts (last xs) \<le> MK ts"
proof -
  have "EF ts (hd xs) - dur ts (hd xs) + chain_length ts xs \<le> EF ts (last xs)" if "chain ts xs" for xs
    using that
  proof (induction xs)
    case (Cons i ys)
    show ?case
    proof (cases ys)
      case (Cons j zs)
      then have d: "(i, j) \<in> dep ts" and c: "chain ts ys" using Cons.prems by auto
      from Cons.IH [OF c] EF_pred [OF w d] show ?thesis
        by (simp add: Cons chain_length_def)
    qed (simp add: chain_length_def)
  qed simp
  from this [OF assms(2)] have "EF ts (hd xs) - dur ts (hd xs) + chain_length ts xs \<le> EF ts (last xs)" .
  moreover have "xs \<noteq> []" using assms(2) by auto
  then have "hd xs \<in> set (ids ts)" "last xs \<in> set (ids ts)" using chain_ids [OF assms] by auto
  ultimately show ?thesis using EF_ge_dur [OF w, of "hd xs"] EF_le_MK [OF w, of "last xs"] by simp
qed

text \<open>Every ticket without float ends a chain of tickets without float as long as its earliest finish.\<close>

lemma critical_chain:
  assumes w: "wf_tickets ts" and "i \<in> set (ids ts)" and "float_of ts i = 0"
  shows "\<exists>xs. chain ts xs \<and> last xs = i \<and> chain_length ts xs = EF ts i \<and> (\<forall>j\<in>set xs. float_of ts j = 0)"
  using conjunct1 [OF dep_wf [OF w]] assms(2,3)
proof (induction i rule: wf_induct_rule)
  case (less i)
  show ?case
    using EF_cases [OF w less.prems(1)]
  proof
    assume "EF ts i = dur ts i"
    then show ?thesis using less.prems by (intro exI [of _ "[i]"]) (simp add: chain_length_def)
  next
    assume "\<exists>p. (p, i) \<in> dep ts \<and> EF ts i = EF ts p + dur ts i"
    then obtain p where p: "(p, i) \<in> dep ts" "EF ts i = EF ts p + dur ts i" by auto
    have pi: "p \<in> set (ids ts)" using dep_ids [OF w p(1)] by simp
    have "float_of ts p = 0"
      using LF_succ [OF w p(1), of "MK ts"] EF_le_LF [OF w pi] less.prems(2) p(2)
      by (simp add: float_of_def)
    from less.IH [OF p(1) pi this] obtain xs
      where "chain ts xs" "last xs = p" "chain_length ts xs = EF ts p" "\<forall>j\<in>set xs. float_of ts j = 0"
      by auto
    then show ?thesis
      using p less.prems by (intro exI [of _ "xs @ [i]"]) (auto simp: chain_length_def intro: chain_snoc)
  qed
qed

lemma last_critical:
  assumes w: "wf_tickets ts" and "ts \<noteq> []"
  shows "\<exists>i\<in>set (ids ts). EF ts i = MK ts \<and> float_of ts i = 0"
proof -
  obtain t where "t \<in> set ts" using assms(2) by (cases ts) auto
  then have t: "t_id t \<in> set (ids ts)" by (simp add: ids_def)
  have "0 < MK ts"
    using EF_ge_dur [OF w t] dur_pos [OF w, of "t_id t"] EF_le_MK [OF w t] by simp
  then obtain i where i: "i \<in> set (ids ts)" "EF ts i = MK ts"
    using list_max_cases [of 0 "map (EF ts) (topo_order ts)"] topo_order_wf(1) [OF w]
    by (auto simp: MK_def)
  then have "float_of ts i = 0"
    using LF_le_MK [OF w i(1)] EF_le_LF [OF w i(1)] by (simp add: float_of_def)
  with i show ?thesis by blast
qed

lemma makespan_longest:
  assumes w: "wf_tickets ts" and "ts \<noteq> []"
  shows "\<exists>xs. chain ts xs \<and> chain_length ts xs = MK ts \<and> (\<forall>j\<in>set xs. float_of ts j = 0)"
  using last_critical [OF assms] critical_chain [OF w] by metis

section \<open>Properties\<close>

text \<open>For well-formed tickets \<open>computeFloat\<close> returns a result, and its makespan is the length of
  the longest chain of dependent tickets: no chain is longer, and one made of critical tickets only
  is exactly as long.\<close>

theorem computeFloat_makespan:
  assumes "wf_tickets ts" and "ts \<noteq> []"
  shows "\<exists>r m. computeFloat ts = Inr r \<and> makespan r = Some m
    \<and> (\<forall>xs. chain ts xs \<longrightarrow> chain_length ts xs \<le> m)
    \<and> (\<exists>xs. chain ts xs \<and> chain_length ts xs = m \<and> set xs \<subseteq> set (criticalPath r))"
proof -
  obtain xs where xs: "chain ts xs" "chain_length ts xs = MK ts" "\<forall>j\<in>set xs. float_of ts j = 0"
    using makespan_longest [OF assms] by blast
  have "set xs \<subseteq> {i \<in> set (topo_order ts). float_of ts i = 0}"
    using xs(3) chain_ids [OF assms(1) xs(1)] topo_order_wf(1) [OF assms(1)] by auto
  moreover have "chain_length ts ys \<le> MK ts" if "chain ts ys" for ys
    using chain_length_le [OF assms(1) that] by linarith
  ultimately show ?thesis
    unfolding computeFloat_eq [OF assms(1)] using xs(1,2) by auto
qed

theorem computeFloat_makespan_witness:
  "\<exists>r m. computeFloat [demo_ticket ''A'' [''B''] True, demo_ticket ''B'' [] False] = Inr r \<and> makespan r = Some m
     \<and> chain_length [demo_ticket ''A'' [''B''] True, demo_ticket ''B'' [] False] [''A'', ''B''] \<le> m"
proof -
  have c: "chain [demo_ticket ''A'' [''B''] True, demo_ticket ''B'' [] False] [''A'', ''B'']"
    by (simp add: dep_Cons ids_def demo_ticket_def)
  show ?thesis using computeFloat_makespan [OF wf_demo(1)] c by blast
qed

text \<open>Every ticket gets a float, none is negative, and the critical path is the list of the
  tickets whose float is zero.\<close>

theorem computeFloat_slack:
  assumes "wf_tickets ts" and "computeFloat ts = Inr r"
  shows "set (map fst (floats r)) = set (ids ts) \<and> distinct (map fst (floats r))
    \<and> (\<forall>(i, f)\<in>set (floats r). \<exists>q\<ge>0. f = Some q \<and> (i \<in> set (criticalPath r) \<longleftrightarrow> q = 0))"
proof -
  have r: "r = \<lparr>floats = map (\<lambda>i. (i, Some (float_of ts i))) (topo_order ts),
     criticalPath = filter (\<lambda>i. float_of ts i = 0) (topo_order ts), makespan = Some (MK ts)\<rparr>"
    using computeFloat_eq [OF assms(1)] assms(2) by simp
  show ?thesis
    using topo_order_wf(1,2) [OF assms(1)] float_nonneg [OF assms(1)] unfolding r by (auto simp: comp_def)
qed

theorem computeFloat_slack_witness:
  "computeFloat [demo_ticket ''A'' [''B''] True, demo_ticket ''B'' [] False]
     = Inr \<lparr>floats = [(''A'', Some 0), (''B'', Some 0)], criticalPath = [''A'', ''B''], makespan = Some 2\<rparr>
   \<and> distinct [''A'', ''B'']"
proof -
  have 1: "computeFloat [demo_ticket ''A'' [''B''] True, demo_ticket ''B'' [] False]
     = Inr \<lparr>floats = [(''A'', Some 0), (''B'', Some 0)], criticalPath = [''A'', ''B''], makespan = Some 2\<rparr>"
    by code_simp
  from computeFloat_slack [OF wf_demo(1) 1] 1 show ?thesis by simp
qed

end
