(* ===== verification/ModelRouter.thy ===== *)
theory ModelRouter
  imports TicketFloat JsValue JsString
begin

text \<open>
  \<^verbatim>\<open>packages/model-router/lib\<close>: the rail-density floor (\<open>floor.mjs\<close>), rail density
  (\<open>density.mjs\<close>), success priors (\<open>priors.mjs\<close>), assignment (\<open>assign.mjs\<close>) and the gate
  (\<open>router.mjs\<close>). Characters are the code points below 256, so the Unicode classes of the regular
  expressions are the Latin-1 part of them. \<open>JSON.stringify\<close> is a parameter.
\<close>

section \<open>The floor\<close>

datatype router_error =
    FloorOutOfRange
  | TicketErrors "string list"
  | TicketNotFound ident
  | FloatError float_error

definition DEFAULT_FLOOR :: rat where
  "DEFAULT_FLOOR = 2 / 10"

text \<open>A floor is a finite number or something else (\<open>None\<close>: NaN, infinite, not a number).\<close>

definition assertFloor :: "rat option \<Rightarrow> router_error + rat" where
  "assertFloor fl = (case fl of
      Some q \<Rightarrow> if q > 0 \<and> q \<le> 1 then Inr q else Inl FloorOutOfRange
    | None \<Rightarrow> Inl FloorOutOfRange)"

section \<open>Rail density\<close>

text \<open>\<open>INVISIBLE\<close>: white space, format and control characters, default ignorable code points.\<close>

definition invisible :: "char \<Rightarrow> bool" where
  "invisible c \<longleftrightarrow> code c \<le> 32 \<or> (127 \<le> code c \<and> code c \<le> 160) \<or> code c = 173"

definition strip_invisible :: "string \<Rightarrow> string" where
  "strip_invisible s = filter (\<lambda>c. \<not> invisible c) s"

text \<open>The class \<open>[\p{L}\p{N}*?]\<close>.\<close>

definition names_something :: "char \<Rightarrow> bool" where
  "names_something c \<longleftrightarrow>
     c = CHR ''*'' \<or> c = CHR ''?'' \<or> is_digit c
     \<or> (65 \<le> code c \<and> code c \<le> 90) \<or> (97 \<le> code c \<and> code c \<le> 122)
     \<or> code c \<in> {170, 178, 179, 181, 185, 186, 188, 189, 190}
     \<or> (192 \<le> code c \<and> code c \<noteq> 215 \<and> code c \<noteq> 247)"

text \<open>The texts the anchored part \<open>(?:^|/)(...)$\<close> may match: the string and what follows each \<open>/\<close>.\<close>

fun after_slashes :: "string \<Rightarrow> string list" where
  "after_slashes [] = []"
| "after_slashes (c # cs) = (if c = CHR ''/'' then cs # after_slashes cs else after_slashes cs)"

text \<open>\<open>NAME(?:\.[^/]+)?\<close>.\<close>

definition named_file :: "string \<Rightarrow> string \<Rightarrow> bool" where
  "named_file name s \<longleftrightarrow> s = name \<or>
     (starts_with s (name @ ''.'') \<and> (let ext = drop (length name + 1) s in ext \<noteq> [] \<and> CHR ''/'' \<notin> set ext))"

definition non_code_name :: "string \<Rightarrow> bool" where
  "non_code_name s \<longleftrightarrow>
     list_ex (\<lambda>n. named_file n s) [''readme'', ''changelog'', ''license'']
     \<or> s \<in> set [''codeowners'', ''dockerfile'', ''makefile'', ''.gitignore'', ''.nvmrc'', ''.npmrc'', ''.editorconfig'']
     \<or> list_ex (\<lambda>d. starts_with s d \<and> length d < length s) [''.github/'', ''docs/'']"

definition isNonCodeScopePattern :: "string \<Rightarrow> bool" where
  "isNonCodeScopePattern pattern =
     (let s = to_lower (strip_invisible pattern)
      in list_ex (ends_with s) [''.md'', ''.markdown'', ''.mdx'', ''.txt'', ''.json'', ''.jsonc'', ''.yml'', ''.yaml'',
           ''.toml'', ''.lock'', ''.snap'', ''.diff'', ''.patch'']
         \<or> list_ex non_code_name (s # after_slashes s))"

definition usablePatterns :: "string list \<Rightarrow> string list" where
  "usablePatterns field = fold (\<lambda>item seen.
     let visible = strip_invisible item
     in if \<not> list_ex names_something visible then seen
        else if visible \<in> set seen then seen else seen @ [visible]) field []"

definition railDensity :: "ticket \<Rightarrow> rat" where
  "railDensity t =
     (let rails = usablePatterns (t_rails t); scope = usablePatterns (t_scope t)
      in if rails = [] then 0 else if scope = [] then 0
         else let codeScope = filter (\<lambda>p. \<not> isNonCodeScopePattern p) scope;
                  denominator = (if codeScope \<noteq> [] then length codeScope else length scope)
              in min 1 (of_nat (length rails) / of_nat denominator))"

section \<open>Priors\<close>

text \<open>\<open>canonicalJson\<close> of \<^verbatim>\<open>packages/core/lib/ledger.mjs\<close>: the keys of every object sorted, then \<open>JSON.stringify\<close>.\<close>

fun canonicalizeJsonValue :: "jsval \<Rightarrow> jsval" where
  "canonicalizeJsonValue (VArr xs) = VArr (map canonicalizeJsonValue xs)"
| "canonicalizeJsonValue (VObj kvs) =
     VObj (map (\<lambda>kv. (fst kv, canonicalizeJsonValue (snd kv))) (sort_key fst kvs))"
| "canonicalizeJsonValue v = v"

type_synonym bucket = "nat \<times> nat" \<comment> \<open>passes, n\<close>

record priors_state =
  ps_global :: "(string \<times> bucket) list"
  ps_byCat :: "(string \<times> (string \<times> bucket) list) list"
  ps_seen :: "string list"

record rated =
  r_passes :: nat
  r_n :: nat
  r_rate :: rat

record priors =
  p_global :: "(string \<times> rated) list"
  p_byCategory :: "(string \<times> (string \<times> rated) list) list"

definition bump :: "string \<Rightarrow> bool \<Rightarrow> (string \<times> bucket) list \<Rightarrow> (string \<times> bucket) list" where
  "bump model pass m = (case map_of m model of
      None \<Rightarrow> AList.update model (if pass then 1 else 0, 1) m
    | Some (p, n) \<Rightarrow> AList.update model (if pass then p + 1 else p, n + 1) m)"

definition prior_step :: "(jsval \<Rightarrow> string) \<Rightarrow> jsval \<Rightarrow> priors_state \<Rightarrow> priors_state" where
  "prior_step stringify entry st =
     (if js_get ''type'' entry \<noteq> VStr ''build'' then st
      else (case (js_get ''model'' entry, js_get ''firstPass'' entry) of
          (VStr model, VBool firstPass) \<Rightarrow>
            (let fingerprint = stringify (canonicalizeJsonValue entry)
             in if fingerprint \<in> set (ps_seen st) then st
                else \<lparr>ps_global = bump model firstPass (ps_global st),
                      ps_byCat = (case js_get ''category'' entry of
                          VStr category \<Rightarrow>
                            AList.update category
                              (bump model firstPass (case map_of (ps_byCat st) category of None \<Rightarrow> [] | Some m \<Rightarrow> m))
                              (ps_byCat st)
                        | _ \<Rightarrow> ps_byCat st),
                      ps_seen = ps_seen st @ [fingerprint]\<rparr>)
        | _ \<Rightarrow> st))"

definition rate_bucket :: "bucket \<Rightarrow> rated" where
  "rate_bucket b = (case b of (p, n) \<Rightarrow> \<lparr>r_passes = p, r_n = n, r_rate = of_nat (p + 1) / of_nat (n + 2)\<rparr>)"

definition prior_counts :: "(jsval \<Rightarrow> string) \<Rightarrow> jsval list \<Rightarrow> priors_state" where
  "prior_counts stringify entries =
     fold (prior_step stringify) entries \<lparr>ps_global = [], ps_byCat = [], ps_seen = []\<rparr>"

definition buildPriors :: "(jsval \<Rightarrow> string) \<Rightarrow> jsval list \<Rightarrow> priors" where
  "buildPriors stringify entries =
     (let st = prior_counts stringify entries
      in \<lparr>p_global = map (\<lambda>(m, b). (m, rate_bucket b)) (ps_global st),
          p_byCategory = map (\<lambda>(c, ms). (c, map (\<lambda>(m, b). (m, rate_bucket b)) (filter (\<lambda>(m, b). snd b \<ge> 3) ms)))
            (ps_byCat st)\<rparr>)"

datatype tier = Cheap | Mid | Frontier

definition tier_name :: "tier \<Rightarrow> string" where
  "tier_name t = (case t of Cheap \<Rightarrow> ''cheap'' | Mid \<Rightarrow> ''mid'' | Frontier \<Rightarrow> ''frontier'')"

definition pickBestTier :: "(string \<times> rated) list \<Rightarrow> tier option" where
  "pickBestTier m = fst (fold (\<lambda>t (best, rate).
     case map_of m (tier_name t) of
       None \<Rightarrow> (best, rate)
     | Some r \<Rightarrow> if r_n r \<ge> 3 \<and> r_rate r > rate then (Some t, r_rate r) else (best, rate))
     [Cheap, Mid, Frontier] (None, -1))"

definition bestTierFromPriors :: "priors \<Rightarrow> string option \<Rightarrow> tier" where
  "bestTierFromPriors pr category =
     (let global = (case pickBestTier (p_global pr) of Some t \<Rightarrow> t | None \<Rightarrow> Mid)
      in case category of
           None \<Rightarrow> global
         | Some c \<Rightarrow>
             if c = [] then global
             else (case map_of (p_byCategory pr) c of
                 None \<Rightarrow> global
               | Some cat \<Rightarrow> (case pickBestTier cat of Some t \<Rightarrow> t | None \<Rightarrow> global)))"

section \<open>Assignment\<close>

definition FRONTIER_CATEGORIES :: "string list" where
  "FRONTIER_CATEGORIES = [''contract'', ''spec'', ''architecture'']"

definition frontier_category :: "ticket \<Rightarrow> bool" where
  "frontier_category t = (case t_category t of None \<Rightarrow> False | Some c \<Rightarrow> c \<in> set FRONTIER_CATEGORIES)"

definition CHEAP_TIER_MIN_DENSITY :: rat where
  "CHEAP_TIER_MIN_DENSITY = 1 / 2"

definition DEFAULT_TIER_BUDGET :: "tier \<Rightarrow> rat" where
  "DEFAULT_TIER_BUDGET t = (case t of Cheap \<Rightarrow> 50000 | Mid \<Rightarrow> 150000 | Frontier \<Rightarrow> 400000)"

datatype build_mode = Direct | Ladder

definition resolveBudget :: "ticket \<Rightarrow> tier \<Rightarrow> build_mode \<Rightarrow> rat" where
  "resolveBudget t tr mode = (case t_budget t of
      Some b \<Rightarrow> if b > 0 then b
        else if mode = Ladder then DEFAULT_TIER_BUDGET tr + DEFAULT_TIER_BUDGET Frontier else DEFAULT_TIER_BUDGET tr
    | None \<Rightarrow> if mode = Ladder then DEFAULT_TIER_BUDGET tr + DEFAULT_TIER_BUDGET Frontier else DEFAULT_TIER_BUDGET tr)"

record assignment =
  a_id :: ident
  a_tier :: tier
  a_mode :: build_mode
  a_density :: rat
  a_float :: num
  a_budget :: rat

definition make_assignment :: "ticket \<Rightarrow> num \<Rightarrow> tier \<Rightarrow> build_mode \<Rightarrow> assignment" where
  "make_assignment t fl tr mode =
     \<lparr>a_id = t_id t, a_tier = tr, a_mode = mode, a_density = railDensity t, a_float = fl,
      a_budget = resolveBudget t tr mode\<rparr>"

definition assignTicket :: "ticket \<Rightarrow> num \<Rightarrow> priors \<Rightarrow> rat option \<Rightarrow> router_error + assignment" where
  "assignTicket t fl pr flo = bind_res (assertFloor flo) (\<lambda>q.
     if frontier_category t then Inr (make_assignment t fl Frontier Direct)
     else if railDensity t < q then Inr (make_assignment t fl Frontier Direct)
     else if fl = Some 0 then Inr (make_assignment t fl (bestTierFromPriors pr (t_category t)) Direct)
     else Inr (make_assignment t fl (if railDensity t \<ge> CHEAP_TIER_MIN_DENSITY then Cheap else Mid) Ladder))"

definition float_for :: "cpm \<Rightarrow> ident \<Rightarrow> num" where
  "float_for c i = (case map_of (floats c) i of None \<Rightarrow> Some 0 | Some f \<Rightarrow> f)"

definition assignAll :: "ticket list \<Rightarrow> cpm \<Rightarrow> priors \<Rightarrow> rat option \<Rightarrow> router_error + assignment list" where
  "assignAll ts c pr flo = bind_res (assertFloor flo) (\<lambda>_.
     map_res (\<lambda>t. assignTicket t (float_for c (t_id t)) pr flo) ts)"

definition p3_finding :: "ticket list \<Rightarrow> rat \<Rightarrow> assignment \<Rightarrow> bool" where
  "p3_finding ts flo a \<longleftrightarrow>
     \<not> (case find (\<lambda>t. t_id t = a_id a) ts of None \<Rightarrow> False | Some t \<Rightarrow> frontier_category t) \<and> a_density a < flo"

definition runRouter :: "(jsval \<Rightarrow> string) \<Rightarrow> rat option \<Rightarrow> string list + ticket list \<Rightarrow> jsval list
    \<Rightarrow> ident option \<Rightarrow> router_error + assignment list \<times> assignment list" where
  "runRouter stringify flo loaded entries ticketId =
     bind_res (assertFloor flo) (\<lambda>q.
       case loaded of
         Inl errs \<Rightarrow> Inl (TicketErrors errs)
       | Inr allTickets \<Rightarrow>
           let ts = activeTickets allTickets
           in bind_res (case ticketId of
                  Some i \<Rightarrow> guard_res (list_ex (\<lambda>t. t_id t = i) ts) (TicketNotFound i)
                | None \<Rightarrow> Inr ()) (\<lambda>_.
              if ts = [] then Inr ([], [])
              else bind_res (case computeFloat ts of Inl e \<Rightarrow> Inl (FloatError e) | Inr c \<Rightarrow> Inr c) (\<lambda>c.
                bind_res (assignAll ts c (buildPriors stringify entries) flo) (\<lambda>all.
                  let assignments = (case ticketId of Some i \<Rightarrow> filter (\<lambda>a. a_id a = i) all | None \<Rightarrow> all)
                  in Inr (assignments, filter (p3_finding ts q) assignments)))))"

section \<open>Facts about density and assignment\<close>

lemma assertFloor_Inr: "assertFloor fl = Inr q \<longleftrightarrow> fl = Some q \<and> 0 < q \<and> q \<le> 1"
  by (auto simp: assertFloor_def split: option.splits)

lemma railDensity_bounds: "0 \<le> railDensity t \<and> railDensity t \<le> 1"
  by (simp add: railDensity_def Let_def)

lemma usablePatterns_empty:
  "\<forall>r\<in>set field. \<not> list_ex names_something (strip_invisible r) \<Longrightarrow> usablePatterns field = []"
proof -
  have "\<forall>r\<in>set xs. \<not> list_ex names_something (strip_invisible r) \<Longrightarrow>
    fold (\<lambda>item seen. let visible = strip_invisible item
     in if \<not> list_ex names_something visible then seen
        else if visible \<in> set seen then seen else seen @ [visible]) xs s = s" for xs s
    by (induction xs) (auto simp: Let_def)
  then show "\<forall>r\<in>set field. \<not> list_ex names_something (strip_invisible r) \<Longrightarrow> usablePatterns field = []"
    by (simp add: usablePatterns_def)
qed

lemma usablePatterns_distinct: "distinct (usablePatterns field)"
  unfolding usablePatterns_def
  by (rule fold_invariant_list [where P = distinct]) (auto simp: Let_def)

text \<open>Patterns that name nothing are no rails: the density is 0.\<close>

lemma unrailed_density:
  "\<forall>r\<in>set (t_rails t). \<not> list_ex names_something (strip_invisible r) \<Longrightarrow> railDensity t = 0"
  by (simp add: railDensity_def Let_def usablePatterns_empty)

lemma make_assignment_simps [simp]:
  "a_id (make_assignment t fl tr m) = t_id t" "a_tier (make_assignment t fl tr m) = tr"
  "a_mode (make_assignment t fl tr m) = m" "a_density (make_assignment t fl tr m) = railDensity t"
  "a_float (make_assignment t fl tr m) = fl" "a_budget (make_assignment t fl tr m) = resolveBudget t tr m"
  by (simp_all add: make_assignment_def)

lemma assignTicket_total:
  assumes "0 < q" and "q \<le> 1"
  shows "\<exists>a. assignTicket t fl pr (Some q) = Inr a \<and> a_id a = t_id t \<and> a_density a = railDensity t \<and> a_float a = fl"
  using assms by (auto simp: assignTicket_def assertFloor_def)

lemma assignTicket_rules:
  assumes "assignTicket t fl pr (Some q) = Inr a"
  shows "frontier_category t \<or> a_density a < q \<Longrightarrow> a_tier a = Frontier \<and> a_mode a = Direct"
    and "\<not> frontier_category t \<Longrightarrow> q \<le> a_density a \<Longrightarrow> fl = Some 0 \<Longrightarrow>
      a_mode a = Direct \<and> a_tier a = bestTierFromPriors pr (t_category t)"
    and "a_mode a = Ladder \<longleftrightarrow> \<not> frontier_category t \<and> q \<le> a_density a \<and> fl \<noteq> Some 0"
    and "a_mode a = Ladder \<Longrightarrow> a_tier a = (if a_density a \<ge> 1 / 2 then Cheap else Mid)"
    and "a_budget a = resolveBudget t (a_tier a) (a_mode a)"
  using assms
  by (auto simp: assignTicket_def assertFloor_def CHEAP_TIER_MIN_DENSITY_def split: if_splits)

lemma resolveBudget_bounds:
  "0 < resolveBudget t tr m"
  "t_budget t = None \<Longrightarrow> m = Ladder \<Longrightarrow> DEFAULT_TIER_BUDGET Frontier < resolveBudget t tr m"
  by (cases tr; auto simp: resolveBudget_def DEFAULT_TIER_BUDGET_def split: option.splits)+

section \<open>Facts about the priors\<close>

lemma pickBestTier_best:
  assumes "pickBestTier m = Some t"
  shows "\<exists>r. map_of m (tier_name t) = Some r \<and> r_n r \<ge> 3 \<and>
    (\<forall>t' r'. map_of m (tier_name t') = Some r' \<longrightarrow> r_n r' \<ge> 3 \<longrightarrow> r_rate r' \<le> r_rate r)"
proof -
  have all: "(\<forall>t'. P t') \<longleftrightarrow> P Cheap \<and> P Mid \<and> P Frontier" for P by (metis tier.exhaust)
  show ?thesis
    unfolding all using assms
    by (auto simp: pickBestTier_def tier_name_def split: option.splits if_splits)
qed

lemma pickBestTier_None:
  assumes "pickBestTier m = None" and "map_of m (tier_name t) = Some r" and "0 \<le> r_rate r"
  shows "r_n r < 3"
  using assms by (cases t) (auto simp: pickBestTier_def tier_name_def split: option.splits if_splits)

definition buckets_ok :: "(string \<times> bucket) list \<Rightarrow> bool" where
  "buckets_ok m \<longleftrightarrow> (\<forall>b\<in>snd ` set m. fst b \<le> snd b \<and> 0 < snd b)"

lemma bump_buckets:
  assumes "buckets_ok m"
  shows "buckets_ok (bump model pass m)"
  using assms unfolding buckets_ok_def
proof -
  have upd: "snd ` set (AList.update k v m) \<subseteq> insert v (snd ` set m)" for k :: string and v and m :: "(string \<times> bucket) list"
    by (induction m) auto
  show "\<forall>b\<in>snd ` set (bump model pass m). fst b \<le> snd b \<and> 0 < snd b" if ok: "\<forall>b\<in>snd ` set m. fst b \<le> snd b \<and> 0 < snd b"
  proof (cases "map_of m model")
    case None
    then show ?thesis using ok upd [of model _ m] by (fastforce simp: bump_def)
  next
    case (Some b)
    obtain p n where b: "b = (p, n)" by (cases b)
    have "p \<le> n" using ok map_of_SomeD [OF Some] b by force
    then show ?thesis using ok upd [of model _ m] Some b by (fastforce simp: bump_def)
  qed
qed

definition counts_ok :: "priors_state \<Rightarrow> bool" where
  "counts_ok st \<longleftrightarrow> buckets_ok (ps_global st) \<and> (\<forall>m\<in>snd ` set (ps_byCat st). buckets_ok m)"

lemma prior_step_counts_ok:
  assumes "counts_ok st"
  shows "counts_ok (prior_step stringify entry st)"
proof -
  have upd: "snd ` set (AList.update k v m) \<subseteq> insert v (snd ` set m)" for k :: string and v :: "(string \<times> bucket) list" and m
    by (induction m) auto
  have g: "buckets_ok (bump model pass (ps_global st))" for model pass
    using assms by (intro bump_buckets) (simp add: counts_ok_def)
  have c: "\<forall>m\<in>snd ` set (AList.update category (bump model pass
      (case map_of (ps_byCat st) category of None \<Rightarrow> [] | Some m \<Rightarrow> m)) (ps_byCat st)). buckets_ok m"
    for category model pass
  proof -
    let ?m = "case map_of (ps_byCat st) category of None \<Rightarrow> [] | Some m \<Rightarrow> m"
    have "buckets_ok ?m"
    proof (cases "map_of (ps_byCat st) category")
      case (Some m)
      then have "m \<in> snd ` set (ps_byCat st)" by (force dest: map_of_SomeD)
      then have "buckets_ok m" using assms unfolding counts_ok_def by blast
      then show ?thesis by (simp add: Some)
    qed (simp add: buckets_ok_def)
    from bump_buckets [OF this, of model pass] have new: "buckets_ok (bump model pass ?m)" .
    have old: "\<forall>m\<in>snd ` set (ps_byCat st). buckets_ok m" using assms unfolding counts_ok_def by blast
    show ?thesis
      using subsetD [OF upd [of category "bump model pass ?m" "ps_byCat st"]] new old by (metis insertE)
  qed
  show ?thesis
  proof (cases "prior_step stringify entry st = st")
    case False
    then obtain model firstPass where m: "js_get ''model'' entry = VStr model" "js_get ''firstPass'' entry = VBool firstPass"
      by (auto simp: prior_step_def split: jsval.splits if_splits)
    have old: "\<forall>m\<in>snd ` set (ps_byCat st). buckets_ok m" using assms unfolding counts_ok_def by blast
    have "ps_global (prior_step stringify entry st) = bump model firstPass (ps_global st)"
      using False by (simp add: prior_step_def m Let_def split: if_splits)
    moreover have "\<forall>m\<in>snd ` set (ps_byCat (prior_step stringify entry st)). buckets_ok m"
    proof (cases "js_get ''category'' entry")
      case (VStr category)
      have "ps_byCat (prior_step stringify entry st) = AList.update category (bump model firstPass
          (case map_of (ps_byCat st) category of None \<Rightarrow> [] | Some m \<Rightarrow> m)) (ps_byCat st)"
        using False by (simp add: prior_step_def m VStr Let_def split: if_splits)
      then show ?thesis using c by simp
    qed (use False old in \<open>simp_all add: prior_step_def m Let_def split: if_splits\<close>)
    ultimately show ?thesis using g unfolding counts_ok_def by simp
  qed (use assms in simp)
qed

lemma prior_counts_ok: "counts_ok (prior_counts stringify entries)"
  unfolding prior_counts_def
proof (rule fold_invariant_list [where P = counts_ok])
  show "counts_ok \<lparr>ps_global = [], ps_byCat = [], ps_seen = []\<rparr>" by (simp add: counts_ok_def buckets_ok_def)
qed (rule prior_step_counts_ok)

text \<open>Laplace smoothing: every rate lies strictly between 0 and 1.\<close>

lemma rate_bucket_bounds:
  assumes "fst b \<le> snd b"
  shows "0 < r_rate (rate_bucket b) \<and> r_rate (rate_bucket b) < 1"
  using assms by (cases b) (simp add: rate_bucket_def field_simps)

text \<open>An entry seen before changes nothing.\<close>

lemma prior_step_seen_mono: "set (ps_seen st) \<subseteq> set (ps_seen (prior_step stringify e st))"
  by (simp add: prior_step_def Let_def split: jsval.split) auto

lemma prior_step_again:
  assumes "js_get ''type'' e = VStr ''build'' \<Longrightarrow> is_str (js_get ''model'' e) \<Longrightarrow> (\<exists>b. js_get ''firstPass'' e = VBool b)
    \<Longrightarrow> stringify (canonicalizeJsonValue e) \<in> set (ps_seen st)"
  shows "prior_step stringify e st = st"
  using assms by (auto simp: prior_step_def is_str_def split: jsval.split)

lemma prior_step_recorded:
  assumes "js_get ''type'' e = VStr ''build''" and "is_str (js_get ''model'' e)" and "\<exists>b. js_get ''firstPass'' e = VBool b"
  shows "stringify (canonicalizeJsonValue e) \<in> set (ps_seen (prior_step stringify e st))"
  using assms by (auto simp: prior_step_def is_str_def Let_def split: jsval.splits)

lemma prior_counts_replay:
  "fold (prior_step stringify) es (fold (prior_step stringify) es st) = fold (prior_step stringify) es st"
proof -
  have mono: "set (ps_seen st) \<subseteq> set (ps_seen (fold (prior_step stringify) es st))" for es st
    by (rule fold_invariant_list [where P = "\<lambda>s. set (ps_seen st) \<subseteq> set (ps_seen s)"])
       (use prior_step_seen_mono in blast)+
  have rec: "e \<in> set es \<Longrightarrow> js_get ''type'' e = VStr ''build'' \<Longrightarrow> is_str (js_get ''model'' e) \<Longrightarrow> (\<exists>b. js_get ''firstPass'' e = VBool b)
     \<Longrightarrow> stringify (canonicalizeJsonValue e) \<in> set (ps_seen (fold (prior_step stringify) es st))" for e es st
  proof (induction es arbitrary: st)
    case (Cons x es)
    show ?case
    proof (cases "e = x")
      case True
      then show ?thesis
        using prior_step_recorded [OF Cons.prems(2-4), of stringify st] mono [of "prior_step stringify x st" es] by auto
    qed (use Cons in auto)
  qed simp
  have "fold (prior_step stringify) xs s = s"
    if "\<And>e. e \<in> set xs \<Longrightarrow> js_get ''type'' e = VStr ''build'' \<Longrightarrow> is_str (js_get ''model'' e) \<Longrightarrow> (\<exists>b. js_get ''firstPass'' e = VBool b)
     \<Longrightarrow> stringify (canonicalizeJsonValue e) \<in> set (ps_seen s)" for xs s
    using that
  proof (induction xs)
    case (Cons x xs)
    have "prior_step stringify x s = s" by (rule prior_step_again) (use Cons.prems in auto)
    then show ?case using Cons by simp
  qed simp
  then show ?thesis using rec by blast
qed

lemma buildPriors_replay: "buildPriors stringify (es @ es) = buildPriors stringify es"
  by (simp add: buildPriors_def prior_counts_def prior_counts_replay)

lemma buildPriors_rates:
  assumes "(m, r) \<in> set (p_global (buildPriors stringify es))"
  shows "0 < r_rate r \<and> r_rate r < 1"
proof -
  obtain b where b: "(m, b) \<in> set (ps_global (prior_counts stringify es))" "r = rate_bucket b"
    using assms by (auto simp: buildPriors_def Let_def)
  have "fst b \<le> snd b" using prior_counts_ok [of stringify es] b(1) by (force simp: counts_ok_def buckets_ok_def)
  then show ?thesis using rate_bucket_bounds b(2) by simp
qed

section \<open>The router on a valid store\<close>

lemma find_by_id:
  assumes "distinct (ids ts)" and "t \<in> set ts"
  shows "find (\<lambda>u. t_id u = t_id t) ts = Some t"
  using assms by (induction ts) (auto simp: ids_def image_iff)

lemma map_res_ok:
  assumes "\<And>x. x \<in> set xs \<Longrightarrow> \<exists>y. f x = Inr y"
  shows "\<exists>ys. map_res f xs = Inr ys \<and> list_all2 (\<lambda>x y. f x = Inr y) xs ys"
proof -
  have "\<exists>ys. map_res f xs = Inr ys" using assms
    by (induction xs) (auto, metis bind_res_simps(2))
  then show ?thesis by (auto simp: map_res_Inr_list_all2)
qed

lemma runRouter_all:
  assumes w: "wf_tickets all" and q: "0 < q" "q \<le> 1"
  shows "\<exists>as. runRouter stringify (Some q) (Inr all) entries None
        = Inr (as, filter (p3_finding (activeTickets all) q) as)
      \<and> list_all2 (\<lambda>t a. \<exists>c. computeFloat (activeTickets all) = Inr c \<and>
          assignTicket t (float_for c (t_id t)) (buildPriors stringify entries) (Some q) = Inr a) (activeTickets all) as"
proof (cases "activeTickets all = []")
  case True
  then show ?thesis using q by (simp add: runRouter_def assertFloor_def)
next
  case False
  let ?ts = "activeTickets all"
  have wa: "wf_tickets ?ts" using w by (rule activeTickets_wf)
  obtain c where c: "computeFloat ?ts = Inr c" using computeFloat_eq [OF wa] by blast
  let ?f = "\<lambda>t. assignTicket t (float_for c (t_id t)) (buildPriors stringify entries) (Some q)"
  have "\<exists>ys. map_res ?f ?ts = Inr ys \<and> list_all2 (\<lambda>x y. ?f x = Inr y) ?ts ys"
    by (rule map_res_ok) (use assignTicket_total q in blast)
  then obtain as where as: "map_res ?f ?ts = Inr as" "list_all2 (\<lambda>x y. ?f x = Inr y) ?ts as" by blast
  have "runRouter stringify (Some q) (Inr all) entries None = Inr (as, filter (p3_finding ?ts q) as)"
    using False q c as(1) by (simp add: runRouter_def assertFloor_def assignAll_def Let_def)
  then show ?thesis using as(2) c by auto
qed

lemma runRouter_assignment:
  assumes w: "wf_tickets all" and r: "runRouter stringify (Some q) (Inr all) entries None = Inr (as, p3)"
    and a: "a \<in> set as"
  shows "\<exists>t\<in>set (activeTickets all). a_id a = t_id t \<and> a_density a = railDensity t
      \<and> (\<exists>c. computeFloat (activeTickets all) = Inr c
           \<and> assignTicket t (float_for c (t_id t)) (buildPriors stringify entries) (Some q) = Inr a)
      \<and> (a \<in> set p3 \<longleftrightarrow> \<not> frontier_category t \<and> railDensity t < q)"
proof -
  have q: "0 < q" "q \<le> 1"
    using r by (auto simp: runRouter_def result_simps assertFloor_Inr)
  from runRouter_all [OF w q, of stringify entries] r
  have as: "list_all2 (\<lambda>t a. \<exists>c. computeFloat (activeTickets all) = Inr c \<and>
          assignTicket t (float_for c (t_id t)) (buildPriors stringify entries) (Some q) = Inr a) (activeTickets all) as"
    and p3: "p3 = filter (p3_finding (activeTickets all) q) as" by auto
  from list_all2_in_set2 [OF as a] obtain t c where t: "t \<in> set (activeTickets all)"
    and c: "computeFloat (activeTickets all) = Inr c"
    and at: "assignTicket t (float_for c (t_id t)) (buildPriors stringify entries) (Some q) = Inr a" by blast
  have eq: "a_id a = t_id t" "a_density a = railDensity t"
    using assignTicket_total [OF q, of t "float_for c (t_id t)" "buildPriors stringify entries"] at by auto
  have "distinct (ids (activeTickets all))"
    using activeTickets_wf [OF w] by (simp add: wf_tickets_def wf_graph_def)
  then have "p3_finding (activeTickets all) q a \<longleftrightarrow> \<not> frontier_category t \<and> railDensity t < q"
    using find_by_id t by (simp add: p3_finding_def eq)
  then show ?thesis using t c at eq a p3 by auto
qed

text \<open>What the routing policy says of the assignment of a ticket, given the records, the floor and the
  ticket's float.\<close>

definition follows_policy :: "priors \<Rightarrow> rat \<Rightarrow> num \<Rightarrow> ticket \<Rightarrow> assignment \<Rightarrow> bool" where
  "follows_policy pr q fl t a \<longleftrightarrow>
     a_id a = t_id t \<and> a_density a = railDensity t
     \<and> (frontier_category t \<or> railDensity t < q \<longrightarrow> a_tier a = Frontier \<and> a_mode a = Direct)
     \<and> (\<not> frontier_category t \<and> q \<le> railDensity t \<and> fl = Some 0 \<longrightarrow>
          a_mode a = Direct \<and> a_tier a = bestTierFromPriors pr (t_category t))
     \<and> (\<not> frontier_category t \<and> q \<le> railDensity t \<and> fl \<noteq> Some 0 \<longrightarrow>
          a_mode a = Ladder \<and> a_tier a = (if railDensity t \<ge> 1 / 2 then Cheap else Mid))"

lemma assignTicket_follows:
  assumes "0 < q" and "q \<le> 1" and a: "assignTicket t fl pr (Some q) = Inr a"
  shows "follows_policy pr q fl t a"
  using assignTicket_total [OF assms(1,2), of t fl pr] a assignTicket_rules [OF a]
  unfolding follows_policy_def by auto

section \<open>Properties\<close>

text \<open>On a well-formed store and a floor in (0, 1], the router returns one assignment for every open
  ticket, in store order, and the assignment is the one the policy gives: contract, spec and
  architecture tickets and tickets below the floor go directly to the frontier tier, other critical
  tickets are built directly on the tier with the best record, and only tickets with slack get the
  ladder, from the cheap tier when half of the scope is railed. The tickets reported as
  under-railed are the non-frontier ones below the floor.\<close>

theorem runRouter_policy:
  assumes "wf_tickets all" and "0 < q" and "q \<le> 1"
  shows "\<exists>as p3. runRouter stringify (Some q) (Inr all) entries None = Inr (as, p3)
    \<and> list_all2 (\<lambda>t a. \<exists>c. computeFloat (activeTickets all) = Inr c
        \<and> follows_policy (buildPriors stringify entries) q (float_for c (t_id t)) t a) (activeTickets all) as
    \<and> (\<forall>a. a \<in> set p3 \<longleftrightarrow> a \<in> set as \<and> p3_finding (activeTickets all) q a)"
proof -
  have "\<exists>c. computeFloat (activeTickets all) = Inr c
        \<and> follows_policy (buildPriors stringify entries) q (float_for c (t_id t)) t a"
    if "\<exists>c. computeFloat (activeTickets all) = Inr c \<and>
          assignTicket t (float_for c (t_id t)) (buildPriors stringify entries) (Some q) = Inr a" for t a
    using that assignTicket_follows [OF assms(2,3)] by blast
  then show ?thesis
    using runRouter_all [OF assms, of stringify entries] by (auto elim!: list_all2_mono)
qed

theorem runRouter_policy_witness:
  "\<exists>as p3. runRouter (\<lambda>_. ''entry'') (Some (2 / 10)) (Inr [demo_ticket ''A'' [''B''] True, demo_ticket ''B'' [] False]) [] None
     = Inr (as, p3) \<and> length as = 1"
proof -
  have q: "(0::rat) < 2 / 10" "(2 / 10 :: rat) \<le> 1" by simp_all
  have n: "length (activeTickets [demo_ticket ''A'' [''B''] True, demo_ticket ''B'' [] False]) = 1" by code_simp
  show ?thesis
    using runRouter_policy [OF wf_demo(1) q, of "\<lambda>_. ''entry''" "[]"] n by (metis (no_types, lifting) list_all2_lengthD)
qed

text \<open>Reading a ledger twice changes no prior: repeated build entries are counted once, so a replayed
  ledger gives the same records, and every rate lies strictly between 0 and 1.\<close>

theorem buildPriors_idempotent:
  "buildPriors stringify (es @ es) = buildPriors stringify es
   \<and> list_all (\<lambda>(m, r). 0 < r_rate r \<and> r_rate r < 1) (p_global (buildPriors stringify es))"
  using buildPriors_replay buildPriors_rates [of _ _ stringify es] by (auto simp: list_all_iff)

text \<open>\<open>pickBestTier\<close> chooses a tier with at least three samples whose rate no other tier with at
  least three samples exceeds, and chooses none only when no tier has the samples.\<close>

theorem pickBestTier_optimal:
  assumes "\<forall>(m, r)\<in>set recs. 0 \<le> r_rate r"
  shows "case pickBestTier recs of
      Some t \<Rightarrow> \<exists>r. map_of recs (tier_name t) = Some r \<and> r_n r \<ge> 3
        \<and> (\<forall>t' r'. map_of recs (tier_name t') = Some r' \<longrightarrow> r_n r' \<ge> 3 \<longrightarrow> r_rate r' \<le> r_rate r)
    | None \<Rightarrow> \<forall>t r. map_of recs (tier_name t) = Some r \<longrightarrow> r_n r < 3"
proof (cases "pickBestTier recs")
  case None
  have "r_n r < 3" if "map_of recs (tier_name t) = Some r" for t r
    using pickBestTier_None [OF None that] assms map_of_SomeD [OF that] by auto
  then show ?thesis using None by simp
next
  case (Some t)
  show ?thesis using pickBestTier_best [OF Some] Some by simp
qed

theorem pickBestTier_optimal_witness:
  "pickBestTier [(''mid'', \<lparr>r_passes = 3, r_n = 4, r_rate = 4 / 6\<rparr>), (''cheap'', \<lparr>r_passes = 2, r_n = 3, r_rate = 3 / 5\<rparr>)]
     = Some Mid
   \<and> (3 / 5 :: rat) \<le> 4 / 6"
proof -
  let ?m = "[(''mid'', \<lparr>r_passes = 3, r_n = 4, r_rate = 4 / 6 :: rat\<rparr>), (''cheap'', \<lparr>r_passes = 2, r_n = 3, r_rate = 3 / 5\<rparr>)]"
  have p: "pickBestTier ?m = Some Mid" by code_simp
  have "\<forall>(m, r)\<in>set ?m. 0 \<le> r_rate r" by simp
  from pickBestTier_optimal [OF this] have "\<exists>r. map_of ?m (tier_name Mid) = Some r \<and> r_n r \<ge> 3
        \<and> (\<forall>t' r'. map_of ?m (tier_name t') = Some r' \<longrightarrow> r_n r' \<ge> 3 \<longrightarrow> r_rate r' \<le> r_rate r)"
    unfolding p option.case .
  moreover have "map_of ?m (tier_name Mid) = Some \<lparr>r_passes = 3, r_n = 4, r_rate = 4 / 6\<rparr>"
    "map_of ?m (tier_name Cheap) = Some \<lparr>r_passes = 2, r_n = 3, r_rate = 3 / 5\<rparr>" by (simp_all add: tier_name_def)
  ultimately have "r_rate \<lparr>r_passes = 2, r_n = 3, r_rate = 3 / 5 :: rat\<rparr> \<le> r_rate \<lparr>r_passes = 3, r_n = 4, r_rate = 4 / 6\<rparr>"
    by (auto dest: spec [where x = Cheap])
  with p show ?thesis by simp
qed

end
