(* ===== verification/FleetPlan.thy ===== *)
theory FleetPlan
  imports TicketFloat
begin

text \<open>
  The fleet's plan derivation, \<^verbatim>\<open>packages/fleet/lib/plan.mjs\<close> and \<open>planRound\<close> of
  \<^verbatim>\<open>scheduler.mjs\<close>, over the run status of \<^verbatim>\<open>status.mjs\<close>.
\<close>

section \<open>Run status\<close>

datatype tstate = Pending | Building | Gating | Prosecuting | Fixing | Merging | Merged | Failed | Blocked | Paused

definition IN_FLIGHT_STATES :: "tstate list" where
  "IN_FLIGHT_STATES = [Building, Gating, Prosecuting, Fixing, Merging]"

definition TERMINAL_STATES :: "tstate list" where
  "TERMINAL_STATES = [Merged, Failed, Blocked]"

record trec =
  r_state :: tstate
  r_strikes :: nat
  r_branch :: "string option"
  r_cleanupFailed :: bool

record status =
  s_tickets :: "(ident \<times> trec) list"
  s_integration :: "string option"
  s_contaminated :: bool

definition newStatus :: "string \<Rightarrow> status" where
  "newStatus integrationBranch = \<lparr>s_tickets = [], s_integration = Some integrationBranch, s_contaminated = False\<rparr>"

definition withTicket :: "status \<Rightarrow> ident \<Rightarrow> (trec \<Rightarrow> trec) \<Rightarrow> status" where
  "withTicket st i patch =
     (let prev = (case map_of (s_tickets st) i of Some r \<Rightarrow> r | None \<Rightarrow> \<lparr>r_state = Pending, r_strikes = 0, r_branch = None, r_cleanupFailed = False\<rparr>)
      in st\<lparr>s_tickets := AList.update i (patch prev) (s_tickets st)\<rparr>)"

definition statusById :: "status \<Rightarrow> (ident \<times> tstate) list" where
  "statusById st = map (\<lambda>(i, r). (i, r_state r)) (s_tickets st)"

definition inFlightIds :: "status \<Rightarrow> ident list" where
  "inFlightIds st = map fst (filter (\<lambda>(i, r). r_state r \<in> set IN_FLIGHT_STATES) (s_tickets st))"

section \<open>The plan\<close>

definition fleet_active :: "ticket list \<Rightarrow> ticket list" where
  "fleet_active all = filter (\<lambda>t. \<not> t_completed t) all"

definition predecessorsOf :: "ident \<Rightarrow> ticket list \<Rightarrow> ident list" where
  "predecessorsOf i all = map t_id (filter (\<lambda>t. list_ex (\<lambda>j. j = i) (t_edges t)) all)"

definition mergedOrCompleted :: "ticket list \<Rightarrow> (ident \<times> tstate) list \<Rightarrow> ident set" where
  "mergedOrCompleted all st =
     set (map t_id (filter t_completed all)) \<union> set (map fst (filter (\<lambda>(i, s). s = Merged) st))"

definition tickets_of :: "ticket list \<Rightarrow> ident list \<Rightarrow> ticket list" where
  "tickets_of all is = List.map_filter (by_id all) is"

definition in_subset :: "ident list option \<Rightarrow> ident \<Rightarrow> bool" where
  "in_subset onlyIds i = (case onlyIds of None \<Rightarrow> True | Some s \<Rightarrow> i \<in> set s)"

definition dispatchable_state :: "(ident \<times> tstate) list \<Rightarrow> ident \<Rightarrow> bool" where
  "dispatchable_state st i = (case map_of st i of None \<Rightarrow> True | Some s \<Rightarrow> s = Pending)"

definition computeReady ::
  "ticket list \<Rightarrow> (ident \<times> tstate) list \<Rightarrow> ident list \<Rightarrow> ident list option \<Rightarrow> ticket list" where
  "computeReady all st inFlight onlyIds =
     (let done = mergedOrCompleted all st; flying = tickets_of all inFlight
      in filter (\<lambda>t. in_subset onlyIds (t_id t) \<and> dispatchable_state st (t_id t)
             \<and> list_all (\<lambda>p. p \<in> done) (predecessorsOf (t_id t) all)
             \<and> \<not> list_ex (\<lambda>f. scopesOverlap f t) flying) (fleet_active all))"

definition unsatisfiableInSubset ::
  "ticket list \<Rightarrow> ident list option \<Rightarrow> (ident \<times> tstate) list \<Rightarrow> ident list" where
  "unsatisfiableInSubset all onlyIds st = (case onlyIds of
      None \<Rightarrow> []
    | Some s \<Rightarrow> filter (\<lambda>i. list_ex (\<lambda>p. p \<notin> set s \<and> p \<notin> mergedOrCompleted all st) (predecessorsOf i all)) s)"

fun select_from :: "ticket list \<Rightarrow> nat \<Rightarrow> ticket list \<Rightarrow> ticket list \<Rightarrow> ticket list" where
  "select_from [] freeSlots admitted held = admitted"
| "select_from (t # ready) freeSlots admitted held =
     (if length admitted \<ge> freeSlots then admitted
      else if list_ex (\<lambda>h. scopesOverlap h t) held then select_from ready freeSlots admitted held
      else select_from ready freeSlots (admitted @ [t]) (held @ [t]))"

definition selectDispatchable :: "ticket list \<Rightarrow> ticket list \<Rightarrow> nat \<Rightarrow> ticket list" where
  "selectDispatchable ready inFlight freeSlots = select_from ready freeSlots [] inFlight"

record plan =
  admit :: "ticket list"
  blocked_ids :: "ident list"
  freeSlots :: nat

definition planRound ::
  "ticket list \<Rightarrow> (ident \<times> tstate) list \<Rightarrow> ident list \<Rightarrow> nat \<Rightarrow> ident list option \<Rightarrow> plan" where
  "planRound all st inFlight cap onlyIds =
     (let flying = tickets_of all inFlight;
          free = cap - length flying;
          ready = computeReady all st inFlight onlyIds
      in \<lparr>admit = selectDispatchable ready flying free,
          blocked_ids = unsatisfiableInSubset all onlyIds st,
          freeSlots = free\<rparr>)"

section \<open>What is admitted\<close>

definition disjoint_scopes :: "ticket list \<Rightarrow> bool" where
  "disjoint_scopes ts = sorted_wrt (\<lambda>h t. \<not> scopesOverlap h t) ts"

lemma disjoint_scopes_snoc:
  "disjoint_scopes (ts @ [t]) \<longleftrightarrow> disjoint_scopes ts \<and> (\<forall>h\<in>set ts. \<not> scopesOverlap h t)"
  by (auto simp: disjoint_scopes_def sorted_wrt_append)

lemma disjoint_scopes_pair:
  assumes "disjoint_scopes ts" and "a \<in> set ts" and "b \<in> set ts" and "a \<noteq> b"
  shows "\<not> scopesOverlap a b"
  using assms unfolding disjoint_scopes_def
  by (induction ts) (auto simp: scopesOverlap_sym [of a b])

lemma disjoint_scopes_filter: "disjoint_scopes ts \<Longrightarrow> disjoint_scopes (filter P ts)"
  unfolding disjoint_scopes_def by (rule sorted_wrt_filter)

lemma select_from_spec:
  assumes "disjoint_scopes held" and "set admitted \<subseteq> set held" and "length admitted \<le> free"
  shows "\<exists>new. select_from ready free admitted held = admitted @ new \<and> set new \<subseteq> set ready
    \<and> length (admitted @ new) \<le> free \<and> disjoint_scopes (held @ new) \<and> (distinct ready \<longrightarrow> distinct new)"
  using assms
proof (induction ready free admitted held rule: select_from.induct)
  case (2 t ready free admitted held)
  consider "length admitted \<ge> free"
    | "\<not> length admitted \<ge> free" "list_ex (\<lambda>h. scopesOverlap h t) held"
    | "\<not> length admitted \<ge> free" "\<not> list_ex (\<lambda>h. scopesOverlap h t) held" by blast
  then show ?case
  proof cases
    case 1
    then show ?thesis using 2(3-5) by (intro exI [of _ "[]"]) simp
  next
    case 2
    then show ?thesis using "2.IH"(1) "2.prems" by fastforce
  next
    case 3
    have "disjoint_scopes (held @ [t])" "set (admitted @ [t]) \<subseteq> set (held @ [t])" "length (admitted @ [t]) \<le> free"
      using 3 "2.prems" by (auto simp: disjoint_scopes_snoc list_ex_iff)
    from "2.IH"(2) [OF 3 this] obtain new where
      "select_from ready free (admitted @ [t]) (held @ [t]) = (admitted @ [t]) @ new" "set new \<subseteq> set ready"
      "length ((admitted @ [t]) @ new) \<le> free" "disjoint_scopes ((held @ [t]) @ new)" "distinct ready \<longrightarrow> distinct new" by blast
    then show ?thesis using 3 by (intro exI [of _ "t # new"]) auto
  qed
qed (auto intro!: exI [of _ "[]"])

lemma selectDispatchable_spec:
  assumes "disjoint_scopes flying"
  shows "set (selectDispatchable ready flying free) \<subseteq> set ready"
    and "length (selectDispatchable ready flying free) \<le> free"
    and "disjoint_scopes (flying @ selectDispatchable ready flying free)"
    and "distinct ready \<Longrightarrow> distinct (selectDispatchable ready flying free)"
  using select_from_spec [OF assms, of "[]" free ready] by (auto simp: selectDispatchable_def)


lemma set_predecessorsOf: "set (predecessorsOf i all) = {p. (p, i) \<in> dep all}"
  by (auto simp: predecessorsOf_def dep_def list_ex_iff)

lemma computeReady_iff:
  "t \<in> set (computeReady all st fl onlyIds) \<longleftrightarrow>
     t \<in> set all \<and> \<not> t_completed t \<and> in_subset onlyIds (t_id t) \<and> dispatchable_state st (t_id t)
     \<and> (\<forall>p. (p, t_id t) \<in> dep all \<longrightarrow> p \<in> mergedOrCompleted all st)
     \<and> (\<forall>f\<in>set (tickets_of all fl). \<not> scopesOverlap f t)"
  by (auto simp: computeReady_def Let_def fleet_active_def list_all_iff list_ex_iff set_predecessorsOf)

lemma planRound_admit:
  assumes "disjoint_scopes (tickets_of all fl)" and "t \<in> set (admit (planRound all st fl cap onlyIds))"
  shows "t \<in> set all \<and> \<not> t_completed t \<and> in_subset onlyIds (t_id t) \<and> dispatchable_state st (t_id t)
     \<and> (\<forall>p. (p, t_id t) \<in> dep all \<longrightarrow> p \<in> mergedOrCompleted all st)"
proof -
  have "t \<in> set (computeReady all st fl onlyIds)"
    using subsetD [OF selectDispatchable_spec(1) [OF assms(1)]] assms(2) by (simp add: planRound_def Let_def)
  then show ?thesis by (simp add: computeReady_iff)
qed

lemma planRound_slots:
  assumes "disjoint_scopes (tickets_of all fl)"
  shows "length (tickets_of all fl) \<le> cap \<Longrightarrow>
      length (tickets_of all fl @ admit (planRound all st fl cap onlyIds)) \<le> cap"
    and "disjoint_scopes (tickets_of all fl @ admit (planRound all st fl cap onlyIds))"
    and "distinct all \<Longrightarrow> distinct (admit (planRound all st fl cap onlyIds))"
proof -
  let ?free = "cap - length (tickets_of all fl)"
  let ?sel = "selectDispatchable (computeReady all st fl onlyIds) (tickets_of all fl) ?free"
  have p: "admit (planRound all st fl cap onlyIds) = ?sel" by (simp add: planRound_def Let_def)
  have "length ?sel \<le> ?free" by (rule selectDispatchable_spec(2) [OF assms])
  then show "length (tickets_of all fl) \<le> cap \<Longrightarrow>
      length (tickets_of all fl @ admit (planRound all st fl cap onlyIds)) \<le> cap"
    by (simp add: p)
  show "disjoint_scopes (tickets_of all fl @ admit (planRound all st fl cap onlyIds))"
    unfolding p by (rule selectDispatchable_spec(3) [OF assms])
  show "distinct (admit (planRound all st fl cap onlyIds))" if "distinct all"
    unfolding p by (rule selectDispatchable_spec(4) [OF assms]) (use that in \<open>simp add: computeReady_def fleet_active_def Let_def\<close>)
qed


section \<open>Properties\<close>

text \<open>Every ticket a planning round admits is an open, not yet dispatched ticket of the requested
  subset whose prerequisites are all merged or completed; the tickets in flight together with the
  admitted ones stay within the cap and have pairwise disjoint scopes.\<close>

theorem planRound_safe:
  assumes "disjoint_scopes (tickets_of all fl)" and "length (tickets_of all fl) \<le> cap"
  shows "(\<forall>t\<in>set (admit (planRound all st fl cap onlyIds)).
      t \<in> set all \<and> \<not> t_completed t \<and> in_subset onlyIds (t_id t) \<and> dispatchable_state st (t_id t)
      \<and> (\<forall>p. (p, t_id t) \<in> dep all \<longrightarrow> p \<in> mergedOrCompleted all st))
    \<and> length (tickets_of all fl @ admit (planRound all st fl cap onlyIds)) \<le> cap
    \<and> disjoint_scopes (tickets_of all fl @ admit (planRound all st fl cap onlyIds))"
  using planRound_admit [OF assms(1)] planRound_slots(1,2) [OF assms(1)] assms(2) by blast

theorem planRound_safe_witness:
  "admit (planRound [demo_ticket ''A'' [''B''] True, demo_ticket ''B'' [] False] [] [] 2 None) = [demo_ticket ''B'' [] False]
   \<and> ''A'' \<in> mergedOrCompleted [demo_ticket ''A'' [''B''] True, demo_ticket ''B'' [] False] []"
proof -
  let ?all = "[demo_ticket ''A'' [''B''] True, demo_ticket ''B'' [] False]"
  have d: "disjoint_scopes (tickets_of ?all [])" "length (tickets_of ?all []) \<le> 2"
    by (simp_all add: disjoint_scopes_def tickets_of_def map_filter_simps)
  have a: "admit (planRound ?all [] [] 2 None) = [demo_ticket ''B'' [] False]" by code_simp
  have "(''A'', t_id (demo_ticket ''B'' [] False)) \<in> dep ?all" by (simp add: dep_Cons demo_ticket_def)
  with planRound_safe [OF d, of "[]" None] a show ?thesis by simp
qed



end
