(* ===== verification/FleetTicket.thy ===== *)
theory FleetTicket
  imports FleetPlan JsString
begin

text \<open>
  \<open>advanceTicket\<close> and \<open>reconcileResume\<close> of \<^verbatim>\<open>packages/fleet/lib/scheduler.mjs\<close>: one ticket through
  the pipeline with the strike policy. Every effect is injected in the code; here it is a function
  of the strike it is called in (each is called at most once per strike), and the wall clock is
  the sequence of its readings. The calls made are recorded in order, each with the number of clock
  readings made before it.
\<close>

datatype reason_code =
    QuotaPaused | LockHeld | WallClock | StrikesExhausted | TicketBlocked | FlailFound | ReviewUnavailable | MirrorFetchFailed

record build_result =
  b_policyMismatch :: bool
  b_blocked :: bool
  b_mirrorFetchFailed :: bool
  b_timedOut :: bool
  b_deadlineTruncated :: bool
  b_exit :: int
  b_output :: string

record gate_result =
  g_ok :: bool
  g_timedOut :: bool
  g_output :: string

record pros_result =
  p_verdict :: string
  p_timedOut :: bool
  p_reason :: string

record merge_result =
  m_ok :: bool
  m_expired :: bool
  m_expiredAfterMerge :: bool
  m_output :: string

record effects =
  fx_deadline :: "int option"
  fx_now :: "nat \<Rightarrow> int"
  fx_preStrike :: "(nat \<Rightarrow> bool) option"
  fx_dispatch :: "nat \<Rightarrow> build_result"
  fx_gate :: "nat \<Rightarrow> gate_result"
  fx_prosecute :: "nat \<Rightarrow> pros_result"
  fx_merge :: "nat \<Rightarrow> merge_result"
  fx_flail :: "nat \<Rightarrow> bool"

datatype event =
    EPreStrike nat | EDispatch nat | EUsage nat | EGate nat | EProsecute nat | EMerge nat | EFlail nat
  | ERecord string bool

datatype dead_end = InitialDeadEnd string | DeadEnd string string

record adv =
  a_strikes :: nat
  a_deadEnds :: "dead_end list"
  a_gatePassed :: bool
  a_prosecution :: "string option"
  a_rounds :: nat
  a_reads :: nat
  a_events :: "(event \<times> nat) list"

record outcome =
  o_state :: tstate
  o_strikes :: nat
  o_reason :: "reason_code option"
  o_policyMismatch :: bool
  o_adv :: adv

definition emit :: "event \<Rightarrow> adv \<Rightarrow> adv" where
  "emit e st = st\<lparr>a_events := a_events st @ [(e, a_reads st)]\<rparr>"

definition outcome_of :: "tstate \<Rightarrow> reason_code option \<Rightarrow> adv \<Rightarrow> outcome" where
  "outcome_of s r st = \<lparr>o_state = s, o_strikes = a_strikes st, o_reason = r, o_policyMismatch = False, o_adv = st\<rparr>"

definition fail :: "reason_code \<Rightarrow> adv \<Rightarrow> outcome" where
  "fail r st = outcome_of Failed (Some r) st"

definition paused :: "reason_code \<Rightarrow> adv \<Rightarrow> outcome" where
  "paused r st = outcome_of Paused (Some r) st"

text \<open>The strike is handed back: \<open>Math.max(0, strikes - 1)\<close>.\<close>

definition pausedUnconsumed :: "adv \<Rightarrow> outcome" where
  "pausedUnconsumed st = (paused WallClock st)\<lparr>o_strikes := a_strikes st - 1\<rparr>"

text \<open>\<open>if (expired()) return stop; rest\<close>: the clock is read only when there is a deadline.\<close>

definition unless_expired ::
  "effects \<Rightarrow> adv \<Rightarrow> (adv \<Rightarrow> outcome) \<Rightarrow> (adv \<Rightarrow> outcome + adv) \<Rightarrow> outcome + adv" where
  "unless_expired fx st stop rest = (case fx_deadline fx of
      None \<Rightarrow> rest st
    | Some d \<Rightarrow>
        let st' = st\<lparr>a_reads := a_reads st + 1\<rparr>
        in if fx_now fx (a_reads st) \<ge> d then Inl (stop st') else rest st')"

text \<open>A failed build or gate: the dead end is kept, and a strike that may be retried asks the flail
  detector first. \<open>Inr\<close> is \<open>continue\<close>.\<close>

definition after_failure :: "effects \<Rightarrow> nat \<Rightarrow> string \<Rightarrow> string \<Rightarrow> adv \<Rightarrow> outcome + adv" where
  "after_failure fx maxStrikes label output st0 =
     unless_expired fx st0 (paused WallClock) (\<lambda>st1.
       let st = st1\<lparr>a_deadEnds := a_deadEnds st1 @ [DeadEnd label output]\<rparr>
       in if a_strikes st < maxStrikes then
            unless_expired fx (emit (EFlail (a_strikes st)) st) (paused WallClock) (\<lambda>st'.
              if fx_flail fx (a_strikes st) then Inl (fail FlailFound st') else Inr st')
          else Inr st)"

definition merge_phase :: "effects \<Rightarrow> nat \<Rightarrow> adv \<Rightarrow> outcome + adv" where
  "merge_phase fx maxStrikes st0 =
     unless_expired fx st0 pausedUnconsumed (\<lambda>st1.
       let k = a_strikes st1; st = emit (EMerge k) st1; merge = fx_merge fx k
       in if m_expired merge then Inl (pausedUnconsumed st)
          else if \<not> m_ok merge then
            (let st' = st\<lparr>a_deadEnds := a_deadEnds st @ [DeadEnd ''POST_MERGE'' (m_output merge)]\<rparr>
             in if a_strikes st' < maxStrikes then Inr st' else Inl (fail StrikesExhausted st'))
          else if m_expiredAfterMerge merge then Inl (outcome_of Merged (Some WallClock) st)
          else Inl (outcome_of Merged None st))"

definition prosecute_phase :: "effects \<Rightarrow> nat \<Rightarrow> adv \<Rightarrow> outcome + adv" where
  "prosecute_phase fx maxStrikes st0 =
     unless_expired fx st0 pausedUnconsumed (\<lambda>st1.
       let k = a_strikes st1;
           pros = fx_prosecute fx k;
           st = (emit (EProsecute k) st1)\<lparr>a_prosecution := Some (p_verdict pros), a_rounds := a_rounds st1 + 1\<rparr>
       in if p_verdict pros = ''unavailable'' then
            (if p_timedOut pros
             then unless_expired fx st pausedUnconsumed (\<lambda>st. Inl (fail ReviewUnavailable (emit (ERecord ''p5'' False) st)))
             else Inl (fail ReviewUnavailable (emit (ERecord ''p5'' False) st)))
          else if p_verdict pros = ''block'' then
            (let st' = st\<lparr>a_deadEnds := a_deadEnds st @ [DeadEnd ''PROSECUTION'' (p_reason pros)]\<rparr>
             in if a_strikes st' < maxStrikes then Inr st'
                else Inl (fail StrikesExhausted (emit (ERecord ''p5'' False) st')))
          else merge_phase fx maxStrikes (emit (ERecord ''p5'' True) st))"

definition gate_phase :: "effects \<Rightarrow> nat \<Rightarrow> adv \<Rightarrow> outcome + adv" where
  "gate_phase fx maxStrikes st0 =
     unless_expired fx st0 pausedUnconsumed (\<lambda>st1.
       let k = a_strikes st1; st = emit (EGate k) st1; gate = fx_gate fx k
       in if \<not> g_ok gate then
            (if g_timedOut gate
             then unless_expired fx st pausedUnconsumed (after_failure fx maxStrikes ''GATE'' (g_output gate))
             else after_failure fx maxStrikes ''GATE'' (g_output gate) st)
          else prosecute_phase fx maxStrikes (emit (ERecord ''p4'' True) (st\<lparr>a_gatePassed := True\<rparr>)))"

definition build_phase :: "effects \<Rightarrow> nat \<Rightarrow> adv \<Rightarrow> outcome + adv" where
  "build_phase fx maxStrikes st0 =
     (let k = a_strikes st0 + 1;
          build = fx_dispatch fx k;
          st = emit (EUsage k) (emit (EDispatch k) (st0\<lparr>a_strikes := k\<rparr>))
      in if b_policyMismatch build then
           Inl (\<lparr>o_state = Paused, o_strikes = k - 1, o_reason = None, o_policyMismatch = True, o_adv = st\<rparr>)
         else if b_blocked build then Inl (outcome_of Blocked (Some TicketBlocked) st)
         else if b_mirrorFetchFailed build then Inl (fail MirrorFetchFailed st)
         else if b_timedOut build then
           unless_expired fx st (if b_deadlineTruncated build then pausedUnconsumed else paused WallClock)
             (after_failure fx maxStrikes ''BUILD'' (b_output build))
         else if b_exit build \<noteq> 0 then after_failure fx maxStrikes ''BUILD'' (b_output build) st
         else gate_phase fx maxStrikes st)"

definition strike :: "effects \<Rightarrow> nat \<Rightarrow> adv \<Rightarrow> outcome + adv" where
  "strike fx maxStrikes st0 =
     unless_expired fx st0 (paused WallClock) (\<lambda>st.
       case fx_preStrike fx of
         None \<Rightarrow> build_phase fx maxStrikes st
       | Some pre \<Rightarrow>
           unless_expired fx (emit (EPreStrike (a_strikes st + 1)) st) (paused WallClock) (\<lambda>st'.
             if \<not> pre (a_strikes st + 1) then Inl (paused QuotaPaused st')
             else build_phase fx maxStrikes st'))"

subsection \<open>A strike ends the ticket or uses up exactly one strike\<close>

lemma unless_expired_Inr:
  "unless_expired fx st stop rest = Inr r \<longleftrightarrow>
     (\<exists>st'. (st' = st \<and> fx_deadline fx = None
        \<or> st' = st\<lparr>a_reads := a_reads st + 1\<rparr> \<and> (\<exists>d. fx_deadline fx = Some d \<and> fx_now fx (a_reads st) < d))
      \<and> rest st' = Inr r)"
  by (auto simp: unless_expired_def Let_def split: option.splits)

lemma unless_expired_Inl:
  "unless_expired fx st stop rest = Inl out \<longleftrightarrow>
     (\<exists>d. fx_deadline fx = Some d \<and> d \<le> fx_now fx (a_reads st) \<and> out = stop (st\<lparr>a_reads := a_reads st + 1\<rparr>))
     \<or> (\<exists>st'. (st' = st \<and> fx_deadline fx = None
        \<or> st' = st\<lparr>a_reads := a_reads st + 1\<rparr> \<and> (\<exists>d. fx_deadline fx = Some d \<and> fx_now fx (a_reads st) < d))
      \<and> rest st' = Inl out)"
  by (auto simp: unless_expired_def Let_def split: option.splits)

text \<open>What a phase does to the state: a rule for each quantity, proved once per phase.\<close>

definition phase_inv :: "(adv \<Rightarrow> bool) \<Rightarrow> outcome + adv \<Rightarrow> bool" where
  "phase_inv P r = (case r of Inl out \<Rightarrow> P (o_adv out) | Inr st \<Rightarrow> P st)"

lemma phase_inv_simps [simp]: "phase_inv P (Inl out) = P (o_adv out)" "phase_inv P (Inr st) = P st"
  by (simp_all add: phase_inv_def)

lemma outcome_adv [simp]:
  "o_adv (fail r st) = st" "o_adv (paused r st) = st" "o_adv (pausedUnconsumed st) = st" "o_adv (outcome_of s c st) = st"
  by (simp_all add: fail_def paused_def pausedUnconsumed_def outcome_of_def)

lemma emit_simps [simp]:
  "a_strikes (emit e st) = a_strikes st" "a_reads (emit e st) = a_reads st"
  "a_events (emit e st) = a_events st @ [(e, a_reads st)]" "a_gatePassed (emit e st) = a_gatePassed st"
  by (simp_all add: emit_def)

lemma unless_expired_inv:
  assumes "\<And>s. o_adv (stop s) = s"
    and "P (st\<lparr>a_reads := a_reads st + 1\<rparr>)"
    and "\<And>st'. st' = st \<and> fx_deadline fx = None \<or>
       st' = st\<lparr>a_reads := a_reads st + 1\<rparr> \<and> (\<exists>d. fx_deadline fx = Some d \<and> fx_now fx (a_reads st) < d)
       \<Longrightarrow> phase_inv P (rest st')"
  shows "phase_inv P (unless_expired fx st stop rest)"
  using assms by (auto simp: unless_expired_def Let_def split: option.splits)

definition in_time :: "effects \<Rightarrow> nat \<Rightarrow> bool" where
  "in_time fx r \<longleftrightarrow> (\<forall>d. fx_deadline fx = Some d \<longrightarrow> 0 < r \<and> fx_now fx (r - 1) < d)"

definition built :: "effects \<Rightarrow> nat \<Rightarrow> bool" where
  "built fx k \<longleftrightarrow> (let b = fx_dispatch fx k in \<not> b_policyMismatch b \<and> \<not> b_blocked b \<and> \<not> b_mirrorFetchFailed b
     \<and> \<not> b_timedOut b \<and> b_exit b = 0)"

definition gated :: "effects \<Rightarrow> nat \<Rightarrow> bool" where
  "gated fx k \<longleftrightarrow> built fx k \<and> g_ok (fx_gate fx k)"

definition approved :: "effects \<Rightarrow> nat \<Rightarrow> bool" where
  "approved fx k \<longleftrightarrow> gated fx k \<and> p_verdict (fx_prosecute fx k) \<notin> {''unavailable'', ''block''}"

definition event_ok :: "effects \<Rightarrow> event \<times> nat \<Rightarrow> bool" where
  "event_ok fx er = (case er of
      (EPreStrike k, r) \<Rightarrow> in_time fx r
    | (EDispatch k, r) \<Rightarrow> in_time fx r
    | (EGate k, r) \<Rightarrow> in_time fx r \<and> built fx k
    | (EProsecute k, r) \<Rightarrow> in_time fx r \<and> gated fx k
    | (EMerge k, r) \<Rightarrow> in_time fx r \<and> approved fx k
    | (EFlail k, r) \<Rightarrow> in_time fx r
    | _ \<Rightarrow> True)"

lemma event_ok_simps [simp]:
  "event_ok fx (EPreStrike k, r) = in_time fx r" "event_ok fx (EDispatch k, r) = in_time fx r"
  "event_ok fx (EGate k, r) \<longleftrightarrow> in_time fx r \<and> built fx k"
  "event_ok fx (EProsecute k, r) \<longleftrightarrow> in_time fx r \<and> gated fx k"
  "event_ok fx (EMerge k, r) \<longleftrightarrow> in_time fx r \<and> approved fx k"
  "event_ok fx (EFlail k, r) = in_time fx r" "event_ok fx (ERecord p b, r) = True" "event_ok fx (EUsage k, r) = True"
  by (simp_all add: event_ok_def)

definition numbers :: "(event \<Rightarrow> nat option) \<Rightarrow> adv \<Rightarrow> nat list" where
  "numbers f st = List.map_filter (\<lambda>(e, r). f e) (a_events st)"

definition dispatched :: "event \<Rightarrow> nat option" where
  "dispatched e = (case e of EDispatch k \<Rightarrow> Some k | _ \<Rightarrow> None)"

definition charged :: "event \<Rightarrow> nat option" where
  "charged e = (case e of EUsage k \<Rightarrow> Some k | _ \<Rightarrow> None)"

lemma numbers_simps [simp]:
  "numbers f (emit e st) = numbers f st @ (case f e of None \<Rightarrow> [] | Some k \<Rightarrow> [k])"
  "numbers f (st\<lparr>a_reads := x\<rparr>) = numbers f st" "numbers f (st\<lparr>a_strikes := y\<rparr>) = numbers f st"
  "numbers f (st\<lparr>a_deadEnds := z\<rparr>) = numbers f st" "numbers f (st\<lparr>a_gatePassed := w\<rparr>) = numbers f st"
  "numbers f (st\<lparr>a_prosecution := v, a_rounds := u\<rparr>) = numbers f st"
  by (auto simp: numbers_def map_filter_def split: option.splits)

text \<open>The invariant of a ticket's run that began with \<open>s0\<close> strikes.\<close>

definition adv_inv :: "effects \<Rightarrow> nat \<Rightarrow> adv \<Rightarrow> bool" where
  "adv_inv fx s0 st \<longleftrightarrow>
     s0 \<le> a_strikes st \<and> (\<forall>er\<in>set (a_events st). event_ok fx er)
     \<and> numbers dispatched st = [Suc s0..<Suc (a_strikes st)] \<and> numbers charged st = [Suc s0..<Suc (a_strikes st)]"

definition fresh :: "effects \<Rightarrow> adv \<Rightarrow> bool" where
  "fresh fx st \<longleftrightarrow> in_time fx (a_reads st)"

lemma adv_inv_upd [simp]:
  "adv_inv fx s0 (st\<lparr>a_reads := x\<rparr>) = adv_inv fx s0 st" "adv_inv fx s0 (st\<lparr>a_deadEnds := z\<rparr>) = adv_inv fx s0 st"
  "adv_inv fx s0 (st\<lparr>a_gatePassed := w\<rparr>) = adv_inv fx s0 st"
  "adv_inv fx s0 (st\<lparr>a_prosecution := v, a_rounds := u\<rparr>) = adv_inv fx s0 st"
  by (simp_all add: adv_inv_def)

lemma adv_inv_emit:
  "dispatched e = None \<Longrightarrow> charged e = None \<Longrightarrow>
    adv_inv fx s0 (emit e st) \<longleftrightarrow> adv_inv fx s0 st \<and> event_ok fx (e, a_reads st)"
  by (auto simp: adv_inv_def)

lemma no_number [simp]:
  "dispatched (EPreStrike k) = None" "dispatched (EUsage k) = None" "dispatched (EGate k) = None"
  "dispatched (EProsecute k) = None" "dispatched (EMerge k) = None" "dispatched (EFlail k) = None"
  "dispatched (ERecord p b) = None" "dispatched (EDispatch k) = Some k"
  "charged (EPreStrike k) = None" "charged (EDispatch k) = None" "charged (EGate k) = None"
  "charged (EProsecute k) = None" "charged (EMerge k) = None" "charged (EFlail k) = None"
  "charged (ERecord p b) = None" "charged (EUsage k) = Some k"
  by (simp_all add: dispatched_def charged_def)

text \<open>After a clock check that did not stop the run, the state is fresh.\<close>

lemma unless_expired_adv:
  assumes "\<And>s. o_adv (stop s) = s" and "adv_inv fx s0 st"
    and "\<And>st'. adv_inv fx s0 st' \<Longrightarrow> fresh fx st' \<Longrightarrow> a_strikes st' = a_strikes st \<Longrightarrow> phase_inv (adv_inv fx s0) (rest st')"
  shows "phase_inv (adv_inv fx s0) (unless_expired fx st stop rest)"
  by (rule unless_expired_inv) (use assms in \<open>auto simp: fresh_def in_time_def intro!: assms(3)\<close>)

lemma after_failure_adv:
  assumes "adv_inv fx s0 st"
  shows "phase_inv (adv_inv fx s0) (after_failure fx mx label output st)"
  unfolding after_failure_def Let_def
proof (rule unless_expired_adv [OF _ assms])
  fix st' assume "adv_inv fx s0 st'" "fresh fx st'"
  then have "adv_inv fx s0 (emit (EFlail k) (st'\<lparr>a_deadEnds := ds\<rparr>))" for k ds
    by (simp add: adv_inv_emit fresh_def)
  then show "phase_inv (adv_inv fx s0)
      (if a_strikes (st'\<lparr>a_deadEnds := a_deadEnds st' @ [DeadEnd label output]\<rparr>) < mx
       then unless_expired fx (emit (EFlail (a_strikes (st'\<lparr>a_deadEnds := a_deadEnds st' @ [DeadEnd label output]\<rparr>)))
              (st'\<lparr>a_deadEnds := a_deadEnds st' @ [DeadEnd label output]\<rparr>)) (paused WallClock)
            (\<lambda>st''. if fx_flail fx (a_strikes (st'\<lparr>a_deadEnds := a_deadEnds st' @ [DeadEnd label output]\<rparr>))
               then Inl (fail FlailFound st'') else Inr st'')
       else Inr (st'\<lparr>a_deadEnds := a_deadEnds st' @ [DeadEnd label output]\<rparr>))"
    using \<open>adv_inv fx s0 st'\<close> by (auto intro!: unless_expired_adv)
qed simp

lemma merge_phase_adv:
  assumes "adv_inv fx s0 st" and "approved fx (a_strikes st)"
  shows "phase_inv (adv_inv fx s0) (merge_phase fx mx st)"
  unfolding merge_phase_def Let_def
  by (rule unless_expired_adv [OF _ assms(1)]) (use assms(2) in \<open>auto simp: adv_inv_emit fresh_def\<close>)

lemma prosecute_phase_adv:
  assumes "adv_inv fx s0 st" and "gated fx (a_strikes st)"
  shows "phase_inv (adv_inv fx s0) (prosecute_phase fx mx st)"
  unfolding prosecute_phase_def Let_def
  by (rule unless_expired_adv [OF _ assms(1)])
     (use assms(2) in \<open>auto simp: adv_inv_emit fresh_def approved_def intro!: unless_expired_adv merge_phase_adv\<close>)

lemma gate_phase_adv:
  assumes "adv_inv fx s0 st" and "built fx (a_strikes st)"
  shows "phase_inv (adv_inv fx s0) (gate_phase fx mx st)"
  unfolding gate_phase_def Let_def
  by (rule unless_expired_adv [OF _ assms(1)])
     (use assms(2) in \<open>auto simp: adv_inv_emit fresh_def gated_def
        intro!: unless_expired_adv prosecute_phase_adv after_failure_adv\<close>)

lemma build_phase_adv:
  assumes "adv_inv fx s0 st" and "fresh fx st"
  shows "phase_inv (adv_inv fx s0) (build_phase fx mx st)"
proof -
  let ?st = "emit (EUsage (a_strikes st + 1)) (emit (EDispatch (a_strikes st + 1)) (st\<lparr>a_strikes := a_strikes st + 1\<rparr>))"
  have inv: "adv_inv fx s0 ?st" using assms by (auto simp: adv_inv_def fresh_def)
  then show ?thesis
    unfolding build_phase_def Let_def
    by (auto simp: built_def intro!: unless_expired_adv gate_phase_adv after_failure_adv)
qed

lemma strike_adv:
  assumes "adv_inv fx s0 st"
  shows "phase_inv (adv_inv fx s0) (strike fx mx st)"
  unfolding strike_def
  by (rule unless_expired_adv [OF _ assms])
     (auto simp: adv_inv_emit fresh_def split: option.split
        intro!: unless_expired_adv build_phase_adv [unfolded fresh_def])

section \<open>The loop\<close>

text \<open>\<open>k_strikes k r\<close>: \<open>r\<close> is a state, or an outcome, reached in strike \<open>k\<close>.\<close>

lemma after_failure_strikes:
  "after_failure fx mx label output st = Inr st' \<Longrightarrow> a_strikes st' = a_strikes st"
  by (auto simp: after_failure_def unless_expired_Inr Let_def split: if_splits)

lemma merge_phase_strikes: "merge_phase fx mx st = Inr st' \<Longrightarrow> a_strikes st' = a_strikes st"
  by (auto simp: merge_phase_def unless_expired_Inr Let_def split: if_splits)

lemma prosecute_phase_strikes: "prosecute_phase fx mx st = Inr st' \<Longrightarrow> a_strikes st' = a_strikes st"
  by (auto simp: prosecute_phase_def unless_expired_Inr Let_def dest!: merge_phase_strikes split: if_splits)

lemma gate_phase_strikes: "gate_phase fx mx st = Inr st' \<Longrightarrow> a_strikes st' = a_strikes st"
  by (auto simp: gate_phase_def unless_expired_Inr Let_def dest!: prosecute_phase_strikes after_failure_strikes
      split: if_splits)

lemma build_phase_strikes: "build_phase fx mx st = Inr st' \<Longrightarrow> a_strikes st' = Suc (a_strikes st)"
  by (auto simp: build_phase_def unless_expired_Inr Let_def dest!: gate_phase_strikes after_failure_strikes
      split: if_splits)

lemma strike_strikes: "strike fx mx st = Inr st' \<Longrightarrow> a_strikes st' = Suc (a_strikes st)"
  by (auto simp: strike_def unless_expired_Inr dest!: build_phase_strikes split: option.splits if_splits)

function advance :: "effects \<Rightarrow> nat \<Rightarrow> adv \<Rightarrow> outcome" where
  "advance fx maxStrikes st =
     (if a_strikes st < maxStrikes
      then (case strike fx maxStrikes st of Inl out \<Rightarrow> out | Inr st' \<Rightarrow> advance fx maxStrikes st')
      else fail StrikesExhausted (if a_gatePassed st then st else emit (ERecord ''p4'' False) st))"
  by pat_completeness auto
termination
  by (relation "measure (\<lambda>(fx, mx, st). mx - a_strikes st)") (auto dest: strike_strikes)

declare advance.simps [simp del]

definition advanceTicket :: "effects \<Rightarrow> nat \<Rightarrow> nat \<Rightarrow> string list \<Rightarrow> outcome" where
  "advanceTicket fx maxStrikes startStrikes initialDeadEnds =
     advance fx maxStrikes
       \<lparr>a_strikes = startStrikes, a_deadEnds = map InitialDeadEnd initialDeadEnds, a_gatePassed = False,
        a_prosecution = None, a_rounds = 0, a_reads = 0, a_events = []\<rparr>"

lemma advance_adv: "adv_inv fx s0 st \<Longrightarrow> adv_inv fx s0 (o_adv (advance fx mx st))"
proof (induction fx mx st rule: advance.induct)
  case (1 fx mx st)
  show ?case
  proof (cases "a_strikes st < mx")
    case True
    show ?thesis
    proof (cases "strike fx mx st")
      case (Inl out)
      then show ?thesis using True strike_adv [OF 1(2), of mx] by (simp add: advance.simps)
    next
      case (Inr st')
      then show ?thesis using True strike_adv [OF 1(2), of mx] 1(1) by (simp add: advance.simps [of fx mx st])
    qed
  qed (use 1(2) in \<open>simp add: advance.simps adv_inv_emit\<close>)
qed

lemma advanceTicket_inv: "adv_inv fx startStrikes (o_adv (advanceTicket fx mx startStrikes ds))"
  unfolding advanceTicket_def by (rule advance_adv) (simp add: adv_inv_def numbers_def map_filter_simps)

text \<open>The strike counts: never more than the cap, and what the outcome reports.\<close>

lemma merge_phase_out: "merge_phase fx mx st = Inl out \<Longrightarrow> a_strikes (o_adv out) = a_strikes st"
  by (auto simp: merge_phase_def unless_expired_Inl Let_def split: if_splits)

lemma prosecute_phase_out: "prosecute_phase fx mx st = Inl out \<Longrightarrow> a_strikes (o_adv out) = a_strikes st"
  by (auto simp: prosecute_phase_def unless_expired_Inl Let_def dest!: merge_phase_out split: if_splits)

lemma after_failure_out: "after_failure fx mx label output st = Inl out \<Longrightarrow> a_strikes (o_adv out) = a_strikes st"
  by (auto simp: after_failure_def unless_expired_Inl Let_def split: if_splits)

lemma gate_phase_out: "gate_phase fx mx st = Inl out \<Longrightarrow> a_strikes (o_adv out) = a_strikes st"
  by (auto simp: gate_phase_def unless_expired_Inl Let_def dest!: prosecute_phase_out after_failure_out
      split: if_splits)

lemma build_phase_out: "build_phase fx mx st = Inl out \<Longrightarrow> a_strikes (o_adv out) = Suc (a_strikes st)"
  by (auto simp: build_phase_def unless_expired_Inl Let_def dest!: gate_phase_out after_failure_out
      split: if_splits)

lemma strike_out: "strike fx mx st = Inl out \<Longrightarrow> a_strikes (o_adv out) \<le> Suc (a_strikes st)"
  by (auto simp: strike_def unless_expired_Inl dest!: build_phase_out split: option.splits if_splits)

lemma advance_strikes: "a_strikes (o_adv (advance fx mx st)) \<le> max mx (a_strikes st)"
proof (induction fx mx st rule: advance.induct)
  case (1 fx mx st)
  show ?case
  proof (cases "a_strikes st < mx")
    case True
    show ?thesis
    proof (cases "strike fx mx st")
      case (Inl out)
      then show ?thesis using True strike_out [OF Inl] by (simp add: advance.simps)
    next
      case (Inr st')
      then show ?thesis using True 1 [OF True Inr] strike_strikes [OF Inr] by (simp add: advance.simps [of fx mx st])
    qed
  qed (simp add: advance.simps)
qed

lemma advanceTicket_dispatches:
  "\<exists>n\<le>max mx startStrikes. numbers dispatched (o_adv (advanceTicket fx mx startStrikes ds)) = [Suc startStrikes..<Suc n]
     \<and> numbers charged (o_adv (advanceTicket fx mx startStrikes ds)) = [Suc startStrikes..<Suc n]"
proof (intro exI conjI)
  let ?n = "a_strikes (o_adv (advanceTicket fx mx startStrikes ds))"
  show "?n \<le> max mx startStrikes"
    using advance_strikes [of fx mx] unfolding advanceTicket_def by (metis adv.select_convs(1))
  show "numbers dispatched (o_adv (advanceTicket fx mx startStrikes ds)) = [Suc startStrikes..<Suc ?n]"
    "numbers charged (o_adv (advanceTicket fx mx startStrikes ds)) = [Suc startStrikes..<Suc ?n]"
    using advanceTicket_inv [of fx startStrikes mx ds] by (simp_all add: adv_inv_def)
qed

subsection \<open>When a ticket is merged\<close>

lemma state_simps [simp]:
  "o_state (fail r st) = Failed" "o_state (paused r st) = Paused" "o_state (pausedUnconsumed st) = Paused"
  "o_state (outcome_of s c st) = s"
  "o_strikes (fail r st) = a_strikes st" "o_strikes (paused r st) = a_strikes st" "o_strikes (outcome_of s c st) = a_strikes st"
  "o_strikes (pausedUnconsumed st) = a_strikes st - 1"
  by (simp_all add: fail_def paused_def pausedUnconsumed_def outcome_of_def)

text \<open>Every outcome is merged, failed, blocked or paused.\<close>

definition ended :: "outcome \<Rightarrow> bool" where
  "ended out \<longleftrightarrow> o_state out \<in> {Merged, Failed, Blocked, Paused}"

lemma ended_simps [simp]: "ended (fail r st)" "ended (paused r st)" "ended (pausedUnconsumed st)"
  "ended (outcome_of Blocked c st)" "ended (outcome_of Merged c st)"
  "ended \<lparr>o_state = Paused, o_strikes = k, o_reason = c, o_policyMismatch = m, o_adv = st\<rparr>"
  by (simp_all add: ended_def)

lemma after_failure_ended: "after_failure fx mx label output st = Inl out \<Longrightarrow> ended out"
  by (auto simp: after_failure_def unless_expired_Inl Let_def split: if_splits)

lemma merge_phase_ended: "merge_phase fx mx st = Inl out \<Longrightarrow> ended out"
  by (auto simp: merge_phase_def unless_expired_Inl Let_def split: if_splits)

lemma prosecute_phase_ended: "prosecute_phase fx mx st = Inl out \<Longrightarrow> ended out"
  by (auto simp: prosecute_phase_def unless_expired_Inl Let_def intro: merge_phase_ended split: if_splits)

lemma gate_phase_ended: "gate_phase fx mx st = Inl out \<Longrightarrow> ended out"
  by (auto simp: gate_phase_def unless_expired_Inl Let_def intro: prosecute_phase_ended after_failure_ended
      split: if_splits)

lemma build_phase_ended: "build_phase fx mx st = Inl out \<Longrightarrow> ended out"
  by (auto simp: build_phase_def unless_expired_Inl Let_def intro: gate_phase_ended after_failure_ended
      split: if_splits)

lemma strike_ended: "strike fx mx st = Inl out \<Longrightarrow> ended out"
  by (auto simp: strike_def unless_expired_Inl intro: build_phase_ended split: option.splits if_splits)

lemma advance_ended: "ended (advance fx mx st)"
proof (induction fx mx st rule: advance.induct)
  case (1 fx mx st)
  then show ?case
    using strike_ended [of fx mx st] by (cases "strike fx mx st") (simp_all add: advance.simps [of fx mx st])
qed

lemma advanceTicket_state: "o_state (advanceTicket fx mx startStrikes ds) \<in> {Merged, Failed, Blocked, Paused}"
  using advance_ended unfolding advanceTicket_def ended_def .

definition merged_at :: "effects \<Rightarrow> outcome \<Rightarrow> bool" where
  "merged_at fx out \<longleftrightarrow> (let k = o_strikes out in
     m_ok (fx_merge fx k) \<and> \<not> m_expired (fx_merge fx k) \<and> (\<exists>r. (EMerge k, r) \<in> set (a_events (o_adv out))))"

lemma merge_phase_merged: "merge_phase fx mx st = Inl out \<Longrightarrow> o_state out = Merged \<Longrightarrow> merged_at fx out"
  by (auto simp: merge_phase_def unless_expired_Inl Let_def merged_at_def
      dest: arg_cong [where f = o_state] split: if_splits)

lemma prosecute_phase_merged: "prosecute_phase fx mx st = Inl out \<Longrightarrow> o_state out = Merged \<Longrightarrow> merged_at fx out"
  by (auto simp: prosecute_phase_def unless_expired_Inl Let_def intro: merge_phase_merged split: if_splits)

lemma after_failure_merged: "after_failure fx mx label output st = Inl out \<Longrightarrow> o_state out \<noteq> Merged"
  by (auto simp: after_failure_def unless_expired_Inl Let_def split: if_splits)

lemma gate_phase_merged: "gate_phase fx mx st = Inl out \<Longrightarrow> o_state out = Merged \<Longrightarrow> merged_at fx out"
  by (auto simp: gate_phase_def unless_expired_Inl Let_def intro: prosecute_phase_merged
      dest: after_failure_merged split: if_splits)

lemma build_phase_merged: "build_phase fx mx st = Inl out \<Longrightarrow> o_state out = Merged \<Longrightarrow> merged_at fx out"
  by (auto simp: build_phase_def unless_expired_Inl Let_def intro: gate_phase_merged
      dest: after_failure_merged split: if_splits)

lemma strike_merged: "strike fx mx st = Inl out \<Longrightarrow> o_state out = Merged \<Longrightarrow> merged_at fx out"
  by (auto simp: strike_def unless_expired_Inl intro: build_phase_merged split: option.splits if_splits)

lemma advance_merged: "o_state (advance fx mx st) = Merged \<Longrightarrow> merged_at fx (advance fx mx st)"
proof (induction fx mx st rule: advance.induct)
  case (1 fx mx st)
  show ?case
  proof (cases "a_strikes st < mx")
    case True
    then show ?thesis
      using 1 strike_merged [of fx mx st] by (cases "strike fx mx st") (simp_all add: advance.simps [of fx mx st])
  qed (use 1(2) in \<open>simp add: advance.simps\<close>)
qed

lemma advanceTicket_merged:
  assumes "o_state (advanceTicket fx mx startStrikes ds) = Merged"
  shows "let k = o_strikes (advanceTicket fx mx startStrikes ds) in
    approved fx k \<and> m_ok (fx_merge fx k) \<and> \<not> m_expired (fx_merge fx k)"
proof -
  let ?out = "advanceTicket fx mx startStrikes ds"
  have m: "merged_at fx ?out" using advance_merged assms unfolding advanceTicket_def by blast
  then obtain r where "(EMerge (o_strikes ?out), r) \<in> set (a_events (o_adv ?out))" by (auto simp: merged_at_def Let_def)
  then have "event_ok fx (EMerge (o_strikes ?out), r)"
    using advanceTicket_inv [of fx startStrikes mx ds] unfolding adv_inv_def by blast
  then show ?thesis using m by (simp add: merged_at_def Let_def)
qed

section \<open>Resuming a run\<close>

definition reconcileResume ::
  "status \<Rightarrow> (string \<Rightarrow> string \<Rightarrow> bool) \<Rightarrow> string option \<Rightarrow> status" where
  "reconcileResume st isAncestor integrationBranch =
     (let target = (case integrationBranch of Some b \<Rightarrow> b | None \<Rightarrow> (case s_integration st of Some b \<Rightarrow> b | None \<Rightarrow> []))
      in st\<lparr>s_tickets := map (\<lambda>(i, r).
          if r_state r \<in> {Merged, Failed, Blocked} then (i, r)
          else let branch = (case r_branch r of Some b \<Rightarrow> b | None \<Rightarrow> ''fleet/'' @ to_lower i)
               in (i, r\<lparr>r_state := (if isAncestor branch target then Merged else Pending)\<rparr>)) (s_tickets st)\<rparr>)"

lemma reconcileResume_ticket:
  "map_of (s_tickets (reconcileResume st anc ib)) i =
     map_option (\<lambda>r. if r_state r \<in> {Merged, Failed, Blocked} then r
        else r\<lparr>r_state := (if anc (case r_branch r of Some b \<Rightarrow> b | None \<Rightarrow> ''fleet/'' @ to_lower i)
              (case ib of Some b \<Rightarrow> b | None \<Rightarrow> (case s_integration st of Some b \<Rightarrow> b | None \<Rightarrow> []))
            then Merged else Pending)\<rparr>) (map_of (s_tickets st) i)"
proof -
  have "map_of (map (\<lambda>(i, r). if Q r then (i, r) else let b = B i r in (i, F b r)) xs) i =
      map_option (\<lambda>r. if Q r then r else F (B i r) r) (map_of xs i)" for xs :: "(ident \<times> trec) list" and Q B F
    by (induction xs) (auto simp: Let_def)
  then show ?thesis by (simp add: reconcileResume_def Let_def)
qed

section \<open>Properties\<close>

text \<open>C4: A ticket reported as merged was approved: in its last strike the build succeeded, the gate
  passed, the prosecution answered and did not block, and the merge itself succeeded in time.\<close>

theorem advanceTicket_approved:
  assumes "o_state (advanceTicket fx mx startStrikes ds) = Merged"
  shows "approved fx (o_strikes (advanceTicket fx mx startStrikes ds))
    \<and> m_ok (fx_merge fx (o_strikes (advanceTicket fx mx startStrikes ds)))
    \<and> \<not> m_expired (fx_merge fx (o_strikes (advanceTicket fx mx startStrikes ds)))"
  using advanceTicket_merged [OF assms] by (simp add: Let_def)

definition demo_effects :: "int option \<Rightarrow> effects" where
  "demo_effects deadline = \<lparr>fx_deadline = deadline, fx_now = (\<lambda>n. int n), fx_preStrike = None,
     fx_dispatch = (\<lambda>k. \<lparr>b_policyMismatch = False, b_blocked = False, b_mirrorFetchFailed = False, b_timedOut = False,
        b_deadlineTruncated = False, b_exit = (if k = 1 then 1 else 0), b_output = []\<rparr>),
     fx_gate = (\<lambda>_. \<lparr>g_ok = True, g_timedOut = False, g_output = []\<rparr>),
     fx_prosecute = (\<lambda>_. \<lparr>p_verdict = ''approve'', p_timedOut = False, p_reason = []\<rparr>),
     fx_merge = (\<lambda>_. \<lparr>m_ok = True, m_expired = False, m_expiredAfterMerge = False, m_output = []\<rparr>),
     fx_flail = (\<lambda>_. False)\<rparr>"

theorem advanceTicket_approved_witness:
  "o_state (advanceTicket (demo_effects None) 3 0 []) = Merged \<and> approved (demo_effects None) 2"
proof -
  have 1: "o_state (advanceTicket (demo_effects None) 3 0 []) = Merged"
    and 2: "o_strikes (advanceTicket (demo_effects None) 3 0 []) = 2" by code_simp+
  from advanceTicket_approved [OF 1] 1 show ?thesis unfolding 2 by simp
qed

text \<open>C5: Strikes are numbered without gaps from the recorded count: every dispatch is charged to the
  usage record exactly once, and no strike beyond the limit is dispatched.\<close>

theorem advanceTicket_strikes:
  "\<exists>n\<le>max mx startStrikes. numbers dispatched (o_adv (advanceTicket fx mx startStrikes ds)) = [Suc startStrikes..<Suc n]
     \<and> numbers charged (o_adv (advanceTicket fx mx startStrikes ds)) = [Suc startStrikes..<Suc n]"
  by (rule advanceTicket_dispatches)

text \<open>With a deadline set, no effect of a ticket starts after it: for each build, gate, prosecution,
  merge and flail check in the trace, the last clock reading before it was before the deadline, and
  each one only follows the success of the phase before.\<close>

theorem advanceTicket_deadline:
  assumes "(e, r) \<in> set (a_events (o_adv (advanceTicket fx mx startStrikes ds)))" and "fx_deadline fx = Some d"
  shows "(e \<in> EDispatch ` UNIV \<union> EGate ` UNIV \<union> EProsecute ` UNIV \<union> EMerge ` UNIV \<union> EFlail ` UNIV \<union> EPreStrike ` UNIV
        \<longrightarrow> 0 < r \<and> fx_now fx (r - 1) < d)
    \<and> (\<forall>k. (e = EGate k \<longrightarrow> built fx k) \<and> (e = EProsecute k \<longrightarrow> gated fx k) \<and> (e = EMerge k \<longrightarrow> approved fx k))"
proof -
  have "event_ok fx (e, r)"
    using advanceTicket_inv [of fx startStrikes mx ds] assms(1) by (auto simp: adv_inv_def)
  then show ?thesis using assms(2) by (cases e) (auto simp: in_time_def)
qed

theorem advanceTicket_deadline_witness:
  "(EMerge 2, 7) \<in> set (a_events (o_adv (advanceTicket (demo_effects (Some 9)) 3 0 [])))
   \<and> (\<exists>r>0. fx_now (demo_effects (Some 9)) (r - 1) < 9) \<and> approved (demo_effects (Some 9)) 2"
proof -
  have 1: "(EMerge 2, 7) \<in> set (a_events (o_adv (advanceTicket (demo_effects (Some 9)) 3 0 [])))" by code_simp
  have 2: "fx_deadline (demo_effects (Some 9)) = Some 9" by (simp add: demo_effects_def)
  from advanceTicket_deadline [OF 1 2] 1 show ?thesis by auto
qed

end
