(* ===== verification/FleetMerge.thy ===== *)
theory FleetMerge
  imports FleetTicket
begin

text \<open>
  The merge effect of \<^verbatim>\<open>packages/fleet/lib/run.mjs\<close> (\<open>buildEffects(...).merge\<close>): merge, post-merge
  gate, completion commit and its re-gate on the shared integration branch, with the quarantine.
  The effects (git, the gates, the clock) answer through a record \<open>world\<close>, one per call; the branch is
  the list of commits the effects leave on it, each with the mark whether a gate has passed with it
  on top, which is what the effects document (\<open>revertMerge\<close> with \<open>ok\<close> takes the merge off, and so on).
\<close>

datatype commit_kind = MergeCommit | CompletionCommit

record commit =
  c_ticket :: ident
  c_kind :: commit_kind
  c_gated :: bool

datatype gate_answer = GateOk | GateRed bool \<comment> \<open>timed out?\<close> | GateThrew
datatype revert_answer = RevertOk | RevertRefused | RevertThrew
datatype completion_answer =
    NotCompleted
  | CompletionThrew bool bool \<comment> \<open>\<open>ledgerDirty\<close>, \<open>branchContaminated\<close>\<close>
  | Completed bool \<comment> \<open>with a \<open>preCompletionSha\<close>?\<close>
datatype withdraw_answer = WithdrawOk | WithdrawThrew | WithdrawMissing

record world =
  w_past :: "nat \<Rightarrow> bool" \<comment> \<open>the answer of each deadline check of the call, in order of the code\<close>
  w_mergeThrew :: bool
  w_post :: gate_answer
  w_revert :: revert_answer
  w_completion :: completion_answer
  w_recheck :: gate_answer
  w_withdraw :: withdraw_answer

record merge_reply =
  y_ok :: bool
  y_expired :: bool
  y_reverted :: bool
  y_completed :: "bool option"
  y_expiredAfterMerge :: bool

definition reply :: "bool \<Rightarrow> merge_reply" where
  "reply b = \<lparr>y_ok = b, y_expired = False, y_reverted = False, y_completed = None, y_expiredAfterMerge = False\<rparr>"

record branch =
  br_commits :: "commit list"
  br_contaminated :: bool

definition push :: "ident \<Rightarrow> commit_kind \<Rightarrow> bool \<Rightarrow> branch \<Rightarrow> branch" where
  "push i k g b = b\<lparr>br_commits := br_commits b @ [\<lparr>c_ticket = i, c_kind = k, c_gated = g\<rparr>]\<rparr>"

definition markContaminated :: "branch \<Rightarrow> branch" where
  "markContaminated b = b\<lparr>br_contaminated := True\<rparr>"

text \<open>A merge that must come off the branch: withdrawn, quarantined, or the effect throws.\<close>

definition withdraw_merge :: "world \<Rightarrow> ident \<Rightarrow> branch \<Rightarrow> merge_reply option \<times> branch" where
  "withdraw_merge w i b = (case w_revert w of
      RevertOk \<Rightarrow> (Some ((reply False)\<lparr>y_reverted := True\<rparr>), b)
    | RevertRefused \<Rightarrow> (Some (reply False), markContaminated (push i MergeCommit False b))
    | RevertThrew \<Rightarrow> (None, push i MergeCommit False b))"

text \<open>\<open>withdrawCompletion\<close>: the quarantine reply, or \<open>None\<close> when the commit is off the branch.\<close>

definition withdrawCompletion :: "world \<Rightarrow> ident \<Rightarrow> branch \<Rightarrow> merge_reply option \<times> branch" where
  "withdrawCompletion w i b = (case w_withdraw w of
      WithdrawOk \<Rightarrow> (None, b)
    | _ \<Rightarrow> (Some (reply False), markContaminated (push i CompletionCommit False b)))"

definition completion_phase :: "world \<Rightarrow> ident \<Rightarrow> branch \<Rightarrow> merge_reply option \<times> branch" where
  "completion_phase w i b = (case w_completion w of
      NotCompleted \<Rightarrow> (Some (reply True), b)
    | CompletionThrew ledgerDirty branchContaminated \<Rightarrow>
        if ledgerDirty \<or> branchContaminated
        then (Some (reply False), markContaminated (if branchContaminated then push i CompletionCommit False b else b))
        else (Some (reply True), b)
    | Completed hasPre \<Rightarrow>
        if \<not> hasPre then (Some (reply True), push i CompletionCommit False b)
        else if w_past w 3 then
          (case withdrawCompletion w i b of
             (Some q, b') \<Rightarrow> (Some q, b')
           | (None, b') \<Rightarrow> (Some ((reply True)\<lparr>y_completed := Some False, y_expiredAfterMerge := True\<rparr>), b'))
        else if w_recheck w \<noteq> GateOk then
          (case withdrawCompletion w i b of
             (Some q, b') \<Rightarrow> (Some q, b')
           | (None, b') \<Rightarrow>
               if w_past w 4 then (Some ((reply True)\<lparr>y_completed := Some False, y_expiredAfterMerge := True\<rparr>), b')
               else (Some ((reply True)\<lparr>y_completed := Some False\<rparr>), b'))
        else if w_past w 4 then
          (Some ((reply True)\<lparr>y_completed := Some True, y_expiredAfterMerge := True\<rparr>), push i CompletionCommit True b)
        else (Some ((reply True)\<lparr>y_completed := Some True\<rparr>), push i CompletionCommit True b))"

text \<open>\<open>None\<close> as the reply: the effect threw.\<close>

definition merge_effect :: "bool \<Rightarrow> world \<Rightarrow> ident \<Rightarrow> branch \<Rightarrow> merge_reply option \<times> branch" where
  "merge_effect noComplete w i b =
     (if w_past w 0 then (Some ((reply False)\<lparr>y_expired := True\<rparr>), b)
      else if br_contaminated b then (Some (reply False), b)
      else if w_mergeThrew w then (None, b)
      else (case w_post w of
          GateThrew \<Rightarrow> withdraw_merge w i b
        | GateRed timedOut \<Rightarrow>
            if w_revert w = RevertOk \<and> timedOut \<and> w_past w 1 then (Some ((reply False)\<lparr>y_expired := True\<rparr>), b)
            else withdraw_merge w i b
        | GateOk \<Rightarrow>
            let b' = push i MergeCommit True b
            in if noComplete then (Some (reply True), b')
               else if w_past w 2 then (Some ((reply True)\<lparr>y_completed := Some False\<rparr>), b')
               else completion_phase w i b'))"

text \<open>The merges of a run, one after the other: the mutex runs each call of the effect to its end.\<close>

definition merges :: "bool \<Rightarrow> (ident \<times> world) list \<Rightarrow> branch \<Rightarrow> branch" where
  "merges noComplete calls b = fold (\<lambda>(i, w) b. snd (merge_effect noComplete w i b)) calls b"

section \<open>A branch that is not quarantined carries gated commits only\<close>

definition branch_ok :: "branch \<Rightarrow> bool" where
  "branch_ok b \<longleftrightarrow> br_contaminated b \<or> (\<forall>c\<in>set (br_commits b). c_gated c)"

text \<open>What the effects are relied on for: a withdrawal either succeeds or reports that it could not,
  and a completion reports the commit it was made on.\<close>

definition world_ok :: "world \<Rightarrow> bool" where
  "world_ok w \<longleftrightarrow> w_revert w \<noteq> RevertThrew \<and> w_completion w \<noteq> Completed False"

lemma push_simps [simp]:
  "br_contaminated (push i k g b) = br_contaminated b"
  "br_commits (push i k g b) = br_commits b @ [\<lparr>c_ticket = i, c_kind = k, c_gated = g\<rparr>]"
  "br_contaminated (markContaminated b) = True" "br_commits (markContaminated b) = br_commits b"
  by (simp_all add: push_def markContaminated_def)

lemma reply_simps [simp]: "y_ok (reply x) = x" "y_expired (reply x) = False" "y_completed (reply x) = None"
  "y_expiredAfterMerge (reply x) = False"
  by (simp_all add: reply_def)

lemma withdraw_merge_ok: "world_ok w \<Longrightarrow> branch_ok b \<Longrightarrow> branch_ok (snd (withdraw_merge w i b))"
  by (auto simp: withdraw_merge_def branch_ok_def world_ok_def split: revert_answer.splits)

lemma completion_phase_ok:
  assumes "world_ok w" and "branch_ok b"
  shows "branch_ok (snd (completion_phase w i b))"
  using assms
  by (auto simp: completion_phase_def withdrawCompletion_def branch_ok_def world_ok_def
      split: completion_answer.splits withdraw_answer.splits)

lemma merge_effect_ok:
  assumes "world_ok w" and "branch_ok b"
  shows "branch_ok (snd (merge_effect nc w i b))"
proof -
  have "branch_ok (push i MergeCommit True b)" using assms(2) by (auto simp: branch_ok_def)
  then show ?thesis
    using assms withdraw_merge_ok [OF assms] completion_phase_ok [OF assms(1)]
    by (auto simp: merge_effect_def Let_def split: gate_answer.splits)
qed

lemma merges_ok:
  assumes "\<forall>(i, w)\<in>set calls. world_ok w" and "branch_ok b"
  shows "branch_ok (merges nc calls b)"
  unfolding merges_def
  by (rule fold_invariant_list [where P = branch_ok]) (use assms merge_effect_ok in \<open>auto split: prod.splits\<close>)

text \<open>A quarantined branch stays as it is.\<close>

lemma merge_effect_contaminated:
  "br_contaminated b \<Longrightarrow> snd (merge_effect nc w i b) = b \<and> (\<exists>r. fst (merge_effect nc w i b) = Some r \<and> \<not> y_ok r)"
  by (auto simp: merge_effect_def)

lemma merges_contaminated: "br_contaminated b \<Longrightarrow> merges nc calls b = b"
  unfolding merges_def
  by (induction calls) (auto simp: merge_effect_contaminated split: prod.splits)

text \<open>A successful reply means that the merge is on the branch, gated.\<close>

lemma merge_effect_success:
  assumes "fst (merge_effect nc w i b) = Some r" and "y_ok r"
  shows "\<lparr>c_ticket = i, c_kind = MergeCommit, c_gated = True\<rparr> \<in> set (br_commits (snd (merge_effect nc w i b)))
    \<and> w_post w = GateOk"
  using assms
  by (auto simp: merge_effect_def completion_phase_def withdrawCompletion_def withdraw_merge_def Let_def
      split: gate_answer.splits completion_answer.splits withdraw_answer.splits revert_answer.splits if_splits)

text \<open>A revert that throws, and what the later calls do to the branch.\<close>

definition withdrawals_work :: "world \<Rightarrow> bool" where
  "withdrawals_work v \<longleftrightarrow> w_revert v = RevertOk \<and> w_withdraw v = WithdrawOk
     \<and> (case w_completion v of CompletionThrew dirty contaminated \<Rightarrow> \<not> dirty \<and> \<not> contaminated | _ \<Rightarrow> True)"

definition merge_lands :: "world \<Rightarrow> bool" where
  "merge_lands v \<longleftrightarrow> \<not> w_past v 0 \<and> \<not> w_mergeThrew v \<and> w_post v = GateOk"

lemma merge_effect_revert_threw:
  "\<not> w_past w 0 \<Longrightarrow> \<not> br_contaminated b \<Longrightarrow> \<not> w_mergeThrew w \<Longrightarrow> w_post w \<noteq> GateOk \<Longrightarrow> w_revert w = RevertThrew
    \<Longrightarrow> merge_effect nc w i b = (None, push i MergeCommit False b)"
  by (auto simp: merge_effect_def withdraw_merge_def split: gate_answer.splits)

lemma completion_phase_grows:
  assumes "withdrawals_work v"
  shows "\<exists>new. br_commits (snd (completion_phase v j b)) = br_commits b @ new"
    and "br_contaminated (snd (completion_phase v j b)) = br_contaminated b"
  using assms
  by (auto simp: completion_phase_def withdrawCompletion_def withdrawals_work_def
      split: completion_answer.splits withdraw_answer.splits)

lemma merge_effect_grows:
  assumes "withdrawals_work v" and "\<not> br_contaminated b"
  shows "\<exists>new. br_commits (snd (merge_effect nc v j b)) = br_commits b @ new
      \<and> (merge_lands v \<longrightarrow> \<lparr>c_ticket = j, c_kind = MergeCommit, c_gated = True\<rparr> \<in> set new)
      \<and> \<not> br_contaminated (snd (merge_effect nc v j b))"
proof (cases "merge_lands v")
  case True
  obtain new where "br_commits (snd (completion_phase v j (push j MergeCommit True b)))
      = br_commits (push j MergeCommit True b) @ new"
    using completion_phase_grows(1) [OF assms(1)] by blast
  then show ?thesis
    using True assms(2) completion_phase_grows(2) [OF assms(1), of j "push j MergeCommit True b"]
    by (auto simp: merge_lands_def merge_effect_def Let_def)
next
  case False
  then show ?thesis
    using assms
    by (auto simp: merge_lands_def merge_effect_def withdraw_merge_def withdrawals_work_def Let_def
        split: gate_answer.splits)
qed

lemma merges_grow:
  assumes "\<not> br_contaminated b" and "\<forall>(j, v)\<in>set calls. withdrawals_work v"
  shows "\<exists>later. br_commits (merges nc calls b) = br_commits b @ later
      \<and> (\<forall>(j, v)\<in>set calls. merge_lands v \<longrightarrow> \<lparr>c_ticket = j, c_kind = MergeCommit, c_gated = True\<rparr> \<in> set later)
      \<and> \<not> br_contaminated (merges nc calls b)"
  using assms
proof (induction calls arbitrary: b)
  case (Cons call calls)
  obtain j v where c: "call = (j, v)" by (cases call)
  obtain new where n: "br_commits (snd (merge_effect nc v j b)) = br_commits b @ new"
    "merge_lands v \<longrightarrow> \<lparr>c_ticket = j, c_kind = MergeCommit, c_gated = True\<rparr> \<in> set new"
    "\<not> br_contaminated (snd (merge_effect nc v j b))"
    using merge_effect_grows [of v b nc j] Cons.prems c by auto
  have m: "merges nc (call # calls) b = merges nc calls (snd (merge_effect nc v j b))" by (simp add: merges_def c)
  obtain later where "br_commits (merges nc calls (snd (merge_effect nc v j b))) = br_commits (snd (merge_effect nc v j b)) @ later"
    "\<forall>(j, v)\<in>set calls. merge_lands v \<longrightarrow> \<lparr>c_ticket = j, c_kind = MergeCommit, c_gated = True\<rparr> \<in> set later"
    "\<not> br_contaminated (merges nc calls (snd (merge_effect nc v j b)))"
    using Cons.IH [OF n(3)] Cons.prems(2) by auto
  then show ?case using n c unfolding m by (intro exI [of _ "new @ later"]) auto
qed (simp add: merges_def)

section \<open>Publishing\<close>

record summary =
  su_contaminated :: bool
  su_prOpenFailed :: bool
  su_dispatchRefused :: bool
  su_pipelineError :: bool
  su_wallClockExpired :: bool
  su_results :: "(ident \<times> tstate) list"

definition failedBlockedCount :: "(ident \<times> tstate) list \<Rightarrow> nat" where
  "failedBlockedCount results = length (filter (\<lambda>(i, s). s = Failed \<or> s = Blocked) results)"

definition pausedCount :: "(ident \<times> tstate) list \<Rightarrow> nat" where
  "pausedCount results = length (filter (\<lambda>(i, s). s = Paused) results)"

definition runExitCode :: "summary \<Rightarrow> int" where
  "runExitCode s =
     (if su_contaminated s then 2
      else if su_prOpenFailed s then 2
      else if su_dispatchRefused s then 1
      else if su_pipelineError s then 1
      else if su_wallClockExpired s then 2
      else if pausedCount (su_results s) > 0 then 2
      else if failedBlockedCount (su_results s) > 0 then 2 else 0)"

text \<open>The end of \<open>runFleet\<close>: is a pull request opened, and did opening it fail? \<open>openPR\<close> answers
  \<open>None\<close> when it is not wired.\<close>

definition publish :: "branch \<Rightarrow> bool \<Rightarrow> bool \<Rightarrow> (ident \<times> tstate) list \<Rightarrow> bool option \<Rightarrow> bool \<times> bool" where
  "publish b wallClockExpired noPr results openPR =
     (let merged = length (filter (\<lambda>(i, s). s = Merged) results)
      in if br_contaminated b then (False, False)
         else if wallClockExpired then (False, False)
         else if noPr then (False, False)
         else if merged > 0 then (case openPR of None \<Rightarrow> (False, False) | Some opened \<Rightarrow> (opened, \<not> opened))
         else (False, False))"

lemma runExitCode_0:
  "runExitCode s = 0 \<longleftrightarrow> \<not> su_contaminated s \<and> \<not> su_prOpenFailed s \<and> \<not> su_dispatchRefused s \<and> \<not> su_pipelineError s
     \<and> \<not> su_wallClockExpired s \<and> (\<forall>(i, st)\<in>set (su_results s). st \<notin> {Failed, Blocked, Paused})"
  by (auto simp: runExitCode_def failedBlockedCount_def pausedCount_def filter_empty_conv)

lemma publish_opens:
  assumes "\<not> br_contaminated b" and "(t, Merged) \<in> set results"
  shows "publish b False False results (Some opened) = (opened, \<not> opened)"
proof -
  have "filter (\<lambda>(i, s). s = Merged) results \<noteq> []" using assms(2) by (force simp: filter_empty_conv)
  then show ?thesis using assms(1) by (simp add: publish_def)
qed

section \<open>Properties\<close>

text \<open>C6: Over any sequence of merges in which no revert throws and no completion comes back without the
  commit to withdraw to, a branch that is not quarantined holds gated commits only, and a
  quarantined branch gets no further commit.\<close>

theorem merges_keep_branch:
  assumes "\<forall>(i, w)\<in>set calls. world_ok w" and "branch_ok b"
  shows "branch_ok (merges noComplete calls b) \<and> (br_contaminated b \<longrightarrow> merges noComplete calls b = b)"
  using merges_ok [OF assms] merges_contaminated by blast

definition demo_world :: "gate_answer \<Rightarrow> revert_answer \<Rightarrow> world" where
  "demo_world g r = \<lparr>w_past = (\<lambda>_. False), w_mergeThrew = False, w_post = g, w_revert = r,
     w_completion = NotCompleted, w_recheck = GateOk, w_withdraw = WithdrawOk\<rparr>"

theorem merges_keep_branch_witness:
  "branch_ok (merges False [(''A'', demo_world GateOk RevertOk), (''B'', demo_world (GateRed False) RevertRefused),
      (''C'', demo_world GateOk RevertOk)] \<lparr>br_commits = [], br_contaminated = False\<rparr>)"
proof -
  have "\<forall>(i, w)\<in>set [(''A'', demo_world GateOk RevertOk), (''B'', demo_world (GateRed False) RevertRefused),
      (''C'', demo_world GateOk RevertOk)]. world_ok w" by (simp add: world_ok_def demo_world_def)
  moreover have "branch_ok \<lparr>br_commits = [], br_contaminated = False\<rparr>" by (simp add: branch_ok_def)
  ultimately show ?thesis using merges_keep_branch by blast
qed

text \<open>A merge the code reports as successful left its gated merge commit on the branch.\<close>

theorem merge_reported_gated:
  assumes "fst (merge_effect noComplete w i b) = Some r" and "y_ok r"
  shows "\<lparr>c_ticket = i, c_kind = MergeCommit, c_gated = True\<rparr> \<in> set (br_commits (snd (merge_effect noComplete w i b)))
    \<and> w_post w = GateOk"
  by (rule merge_effect_success [OF assms])

theorem merge_reported_gated_witness:
  "\<lparr>c_ticket = ''A'', c_kind = MergeCommit, c_gated = True\<rparr>
     \<in> set (br_commits (snd (merge_effect True (demo_world GateOk RevertOk) ''A'' \<lparr>br_commits = [], br_contaminated = False\<rparr>)))"
proof -
  have 1: "fst (merge_effect True (demo_world GateOk RevertOk) ''A'' \<lparr>br_commits = [], br_contaminated = False\<rparr>)
    = Some (reply True)" by code_simp
  from merge_reported_gated [OF 1] show ?thesis by simp
qed

text \<open>C34: A merge whose post-merge gate fails or throws is withdrawn with \<open>revertMerge\<close>; when that call
  throws, the error leaves the effect before the branch is quarantined. For every branch that is not
  quarantined, every such call made before the deadline, and every sequence of later calls whose
  withdrawals and completions work: the ungated merge commit stays on the branch, every later merge that passes its gate lands on
  top of it, the branch is not quarantined, and a run with a merged ticket opens its pull request
  from it.\<close>

theorem revert_throws_unquarantined:
  assumes "\<not> w_past w 0" and "\<not> br_contaminated b" and "\<not> w_mergeThrew w" and "w_post w \<noteq> GateOk"
    and "w_revert w = RevertThrew" and "\<forall>(j, v)\<in>set calls. withdrawals_work v"
  shows "fst (merge_effect noComplete w i b) = None
    \<and> (\<exists>later. br_commits (merges noComplete ((i, w) # calls) b)
          = br_commits b @ [\<lparr>c_ticket = i, c_kind = MergeCommit, c_gated = False\<rparr>] @ later
        \<and> (\<forall>(j, v)\<in>set calls. merge_lands v \<longrightarrow>
             \<lparr>c_ticket = j, c_kind = MergeCommit, c_gated = True\<rparr> \<in> set later))
    \<and> \<not> br_contaminated (merges noComplete ((i, w) # calls) b)
    \<and> ((t, Merged) \<in> set results \<longrightarrow>
        publish (merges noComplete ((i, w) # calls) b) False False results (Some opened) = (opened, \<not> opened))"
proof -
  have e: "merge_effect noComplete w i b = (None, push i MergeCommit False b)"
    by (rule merge_effect_revert_threw [OF assms(1-5)])
  then have m: "merges noComplete ((i, w) # calls) b = merges noComplete calls (push i MergeCommit False b)"
    by (simp add: merges_def)
  obtain later where l: "br_commits (merges noComplete calls (push i MergeCommit False b))
      = br_commits (push i MergeCommit False b) @ later"
    "\<forall>(j, v)\<in>set calls. merge_lands v \<longrightarrow> \<lparr>c_ticket = j, c_kind = MergeCommit, c_gated = True\<rparr> \<in> set later"
    "\<not> br_contaminated (merges noComplete calls (push i MergeCommit False b))"
    using merges_grow [of "push i MergeCommit False b" calls noComplete] assms(2,6) by auto
  have "publish (merges noComplete ((i, w) # calls) b) False False results (Some opened) = (opened, \<not> opened)"
    if "(t, Merged) \<in> set results"
    using that l(3) by (intro publish_opens) (simp_all add: m)
  then show ?thesis using e l unfolding m by auto
qed

theorem revert_throws_unquarantined_witness:
  "fst (merge_effect True (demo_world (GateRed False) RevertThrew) ''A'' \<lparr>br_commits = [], br_contaminated = False\<rparr>) = None
   \<and> publish (merges True [(''A'', demo_world (GateRed False) RevertThrew), (''B'', demo_world GateOk RevertOk)]
       \<lparr>br_commits = [], br_contaminated = False\<rparr>) False False [(''B'', Merged)] (Some True) = (True, False)"
proof -
  have "\<forall>(j, v)\<in>set [(''B'', demo_world GateOk RevertOk)]. withdrawals_work v"
    by (simp add: demo_world_def withdrawals_work_def)
  from revert_throws_unquarantined [OF _ _ _ _ _ this, of "demo_world (GateRed False) RevertThrew"
      "\<lparr>br_commits = [], br_contaminated = False\<rparr>" True "''A''" "''B''" "[(''B'', Merged)]" True]
  show ?thesis by (simp add: demo_world_def)
qed

text \<open>A run exits with 0 exactly when the branch is clean, nothing was refused, cut short or broken,
  and no ticket is failed, blocked or paused.\<close>

theorem runExitCode_success:
  "runExitCode s = 0 \<longleftrightarrow> \<not> su_contaminated s \<and> \<not> su_prOpenFailed s \<and> \<not> su_dispatchRefused s \<and> \<not> su_pipelineError s
     \<and> \<not> su_wallClockExpired s \<and> {st. \<exists>i. (i, st) \<in> set (su_results s)} \<inter> {Failed, Blocked, Paused} = {}"
  unfolding runExitCode_0 by auto

end
