(* ===== verification/FleetRun.thy ===== *)
theory FleetRun
  imports FleetMerge
begin

text \<open>
  The event-driven pool of \<open>runFleet\<close> (\<^verbatim>\<open>packages/fleet/lib/run.mjs\<close>) as a step relation: planning
  admits tickets, and each ticket in flight is cut a worktree, is refused at setup or finishes with
  an outcome of \<open>advanceTicket\<close>. A refused or finished ticket is settled: its result is recorded, but it
  stays in flight while its cleanup is awaited, and leaves the pool in a step of its own. The steps of
  different tickets interleave freely, and a round may be planned between any two of them.
\<close>

record run_state =
  rs_status :: status
  rs_inFlight :: "ident list"
  rs_settled :: "ident set" \<comment> \<open>in flight, result recorded, cleanup awaited\<close>
  rs_refused :: "ident set"
  rs_wallClock :: bool
  rs_dispatchRefused :: bool
  rs_pipelineError :: bool
  rs_strikes :: nat

definition admit_ticket :: "ticket \<Rightarrow> run_state \<Rightarrow> run_state" where
  "admit_ticket t rs = rs\<lparr>
     rs_status := withTicket (rs_status rs) (t_id t) (\<lambda>r. r\<lparr>r_state := Building\<rparr>),
     rs_inFlight := rs_inFlight rs @ [t_id t]\<rparr>"

definition plan_step :: "ticket list \<Rightarrow> nat \<Rightarrow> ident list option \<Rightarrow> run_state \<Rightarrow> run_state" where
  "plan_step all cap onlyIds rs =
     fold admit_ticket
       (admit (planRound (filter (\<lambda>t. t_id t \<notin> rs_refused rs) all) (statusById (rs_status rs))
          (rs_inFlight rs) cap onlyIds)) rs"

text \<open>\<open>createWorktree\<close> or \<open>provision\<close> failed: the ticket stays pending and is not planned again.\<close>

definition refuse_step :: "ident \<Rightarrow> run_state \<Rightarrow> run_state" where
  "refuse_step i rs = rs\<lparr>
     rs_status := withTicket (rs_status rs) i (\<lambda>r. r\<lparr>r_state := Pending\<rparr>),
     rs_settled := insert i (rs_settled rs),
     rs_refused := insert i (rs_refused rs), rs_dispatchRefused := True\<rparr>"

definition cut_step :: "ident \<Rightarrow> string \<Rightarrow> run_state \<Rightarrow> run_state" where
  "cut_step i branch rs = rs\<lparr>
     rs_status := withTicket (rs_status rs) i (\<lambda>r. r\<lparr>r_state := Building, r_branch := Some branch\<rparr>)\<rparr>"

definition start_strikes :: "ident \<Rightarrow> run_state \<Rightarrow> nat" where
  "start_strikes i rs = (case map_of (s_tickets (rs_status rs)) i of None \<Rightarrow> 0 | Some r \<Rightarrow> r_strikes r)"

definition finish_step :: "ident \<Rightarrow> outcome \<Rightarrow> bool \<Rightarrow> run_state \<Rightarrow> run_state" where
  "finish_step i out pipelineError rs = rs\<lparr>
     rs_status := withTicket (rs_status rs) i (\<lambda>r. r\<lparr>r_state := o_state out, r_strikes := o_strikes out\<rparr>),
     rs_settled := insert i (rs_settled rs),
     rs_strikes := rs_strikes rs + (o_strikes out - start_strikes i rs),
     rs_wallClock := (rs_wallClock rs \<or> o_reason out = Some WallClock),
     rs_dispatchRefused := (rs_dispatchRefused rs \<or> o_policyMismatch out),
     rs_pipelineError := (rs_pipelineError rs \<or> pipelineError)\<rparr>"

text \<open>The catch of \<open>safeCleanup\<close>.\<close>

definition cleanup_fail_step :: "ident \<Rightarrow> run_state \<Rightarrow> run_state" where
  "cleanup_fail_step i rs = rs\<lparr>
     rs_status := withTicket (rs_status rs) i (\<lambda>r. r\<lparr>r_cleanupFailed := True\<rparr>)\<rparr>"

text \<open>The \<open>finally\<close> of \<open>startTicket\<close>: the ticket leaves the pool.\<close>

definition leave_step :: "ident \<Rightarrow> run_state \<Rightarrow> run_state" where
  "leave_step i rs = rs\<lparr>rs_inFlight := filter (\<lambda>j. j \<noteq> i) (rs_inFlight rs),
     rs_settled := rs_settled rs - {i}\<rparr>"

definition quarantine_step :: "run_state \<Rightarrow> run_state" where
  "quarantine_step rs = rs\<lparr>rs_status := (rs_status rs)\<lparr>s_contaminated := True\<rparr>\<rparr>"

text \<open>The outcome a ticket in flight can have: one of \<open>advanceTicket\<close> from its recorded strikes, or
  the failure recorded when an effect threw.\<close>

definition possible_outcome :: "nat \<Rightarrow> nat \<Rightarrow> outcome \<Rightarrow> bool \<Rightarrow> bool" where
  "possible_outcome maxStrikes start out threw \<longleftrightarrow>
     (if threw then o_state out = Failed else \<exists>fx ds. out = advanceTicket fx maxStrikes start ds)"

text \<open>The tickets whose \<open>startTicket\<close> is still running its pipeline, and those it awaits the cleanup of.\<close>

definition running :: "run_state \<Rightarrow> ident set" where
  "running rs = set (rs_inFlight rs) - rs_settled rs"

definition cleaning :: "run_state \<Rightarrow> ident set" where
  "cleaning rs = set (rs_inFlight rs) \<inter> rs_settled rs"

inductive fleet_step :: "ticket list \<Rightarrow> nat \<Rightarrow> ident list option \<Rightarrow> nat \<Rightarrow> run_state \<Rightarrow> run_state \<Rightarrow> bool"
  for all cap onlyIds maxStrikes where
  Plan: "fleet_step all cap onlyIds maxStrikes rs (plan_step all cap onlyIds rs)"
| Refuse: "i \<in> running rs \<Longrightarrow> fleet_step all cap onlyIds maxStrikes rs (refuse_step i rs)"
| Cut: "i \<in> running rs \<Longrightarrow> fleet_step all cap onlyIds maxStrikes rs (cut_step i b rs)"
| Finish: "i \<in> running rs \<Longrightarrow> possible_outcome maxStrikes (start_strikes i rs) out threw
    \<Longrightarrow> fleet_step all cap onlyIds maxStrikes rs (finish_step i out threw rs)"
| CleanupFail: "i \<in> cleaning rs \<Longrightarrow> fleet_step all cap onlyIds maxStrikes rs (cleanup_fail_step i rs)"
| Leave: "i \<in> cleaning rs \<Longrightarrow> fleet_step all cap onlyIds maxStrikes rs (leave_step i rs)"
| Quarantine: "fleet_step all cap onlyIds maxStrikes rs (quarantine_step rs)"

inductive_cases fleet_stepE: "fleet_step all cap onlyIds maxStrikes rs rs'"

definition start_state :: "status \<Rightarrow> run_state" where
  "start_state st = \<lparr>rs_status = st, rs_inFlight = [], rs_settled = {}, rs_refused = {}, rs_wallClock = False,
     rs_dispatchRefused = False, rs_pipelineError = False, rs_strikes = 0\<rparr>"

inductive fleet_reach :: "ticket list \<Rightarrow> nat \<Rightarrow> ident list option \<Rightarrow> nat \<Rightarrow> status \<Rightarrow> run_state \<Rightarrow> bool"
  for all cap onlyIds maxStrikes st where
  reach_start: "fleet_reach all cap onlyIds maxStrikes st (start_state st)"
| reach_step: "fleet_reach all cap onlyIds maxStrikes st rs \<Longrightarrow> fleet_step all cap onlyIds maxStrikes rs rs'
    \<Longrightarrow> fleet_reach all cap onlyIds maxStrikes st rs'"

section \<open>The status table\<close>

definition state_of :: "run_state \<Rightarrow> ident \<Rightarrow> tstate option" where
  "state_of rs i = map_option r_state (map_of (s_tickets (rs_status rs)) i)"

lemma state_of_withTicket:
  "map_option r_state (map_of (s_tickets (withTicket st i f)) j) =
    (if j = i then Some (r_state (f (case map_of (s_tickets st) i of Some r \<Rightarrow> r
       | None \<Rightarrow> \<lparr>r_state = Pending, r_strikes = 0, r_branch = None, r_cleanupFailed = False\<rparr>)))
     else map_option r_state (map_of (s_tickets st) j))"
  by (simp add: withTicket_def Let_def)

lemma statusById_map_of: "map_of (statusById st) i = map_option r_state (map_of (s_tickets st) i)"
proof -
  have "map_of (map (\<lambda>(i, r). (i, r_state r)) xs) i = map_option r_state (map_of xs i)" for xs :: "(ident \<times> trec) list"
    by (induction xs) auto
  then show ?thesis by (simp add: statusById_def)
qed

definition keys_ok :: "status \<Rightarrow> bool" where
  "keys_ok st \<longleftrightarrow> distinct (map fst (s_tickets st))"

lemma keys_ok_withTicket: "keys_ok st \<Longrightarrow> keys_ok (withTicket st i f)"
  by (simp add: keys_ok_def withTicket_def Let_def distinct_update)

lemma merged_iff:
  "keys_ok st \<Longrightarrow> (i, Merged) \<in> set (statusById st) \<longleftrightarrow> map_option r_state (map_of (s_tickets st) i) = Some Merged"
proof -
  assume k: "keys_ok st"
  then have "distinct (map fst (statusById st))"
    by (simp add: keys_ok_def statusById_def comp_def case_prod_beta)
  then show ?thesis by (simp add: statusById_map_of [symmetric] map_of_eq_Some_iff)
qed

section \<open>The invariant of the pool\<close>

text \<open>The tickets in flight the planner counts: a refused ticket is out of the list it plans with, also
  while its cleanup is awaited.\<close>

definition counted :: "run_state \<Rightarrow> ident list" where
  "counted rs = filter (\<lambda>i. i \<notin> rs_refused rs) (rs_inFlight rs)"

definition ended_state :: "tstate option \<Rightarrow> bool" where
  "ended_state s \<longleftrightarrow> s \<in> {Some Merged, Some Failed, Some Blocked, Some Paused}"

definition in_flight_ok :: "run_state \<Rightarrow> ident \<Rightarrow> bool" where
  "in_flight_ok rs i \<longleftrightarrow>
     (if i \<notin> rs_settled rs then i \<notin> rs_refused rs \<and> state_of rs i = Some Building
      else if i \<in> rs_refused rs then state_of rs i = Some Pending
      else ended_state (state_of rs i))"

definition pool_inv :: "ticket list \<Rightarrow> nat \<Rightarrow> run_state \<Rightarrow> bool" where
  "pool_inv all cap rs \<longleftrightarrow>
     keys_ok (rs_status rs) \<and> distinct (rs_inFlight rs) \<and> set (rs_inFlight rs) \<subseteq> set (ids all)
     \<and> rs_settled rs \<subseteq> set (rs_inFlight rs)
     \<and> disjoint_scopes (tickets_of all (counted rs)) \<and> length (counted rs) \<le> cap
     \<and> (\<forall>i\<in>set (rs_inFlight rs). in_flight_ok rs i)"

lemma pool_invD:
  assumes "pool_inv all cap rs"
  shows "keys_ok (rs_status rs)" and "distinct (rs_inFlight rs)" and "set (rs_inFlight rs) \<subseteq> set (ids all)"
    and "rs_settled rs \<subseteq> set (rs_inFlight rs)"
    and "disjoint_scopes (tickets_of all (counted rs))" and "length (counted rs) \<le> cap"
    and "i \<in> set (rs_inFlight rs) \<Longrightarrow> in_flight_ok rs i"
  using assms by (simp_all add: pool_inv_def)

lemma running_building:
  "pool_inv all cap rs \<Longrightarrow> i \<in> running rs \<Longrightarrow>
    state_of rs i = Some Building \<and> i \<in> set (rs_inFlight rs) \<and> i \<notin> rs_refused rs"
  using pool_invD(7) [of all cap rs i] by (auto simp: running_def in_flight_ok_def)

text \<open>Every ticket in flight has its prerequisites merged or completed.\<close>

definition deps_inv :: "ticket list \<Rightarrow> run_state \<Rightarrow> bool" where
  "deps_inv all rs \<longleftrightarrow> (\<forall>i\<in>set (rs_inFlight rs). \<forall>p. (p, i) \<in> dep all \<longrightarrow>
     p \<in> mergedOrCompleted all (statusById (rs_status rs)))"

lemma tickets_of_append: "tickets_of all (is @ js) = tickets_of all is @ tickets_of all js"
  by (simp add: tickets_of_def map_filter_def)

lemma tickets_of_ids:
  assumes "distinct (ids all)"
  shows "set ts \<subseteq> set all \<Longrightarrow> tickets_of all (map t_id ts) = ts"
  by (induction ts) (auto simp: tickets_of_def map_filter_simps by_id_eq [OF assms])

lemma tickets_of_known:
  assumes "distinct (ids all)" and "set is \<subseteq> set (ids all)"
  shows "map t_id (tickets_of all is) = is" and "set (tickets_of all is) \<subseteq> set all"
proof -
  have *: "\<exists>t\<in>set all. by_id all i = Some t \<and> t_id t = i" if "i \<in> set (ids all)" for i
    using that by_id_eq [OF assms(1)] by (auto simp: ids_def)
  show "map t_id (tickets_of all is) = is"
    using assms(2) by (induction "is") (auto simp: tickets_of_def map_filter_simps dest!: *)
  show "set (tickets_of all is) \<subseteq> set all"
    using assms(2) by (induction "is") (auto simp: tickets_of_def map_filter_simps dest!: *)
qed

lemma tickets_of_filter:
  assumes "distinct (ids all)" and "set is \<subseteq> set (ids all)"
  shows "tickets_of (filter (\<lambda>t. Q (t_id t)) all) is = tickets_of all (filter Q is)"
proof -
  have d: "distinct (ids (filter (\<lambda>t. Q (t_id t)) all))"
    using assms(1) by (simp add: ids_def distinct_map_filter)
  have "by_id (filter (\<lambda>t. Q (t_id t)) all) i = (if Q i then by_id all i else None)" if i: "i \<in> set is" for i
  proof -
    obtain t where t: "t \<in> set all" "i = t_id t" using i assms(2) by (auto simp: ids_def)
    show ?thesis
    proof (cases "Q i")
      case True
      then show ?thesis using t by_id_eq [OF assms(1) t(1)] by_id_eq [OF d, of t] by simp
    next
      case False
      then show ?thesis using by_id_in [of "filter (\<lambda>t. Q (t_id t)) all" i] by (cases "by_id (filter (\<lambda>t. Q (t_id t)) all) i") auto
    qed
  qed
  then show ?thesis unfolding tickets_of_def
    by (induction "is") (auto simp: map_filter_simps split: option.split)
qed

lemma tickets_of_remove:
  assumes "distinct (ids all)" and "set is \<subseteq> set (ids all)"
  shows "tickets_of all (filter (\<lambda>j. j \<noteq> i) is) = filter (\<lambda>t. t_id t \<noteq> i) (tickets_of all is)"
proof -
  have *: "\<exists>t. by_id all i = Some t \<and> t_id t = i" if "i \<in> set (ids all)" for i
    using that by_id_eq [OF assms(1)] by (auto simp: ids_def)
  show ?thesis
    using assms(2) by (induction "is") (auto simp: tickets_of_def map_filter_simps dest!: *)
qed

text \<open>Admission.\<close>

lemma admit_fold:
  "rs_inFlight (fold admit_ticket ts rs) = rs_inFlight rs @ map t_id ts"
  "rs_refused (fold admit_ticket ts rs) = rs_refused rs"
  "rs_settled (fold admit_ticket ts rs) = rs_settled rs"
  "keys_ok (rs_status rs) \<Longrightarrow> keys_ok (rs_status (fold admit_ticket ts rs))"
  "state_of (fold admit_ticket ts rs) j = (if j \<in> t_id ` set ts then Some Building else state_of rs j)"
  by (induction ts arbitrary: rs)
     (auto simp: admit_ticket_def keys_ok_withTicket state_of_def state_of_withTicket)

lemma merged_mem:
  assumes "keys_ok (rs_status rs)"
  shows "x \<in> mergedOrCompleted all (statusById (rs_status rs)) \<longleftrightarrow>
    (\<exists>t\<in>set all. t_completed t \<and> t_id t = x) \<or> state_of rs x = Some Merged"
proof -
  have "x \<in> set (map fst (filter (\<lambda>(i, s). s = Merged) (statusById (rs_status rs))))
      \<longleftrightarrow> (x, Merged) \<in> set (statusById (rs_status rs))"
    by force
  then show ?thesis
    unfolding mergedOrCompleted_def state_of_def merged_iff [OF assms] by auto
qed

text \<open>The tickets a round admits are new: none of them is in flight, refused, or in a state other than
  pending.\<close>

definition planned :: "ticket list \<Rightarrow> nat \<Rightarrow> ident list option \<Rightarrow> run_state \<Rightarrow> ticket list" where
  "planned all cap onlyIds rs = admit (planRound (filter (\<lambda>t. t_id t \<notin> rs_refused rs) all)
     (statusById (rs_status rs)) (rs_inFlight rs) cap onlyIds)"

lemma counted_tickets:
  assumes "distinct (ids all)" and "pool_inv all cap rs"
  shows "tickets_of (filter (\<lambda>t. t_id t \<notin> rs_refused rs) all) (rs_inFlight rs) = tickets_of all (counted rs)"
  unfolding counted_def by (rule tickets_of_filter [OF assms(1) pool_invD(3) [OF assms(2)]])

lemma planned_new:
  assumes d: "distinct (ids all)" and inv: "pool_inv all cap rs" and t: "t \<in> set (planned all cap onlyIds rs)"
  shows "t \<in> set all" and "t_id t \<notin> rs_refused rs" and "t_id t \<notin> set (rs_inFlight rs)"
    and "state_of rs (t_id t) = None \<or> state_of rs (t_id t) = Some Pending"
    and "(p, t_id t) \<in> dep (filter (\<lambda>t. t_id t \<notin> rs_refused rs) all) \<Longrightarrow>
      p \<in> mergedOrCompleted (filter (\<lambda>t. t_id t \<notin> rs_refused rs) all) (statusById (rs_status rs))"
proof -
  have ds: "disjoint_scopes (tickets_of (filter (\<lambda>t. t_id t \<notin> rs_refused rs) all) (rs_inFlight rs))"
    unfolding counted_tickets [OF d inv] by (rule pool_invD(5) [OF inv])
  note a = planRound_admit [OF ds t [unfolded planned_def]]
  from a show 1: "t \<in> set all" "t_id t \<notin> rs_refused rs" by auto
  from a show st: "state_of rs (t_id t) = None \<or> state_of rs (t_id t) = Some Pending"
    by (auto simp: dispatchable_state_def statusById_map_of state_of_def split: option.splits)
  show "t_id t \<notin> set (rs_inFlight rs)"
  proof
    assume "t_id t \<in> set (rs_inFlight rs)"
    from pool_invD(7) [OF inv this] 1(2) st show False by (auto simp: in_flight_ok_def ended_state_def split: if_splits)
  qed
  show "p \<in> mergedOrCompleted (filter (\<lambda>t. t_id t \<notin> rs_refused rs) all) (statusById (rs_status rs))"
    if "(p, t_id t) \<in> dep (filter (\<lambda>t. t_id t \<notin> rs_refused rs) all)"
    using a that by blast
qed

lemma plan_step_fields:
  "rs_inFlight (plan_step all cap onlyIds rs) = rs_inFlight rs @ map t_id (planned all cap onlyIds rs)"
  "rs_refused (plan_step all cap onlyIds rs) = rs_refused rs"
  "rs_settled (plan_step all cap onlyIds rs) = rs_settled rs"
  "keys_ok (rs_status rs) \<Longrightarrow> keys_ok (rs_status (plan_step all cap onlyIds rs))"
  "state_of (plan_step all cap onlyIds rs) j =
     (if j \<in> t_id ` set (planned all cap onlyIds rs) then Some Building else state_of rs j)"
  by (simp_all add: plan_step_def planned_def admit_fold)

lemma plan_step_inv:
  assumes d: "distinct (ids all)" and inv: "pool_inv all cap rs"
  shows "pool_inv all cap (plan_step all cap onlyIds rs)"
proof -
  let ?fl = "rs_inFlight rs"
  let ?new = "planned all cap onlyIds rs"
  let ?rs = "plan_step all cap onlyIds rs"
  have ct: "tickets_of (filter (\<lambda>t. t_id t \<notin> rs_refused rs) all) ?fl = tickets_of all (counted rs)"
    by (rule counted_tickets [OF d inv])
  have ds: "disjoint_scopes (tickets_of (filter (\<lambda>t. t_id t \<notin> rs_refused rs) all) ?fl)"
    unfolding ct by (rule pool_invD(5) [OF inv])
  have cs: "set (counted rs) \<subseteq> set (ids all)" using pool_invD(3) [OF inv] by (auto simp: counted_def)
  have lc: "length (tickets_of all (counted rs)) = length (counted rs)"
    using tickets_of_known(1) [OF d cs] by (metis length_map)
  have sub: "set ?new \<subseteq> set all" using planned_new(1) [OF d inv] by blast
  have nr: "filter (\<lambda>i. i \<notin> rs_refused rs) (map t_id ?new) = map t_id ?new"
    using planned_new(2) [OF d inv] by (auto simp: filter_id_conv)
  have "distinct ?new"
    using planRound_slots(3) [OF ds, of _ cap onlyIds] d by (simp add: planned_def ids_def distinct_map)
  then have dn: "distinct (map t_id ?new)"
    using sub d unfolding ids_def distinct_map by (blast intro: inj_on_subset)
  have cn: "counted ?rs = counted rs @ map t_id ?new"
    using nr by (simp add: counted_def plan_step_fields)
  have tn: "tickets_of all (counted ?rs) = tickets_of all (counted rs) @ ?new"
    unfolding cn using tickets_of_ids [OF d sub] by (simp add: tickets_of_append)
  have sl: "length (tickets_of all (counted rs) @ ?new) \<le> cap" "disjoint_scopes (tickets_of all (counted rs) @ ?new)"
    using planRound_slots(1) [OF ds, of cap _ onlyIds] planRound_slots(2) [OF ds, of _ cap onlyIds] pool_invD(6) [OF inv] lc unfolding ct planned_def by auto
  have "in_flight_ok ?rs i" if i: "i \<in> set (?fl @ map t_id ?new)" for i
  proof (cases "i \<in> set ?fl")
    case True
    then have "i \<notin> t_id ` set ?new" using planned_new(3) [OF d inv] by blast
    then show ?thesis
      using pool_invD(7) [OF inv True] by (simp add: in_flight_ok_def plan_step_fields)
  next
    case False
    then have n: "i \<in> t_id ` set ?new" using i by auto
    then have "i \<notin> rs_settled rs" "i \<notin> rs_refused rs"
      using False pool_invD(4) [OF inv] planned_new(2) [OF d inv] by auto
    then show ?thesis using n by (simp add: in_flight_ok_def plan_step_fields)
  qed
  moreover have "distinct (?fl @ map t_id ?new)"
    using pool_invD(2) [OF inv] dn planned_new(3) [OF d inv] by auto
  moreover have "set (?fl @ map t_id ?new) \<subseteq> set (ids all)"
    using pool_invD(3) [OF inv] sub by (auto simp: ids_def)
  moreover have "rs_settled rs \<subseteq> set (?fl @ map t_id ?new)" using pool_invD(4) [OF inv] by auto
  moreover have "length (counted ?rs) \<le> cap" using sl(1) lc by (simp add: cn)
  ultimately show ?thesis
    using sl(2) pool_invD(1) [OF inv] unfolding pool_inv_def plan_step_fields(1-3) tn
    by (simp add: plan_step_fields(4))
qed

lemma plan_step_merged:
  assumes "distinct (ids all)" and "pool_inv all cap rs" and "state_of rs i = Some Merged"
  shows "state_of (plan_step all cap onlyIds rs) i = Some Merged"
  using assms(3) planned_new(4) [OF assms(1,2)] by (fastforce simp: plan_step_fields)

lemma plan_step_deps:
  assumes d: "distinct (ids all)" and inv: "pool_inv all cap rs"
    and r: "rs_refused rs = {}" and di: "deps_inv all rs"
  shows "deps_inv all (plan_step all cap onlyIds rs)"
  unfolding deps_inv_def plan_step_fields(1)
proof (intro ballI allI impI)
  note k = pool_invD(1) [OF inv]
  fix j q assume j: "j \<in> set (rs_inFlight rs @ map t_id (planned all cap onlyIds rs))" and q: "(q, j) \<in> dep all"
  have "q \<in> mergedOrCompleted all (statusById (rs_status rs))"
  proof (cases "j \<in> set (rs_inFlight rs)")
    case True
    then show ?thesis using di q by (simp add: deps_inv_def)
  next
    case False
    then obtain t where "t \<in> set (planned all cap onlyIds rs)" "j = t_id t" using j by auto
    then show ?thesis using planned_new(5) [OF d inv, of t onlyIds q] q r by simp
  qed
  then show "q \<in> mergedOrCompleted all (statusById (rs_status (plan_step all cap onlyIds rs)))"
    unfolding merged_mem [OF k] merged_mem [OF plan_step_fields(4) [OF k]]
    using plan_step_merged [OF d inv] by blast
qed

text \<open>A step of one ticket in flight touches the record of that ticket only.\<close>

definition touches_only :: "ident \<Rightarrow> run_state \<Rightarrow> run_state \<Rightarrow> bool" where
  "touches_only i rs rs' \<longleftrightarrow> (\<forall>j. j \<noteq> i \<longrightarrow> state_of rs' j = state_of rs j)
     \<and> (keys_ok (rs_status rs) \<longrightarrow> keys_ok (rs_status rs'))"

lemma step_touches [simp]:
  "touches_only i rs (refuse_step i rs)" "touches_only i rs (finish_step i out threw rs)"
  "touches_only i rs (cut_step i b rs)" "touches_only i rs (cleanup_fail_step i rs)"
  "touches_only i rs (leave_step i rs)"
  by (auto simp: touches_only_def refuse_step_def finish_step_def cut_step_def cleanup_fail_step_def leave_step_def
      state_of_def state_of_withTicket keys_ok_withTicket)

lemma step_fields [simp]:
  "rs_inFlight (refuse_step i rs) = rs_inFlight rs" "rs_inFlight (finish_step i out threw rs) = rs_inFlight rs"
  "rs_inFlight (cut_step i b rs) = rs_inFlight rs" "rs_inFlight (cleanup_fail_step i rs) = rs_inFlight rs"
  "rs_inFlight (leave_step i rs) = filter (\<lambda>j. j \<noteq> i) (rs_inFlight rs)"
  "rs_inFlight (quarantine_step rs) = rs_inFlight rs"
  "rs_settled (refuse_step i rs) = insert i (rs_settled rs)"
  "rs_settled (finish_step i out threw rs) = insert i (rs_settled rs)"
  "rs_settled (cut_step i b rs) = rs_settled rs" "rs_settled (cleanup_fail_step i rs) = rs_settled rs"
  "rs_settled (leave_step i rs) = rs_settled rs - {i}" "rs_settled (quarantine_step rs) = rs_settled rs"
  "rs_refused (refuse_step i rs) = insert i (rs_refused rs)" "rs_refused (finish_step i out threw rs) = rs_refused rs"
  "rs_refused (cut_step i b rs) = rs_refused rs" "rs_refused (cleanup_fail_step i rs) = rs_refused rs"
  "rs_refused (leave_step i rs) = rs_refused rs" "rs_refused (quarantine_step rs) = rs_refused rs"
  by (simp_all add: refuse_step_def finish_step_def cut_step_def cleanup_fail_step_def leave_step_def quarantine_step_def)

lemma step_states [simp]:
  "state_of (refuse_step i rs) i = Some Pending" "state_of (cut_step i b rs) i = Some Building"
  "state_of (finish_step i out threw rs) i = Some (o_state out)"
  "state_of (leave_step i rs) j = state_of rs j" "state_of (quarantine_step rs) j = state_of rs j"
  "state_of rs j = Some s \<Longrightarrow> state_of (cleanup_fail_step i rs) j = Some s"
  "keys_ok (rs_status (quarantine_step rs)) = keys_ok (rs_status rs)"
  "statusById (rs_status (quarantine_step rs)) = statusById (rs_status rs)"
  by (auto simp: refuse_step_def finish_step_def cut_step_def cleanup_fail_step_def leave_step_def quarantine_step_def
      state_of_def state_of_withTicket keys_ok_def statusById_def split: option.splits)

text \<open>A step that leaves the pool as it is, up to tickets taken out of what the planner counts.\<close>

lemma touch_inv:
  assumes d: "distinct (ids all)" and inv: "pool_inv all cap rs" and t: "touches_only i rs rs'"
    and fl: "rs_inFlight rs' = rs_inFlight rs"
    and st: "rs_settled rs' = rs_settled rs \<or> i \<in> set (rs_inFlight rs) \<and> rs_settled rs' = insert i (rs_settled rs)"
    and rf: "rs_refused rs' = rs_refused rs \<or> rs_refused rs' = insert i (rs_refused rs)"
    and ok: "i \<in> set (rs_inFlight rs) \<Longrightarrow> in_flight_ok rs' i"
  shows "pool_inv all cap rs'"
proof -
  have c: "counted rs' = counted rs \<or> counted rs' = filter (\<lambda>j. j \<noteq> i) (counted rs)"
    using rf fl by (auto simp: counted_def intro!: filter_cong)
  have cs: "set (counted rs) \<subseteq> set (ids all)" using pool_invD(3) [OF inv] by (auto simp: counted_def)
  have "disjoint_scopes (tickets_of all (counted rs'))"
    using c pool_invD(5) [OF inv] disjoint_scopes_filter unfolding tickets_of_remove [OF d cs, of i, symmetric]
    by (metis tickets_of_remove [OF d cs])
  moreover have "length (counted rs') \<le> cap"
    using c pool_invD(6) [OF inv] length_filter_le [of "\<lambda>j. j \<noteq> i" "counted rs"] by (metis le_trans)
  moreover have "in_flight_ok rs' j" if j: "j \<in> set (rs_inFlight rs)" for j
  proof (cases "j = i")
    case False
    then show ?thesis
      using pool_invD(7) [OF inv j] t st rf by (auto simp: in_flight_ok_def touches_only_def)
  qed (use ok j in simp)
  ultimately show ?thesis
    using pool_invD(1-4) [OF inv] t st by (auto simp: pool_inv_def fl touches_only_def)
qed

lemma leave_inv:
  assumes d: "distinct (ids all)" and inv: "pool_inv all cap rs"
  shows "pool_inv all cap (leave_step i rs)"
proof -
  have c: "counted (leave_step i rs) = filter (\<lambda>j. j \<noteq> i) (counted rs)"
    by (simp add: counted_def conj_commute)
  have cs: "set (counted rs) \<subseteq> set (ids all)" using pool_invD(3) [OF inv] by (auto simp: counted_def)
  have "disjoint_scopes (tickets_of all (counted (leave_step i rs)))"
    unfolding c tickets_of_remove [OF d cs] by (rule disjoint_scopes_filter [OF pool_invD(5) [OF inv]])
  moreover have "length (counted (leave_step i rs)) \<le> cap"
    using pool_invD(6) [OF inv] length_filter_le [of "\<lambda>j. j \<noteq> i" "counted rs"] unfolding c by linarith
  ultimately show ?thesis
    using pool_invD(1-4,7) [OF inv] step_touches(5) [of i rs]
    by (auto simp: pool_inv_def in_flight_ok_def touches_only_def)
qed

lemma touch_deps:
  assumes inv: "pool_inv all cap rs" and t: "touches_only i rs rs'" and b: "state_of rs i = Some Merged \<Longrightarrow> state_of rs' i = Some Merged"
    and fl: "set (rs_inFlight rs') \<subseteq> set (rs_inFlight rs)" and dp: "deps_inv all rs"
  shows "deps_inv all rs'"
  unfolding deps_inv_def
proof (intro ballI allI impI)
  fix j p assume j: "j \<in> set (rs_inFlight rs')" and p: "(p, j) \<in> dep all"
  have k: "keys_ok (rs_status rs)" "keys_ok (rs_status rs')"
    using pool_invD(1) [OF inv] t by (simp_all add: touches_only_def)
  have "p \<in> mergedOrCompleted all (statusById (rs_status rs))" using dp j fl p by (auto simp: deps_inv_def)
  moreover have "state_of rs' p = Some Merged" if "state_of rs p = Some Merged"
    using that b t by (cases "p = i") (simp_all add: touches_only_def)
  ultimately show "p \<in> mergedOrCompleted all (statusById (rs_status rs'))"
    unfolding merged_mem [OF k(1)] merged_mem [OF k(2)] by blast
qed

text \<open>The outcomes.\<close>

lemma possible_outcome_state:
  "possible_outcome mx k out threw \<Longrightarrow> o_state out \<in> {Merged, Failed, Blocked, Paused}"
  using advanceTicket_state by (auto simp: possible_outcome_def split: if_splits)

lemma fleet_step_inv:
  assumes d: "distinct (ids all)" and "fleet_step all cap onlyIds mx rs rs'" and inv: "pool_inv all cap rs"
  shows "pool_inv all cap rs'"
  using assms(2)
proof cases
  case Plan
  then show ?thesis using plan_step_inv [OF d inv] by simp
next
  case (Refuse i)
  then have "i \<in> set (rs_inFlight rs)" by (simp add: running_def)
  then show ?thesis unfolding Refuse(1) by (intro touch_inv [OF d inv step_touches(1)]) (simp_all add: in_flight_ok_def)
next
  case (Cut i b)
  then have "i \<in> set (rs_inFlight rs)" "i \<notin> rs_settled rs" "i \<notin> rs_refused rs"
    using running_building [OF inv] by (auto simp: running_def)
  then show ?thesis unfolding Cut(1) by (intro touch_inv [OF d inv step_touches(3)]) (simp_all add: in_flight_ok_def)
next
  case (Finish i out threw)
  then have "i \<in> set (rs_inFlight rs)" "i \<notin> rs_refused rs" using running_building [OF inv] by auto
  then show ?thesis
    using possible_outcome_state [OF Finish(3)] unfolding Finish(1)
    by (intro touch_inv [OF d inv step_touches(2)]) (auto simp: in_flight_ok_def ended_state_def)
next
  case (CleanupFail i)
  then have i: "i \<in> set (rs_inFlight rs)" by (simp add: cleaning_def)
  from pool_invD(7) [OF inv this] have "in_flight_ok (cleanup_fail_step i rs) i"
    unfolding in_flight_ok_def step_fields by (auto simp: ended_state_def split: if_splits)
  then show ?thesis unfolding CleanupFail(1) by (intro touch_inv [OF d inv step_touches(4)]) simp_all
next
  case (Leave i)
  then show ?thesis using leave_inv [OF d inv] by simp
next
  case Quarantine
  then show ?thesis using inv by (simp add: pool_inv_def counted_def in_flight_ok_def)
qed

lemma fleet_step_merged:
  assumes d: "distinct (ids all)" and "fleet_step all cap onlyIds mx rs rs'" and inv: "pool_inv all cap rs"
    and m: "state_of rs i = Some Merged"
  shows "state_of rs' i = Some Merged"
proof -
  have keep: "state_of rs' i = Some Merged" if "touches_only j rs rs'" "j \<in> running rs" for j
    using that m running_building [OF inv that(2)] by (cases "i = j") (simp_all add: touches_only_def)
  show ?thesis
    using assms(2)
  proof cases
    case Plan
    then show ?thesis using plan_step_merged [OF d inv m] by simp
  next
    case (Refuse j)
    then show ?thesis using keep [of j] by simp
  next
    case (Cut j b)
    then show ?thesis using keep [of j] by simp
  next
    case (Finish j out threw)
    then show ?thesis using keep [of j] by simp
  qed (use m in simp_all)
qed

lemma fleet_step_deps:
  assumes d: "distinct (ids all)" and "fleet_step all cap onlyIds mx rs rs'" and inv: "pool_inv all cap rs"
    and r: "rs_refused rs' = {}" and dp: "deps_inv all rs"
  shows "deps_inv all rs'"
proof -
  note m = fleet_step_merged [OF d assms(2) inv]
  show ?thesis
    using assms(2)
  proof cases
    case Plan
    have "rs_refused rs = {}" using r unfolding Plan plan_step_fields .
    then show ?thesis using plan_step_deps [OF d inv _ dp] Plan by simp
  next
    case (Refuse i)
    then show ?thesis using r by simp
  next
    case (Cut i b)
    show ?thesis by (rule touch_deps [OF inv _ m _ dp, of i]) (simp_all add: Cut(1))
  next
    case (Finish i out threw)
    show ?thesis by (rule touch_deps [OF inv _ m _ dp, of i]) (simp_all add: Finish(1))
  next
    case (CleanupFail i)
    show ?thesis by (rule touch_deps [OF inv _ m _ dp, of i]) (simp_all add: CleanupFail(1))
  next
    case (Leave i)
    show ?thesis by (rule touch_deps [OF inv _ m _ dp, of i]) (auto simp: Leave(1))
  next
    case Quarantine
    then show ?thesis using dp by (simp add: deps_inv_def)
  qed
qed

lemma refused_mono: "fleet_step all cap onlyIds mx rs rs' \<Longrightarrow> rs_refused rs \<subseteq> rs_refused rs'"
  by (auto elim!: fleet_stepE simp: plan_step_fields)

lemma fleet_reach_inv:
  assumes d: "distinct (ids all)" and k: "keys_ok st"
  shows "fleet_reach all cap onlyIds mx st rs \<Longrightarrow> pool_inv all cap rs \<and> (rs_refused rs = {} \<longrightarrow> deps_inv all rs)"
proof (induction rule: fleet_reach.induct)
  case reach_start
  then show ?case
    using k by (simp add: pool_inv_def counted_def deps_inv_def start_state_def tickets_of_def map_filter_simps disjoint_scopes_def)
next
  case (reach_step rs rs')
  then show ?case
    using fleet_step_inv [OF d] fleet_step_deps [OF d] refused_mono by blast
qed

lemma fleet_reach_merged:
  assumes d: "distinct (ids all)" and k: "keys_ok st"
    and r: "fleet_reach all cap onlyIds mx st rs" and s: "(fleet_step all cap onlyIds mx)\<^sup>*\<^sup>* rs rs'"
    and m: "state_of rs i = Some Merged"
  shows "state_of rs' i = Some Merged \<and> fleet_reach all cap onlyIds mx st rs'"
  using s
proof (induction rule: rtranclp_induct)
  case (step us vs)
  then show ?case
    using fleet_reach_inv [OF d k] fleet_step_merged [OF d] by (blast intro: fleet_reach.reach_step)
qed (simp add: m r)

section \<open>Properties\<close>

text \<open>C2: In every state the pool can reach, the tickets in flight are distinct tickets of the run. One
  whose result is not yet recorded is recorded as building and was not refused; one whose result is
  recorded and whose cleanup is still awaited is merged, failed, blocked or paused, or pending when its
  setup was refused. The tickets in flight that were not refused are at most as many as the cap and
  have pairwise disjoint scopes, cleanups included; in particular so have all tickets in flight while
  none of them is refused. (A refused ticket in cleanup is not counted: the planner no longer sees it.)\<close>

theorem fleet_pool_safe:
  assumes "distinct (ids all)" and "keys_ok st" and "fleet_reach all cap onlyIds mx st rs"
  shows "distinct (rs_inFlight rs) \<and> set (rs_inFlight rs) \<subseteq> set (ids all)
    \<and> (\<forall>i\<in>running rs. state_of rs i = Some Building \<and> i \<notin> rs_refused rs)
    \<and> (\<forall>i\<in>cleaning rs. if i \<in> rs_refused rs then state_of rs i = Some Pending
         else ended_state (state_of rs i))
    \<and> length (filter (\<lambda>i. i \<notin> rs_refused rs) (rs_inFlight rs)) \<le> cap
    \<and> disjoint_scopes (tickets_of all (filter (\<lambda>i. i \<notin> rs_refused rs) (rs_inFlight rs)))
    \<and> (rs_refused rs \<inter> set (rs_inFlight rs) = {} \<longrightarrow>
         length (rs_inFlight rs) \<le> cap \<and> disjoint_scopes (tickets_of all (rs_inFlight rs)))"
proof -
  have inv: "pool_inv all cap rs" using fleet_reach_inv [OF assms] by simp
  have "\<forall>i\<in>cleaning rs. if i \<in> rs_refused rs then state_of rs i = Some Pending
         else ended_state (state_of rs i)"
    using pool_invD(7) [OF inv] by (force simp: cleaning_def in_flight_ok_def)
  moreover have "length (rs_inFlight rs) \<le> cap \<and> disjoint_scopes (tickets_of all (rs_inFlight rs))"
    if "rs_refused rs \<inter> set (rs_inFlight rs) = {}"
  proof -
    have "counted rs = rs_inFlight rs" using that by (auto simp: counted_def filter_id_conv)
    then show ?thesis using pool_invD(5,6) [OF inv] by simp
  qed
  ultimately show ?thesis
    using pool_invD(2,3,5,6) [OF inv] running_building [OF inv] unfolding counted_def by blast
qed

lemma demo_run:
  "distinct (ids [demo_ticket ''A'' [''B''] False, demo_ticket ''B'' [] False])" "keys_ok (newStatus ''main'')"
  by (simp_all add: ids_def demo_ticket_def keys_ok_def newStatus_def)

lemma demo_reach:
  "fleet_reach [demo_ticket ''A'' [''B''] False, demo_ticket ''B'' [] False] 2 None 3 (newStatus ''main'')
     (plan_step [demo_ticket ''A'' [''B''] False, demo_ticket ''B'' [] False] 2 None (start_state (newStatus ''main'')))"
  by (rule fleet_reach.reach_step [OF fleet_reach.reach_start fleet_step.Plan])

lemma demo_reach_inFlight:
  "rs_inFlight (plan_step [demo_ticket ''A'' [''B''] False, demo_ticket ''B'' [] False] 2 None (start_state (newStatus ''main'')))
     = [''A'']"
  "rs_refused (plan_step [demo_ticket ''A'' [''B''] False, demo_ticket ''B'' [] False] 2 None (start_state (newStatus ''main'')))
     = {}"
  by code_simp (simp add: plan_step_fields start_state_def)

lemma demo_reach_running:
  "running (plan_step [demo_ticket ''A'' [''B''] False, demo_ticket ''B'' [] False] 2 None (start_state (newStatus ''main'')))
     = {''A''}"
  unfolding running_def demo_reach_inFlight plan_step_fields(3) by (simp add: start_state_def)

theorem fleet_pool_safe_witness:
  "state_of (plan_step [demo_ticket ''A'' [''B''] False, demo_ticket ''B'' [] False] 2 None (start_state (newStatus ''main'')))
     ''A'' = Some Building"
  using fleet_pool_safe [OF demo_run demo_reach]
  by (simp add: demo_reach_inFlight demo_reach_running)

text \<open>C3: As long as no ticket's setup was refused in the run, every ticket in flight has all its
  prerequisites merged or completed.\<close>

theorem fleet_dependencies_met:
  assumes "distinct (ids all)" and "keys_ok st" and "fleet_reach all cap onlyIds mx st rs" and "rs_refused rs = {}"
    and "i \<in> set (rs_inFlight rs)" and "(p, i) \<in> dep all"
  shows "p \<in> mergedOrCompleted all (statusById (rs_status rs))"
  using fleet_reach_inv [OF assms(1-3)] assms(4-6) by (auto simp: deps_inv_def)

lemma demo_done:
  "distinct (ids [demo_ticket ''A'' [''B''] True, demo_ticket ''B'' [] False])"
  "fleet_reach [demo_ticket ''A'' [''B''] True, demo_ticket ''B'' [] False] 2 None 3 (newStatus ''main'')
     (plan_step [demo_ticket ''A'' [''B''] True, demo_ticket ''B'' [] False] 2 None (start_state (newStatus ''main'')))"
  "rs_inFlight (plan_step [demo_ticket ''A'' [''B''] True, demo_ticket ''B'' [] False] 2 None (start_state (newStatus ''main'')))
     = [''B'']"
  "(''A'', ''B'') \<in> dep [demo_ticket ''A'' [''B''] True, demo_ticket ''B'' [] False]"
  "rs_refused (plan_step [demo_ticket ''A'' [''B''] True, demo_ticket ''B'' [] False] 2 None (start_state (newStatus ''main''))) = {}"
proof -
  show "distinct (ids [demo_ticket ''A'' [''B''] True, demo_ticket ''B'' [] False])"
    "(''A'', ''B'') \<in> dep [demo_ticket ''A'' [''B''] True, demo_ticket ''B'' [] False]"
    by (simp_all add: ids_def demo_ticket_def dep_Cons)
  show "rs_inFlight (plan_step [demo_ticket ''A'' [''B''] True, demo_ticket ''B'' [] False] 2 None
    (start_state (newStatus ''main''))) = [''B'']" by code_simp
  show "rs_refused (plan_step [demo_ticket ''A'' [''B''] True, demo_ticket ''B'' [] False] 2 None
    (start_state (newStatus ''main''))) = {}" by (simp add: plan_step_fields start_state_def)
qed (rule fleet_reach.reach_step [OF fleet_reach.reach_start fleet_step.Plan])

theorem fleet_dependencies_met_witness:
  "''A'' \<in> mergedOrCompleted [demo_ticket ''A'' [''B''] True, demo_ticket ''B'' [] False]
     (statusById (rs_status (plan_step [demo_ticket ''A'' [''B''] True, demo_ticket ''B'' [] False] 2 None
        (start_state (newStatus ''main'')))))"
  using fleet_dependencies_met [OF demo_done(1) demo_run(2) demo_done(2,5) _ demo_done(4)] demo_done(3) by simp

text \<open>C33: A refused ticket is taken out of the ticket list the next round plans with, and with it the
  dependency of the tickets that wait for it: with B behind A, refusing A's setup lets the next round
  dispatch B while A is pending.\<close>

theorem refused_prerequisite_bypassed:
  "\<exists>rs. fleet_reach [demo_ticket ''A'' [''B''] False, demo_ticket ''B'' [] False] 2 None 3 (newStatus ''main'') rs
    \<and> rs_inFlight rs = [''B''] \<and> state_of rs ''A'' = Some Pending
    \<and> (''A'', ''B'') \<in> dep [demo_ticket ''A'' [''B''] False, demo_ticket ''B'' [] False]"
proof -
  let ?all = "[demo_ticket ''A'' [''B''] False, demo_ticket ''B'' [] False]"
  let ?r1 = "plan_step ?all 2 None (start_state (newStatus ''main''))"
  let ?r2 = "refuse_step ''A'' ?r1"
  let ?r3 = "leave_step ''A'' ?r2"
  have i1: "''A'' \<in> running ?r1" unfolding demo_reach_running by simp
  have i2: "''A'' \<in> cleaning ?r2" unfolding cleaning_def step_fields demo_reach_inFlight by simp
  have "fleet_reach ?all 2 None 3 (newStatus ''main'') ?r3"
    by (rule fleet_reach.reach_step [OF fleet_reach.reach_step [OF demo_reach fleet_step.Refuse [OF i1]] fleet_step.Leave [OF i2]])
  then have "fleet_reach ?all 2 None 3 (newStatus ''main'') (plan_step ?all 2 None ?r3)"
    by (rule fleet_reach.reach_step) (rule fleet_step.Plan)
  moreover have "rs_inFlight (plan_step ?all 2 None ?r3) = [''B'']" by code_simp
  moreover have "state_of (plan_step ?all 2 None ?r3) ''A'' = Some Pending" by code_simp
  moreover have "(''A'', ''B'') \<in> dep ?all" by (simp add: dep_Cons demo_ticket_def)
  ultimately show ?thesis by blast
qed

text \<open>A merged ticket stays merged: from any state the pool can reach, no later step of any ticket
  takes it back.\<close>

theorem merged_ticket_stays:
  assumes "distinct (ids all)" and "keys_ok st" and "fleet_reach all cap onlyIds mx st rs"
    and "state_of rs i = Some Merged" and "(fleet_step all cap onlyIds mx)\<^sup>*\<^sup>* rs rs'"
  shows "state_of rs' i = Some Merged"
  using fleet_reach_merged [OF assms(1-3,5,4)] by blast

lemma demo_finish:
  "possible_outcome 3 0 (advanceTicket (demo_effects None) 3 0 []) False"
  by (auto simp: possible_outcome_def)

theorem merged_ticket_stays_witness:
  "\<exists>rs. fleet_reach [demo_ticket ''A'' [''B''] False, demo_ticket ''B'' [] False] 2 None 3 (newStatus ''main'') rs
    \<and> state_of (plan_step [demo_ticket ''A'' [''B''] False, demo_ticket ''B'' [] False] 2 None rs) ''A'' = Some Merged"
proof -
  let ?all = "[demo_ticket ''A'' [''B''] False, demo_ticket ''B'' [] False]"
  let ?r1 = "plan_step ?all 2 None (start_state (newStatus ''main''))"
  let ?r2 = "finish_step ''A'' (advanceTicket (demo_effects None) 3 0 []) False ?r1"
  have i1: "''A'' \<in> running ?r1" unfolding demo_reach_running by simp
  have s1: "start_strikes ''A'' ?r1 = 0" by code_simp
  have r2: "fleet_reach ?all 2 None 3 (newStatus ''main'') ?r2"
    by (rule fleet_reach.reach_step [OF demo_reach fleet_step.Finish [OF i1]]) (simp add: s1 demo_finish)
  have "state_of ?r2 ''A'' = Some Merged" by code_simp
  moreover have "(fleet_step ?all 2 None 3)\<^sup>*\<^sup>* ?r2 (plan_step ?all 2 None ?r2)" by (blast intro: fleet_step.Plan)
  ultimately show ?thesis using merged_ticket_stays [OF demo_run r2] r2 by blast
qed

end
