(* ===== verification/GateChain.thy ===== *)
theory GateChain
  imports JsValue JsString
begin

text \<open>
  One chain of the gate manifest: the signature of an entry
  (\<^verbatim>\<open>packages/gate-manifest/lib/sign.mjs\<close>, with the signed bytes and the chain check of
  \<^verbatim>\<open>packages/tickets/lib/manifest-primitives.mjs\<close>) and the verification of one chain of raw lines,
  \<open>verifyChain\<close> of \<^verbatim>\<open>packages/gate-manifest/lib/verify.mjs\<close>. \<open>JSON.parse\<close>, \<open>JSON.stringify\<close>, SHA-256
  and HMAC are the fields of a \<open>codec\<close>, a parameter of every definition.
\<close>

record codec =
  parseJson :: "string \<Rightarrow> jsval option"
  stringifyJson :: "jsval \<Rightarrow> string"
  sha256 :: "string \<Rightarrow> string"
  hmac :: "string \<Rightarrow> string \<Rightarrow> string"

section \<open>Signatures\<close>

definition without_keys :: "string list \<Rightarrow> jsval \<Rightarrow> jsval" where
  "without_keys ks v = (case v of VObj kvs \<Rightarrow> VObj (filter (\<lambda>kv. fst kv \<notin> set ks) kvs) | _ \<Rightarrow> VObj [])"

definition optional_field :: "string \<Rightarrow> jsval \<Rightarrow> (string \<times> jsval) list" where
  "optional_field k v = (if js_get k v \<noteq> VUndefined then [(k, js_get k v)] else [])"

definition canonicalEntryBytes :: "codec \<Rightarrow> jsval \<Rightarrow> canonical_error + string" where
  "canonicalEntryBytes cd e =
     (if js_get ''sigVersion'' e = VNum 2
      then bind_res (normalize (without_keys [''sig'', ''segment''] e)) (\<lambda>n. Inr (stringifyJson cd n))
      else Inr (stringifyJson cd (VObj
        ([(''seq'', js_get ''seq'' e), (''gate'', js_get ''gate'' e), (''ts'', js_get ''ts'' e)]
         @ optional_field ''ticket'' e @ optional_field ''data'' e
         @ [(''files'', js_get ''files'' e), (''prev'', js_get ''prev'' e)]))))"

definition signEntry :: "codec \<Rightarrow> string \<Rightarrow> jsval \<Rightarrow> canonical_error + string" where
  "signEntry cd key e = bind_res (canonicalEntryBytes cd e) (\<lambda>b. Inr (hmac cd key b))"

definition verifyEntrySig :: "codec \<Rightarrow> string \<Rightarrow> jsval \<Rightarrow> canonical_error + bool" where
  "verifyEntrySig cd key e = (case js_get ''sig'' e of
      VStr s \<Rightarrow> if s = [] then Inr False else bind_res (signEntry cd key e) (\<lambda>expected. Inr (s = expected))
    | _ \<Rightarrow> Inr False)"

section \<open>Verification of one chain\<close>

text \<open>\<open>Number.isInteger\<close>, with the integer.\<close>

definition int_value :: "jsval \<Rightarrow> int option" where
  "int_value v = (case v of VNum q \<Rightarrow> if of_int \<lfloor>q\<rfloor> = q then Some \<lfloor>q\<rfloor> else None | _ \<Rightarrow> None)"

datatype break_reason =
    EmptySegmentFile | MalformedJson | EntryNotObject | InvalidSeq | FirstPrevNotNull | PrevMismatch
  | FirstSeqNotOne | SeqNotContiguous | AnchorMissing | AnchorOnRoot | AnchorNotFirst | Unsigned | SignatureInvalid

record chain_break =
  bk_seq :: jsval
  bk_line :: "nat option"
  bk_reason :: break_reason

record chain_result =
  cr_valid :: bool
  cr_count :: nat
  cr_signed :: bool
  cr_break :: "chain_break option"
  cr_lastRawLine :: "string option"
  cr_firstAnchor :: "jsval option"

definition chain_fail :: "nat \<Rightarrow> jsval \<Rightarrow> nat option \<Rightarrow> break_reason \<Rightarrow> chain_result" where
  "chain_fail count s lineNo reason =
     \<lparr>cr_valid = False, cr_count = count, cr_signed = False,
      cr_break = Some \<lparr>bk_seq = s, bk_line = lineNo, bk_reason = reason\<rparr>,
      cr_lastRawLine = None, cr_firstAnchor = None\<rparr>"

record walk =
  wk_prev :: "string option"
  wk_seq :: int
  wk_anchor :: "jsval option"
  wk_signed :: bool

datatype entry_step = Stop chain_result | Go walk

text \<open>The checks on an entry that has parsed to an object with a positive integer \<open>seq\<close>, up to the
  signature: the first check that fails and the count it reports.\<close>

definition link_break :: "codec \<Rightarrow> bool \<Rightarrow> walk \<Rightarrow> jsval \<Rightarrow> int \<Rightarrow> nat \<Rightarrow> (nat \<times> break_reason) option" where
  "link_break cd anchorOnFirst w e s lineNo =
     (case wk_prev w of
        None \<Rightarrow>
          if js_get ''prev'' e \<noteq> VNull then Some (0, FirstPrevNotNull)
          else if s \<noteq> 1 then Some (0, FirstSeqNotOne)
          else if anchorOnFirst \<and> \<not> js_has_own ''anchor'' e then Some (lineNo - 1, AnchorMissing)
          else if \<not> anchorOnFirst \<and> js_has_own ''anchor'' e then Some (lineNo - 1, AnchorOnRoot)
          else None
      | Some p \<Rightarrow>
          if js_get ''prev'' e \<noteq> VStr (sha256 cd p) then Some (lineNo - 1, PrevMismatch)
          else if s \<noteq> wk_seq w + 1 then Some (lineNo - 1, SeqNotContiguous)
          else if js_has_own ''anchor'' e then Some (lineNo - 1, AnchorNotFirst)
          else None)"

definition next_walk :: "walk \<Rightarrow> jsval \<Rightarrow> int \<Rightarrow> string \<Rightarrow> bool \<Rightarrow> walk" where
  "next_walk w e s line isSigned =
     \<lparr>wk_prev = Some line, wk_seq = s,
      wk_anchor = (if wk_prev w = None
                   then (if js_has_own ''anchor'' e then Some (js_get ''anchor'' e) else None) else wk_anchor w),
      wk_signed = isSigned\<rparr>"

definition check_signature ::
  "codec \<Rightarrow> string option \<Rightarrow> bool \<Rightarrow> walk \<Rightarrow> jsval \<Rightarrow> canonical_error + (break_reason option \<times> bool)" where
  "check_signature cd key requireSignatures w e = (case key of
      None \<Rightarrow> Inr (None, wk_signed w)
    | Some k \<Rightarrow>
        if nullish (js_get ''sig'' e)
        then Inr (if \<not> requireSignatures \<and> \<not> wk_signed w then None else Some Unsigned, wk_signed w)
        else bind_res (verifyEntrySig cd k e) (\<lambda>ok. Inr (if ok then None else Some SignatureInvalid, True)))"

definition check_entry ::
  "codec \<Rightarrow> string option \<Rightarrow> bool \<Rightarrow> bool \<Rightarrow> walk \<Rightarrow> string \<times> nat \<Rightarrow> canonical_error + entry_step" where
  "check_entry cd key requireSignatures anchorOnFirst w line =
     (let lineNo = snd line; brk = (\<lambda>count s r. Inr (Stop (chain_fail count s (Some lineNo) r)))
      in case parseJson cd (fst line) of
           None \<Rightarrow> brk (lineNo - 1) VNull MalformedJson
         | Some e \<Rightarrow>
             if \<not> is_plain_obj e then brk (lineNo - 1) VNull EntryNotObject
             else let sv = (if nullish (js_get ''seq'' e) then VNull else js_get ''seq'' e)
             in case int_value (js_get ''seq'' e) of
                  None \<Rightarrow> brk (lineNo - 1) sv InvalidSeq
                | Some s \<Rightarrow>
                    if s < 1 then brk (lineNo - 1) sv InvalidSeq
                    else case link_break cd anchorOnFirst w e s lineNo of
                      Some (count, r) \<Rightarrow> brk count sv r
                    | None \<Rightarrow> bind_res (check_signature cd key requireSignatures w e) (\<lambda>(bad, isSigned).
                        case bad of
                          Some r \<Rightarrow> brk (lineNo - 1) sv r
                        | None \<Rightarrow> Inr (Go (next_walk w e s (fst line) isSigned))))"

fun chain_walk ::
  "codec \<Rightarrow> string option \<Rightarrow> bool \<Rightarrow> bool \<Rightarrow> nat \<Rightarrow> walk \<Rightarrow> (string \<times> nat) list \<Rightarrow> canonical_error + chain_result"
  where
  "chain_walk cd key requireSignatures anchorOnFirst n w [] =
     Inr \<lparr>cr_valid = True, cr_count = n, cr_signed = (key \<noteq> None \<and> requireSignatures), cr_break = None,
          cr_lastRawLine = wk_prev w, cr_firstAnchor = wk_anchor w\<rparr>"
| "chain_walk cd key requireSignatures anchorOnFirst n w (line # rest) =
     bind_res (check_entry cd key requireSignatures anchorOnFirst w line) (\<lambda>step. case step of
         Stop r \<Rightarrow> Inr r
       | Go w' \<Rightarrow> chain_walk cd key requireSignatures anchorOnFirst n w' rest)"

definition start_walk :: walk where
  "start_walk = \<lparr>wk_prev = None, wk_seq = 0, wk_anchor = None, wk_signed = False\<rparr>"

definition verifyChain ::
  "codec \<Rightarrow> string option \<Rightarrow> bool \<Rightarrow> bool \<Rightarrow> (string \<times> nat) list \<Rightarrow> canonical_error + chain_result" where
  "verifyChain cd key requireSignatures anchorOnFirst nonEmpty =
     (if nonEmpty = [] then
        (if anchorOnFirst then Inr (chain_fail 0 VNull None EmptySegmentFile)
         else Inr \<lparr>cr_valid = True, cr_count = 0, cr_signed = False, cr_break = None,
                   cr_lastRawLine = None, cr_firstAnchor = None\<rparr>)
      else chain_walk cd key requireSignatures anchorOnFirst (length nonEmpty) start_walk nonEmpty)"

section \<open>What a valid chain is\<close>

text \<open>The links of a chain, without the walk: entry \<open>i\<close> has number \<open>i + 1\<close> and the hash of the line
  before it; an anchor is on the first entry of a segment and nowhere else.\<close>

definition link_ok :: "codec \<Rightarrow> bool \<Rightarrow> string list \<Rightarrow> nat \<Rightarrow> jsval \<Rightarrow> bool" where
  "link_ok cd anchorOnFirst ls i e \<longleftrightarrow>
     is_plain_obj e \<and> js_get ''seq'' e = VNum (of_nat (Suc i))
     \<and> js_get ''prev'' e = (if i = 0 then VNull else VStr (sha256 cd (ls ! (i - 1))))
     \<and> (js_has_own ''anchor'' e \<longleftrightarrow> anchorOnFirst \<and> i = 0)"

definition has_sig :: "jsval \<Rightarrow> bool" where
  "has_sig e \<longleftrightarrow> \<not> nullish (js_get ''sig'' e)"

definition sig_ok :: "codec \<Rightarrow> string option \<Rightarrow> bool \<Rightarrow> jsval list \<Rightarrow> jsval \<Rightarrow> bool" where
  "sig_ok cd key requireSignatures earlier e = (case key of
      None \<Rightarrow> True
    | Some k \<Rightarrow> if has_sig e then verifyEntrySig cd k e = Inr True
        else \<not> requireSignatures \<and> list_all (\<lambda>u. \<not> has_sig u) earlier)"

definition chain_entries :: "codec \<Rightarrow> string list \<Rightarrow> jsval list option" where
  "chain_entries cd ls =
     (if list_all (\<lambda>l. parseJson cd l \<noteq> None) ls then Some (map (\<lambda>l. the (parseJson cd l)) ls) else None)"

definition chain_ok :: "codec \<Rightarrow> string option \<Rightarrow> bool \<Rightarrow> bool \<Rightarrow> string list \<Rightarrow> bool" where
  "chain_ok cd key requireSignatures anchorOnFirst ls = (case chain_entries cd ls of
      None \<Rightarrow> False
    | Some es \<Rightarrow> (\<forall>i<length ls. link_ok cd anchorOnFirst ls i (es ! i)
        \<and> sig_ok cd key requireSignatures (take i es) (es ! i)))"

section \<open>The walk decides the specification\<close>

lemma int_value_eq: "int_value v = Some s \<longleftrightarrow> v = VNum (of_int s)"
  by (cases v) (auto simp: int_value_def)

definition walk_state :: "string option \<Rightarrow> bool \<Rightarrow> string list \<Rightarrow> jsval list \<Rightarrow> walk" where
  "walk_state key anchorOnFirst ls es =
     \<lparr>wk_prev = (if ls = [] then None else Some (last ls)), wk_seq = int (length ls),
      wk_anchor = (if anchorOnFirst \<and> es \<noteq> [] then Some (js_get ''anchor'' (hd es)) else None),
      wk_signed = (key \<noteq> None \<and> list_ex has_sig es)\<rparr>"

lemma start_walk_state: "start_walk = walk_state key anchorOnFirst [] []"
  by (simp add: start_walk_def walk_state_def)

lemma link_break_None:
  assumes "length es = length ls" and "int_value (js_get ''seq'' e) = Some s"
  shows "is_plain_obj e \<and> link_break cd aof (walk_state key aof ls es) e s n = None
    \<longleftrightarrow> link_ok cd aof (ls @ [l]) (length ls) e"
proof -
  have s: "js_get ''seq'' e = VNum (of_int s)" using assms(2) by (simp add: int_value_eq)
  have "js_get ''seq'' e = VNum (of_nat (Suc (length ls))) \<longleftrightarrow> s = int (length ls) + 1"
  proof -
    have "(of_nat (Suc (length ls)) :: rat) = of_int (int (length ls) + 1)" by simp
    then show ?thesis unfolding s by (simp only: jsval.inject of_int_eq_iff)
  qed
  then show ?thesis
    by (auto simp: link_break_def walk_state_def link_ok_def nth_append last_conv_nth split: if_splits)
qed

lemma check_signature_ok:
  "check_signature cd key rs (walk_state key aof ls es) e = Inr (None, b) \<longleftrightarrow>
     sig_ok cd key rs es e \<and> b = (key \<noteq> None \<and> list_ex has_sig (es @ [e]))"
  by (cases key) (auto simp: check_signature_def sig_ok_def walk_state_def has_sig_def bind_res_eq_Inr list_ex_iff list_all_iff)

lemma check_entry_Go:
  assumes "length es = length ls"
  shows "check_entry cd key rs aof (walk_state key aof ls es) (l, n) = Inr (Go w') \<longleftrightarrow>
    (\<exists>e. parseJson cd l = Some e \<and> link_ok cd aof (ls @ [l]) (length ls) e \<and> sig_ok cd key rs es e
       \<and> w' = walk_state key aof (ls @ [l]) (es @ [e]))"
proof (cases "parseJson cd l")
  case (Some e)
  let ?w = "walk_state key aof ls es"
  have nw: "next_walk ?w e s l (key \<noteq> None \<and> list_ex has_sig (es @ [e])) = walk_state key aof (ls @ [l]) (es @ [e])"
    if "link_ok cd aof (ls @ [l]) (length ls) e" "int_value (js_get ''seq'' e) = Some s" for s
  proof -
    have "s = int (length ls) + 1" using that
      by (simp add: int_value_eq link_ok_def)
    then show ?thesis using that(1) assms
      by (cases es) (auto simp: next_walk_def walk_state_def link_ok_def hd_append)
  qed
  show ?thesis
  proof (cases "int_value (js_get ''seq'' e)")
    case None
    then have "\<not> link_ok cd aof (ls @ [l]) (length ls) e"
      by (auto simp: link_ok_def int_value_def floor_eq_iff)
    then show ?thesis using Some None by (simp add: check_entry_def Let_def)
  next
    case (Some s)
    note s = Some
    have pos: "\<not> s < 1" if "link_ok cd aof (ls @ [l]) (length ls) e"
      using that s by (auto simp: link_ok_def int_value_eq)
    show ?thesis
    proof (cases "link_ok cd aof (ls @ [l]) (length ls) e")
      case True
      then have lb: "is_plain_obj e" "link_break cd aof ?w e s n = None"
        using link_break_None [OF assms s] by blast+
      have "check_entry cd key rs aof ?w (l, n) = Inr (Go w') \<longleftrightarrow>
          (\<exists>b. check_signature cd key rs ?w e = Inr (None, b) \<and> w' = next_walk ?w e s l b)"
        using \<open>parseJson cd l = Some e\<close> s lb pos [OF True]
        by (auto simp: check_entry_def Let_def bind_res_eq_Inr split: option.splits)
      then show ?thesis
        using True nw [OF True s] \<open>parseJson cd l = Some e\<close> by (auto simp: check_signature_ok)
    next
      case False
      then have "\<not> (is_plain_obj e \<and> link_break cd aof ?w e s n = None)"
        using link_break_None [OF assms s] by blast
      then show ?thesis
        using \<open>parseJson cd l = Some e\<close> s False by (auto simp: check_entry_def Let_def split: option.splits)
    qed
  qed
qed (simp add: check_entry_def Let_def)

text \<open>The part of the specification that concerns the entries after a prefix.\<close>

definition chain_tail_ok :: "codec \<Rightarrow> string option \<Rightarrow> bool \<Rightarrow> bool \<Rightarrow> string list \<Rightarrow> jsval list \<Rightarrow> string list \<Rightarrow> bool" where
  "chain_tail_ok cd key rs aof ls es rest \<longleftrightarrow> (\<exists>es'. list_all2 (\<lambda>l e. parseJson cd l = Some e) rest es'
     \<and> (\<forall>i<length rest. link_ok cd aof (ls @ rest) (length ls + i) (es' ! i)
          \<and> sig_ok cd key rs (es @ take i es') (es' ! i)))"

lemma link_ok_prefix: "i < length us \<Longrightarrow> link_ok cd aof (us @ vs) i e \<longleftrightarrow> link_ok cd aof us i e"
  by (auto simp: link_ok_def nth_append)

lemma chain_tail_Cons:
  "chain_tail_ok cd key rs aof ls es (l # rest) \<longleftrightarrow>
     (\<exists>e. parseJson cd l = Some e \<and> link_ok cd aof (ls @ [l]) (length ls) e \<and> sig_ok cd key rs es e
        \<and> chain_tail_ok cd key rs aof (ls @ [l]) (es @ [e]) rest)" (is "?L \<longleftrightarrow> ?R")
proof
  assume ?L
  then obtain e es' where e: "parseJson cd l = Some e" "list_all2 (\<lambda>l e. parseJson cd l = Some e) rest es'"
    and all: "\<And>i. i < Suc (length rest) \<Longrightarrow> link_ok cd aof (ls @ l # rest) (length ls + i) ((e # es') ! i)
      \<and> sig_ok cd key rs (es @ take i (e # es')) ((e # es') ! i)"
    unfolding chain_tail_ok_def by (auto simp: list_all2_Cons1)
  have "link_ok cd aof (ls @ [l]) (length ls) e"
    using all [of 0] link_ok_prefix [of "length ls" "ls @ [l]" cd aof rest e] by simp
  moreover have "sig_ok cd key rs es e" using all [of 0] by simp
  moreover have "chain_tail_ok cd key rs aof (ls @ [l]) (es @ [e]) rest"
    unfolding chain_tail_ok_def using e(2) all [of "Suc i" for i] by (intro exI [of _ es']) auto
  ultimately show ?R using e(1) by blast
next
  assume ?R
  then obtain e es' where e: "parseJson cd l = Some e" "list_all2 (\<lambda>l e. parseJson cd l = Some e) rest es'"
    and h: "link_ok cd aof (ls @ [l]) (length ls) e" "sig_ok cd key rs es e"
    and t: "\<And>i. i < length rest \<Longrightarrow> link_ok cd aof ((ls @ [l]) @ rest) (length (ls @ [l]) + i) (es' ! i)
      \<and> sig_ok cd key rs ((es @ [e]) @ take i es') (es' ! i)"
    unfolding chain_tail_ok_def by blast
  have "link_ok cd aof (ls @ l # rest) (length ls + i) ((e # es') ! i)
      \<and> sig_ok cd key rs (es @ take i (e # es')) ((e # es') ! i)" if "i < Suc (length rest)" for i
    using that h t [of "i - 1"] link_ok_prefix [of "length ls" "ls @ [l]" cd aof rest e] by (cases i) auto
  then show ?L unfolding chain_tail_ok_def using e by (intro exI [of _ "e # es'"]) auto
qed

lemma check_entry_Stop:
  assumes "check_entry cd key rs aof w line = Inr (Stop r)"
  shows "\<not> cr_valid r"
proof (rule ccontr)
  assume "\<not> \<not> cr_valid r"
  then have v: "r \<noteq> chain_fail c q l b" for c q l b by (auto simp: chain_fail_def)
  have b: "(Inr (Stop (chain_fail c q l b)) :: canonical_error + entry_step) \<noteq> Inr (Stop r)" for c q l b using v [of c q l b] by auto
  obtain e where e: "parseJson cd (fst line) = Some e"
    using assms b unfolding check_entry_def Let_def by (cases "parseJson cd (fst line)") auto
  have p: "is_plain_obj e" using assms b unfolding check_entry_def Let_def e by (auto split: if_splits)
  obtain s where s: "int_value (js_get ''seq'' e) = Some s"
    using assms b p unfolding check_entry_def Let_def e by (cases "int_value (js_get ''seq'' e)") auto
  have k: "\<not> s < 1" using assms b p unfolding check_entry_def Let_def e by (auto simp: s split: if_splits)
  have l: "link_break cd aof w e s (snd line) = None"
    using assms b p k unfolding check_entry_def Let_def e by (cases "link_break cd aof w e s (snd line)") (auto simp: s)
  show False using assms b p k l unfolding check_entry_def Let_def e
    by (auto simp: s bind_res_eq_Inr split: option.splits)
qed

lemma chain_walk_valid:
  assumes "length es = length ls"
  shows "(\<exists>r. chain_walk cd key rs aof n (walk_state key aof ls es) lines = Inr r \<and> cr_valid r)
    \<longleftrightarrow> chain_tail_ok cd key rs aof ls es (map fst lines)"
  using assms
proof (induction lines arbitrary: ls es)
  case Nil
  then show ?case by (simp add: chain_tail_ok_def)
next
  case (Cons line rest)
  obtain l k where line: "line = (l, k)" by fastforce
  let ?w = "walk_state key aof ls es"
  note inv = check_entry_Stop
  have "(\<exists>r. chain_walk cd key rs aof n ?w (line # rest) = Inr r \<and> cr_valid r) \<longleftrightarrow>
      (\<exists>w'. check_entry cd key rs aof ?w (l, k) = Inr (Go w')
         \<and> (\<exists>r. chain_walk cd key rs aof n w' rest = Inr r \<and> cr_valid r))"
  proof (cases "check_entry cd key rs aof ?w (l, k)")
    case (Inr step)
    then show ?thesis using inv by (cases step) (auto simp: line)
  qed (simp add: line)
  also have "\<dots> \<longleftrightarrow> (\<exists>e. parseJson cd l = Some e \<and> link_ok cd aof (ls @ [l]) (length ls) e \<and> sig_ok cd key rs es e
      \<and> (\<exists>r. chain_walk cd key rs aof n (walk_state key aof (ls @ [l]) (es @ [e])) rest = Inr r \<and> cr_valid r))"
    unfolding check_entry_Go [OF Cons.prems] by blast
  also have "\<dots> \<longleftrightarrow> chain_tail_ok cd key rs aof ls es (map fst (line # rest))"
    unfolding line list.map fst_conv chain_tail_Cons using Cons.IH Cons.prems by simp
  finally show ?case .
qed

lemma chain_entries_Some:
  "chain_entries cd ls = Some es \<longleftrightarrow> list_all2 (\<lambda>l e. parseJson cd l = Some e) ls es"
proof (induction ls arbitrary: es)
  case (Cons l ls)
  then show ?case by (cases es) (force simp: chain_entries_def split: if_splits)+
qed (auto simp: chain_entries_def)

lemma chain_ok_tail: "chain_ok cd key rs aof ls \<longleftrightarrow> chain_tail_ok cd key rs aof [] [] ls"
  by (cases "chain_entries cd ls") (auto simp: chain_ok_def chain_tail_ok_def simp flip: chain_entries_Some)

lemma verifyChain_valid:
  "(\<exists>r. verifyChain cd key rs aof lines = Inr r \<and> cr_valid r) \<longleftrightarrow>
     (aof \<longrightarrow> lines \<noteq> []) \<and> chain_ok cd key rs aof (map fst lines)"
proof (cases "lines = []")
  case True
  then show ?thesis by (auto simp: verifyChain_def chain_fail_def chain_ok_def chain_entries_def)
next
  case False
  have "(\<exists>r. verifyChain cd key rs aof lines = Inr r \<and> cr_valid r) \<longleftrightarrow>
    (\<exists>r. chain_walk cd key rs aof (length lines) (walk_state key aof [] []) lines = Inr r \<and> cr_valid r)"
    using False by (simp add: verifyChain_def start_walk_state [of key aof])
  also have "\<dots> \<longleftrightarrow> chain_ok cd key rs aof (map fst lines)"
    by (simp add: chain_walk_valid chain_ok_tail)
  finally show ?thesis using False by simp
qed

section \<open>A line pins the chain before it\<close>

lemma chain_ok_at:
  assumes "chain_ok cd key rs aof ls" and "i < length ls"
  shows "\<exists>e. parseJson cd (ls ! i) = Some e \<and> link_ok cd aof ls i e"
proof -
  obtain es where es: "chain_entries cd ls = Some es"
    and ok: "\<forall>i<length ls. link_ok cd aof ls i (es ! i) \<and> sig_ok cd key rs (take i es) (es ! i)"
    using assms(1) by (auto simp: chain_ok_def split: option.splits)
  then show ?thesis
    using assms(2) list_all2_nthD [OF es [unfolded chain_entries_Some] assms(2)] by blast
qed

lemma chain_line_pins:
  assumes inj: "inj (sha256 cd)"
    and c: "chain_ok cd key rs aof ls" "chain_ok cd key' rs' aof' ls'"
  shows "i < length ls \<Longrightarrow> j < length ls' \<Longrightarrow> ls ! i = ls' ! j \<Longrightarrow> i = j \<and> take (Suc i) ls = take (Suc i) ls'"
proof (induction i arbitrary: j)
  case (0 j)
  obtain e where e: "parseJson cd (ls ! 0) = Some e" "link_ok cd aof ls 0 e" using chain_ok_at [OF c(1) 0(1)] by blast
  then have "link_ok cd aof' ls' j e" using chain_ok_at [OF c(2) 0(2)] 0(3) by auto
  then have "j = 0" using e(2) by (auto simp: link_ok_def)
  then show ?case using 0 by (simp add: take_Suc_conv_app_nth)
next
  case (Suc i j)
  obtain e where e: "parseJson cd (ls ! Suc i) = Some e" "link_ok cd aof ls (Suc i) e"
    using chain_ok_at [OF c(1) Suc.prems(1)] by blast
  then have e': "link_ok cd aof' ls' j e" using chain_ok_at [OF c(2) Suc.prems(2)] Suc.prems(3) by auto
  then have j: "j = Suc i" using e(2) by (auto simp: link_ok_def)
  have "sha256 cd (ls ! i) = sha256 cd (ls' ! i)" using e(2) e' by (simp add: link_ok_def j)
  then have "ls ! i = ls' ! i" using inj by (simp add: inj_eq)
  then have "take (Suc i) ls = take (Suc i) ls'" using Suc.IH [of i] Suc.prems j by simp
  then show ?case using Suc.prems j by (simp add: take_Suc_conv_app_nth [of "Suc i"])
qed

section \<open>The writer's own check of a segment\<close>

text \<open>\<open>isChainIntact\<close>: what a writer asks of a recovered segment before it extends it. It looks for
  a \<open>sig\<close> property of its own where \<open>verifyChain\<close> asks for one that is not null.\<close>

fun intact_walk ::
  "codec \<Rightarrow> string option \<Rightarrow> string option \<Rightarrow> int \<Rightarrow> bool \<Rightarrow> string list \<Rightarrow> canonical_error + bool" where
  "intact_walk cd key prevLine prevSeq seenSigned [] = Inr True"
| "intact_walk cd key prevLine prevSeq seenSigned (line # rest) = (case parseJson cd line of
      None \<Rightarrow> Inr False
    | Some e \<Rightarrow>
        if \<not> is_plain_obj e then Inr False
        else if prevLine = None \<and> \<not> js_has_own ''anchor'' e then Inr False
        else if prevLine \<noteq> None \<and> js_has_own ''anchor'' e then Inr False
        else if js_get ''prev'' e \<noteq> (case prevLine of None \<Rightarrow> VNull | Some p \<Rightarrow> VStr (sha256 cd p)) then Inr False
        else if js_get ''seq'' e \<noteq> VNum (of_int (prevSeq + 1)) then Inr False
        else (case key of
            None \<Rightarrow> intact_walk cd key (Some line) (prevSeq + 1) seenSigned rest
          | Some k \<Rightarrow>
              if js_has_own ''sig'' e
              then bind_res (verifyEntrySig cd k e) (\<lambda>ok.
                if ok then intact_walk cd key (Some line) (prevSeq + 1) True rest else Inr False)
              else if seenSigned then Inr False
              else intact_walk cd key (Some line) (prevSeq + 1) seenSigned rest))"

definition isChainIntact :: "codec \<Rightarrow> string option \<Rightarrow> string list \<Rightarrow> canonical_error + bool" where
  "isChainIntact cd key ls = (if ls = [] then Inr False else intact_walk cd key None 0 False ls)"

definition no_null_sig :: "codec \<Rightarrow> string \<Rightarrow> bool" where
  "no_null_sig cd l = (case parseJson cd l of None \<Rightarrow> True | Some e \<Rightarrow> js_has_own ''sig'' e \<longrightarrow> has_sig e)"

lemma has_sig_own: "is_plain_obj e \<Longrightarrow> has_sig e \<Longrightarrow> js_has_own ''sig'' e"
  by (cases e) (auto simp: is_plain_obj_def has_sig_def nullish_def js_get_def js_has_own_def
      dest: map_of_SomeD split: option.splits intro: rev_image_eqI)

lemma intact_walk_tail:
  assumes "length es = length ls"
  shows "list_all (no_null_sig cd) rest \<Longrightarrow>
    intact_walk cd key (if ls = [] then None else Some (last ls)) (int (length ls)) (key \<noteq> None \<and> list_ex has_sig es) rest = Inr True
      \<longleftrightarrow> chain_tail_ok cd key False True ls es rest"
  using assms
proof (induction rest arbitrary: ls es)
  case Nil
  then show ?case by (simp add: chain_tail_ok_def)
next
  case (Cons line rest)
  show ?case
  proof (cases "parseJson cd line")
    case (Some e)
    have own: "js_has_own ''sig'' e \<longleftrightarrow> has_sig e" if "is_plain_obj e"
      using Cons.prems(1) Some has_sig_own [OF that] by (auto simp: no_null_sig_def)
    have IH: "intact_walk cd key (Some line) (int (length ls) + 1) (key \<noteq> None \<and> list_ex has_sig (es @ [e])) rest = Inr True
        \<longleftrightarrow> chain_tail_ok cd key False True (ls @ [line]) (es @ [e]) rest"
      using Cons.IH [where ls = "ls @ [line]" and es = "es @ [e]"] Cons.prems by (simp add: add.commute)
    have link: "link_ok cd True (ls @ [line]) (length ls) e \<longleftrightarrow> is_plain_obj e
        \<and> (ls = [] \<longleftrightarrow> js_has_own ''anchor'' e)
        \<and> js_get ''prev'' e = (if ls = [] then VNull else VStr (sha256 cd (last ls)))
        \<and> js_get ''seq'' e = VNum (of_int (int (length ls) + 1))"
      by (auto simp: link_ok_def nth_append last_conv_nth)
    have "intact_walk cd key (if ls = [] then None else Some (last ls)) (int (length ls))
        (key \<noteq> None \<and> list_ex has_sig es) (line # rest) = Inr True \<longleftrightarrow>
      link_ok cd True (ls @ [line]) (length ls) e \<and> sig_ok cd key False es e
        \<and> intact_walk cd key (Some line) (int (length ls) + 1) (key \<noteq> None \<and> list_ex has_sig (es @ [e])) rest = Inr True"
      unfolding link
      by (cases key) (auto simp: Some own sig_ok_def bind_res_eq_Inr list_all_iff list_ex_iff split: if_splits)
    then show ?thesis unfolding chain_tail_Cons IH using Some by auto
  qed (simp add: chain_tail_Cons)
qed

lemma isChainIntact_chain_ok:
  assumes "list_all (no_null_sig cd) ls"
  shows "isChainIntact cd key ls = Inr True \<longleftrightarrow> ls \<noteq> [] \<and> chain_ok cd key False True ls"
  using intact_walk_tail [where ls = "[]" and es = "[]", OF _ assms] by (simp add: isChainIntact_def chain_ok_tail)

section \<open>Properties\<close>

text \<open>C30: \<open>verifyChain\<close> reports a chain as valid exactly when every line is an entry with the next
  number and the hash of the line before it, the anchor is where it belongs, and, with a key, every
  entry carries a correct signature (leniently: every entry from the first signed one on).\<close>

theorem verifyChain_decides:
  "(\<exists>r. verifyChain cd key requireSignatures anchorOnFirst lines = Inr r \<and> cr_valid r) \<longleftrightarrow>
     (anchorOnFirst \<longrightarrow> lines \<noteq> []) \<and> chain_ok cd key requireSignatures anchorOnFirst (map fst lines)"
  by (rule verifyChain_valid)

text \<open>A codec for examples: three lines with their entries, and the line itself as its hash.\<close>

definition demo_entry :: "nat \<Rightarrow> jsval \<Rightarrow> (string \<times> jsval) list \<Rightarrow> jsval" where
  "demo_entry n p extra = VObj ([(''seq'', VNum (of_nat n)), (''gate'', VStr ''g''), (''ts'', VStr ''t''),
     (''files'', VObj []), (''prev'', p)] @ extra)"

definition demo_parse :: "string \<Rightarrow> jsval option" where
  "demo_parse = map_of
     [(''one'', demo_entry 1 VNull []), (''two'', demo_entry 2 (VStr ''one'') [(''sig'', VStr ''sign'')]),
      (''first'', demo_entry 1 VNull [(''anchor'', VNull)]), (''bad'', demo_entry 3 (VStr ''one'') []),
      (''next'', demo_entry 2 (VStr ''first'') []), (''root'', demo_entry 1 VNull [(''anchor'', VNull)])]"

definition demo_codec :: codec where
  "demo_codec = \<lparr>parseJson = demo_parse, stringifyJson = (\<lambda>_. ''text''), sha256 = (\<lambda>s. s), hmac = (\<lambda>k b. ''sign'')\<rparr>"

theorem verifyChain_decides_witness:
  "chain_ok demo_codec (Some ''key'') False False [''one'', ''two'']
   \<and> \<not> chain_ok demo_codec (Some ''key'') True False [''one'', ''two'']"
proof -
  have "verifyChain demo_codec (Some ''key'') False False [(''one'', 1), (''two'', 2)]
      = Inr \<lparr>cr_valid = True, cr_count = 2, cr_signed = False, cr_break = None,
          cr_lastRawLine = Some ''two'', cr_firstAnchor = None\<rparr>"
    and "verifyChain demo_codec (Some ''key'') True False [(''one'', 1), (''two'', 2)]
      = Inr (chain_fail 0 (VNum 1) (Some 1) Unsigned)" by code_simp+
  with verifyChain_decides [of demo_codec "Some ''key''" False False "[(''one'', 1), (''two'', 2)]"]
    verifyChain_decides [of demo_codec "Some ''key''" True False "[(''one'', 1), (''two'', 2)]"]
  show ?thesis by (simp add: chain_fail_def)
qed

text \<open>A line of a valid chain fixes everything before it: with a hash that has no collisions, two
  valid chains that share a line agree on every line up to it, so no earlier entry can be
  changed, dropped or inserted without changing the line.\<close>

theorem chain_tamper_evident:
  assumes "inj (sha256 cd)" and "chain_ok cd key rs aof ls" and "chain_ok cd key' rs' aof' ls'"
    and "i < length ls" and "j < length ls'" and "ls ! i = ls' ! j"
  shows "i = j \<and> take (Suc i) ls = take (Suc i) ls'"
  by (rule chain_line_pins [OF assms])

lemma demo_chain:
  "chain_ok demo_codec None False False [''one'', ''two'']" "chain_ok demo_codec None False False [''one'']"
  "inj (sha256 demo_codec)"
proof -
  have "verifyChain demo_codec None False False [(''one'', 1), (''two'', 2)]
      = Inr \<lparr>cr_valid = True, cr_count = 2, cr_signed = False, cr_break = None,
          cr_lastRawLine = Some ''two'', cr_firstAnchor = None\<rparr>"
    and "verifyChain demo_codec None False False [(''one'', 1)]
      = Inr \<lparr>cr_valid = True, cr_count = 1, cr_signed = False, cr_break = None,
          cr_lastRawLine = Some ''one'', cr_firstAnchor = None\<rparr>" by code_simp+
  with verifyChain_valid [of demo_codec None False False "[(''one'', 1), (''two'', 2)]"]
    verifyChain_valid [of demo_codec None False False "[(''one'', 1)]"]
  show "chain_ok demo_codec None False False [''one'', ''two'']" "chain_ok demo_codec None False False [''one'']" by simp_all
qed (simp add: demo_codec_def inj_def)

theorem chain_tamper_evident_witness:
  "take 1 [''one'', ''two''] = take 1 [''one'']"
  using chain_tamper_evident [OF demo_chain(3) demo_chain(1,2), of 0 0] by simp

text \<open>The writer's check of a segment it wants to extend agrees with the verifier's lenient check,
  as long as no entry has a \<open>sig\<close> that is there but null.\<close>

theorem isChainIntact_agrees:
  assumes "list_all (no_null_sig cd) (map fst lines)"
  shows "isChainIntact cd key (map fst lines) = Inr True
    \<longleftrightarrow> (\<exists>r. verifyChain cd key False True lines = Inr r \<and> cr_valid r)"
  unfolding isChainIntact_chain_ok [OF assms] verifyChain_valid by auto

theorem isChainIntact_agrees_witness:
  "isChainIntact demo_codec None [''first'', ''next''] = Inr True
   \<and> (\<exists>r. verifyChain demo_codec None False True [(''first'', 1), (''next'', 2)] = Inr r \<and> cr_valid r)"
proof -
  have "list_all (no_null_sig demo_codec) (map fst [(''first'', 1 :: nat), (''next'', 2)])" by code_simp
  moreover have "isChainIntact demo_codec None [''first'', ''next''] = Inr True" by code_simp
  ultimately show ?thesis
    using isChainIntact_agrees [of demo_codec "[(''first'', 1), (''next'', 2)]" None] by simp
qed

end
