(* ===== verification/GateForest.thy ===== *)
theory GateForest
  imports GateChain "HOL-Library.Product_Lexorder"
begin

text \<open>
  The gate manifest as a forest of chains: which files of \<^verbatim>\<open>manifest.d\<close> are segments
  (\<open>discoverSegments\<close> of \<^verbatim>\<open>packages/tickets/lib/manifest-primitives.mjs\<close>), fork anchors and their
  cycles (\<^verbatim>\<open>packages/gate-manifest/lib/forest.mjs\<close>), and the verification of the whole forest
  (\<open>verify\<close> of \<^verbatim>\<open>verify.mjs\<close>). A ledger file is its content; a missing file is the empty content.
\<close>

section \<open>Raw lines\<close>

definition readRawLines :: "string \<Rightarrow> (string \<times> nat) list" where
  "readRawLines content = filter (\<lambda>l. trim (fst l) \<noteq> []) (zip (split_on newline content) [1..<Suc (length (split_on newline content))])"

definition raw_lines :: "string \<Rightarrow> string list" where
  "raw_lines content = filter (\<lambda>l. trim l \<noteq> []) (split_on newline content)"

lemma readRawLines_fst: "map fst (readRawLines content) = raw_lines content"
proof -
  have "map fst (filter (\<lambda>l. P (fst l)) (zip xs ns)) = filter P xs" if "length xs = length ns"
    for P :: "string \<Rightarrow> bool" and xs and ns :: "nat list"
    using that by (induction rule: list_induct2) auto
  from this [of "split_on newline content" "[1..<Suc (length (split_on newline content))]" "\<lambda>l. trim l \<noteq> []"]
  show ?thesis by (simp add: readRawLines_def raw_lines_def del: upt_Suc)
qed

section \<open>Segment files\<close>

datatype node_kind = RegularFile | Symlink | Directory | OtherKind

text \<open>An object of the directory: its name, its kind, and whether a regular file of that name reads
  as a genuine advisory lock (\<open>looksLikeGenuineLedgerLock\<close>).\<close>

record dir_object =
  do_name :: string
  do_kind :: node_kind
  do_lock :: bool

definition slug_char :: "char \<Rightarrow> bool" where
  "slug_char c \<longleftrightarrow> c \<in> set ''abcdefghijklmnopqrstuvwxyz0123456789-''"

definition ULID_ALPHABET :: string where
  "ULID_ALPHABET = ''0123456789ABCDEFGHJKMNPQRSTVWXYZ''"

text \<open>\<open>SEGMENT_NAME_RE\<close>: a slug of 1 to 40 characters, a dash, 26 characters of the ULID alphabet and
  the extension.\<close>

definition segment_name :: "string \<Rightarrow> bool" where
  "segment_name s \<longleftrightarrow>
     ends_with s ''.jsonl'' \<and> 34 \<le> length s \<and> length s \<le> 73
     \<and> (let base = take (length s - 6) s; slug = take (length base - 27) base; rest = drop (length base - 27) base
        in list_all slug_char slug \<and> hd rest = CHR ''-'' \<and> list_all (\<lambda>c. c \<in> set ULID_ALPHABET) (tl rest))"

datatype reject = IsSymlink | NestedDirectory | NotRegular | NotALock | BadName | CaseCollision string

definition reserved_names :: "string list" where
  "reserved_names = [''.store.json'', ''.lineage'']"

definition discover_step ::
  "dir_object \<Rightarrow> string list \<times> (string \<times> reject) list \<Rightarrow> string list \<times> (string \<times> reject) list" where
  "discover_step ob st = (case st of (valid, invalid) \<Rightarrow>
     (let name = do_name ob; bad = (\<lambda>r. (valid, invalid @ [(name, r)]))
      in if name \<in> set reserved_names then st
         else case do_kind ob of
           Symlink \<Rightarrow> bad IsSymlink
         | Directory \<Rightarrow> bad NestedDirectory
         | OtherKind \<Rightarrow> bad NotRegular
         | RegularFile \<Rightarrow>
             if ends_with name ''.lock'' then (if do_lock ob then st else bad NotALock)
             else if \<not> segment_name name then bad BadName
             else (case find (\<lambda>v. to_lower v = to_lower name) valid of
                 Some v \<Rightarrow> bad (CaseCollision v)
               | None \<Rightarrow> (valid @ [name], invalid))))"

definition discoverSegments :: "dir_object list \<Rightarrow> string list \<times> (string \<times> reject) list" where
  "discoverSegments obs = fold discover_step (sort_key do_name obs) ([], [])"

definition ulidOf :: "string \<Rightarrow> string" where
  "ulidOf name = take 26 (drop (length name - 32) name)"

section \<open>Anchors\<close>

type_synonym chains = "(string \<times> (int \<times> string) list) list"

datatype anchor_fault =
    NullWithRoot | AnchorNotObject | BadAnchorSegment | BadAnchorSeq | BadAnchorHash
  | NoSuchSegment string | NoSuchSeq string int | HashMismatch string int

definition anchor_segment :: "jsval \<Rightarrow> string option" where
  "anchor_segment a = (case js_get ''segment'' a of VStr s \<Rightarrow> Some s | _ \<Rightarrow> None)"

text \<open>The last line of a chain with a given number; the numbers of a verified chain are distinct.\<close>

definition seqMap :: "codec \<Rightarrow> (string \<times> nat) list \<Rightarrow> (int \<times> string) list" where
  "seqMap cd lines = fold (\<lambda>l m. case parseJson cd (fst l) of
       None \<Rightarrow> m
     | Some e \<Rightarrow> (case int_value (js_get ''seq'' e) of None \<Rightarrow> m | Some s \<Rightarrow> AList.update s (fst l) m)) lines []"

definition resolveAnchor :: "codec \<Rightarrow> jsval \<Rightarrow> chains \<Rightarrow> bool \<Rightarrow> anchor_fault option" where
  "resolveAnchor cd anchor chainsBySeq rootExists =
     (if anchor = VNull then (if rootExists then Some NullWithRoot else None)
      else if \<not> is_plain_obj anchor then Some AnchorNotObject
      else case js_get ''segment'' anchor of
        VStr s \<Rightarrow>
          if s = [] then Some BadAnchorSegment
          else (case int_value (js_get ''seq'' anchor) of
              None \<Rightarrow> Some BadAnchorSeq
            | Some n \<Rightarrow>
                if n < 1 then Some BadAnchorSeq
                else (case js_get ''lineHash'' anchor of
                    VStr h \<Rightarrow>
                      if h = [] then Some BadAnchorHash
                      else (case map_of chainsBySeq s of
                          None \<Rightarrow> Some (NoSuchSegment s)
                        | Some target \<Rightarrow> (case map_of target n of
                              None \<Rightarrow> Some (NoSuchSeq s n)
                            | Some rawLine \<Rightarrow> if sha256 cd rawLine \<noteq> h then Some (HashMismatch s n) else None))
                  | _ \<Rightarrow> Some BadAnchorHash))
      | _ \<Rightarrow> Some BadAnchorSegment)"

section \<open>Cycles of anchors\<close>

text \<open>The anchor of each segment as the segment it leads to, \<open>None\<close> for a null anchor; a segment that
  is not a key (the root) ends a path.\<close>

type_synonym anchors = "(string \<times> string option) list"

datatype color = Visiting | Done

definition open_keys :: "anchors \<Rightarrow> (string \<rightharpoonup> color) \<Rightarrow> nat" where
  "open_keys an st = length (filter (\<lambda>k. st k = None) (map fst an))"

lemma open_keys_less:
  assumes "map_of an i = Some t" and "st i = None"
  shows "open_keys an (st(i \<mapsto> c)) < open_keys an st"
proof -
  let ?open = "filter (\<lambda>k. st k = None) (map fst an)"
  have "(i, t) \<in> set an" using assms(1) by (rule map_of_SomeD)
  then have "i \<in> set (map fst an)" by force
  then have i: "i \<in> set ?open" using assms(2) by simp
  have "filter (\<lambda>k. (st(i \<mapsto> c)) k = None) (map fst an) = filter (\<lambda>k. k \<noteq> i) ?open"
    unfolding filter_filter by (rule filter_cong) auto
  then have "open_keys an (st(i \<mapsto> c)) = length (filter (\<lambda>k. k \<noteq> i) ?open)" by (simp only: open_keys_def)
  also have "\<dots> < length ?open" using i by (rule length_filter_less) simp
  finally show ?thesis by (simp only: open_keys_def)
qed

text \<open>The inner loop: follow the anchors from \<open>current\<close>, marking the path.\<close>

function follow :: "anchors \<Rightarrow> (string \<rightharpoonup> color) \<Rightarrow> string list \<Rightarrow> string option \<Rightarrow> string + ((string \<rightharpoonup> color) \<times> string list)" where
  "follow an st path None = Inr (st, path)"
| "follow an st path (Some i) =
     (if st i = Some Visiting then Inl i
      else if st i = Some Done then Inr (st, path)
      else case map_of an i of
          None \<Rightarrow> Inr (st, path)
        | Some target \<Rightarrow> follow an (st(i \<mapsto> Visiting)) (path @ [i]) target)"
  by pat_completeness auto
termination
proof (relation "measure (\<lambda>(an, st, path, cur). open_keys an st)")
  fix an :: anchors and st :: "string \<rightharpoonup> color" and path :: "string list" and i :: string and target :: "string option"
  assume "st i \<noteq> Some Visiting" "st i \<noteq> Some Done" "map_of an i = Some target"
  then show "((an, st(i \<mapsto> Visiting), path @ [i], target), (an, st, path, Some i)) \<in> measure (\<lambda>(an, st, path, cur). open_keys an st)"
    using open_keys_less [of an i target st Visiting] by (cases "st i"; cases "the (st i)") auto
qed simp

definition cycle_step :: "anchors \<Rightarrow> string \<Rightarrow> (string \<rightharpoonup> color) \<Rightarrow> string + (string \<rightharpoonup> color)" where
  "cycle_step an start st =
     (if st start = Some Done then Inr st
      else bind_res (follow an st [] (Some start)) (\<lambda>(st', path).
        Inr (fold (\<lambda>i s. s(i \<mapsto> Done)) path st')))"

definition detectAnchorCycle :: "anchors \<Rightarrow> string option" where
  "detectAnchorCycle an = (case fold_res (cycle_step an) (map fst an) (\<lambda>_. None) of Inl i \<Rightarrow> Some i | Inr _ \<Rightarrow> None)"

section \<open>Verification of the forest\<close>

record forest =
  fo_root :: string \<comment> \<open>the root ledger\<close>
  fo_objects :: "dir_object list" \<comment> \<open>of \<open>manifest.d\<close>; empty when there is none, and one object \<open>.\<close> when it is no directory\<close>
  fo_content :: "string \<Rightarrow> string" \<comment> \<open>of a segment\<close>

datatype forest_fault =
    InvalidObject string reject
  | EmptyManifest
  | ChainBroken string "chain_break option"
  | BadAnchor string anchor_fault
  | AnchorCycle string

record forest_result =
  fr_valid :: bool
  fr_count :: nat
  fr_segments :: nat
  fr_signed :: bool
  fr_fault :: "forest_fault option"

definition forest_fail :: "nat \<Rightarrow> nat \<Rightarrow> forest_fault \<Rightarrow> forest_result" where
  "forest_fail count segs fault =
     \<lparr>fr_valid = False, fr_count = count, fr_segments = segs, fr_signed = False, fr_fault = Some fault\<rparr>"

record segment_walk =
  sw_chains :: chains
  sw_anchors :: "(string \<times> jsval) list"
  sw_total :: nat
  sw_signed :: bool

fun verify_segments ::
  "codec \<Rightarrow> string option \<Rightarrow> bool \<Rightarrow> forest \<Rightarrow> nat \<Rightarrow> string list \<Rightarrow> segment_walk
   \<Rightarrow> canonical_error + (forest_result + segment_walk)" where
  "verify_segments cd key requireSignatures f n [] w = Inr (Inr w)"
| "verify_segments cd key requireSignatures f n (name # rest) w =
     (let raw = readRawLines (fo_content f name)
      in bind_res (verifyChain cd key requireSignatures True raw) (\<lambda>r.
        if \<not> cr_valid r
        then Inr (Inl (forest_fail (sw_total w + cr_count r) n (ChainBroken name (cr_break r))))
        else verify_segments cd key requireSignatures f n rest
          \<lparr>sw_chains = sw_chains w @ [(name, seqMap cd raw)],
           sw_anchors = sw_anchors w @ [(name, case cr_firstAnchor r of None \<Rightarrow> VNull | Some a \<Rightarrow> a)],
           sw_total = sw_total w + cr_count r,
           sw_signed = (sw_signed w \<and> (cr_count r = 0 \<or> cr_signed r))\<rparr>))"

definition anchor_target :: "jsval \<Rightarrow> string option" where
  "anchor_target a = (if a = VNull then None else anchor_segment a)"

fun first_bad_anchor :: "codec \<Rightarrow> chains \<Rightarrow> bool \<Rightarrow> (string \<times> jsval) list \<Rightarrow> (string \<times> anchor_fault) option" where
  "first_bad_anchor cd chainsBySeq rootExists [] = None"
| "first_bad_anchor cd chainsBySeq rootExists ((name, a) # rest) = (case resolveAnchor cd a chainsBySeq rootExists of
      Some x \<Rightarrow> Some (name, x)
    | None \<Rightarrow> first_bad_anchor cd chainsBySeq rootExists rest)"

definition verify :: "codec \<Rightarrow> string option \<Rightarrow> bool \<Rightarrow> bool \<Rightarrow> forest \<Rightarrow> canonical_error + forest_result" where
  "verify cd key requireSignatures requireEntries f =
     (let rootRaw = readRawLines (fo_root f); names = fst (discoverSegments (fo_objects f)); n = length names
      in case snd (discoverSegments (fo_objects f)) of
           (name, r) # _ \<Rightarrow> Inr (forest_fail 0 n (InvalidObject name r))
         | [] \<Rightarrow>
             if names = [] \<and> requireEntries \<and> rootRaw = [] then Inr (forest_fail 0 0 EmptyManifest)
             else bind_res (verifyChain cd key requireSignatures False rootRaw) (\<lambda>root.
               if names = [] then
                 Inr \<lparr>fr_valid = cr_valid root, fr_count = cr_count root, fr_segments = 0, fr_signed = cr_signed root,
                      fr_fault = map_option (\<lambda>b. ChainBroken ''root'' (Some b)) (cr_break root)\<rparr>
               else if \<not> cr_valid root then Inr (forest_fail (cr_count root) n (ChainBroken ''root'' (cr_break root)))
               else bind_res (verify_segments cd key requireSignatures f n names
                     \<lparr>sw_chains = [(''root'', seqMap cd rootRaw)], sw_anchors = [], sw_total = cr_count root,
                      sw_signed = (cr_count root = 0 \<or> cr_signed root)\<rparr>) (\<lambda>res. case res of
                   Inl bad \<Rightarrow> Inr bad
                 | Inr w \<Rightarrow>
                     (case first_bad_anchor cd (sw_chains w) (cr_count root > 0) (sw_anchors w) of
                        Some (name, x) \<Rightarrow> Inr (forest_fail (sw_total w) n (BadAnchor name x))
                      | None \<Rightarrow>
                          (case detectAnchorCycle (map (\<lambda>(i, a). (i, anchor_target a)) (sw_anchors w)) of
                             Some i \<Rightarrow> Inr (forest_fail (sw_total w) n (AnchorCycle i))
                           | None \<Rightarrow> Inr \<lparr>fr_valid = True, fr_count = sw_total w, fr_segments = n,
                               fr_signed = sw_signed w, fr_fault = None\<rparr>)))))"

section \<open>The cycle check is exact\<close>

definition anchor_rel :: "anchors \<Rightarrow> (string \<times> string) set" where
  "anchor_rel an = {(i, j). map_of an i = Some (Some j) \<and> map_of an j \<noteq> None}"

definition done_keys :: "(string \<rightharpoonup> color) \<Rightarrow> string set" where
  "done_keys st = {i. st i = Some Done}"

text \<open>The path of the inner loop: a chain of anchors from the first to the last element.\<close>

fun anchor_path :: "anchors \<Rightarrow> string list \<Rightarrow> string option \<Rightarrow> bool" where
  "anchor_path an [] cur \<longleftrightarrow> True"
| "anchor_path an [i] cur \<longleftrightarrow> map_of an i = Some cur"
| "anchor_path an (i # j # p) cur \<longleftrightarrow> map_of an i = Some (Some j) \<and> anchor_path an (j # p) cur"

lemma anchor_path_snoc:
  "anchor_path an (p @ [i]) t \<longleftrightarrow> anchor_path an p (Some i) \<and> map_of an i = Some t"
  by (induction an p "Some i" rule: anchor_path.induct) auto

lemma anchor_path_keys: "anchor_path an p cur \<Longrightarrow> i \<in> set p \<Longrightarrow> map_of an i \<noteq> None"
  by (induction an p cur rule: anchor_path.induct) auto

lemma anchor_path_cycle:
  "anchor_path an p (Some i) \<Longrightarrow> j \<in> set p \<Longrightarrow> map_of an i \<noteq> None \<Longrightarrow> (j, i) \<in> (anchor_rel an)\<^sup>+"
proof (induction an p "Some i" arbitrary: j rule: anchor_path.induct)
  case (2 an k)
  then show ?case by (auto simp: anchor_rel_def)
next
  case (3 an k l p)
  have kl: "(k, l) \<in> anchor_rel an" using 3(2) anchor_path_keys [of an "l # p" "Some i" l] by (auto simp: anchor_rel_def)
  have li: "(v, i) \<in> (anchor_rel an)\<^sup>+" if "v \<in> set (l # p)" for v
    using 3(1) [OF _ that] 3(2,4) by simp
  have "(k, i) \<in> (anchor_rel an)\<^sup>+" using kl li [of l] by (simp add: trancl_into_trancl2)
  then show ?case using li 3(3) by auto
qed simp

definition follow_inv :: "anchors \<Rightarrow> (string \<rightharpoonup> color) \<Rightarrow> string list \<Rightarrow> string option \<Rightarrow> bool" where
  "follow_inv an st path cur \<longleftrightarrow>
     anchor_path an path cur \<and> {i. st i = Some Visiting} = set path \<and> distinct path
     \<and> finished_dag (anchor_rel an) (done_keys st) \<and> done_keys st \<subseteq> dom (map_of an)"

lemma follow_spec:
  "follow_inv an st path cur \<Longrightarrow>
    (case follow an st path cur of
       Inl i \<Rightarrow> (i, i) \<in> (anchor_rel an)\<^sup>+
     | Inr (st', path') \<Rightarrow> (\<exists>cur'. follow_inv an st' path' cur' \<and> (cur' = None \<or> the cur' \<in> done_keys st' \<or> map_of an (the cur') = None))
         \<and> done_keys st' = done_keys st \<and> set path \<subseteq> set path'
         \<and> (\<forall>i. cur = Some i \<longrightarrow> map_of an i \<noteq> None \<longrightarrow> i \<in> set path' \<union> done_keys st'))"
proof (induction an st path cur rule: follow.induct)
  case (1 an st path)
  then show ?case by auto
next
  case (2 an st path i)
  consider "st i = Some Visiting" | "st i = Some Done" | "st i = None" "map_of an i = None"
    | t where "st i = None" "map_of an i = Some t"
    by (metis color.exhaust not_Some_eq)
  then show ?case
  proof cases
    case 1
    then have "i \<in> set path" using 2(2) by (auto simp: follow_inv_def)
    then have "(i, i) \<in> (anchor_rel an)\<^sup>+"
      using anchor_path_cycle anchor_path_keys 2(2) unfolding follow_inv_def by blast
    then show ?thesis using 1 by simp
  next
    case 2
    then have "i \<in> done_keys st" by (simp add: done_keys_def)
    then show ?thesis using 2 \<open>follow_inv an st path (Some i)\<close> by (auto intro!: exI [where x = "Some i"])
  next
    case 3
    then show ?thesis using 2(2) by (auto intro!: exI [where x = "Some i"])
  next
    case (4 t)
    have "follow_inv an (st(i \<mapsto> Visiting)) (path @ [i]) t"
    proof -
      have "set path = {j. st j = Some Visiting}" using 2(2) by (simp add: follow_inv_def)
      then have "i \<notin> set path" using 4(1) by simp
      moreover have "done_keys (st(i \<mapsto> Visiting)) = done_keys st" using 4(1) by (auto simp: done_keys_def)
      moreover have "{j. (st(i \<mapsto> Visiting)) j = Some Visiting} = insert i {j. st j = Some Visiting}" by auto
      ultimately show ?thesis using 2(2) 4(2) unfolding follow_inv_def by (simp add: anchor_path_snoc)
    qed
    then have IH: "case follow an (st(i \<mapsto> Visiting)) (path @ [i]) t of
       Inl i \<Rightarrow> (i, i) \<in> (anchor_rel an)\<^sup>+
     | Inr (st', path') \<Rightarrow> (\<exists>cur'. follow_inv an st' path' cur' \<and> (cur' = None \<or> the cur' \<in> done_keys st' \<or> map_of an (the cur') = None))
         \<and> done_keys st' = done_keys (st(i \<mapsto> Visiting)) \<and> set (path @ [i]) \<subseteq> set path'
         \<and> (\<forall>j. t = Some j \<longrightarrow> map_of an j \<noteq> None \<longrightarrow> j \<in> set path' \<union> done_keys st')"
      using 2(1) [OF _ _ 4(2)] 4(1) by (simp del: follow.simps fun_upd_apply)
    have d: "done_keys (st(i \<mapsto> Visiting)) = done_keys st" using 4(1) by (auto simp: done_keys_def)
    have e: "follow an st path (Some i) = follow an (st(i \<mapsto> Visiting)) (path @ [i]) t" using 4 by simp
    show ?thesis
    proof (cases "follow an (st(i \<mapsto> Visiting)) (path @ [i]) t")
      case (Inl j)
      then show ?thesis using IH unfolding e by (simp del: follow.simps)
    next
      case (Inr r)
      obtain st' p where r: "r = (st', p)" by fastforce
      show ?thesis using IH unfolding e Inr r sum.case prod.case d by auto
    qed
  qed
qed

text \<open>Marking the path done keeps the finished nodes finished: the last node leads to one of them or
  out of the map, every other node to its successor on the path.\<close>

lemma path_finished:
  "anchor_path an p cur \<Longrightarrow> distinct p \<Longrightarrow> set p \<inter> B = {} \<Longrightarrow> finished_dag (anchor_rel an) B \<Longrightarrow>
    (\<And>j. cur = Some j \<Longrightarrow> j \<in> B \<or> map_of an j = None) \<Longrightarrow> finished_dag (anchor_rel an) (set p \<union> B)"
proof (induction an p cur rule: anchor_path.induct)
  case (2 an i cur)
  have "anchor_rel an `` {i} \<subseteq> B" using 2 by (auto simp: anchor_rel_def)
  then show ?case using finished_dag_insert [OF 2(4)] 2(3) by simp
next
  case (3 an i j p cur)
  have "finished_dag (anchor_rel an) (set (j # p) \<union> B)" using 3 by simp
  moreover have "anchor_rel an `` {i} \<subseteq> set (j # p) \<union> B" using 3(2) by (auto simp: anchor_rel_def)
  ultimately show ?case using finished_dag_insert [of "anchor_rel an" "set (j # p) \<union> B" i] 3(3,4) by auto
qed simp

lemma fold_done: "fold (\<lambda>i s. s(i \<mapsto> Done)) p st = (\<lambda>i. if i \<in> set p then Some Done else st i)"
  by (induction p arbitrary: st) auto

definition outer_inv :: "anchors \<Rightarrow> (string \<rightharpoonup> color) \<Rightarrow> bool" where
  "outer_inv an st \<longleftrightarrow> (\<forall>i. st i \<noteq> Some Visiting) \<and> finished_dag (anchor_rel an) (done_keys st) \<and> done_keys st \<subseteq> dom (map_of an)"

lemma cycle_step_spec:
  assumes "outer_inv an st" and "map_of an start \<noteq> None"
  shows "case cycle_step an start st of
      Inl i \<Rightarrow> (i, i) \<in> (anchor_rel an)\<^sup>+
    | Inr st' \<Rightarrow> outer_inv an st' \<and> start \<in> done_keys st' \<and> done_keys st \<subseteq> done_keys st'"
proof (cases "st start = Some Done")
  case True
  then show ?thesis using assms(1) by (simp add: cycle_step_def done_keys_def)
next
  case False
  have "follow_inv an st [] (Some start)" using assms(1) by (auto simp: follow_inv_def outer_inv_def)
  note spec = follow_spec [OF this]
  show ?thesis
  proof (cases "follow an st [] (Some start)")
    case (Inl i)
    then show ?thesis using spec False by (simp add: cycle_step_def del: follow.simps)
  next
    case (Inr r)
    obtain st' p where r: "r = (st', p)" by fastforce
    from spec obtain cur where inv: "follow_inv an st' p cur"
      and stop: "cur = None \<or> the cur \<in> done_keys st' \<or> map_of an (the cur) = None"
      and d: "done_keys st' = done_keys st" and s: "start \<in> set p \<union> done_keys st'"
      using assms(2) unfolding Inr r sum.case prod.case by blast
    have v: "set p = {i. st' i = Some Visiting}" using inv by (simp add: follow_inv_def)
    have fin: "finished_dag (anchor_rel an) (set p \<union> done_keys st')"
    proof (rule path_finished)
      show "anchor_path an p cur" "distinct p" "finished_dag (anchor_rel an) (done_keys st')"
        using inv by (simp_all add: follow_inv_def)
      show "set p \<inter> done_keys st' = {}" unfolding v by (auto simp: done_keys_def)
    qed (use stop in auto)
    let ?st = "fold (\<lambda>i s. s(i \<mapsto> Done)) p st'"
    have dk: "done_keys ?st = set p \<union> done_keys st'" by (auto simp: done_keys_def fold_done)
    have "?st i \<noteq> Some Visiting" for i
      using v by (auto simp: fold_done)
    moreover have "set p \<union> done_keys st' \<subseteq> dom (map_of an)"
      using inv anchor_path_keys by (fastforce simp: follow_inv_def)
    ultimately have "outer_inv an ?st" using fin by (simp add: outer_inv_def dk)
    then show ?thesis using False s d unfolding cycle_step_def Inr r by (simp add: dk del: follow.simps)
  qed
qed

lemma detectAnchorCycle_exact:
  "(detectAnchorCycle an = None \<longrightarrow> acyclic (anchor_rel an))
   \<and> (\<forall>i. detectAnchorCycle an = Some i \<longrightarrow> (i, i) \<in> (anchor_rel an)\<^sup>+)"
proof (cases "fold_res (cycle_step an) (map fst an) (\<lambda>_. None)")
  case (Inl i)
  have "\<exists>x\<in>set (map fst an). \<exists>u. outer_inv an u \<and> cycle_step an x u = Inl i"
  proof (rule fold_res_Inl [OF Inl])
    show "outer_inv an (\<lambda>_. None)" by (simp add: outer_inv_def done_keys_def)
    show "outer_inv an v" if "x \<in> set (map fst an)" "outer_inv an u" "cycle_step an x u = Inr v" for x u v
      using cycle_step_spec [OF that(2), of x] that(1,3) by (auto simp: map_of_eq_None_iff)
  qed
  then obtain x u where "map_of an x \<noteq> None" "outer_inv an u" "cycle_step an x u = Inl i"
    by (auto simp: map_of_eq_None_iff)
  then have "(i, i) \<in> (anchor_rel an)\<^sup>+" using cycle_step_spec [of an u x] by simp
  then show ?thesis using Inl by (simp add: detectAnchorCycle_def)
next
  case (Inr st)
  have "outer_inv an st \<and> (\<forall>x\<in>set (map fst an). x \<in> done_keys st)"
  proof (rule fold_res_each [OF Inr])
    show "outer_inv an (\<lambda>_. None)" by (simp add: outer_inv_def done_keys_def)
    show "outer_inv an v \<and> x \<in> done_keys v" if "x \<in> set (map fst an)" "outer_inv an u" "cycle_step an x u = Inr v" for x u v
      using cycle_step_spec [OF that(2), of x] that(1,3) by (auto simp: map_of_eq_None_iff)
    show "x \<in> done_keys v" if "y \<in> set (map fst an)" "outer_inv an u" "cycle_step an y u = Inr v" "x \<in> done_keys u" for x y u v
      using cycle_step_spec [OF that(2), of y] that(1,3,4) by (auto simp: map_of_eq_None_iff)
  qed
  then have fin: "finished_dag (anchor_rel an) (done_keys st)" and k: "dom (map_of an) \<subseteq> done_keys st"
    by (auto simp: outer_inv_def dom_map_of_conv_image_fst)
  have "anchor_rel an \<subseteq> dom (map_of an) \<times> dom (map_of an)" by (auto simp: anchor_rel_def)
  then have "anchor_rel an \<inter> done_keys st \<times> done_keys st = anchor_rel an" using k by auto
  then show ?thesis using fin Inr by (auto simp: finished_dag_def detectAnchorCycle_def)
qed

section \<open>What a verified forest is\<close>

definition names_ok :: "string list \<Rightarrow> bool" where
  "names_ok vs \<longleftrightarrow> (\<forall>v\<in>set vs. segment_name v) \<and> distinct (map to_lower vs)"

lemma names_ok_snoc:
  assumes "names_ok vs" and "segment_name n" and "find (\<lambda>v. to_lower v = to_lower n) vs = None"
  shows "names_ok (vs @ [n])"
proof -
  have "to_lower n \<notin> to_lower ` set vs" using assms(3) unfolding find_None_iff by (metis image_iff)
  then show ?thesis using assms(1,2) by (simp add: names_ok_def)
qed

lemma discover_step_cases:
  "fst (discover_step ob (vs, is)) = vs \<or>
   (fst (discover_step ob (vs, is)) = vs @ [do_name ob] \<and> segment_name (do_name ob)
      \<and> find (\<lambda>v. to_lower v = to_lower (do_name ob)) vs = None)"
proof (cases "do_name ob \<in> set reserved_names \<or> do_kind ob \<noteq> RegularFile \<or> ends_with (do_name ob) ''.lock''
    \<or> \<not> segment_name (do_name ob)")
  case True
  then show ?thesis by (cases "do_kind ob") (auto simp: discover_step_def Let_def)
next
  case False
  then show ?thesis
    by (cases "find (\<lambda>v. to_lower v = to_lower (do_name ob)) vs") (simp_all add: discover_step_def Let_def)
qed

lemma discover_step_ok: "names_ok (fst st) \<Longrightarrow> names_ok (fst (discover_step ob st))"
  using discover_step_cases [of ob "fst st" "snd st"] names_ok_snoc [of "fst st" "do_name ob"] by (metis prod.collapse)

lemma discoverSegments_ok: "names_ok (fst (discoverSegments obs))"
proof -
  have "names_ok (fst st) \<Longrightarrow> names_ok (fst (fold discover_step xs st))" for xs st
    by (induction xs arbitrary: st) (simp_all add: discover_step_ok)
  from this [of "([], [])"] show ?thesis unfolding discoverSegments_def by (simp add: names_ok_def)
qed

lemma segment_not_root: "segment_name s \<Longrightarrow> s \<noteq> ''root''"
  by (auto simp: segment_name_def)

lemma discoverSegments_names:
  "v \<in> set (fst (discoverSegments obs)) \<Longrightarrow> v \<noteq> ''root''" "distinct (fst (discoverSegments obs))"
  using discoverSegments_ok [of obs] segment_not_root by (auto simp: distinct_map names_ok_def)

definition forest_chain :: "forest \<Rightarrow> string \<Rightarrow> string list" where
  "forest_chain f s = raw_lines (if s = ''root'' then fo_root f else fo_content f s)"

definition segment_anchor :: "codec \<Rightarrow> forest \<Rightarrow> string \<Rightarrow> jsval" where
  "segment_anchor cd f s = (case parseJson cd (hd (forest_chain f s)) of None \<Rightarrow> VNull | Some e \<Rightarrow> js_get ''anchor'' e)"

definition anchor_holds :: "codec \<Rightarrow> forest \<Rightarrow> string list \<Rightarrow> jsval \<Rightarrow> bool" where
  "anchor_holds cd f names a \<longleftrightarrow>
     (if a = VNull then forest_chain f ''root'' = []
      else \<exists>s n. js_get ''segment'' a = VStr s \<and> js_get ''seq'' a = VNum (of_nat (Suc n))
        \<and> s \<in> insert ''root'' (set names) \<and> n < length (forest_chain f s)
        \<and> js_get ''lineHash'' a = VStr (sha256 cd (forest_chain f s ! n)))"

lemma chain_walk_result:
  assumes "length es = length ls"
  shows "chain_walk cd key rs aof n (walk_state key aof ls es) lines = Inr r \<Longrightarrow> cr_valid r \<Longrightarrow>
    \<exists>es'. list_all2 (\<lambda>l e. parseJson cd l = Some e) (map fst lines) es' \<and> cr_count r = n
      \<and> cr_firstAnchor r = wk_anchor (walk_state key aof (ls @ map fst lines) (es @ es'))"
  using assms
proof (induction lines arbitrary: ls es)
  case (Cons line rest)
  obtain l k where line: "line = (l, k)" by fastforce
  let ?w = "walk_state key aof ls es"
  obtain w where go: "check_entry cd key rs aof ?w (l, k) = Inr (Go w)"
    and w: "chain_walk cd key rs aof n w rest = Inr r"
  proof (cases "check_entry cd key rs aof ?w (l, k)")
    case (Inr step)
    show ?thesis
    proof (cases step)
      case (Stop r')
      then have "r' = r" using Cons.prems(1) Inr by (simp add: line)
      then show ?thesis using check_entry_Stop Inr Stop Cons.prems(2) by blast
    next
      case (Go w')
      then show ?thesis using that Cons.prems(1) Inr by (simp add: line)
    qed
  qed (use Cons.prems(1) line in simp)
  then obtain e where e: "parseJson cd l = Some e" "w = walk_state key aof (ls @ [l]) (es @ [e])"
    unfolding check_entry_Go [OF Cons.prems(3)] by blast
  have "length (es @ [e]) = length (ls @ [l])" using Cons.prems(3) by simp
  from Cons.IH [OF w [unfolded e(2)] Cons.prems(2) this]
  obtain es' where "list_all2 (\<lambda>l e. parseJson cd l = Some e) (map fst rest) es'" "cr_count r = n"
      "cr_firstAnchor r = wk_anchor (walk_state key aof ((ls @ [l]) @ map fst rest) ((es @ [e]) @ es'))"
    by blast
  then show ?case using e(1) line by (intro exI [where x = "e # es'"]) simp
qed auto

lemma verifyChain_result:
  assumes "verifyChain cd key rs True lines = Inr r" and "cr_valid r"
  shows "chain_ok cd key rs True (map fst lines) \<and> lines \<noteq> [] \<and> cr_count r = length lines
    \<and> cr_firstAnchor r = Some (js_get ''anchor'' (the (parseJson cd (hd (map fst lines)))))
    \<and> parseJson cd (hd (map fst lines)) \<noteq> None"
proof -
  have "\<exists>r. verifyChain cd key rs True lines = Inr r \<and> cr_valid r" using assms by (intro exI conjI)
  then have v: "lines \<noteq> []" "chain_ok cd key rs True (map fst lines)" unfolding verifyChain_valid by simp_all
  have "chain_walk cd key rs True (length lines) (walk_state key True [] []) lines = Inr r"
    using assms(1) v(1) by (simp add: verifyChain_def start_walk_state [of key True])
  from chain_walk_result [OF _ this assms(2)] obtain es' where
    es: "list_all2 (\<lambda>l e. parseJson cd l = Some e) (map fst lines) es'" "cr_count r = length lines"
      "cr_firstAnchor r = wk_anchor (walk_state key True (map fst lines) es')" unfolding append_Nil list.size by blast
  obtain line rest where lines: "lines = line # rest" using v(1) by (cases lines) simp
  then obtain e es'' where e: "es' = e # es''" "parseJson cd (fst line) = Some e" using es(1) by (auto simp: list_all2_Cons1)
  have "cr_firstAnchor r = Some (js_get ''anchor'' e)" using es(3) unfolding e walk_state_def by simp
  then show ?thesis using v es(2) e(2) by (simp add: lines)
qed

text \<open>One step of the walk over the segments.\<close>

definition add_segment :: "codec \<Rightarrow> forest \<Rightarrow> string \<Rightarrow> chain_result \<Rightarrow> segment_walk \<Rightarrow> segment_walk" where
  "add_segment cd f name r w =
     \<lparr>sw_chains = sw_chains w @ [(name, seqMap cd (readRawLines (fo_content f name)))],
      sw_anchors = sw_anchors w @ [(name, case cr_firstAnchor r of None \<Rightarrow> VNull | Some a \<Rightarrow> a)],
      sw_total = sw_total w + cr_count r,
      sw_signed = (sw_signed w \<and> (cr_count r = 0 \<or> cr_signed r))\<rparr>"

lemma verify_segments_Cons:
  assumes "verify_segments cd key rs f n (s # names) w = Inr (Inr w')"
  shows "\<exists>r. verifyChain cd key rs True (readRawLines (fo_content f s)) = Inr r \<and> cr_valid r
    \<and> verify_segments cd key rs f n names (add_segment cd f s r w) = Inr (Inr w')"
proof (cases "verifyChain cd key rs True (readRawLines (fo_content f s))")
  case (Inr r)
  then show ?thesis using assms by (cases "cr_valid r") (simp_all add: Let_def add_segment_def)
qed (use assms in \<open>simp add: Let_def\<close>)

lemma segment_result:
  assumes "verifyChain cd key rs True (readRawLines (fo_content f s)) = Inr r" "cr_valid r" "s \<noteq> ''root''"
  shows "forest_chain f s \<noteq> []" and "chain_ok cd key rs True (forest_chain f s)"
    and "cr_count r = length (forest_chain f s)"
    and "(case cr_firstAnchor r of None \<Rightarrow> VNull | Some a \<Rightarrow> a) = segment_anchor cd f s"
proof -
  note c = verifyChain_result [OF assms(1,2), unfolded readRawLines_fst]
  have fc: "forest_chain f s = raw_lines (fo_content f s)" using assms(3) by (simp add: forest_chain_def)
  have len: "length (forest_chain f s) = length (readRawLines (fo_content f s))"
    unfolding fc readRawLines_fst [symmetric] by simp
  show "forest_chain f s \<noteq> []" using c len by (metis length_0_conv)
  show "chain_ok cd key rs True (forest_chain f s)" using c fc by simp
  show "cr_count r = length (forest_chain f s)" using c len by simp
  show "(case cr_firstAnchor r of None \<Rightarrow> VNull | Some a \<Rightarrow> a) = segment_anchor cd f s"
    using c by (auto simp: segment_anchor_def fc)
qed

lemma verify_segments_ok:
  "verify_segments cd key rs f n names w = Inr (Inr w') \<Longrightarrow> ''root'' \<notin> set names \<Longrightarrow>
    (\<forall>s\<in>set names. forest_chain f s \<noteq> [] \<and> chain_ok cd key rs True (forest_chain f s))
    \<and> sw_chains w' = sw_chains w @ map (\<lambda>s. (s, seqMap cd (readRawLines (fo_content f s)))) names
    \<and> sw_anchors w' = sw_anchors w @ map (\<lambda>s. (s, segment_anchor cd f s)) names
    \<and> sw_total w' = sw_total w + sum_list (map (\<lambda>s. length (forest_chain f s)) names)"
proof (induction names arbitrary: w)
  case (Cons s names)
  obtain r where r: "verifyChain cd key rs True (readRawLines (fo_content f s)) = Inr r" "cr_valid r"
    and rest: "verify_segments cd key rs f n names (add_segment cd f s r w) = Inr (Inr w')"
    using verify_segments_Cons [OF Cons.prems(1)] by blast
  have s: "s \<noteq> ''root''" and nr: "''root'' \<notin> set names" using Cons.prems(2) by auto
  note seg = segment_result [OF r s]
  have IH: "\<forall>s\<in>set names. forest_chain f s \<noteq> [] \<and> chain_ok cd key rs True (forest_chain f s)"
    "sw_chains w' = sw_chains (add_segment cd f s r w) @ map (\<lambda>s. (s, seqMap cd (readRawLines (fo_content f s)))) names"
    "sw_anchors w' = sw_anchors (add_segment cd f s r w) @ map (\<lambda>s. (s, segment_anchor cd f s)) names"
    "sw_total w' = sw_total (add_segment cd f s r w) + sum_list (map (\<lambda>s. length (forest_chain f s)) names)"
    using Cons.IH [OF rest nr] by blast+
  show ?case
    using IH seg unfolding add_segment_def by simp
qed simp

lemma seqMap_chain:
  assumes "chain_ok cd key rs aof (map fst lines)"
  shows "map_of (seqMap cd lines) m = (if 1 \<le> m \<and> m \<le> int (length lines) then Some (fst (lines ! nat (m - 1))) else None)"
proof -
  have num: "\<exists>e. parseJson cd (fst (lines ! i)) = Some e \<and> js_get ''seq'' e = VNum (of_int (int (Suc i)))" if "i < length lines" for i
    using chain_ok_at [OF assms, of i] that by (auto simp: link_ok_def)
  have "map_of (seqMap cd ls) m = (if 1 \<le> m \<and> m \<le> int (length ls) then Some (fst (ls ! nat (m - 1))) else None)"
    if "\<forall>i<length ls. \<exists>e. parseJson cd (fst (ls ! i)) = Some e \<and> js_get ''seq'' e = VNum (of_int (int (Suc i)))" for ls
    using that
  proof (induction ls rule: rev_induct)
    case (snoc l ls)
    obtain e where e: "parseJson cd (fst l) = Some e" "js_get ''seq'' e = VNum (of_int (int (Suc (length ls))))"
      using snoc.prems [rule_format, of "length ls"] by auto
    then have iv: "int_value (js_get ''seq'' e) = Some (int (Suc (length ls)))" unfolding int_value_eq by (rule conjunct2 [OF conjI])
    have step: "seqMap cd (ls @ [l]) = AList.update (int (Suc (length ls))) (fst l) (seqMap cd ls)"
      using e(1) iv by (simp add: seqMap_def)
    have IH: "map_of (seqMap cd ls) m = (if 1 \<le> m \<and> m \<le> int (length ls) then Some (fst (ls ! nat (m - 1))) else None)"
      using snoc.IH snoc.prems by (auto simp: nth_append split: if_splits)
    consider "m = int (Suc (length ls))" | "m < 1 \<or> int (Suc (length ls)) < m" | "1 \<le> m" "m \<le> int (length ls)"
      by linarith
    then show ?case
    proof cases
      case 1
      then show ?thesis unfolding step update_conv' by simp
    next
      case 2
      then show ?thesis using IH unfolding step update_conv' by auto
    next
      case 3
      then have "nat (m - 1) < length ls" by linarith
      then show ?thesis using IH 3 unfolding step update_conv' by (simp add: nth_append)
    qed
  qed (simp add: seqMap_def)
  from this [of lines] num show ?thesis by blast
qed

lemma resolveAnchor_holds:
  assumes chs: "\<And>s. s \<in> insert ''root'' (set names) \<Longrightarrow>
      map_of ch s = Some (seqMap cd (readRawLines (if s = ''root'' then fo_root f else fo_content f s)))"
    and out: "\<And>s. s \<notin> insert ''root'' (set names) \<Longrightarrow> map_of ch s = None"
    and ok: "\<And>s. s \<in> insert ''root'' (set names) \<Longrightarrow> \<exists>aof. chain_ok cd key rs aof (forest_chain f s)"
    and r: "resolveAnchor cd a ch (forest_chain f ''root'' \<noteq> []) = None"
  shows "anchor_holds cd f names a"
proof (cases "a = VNull")
  case True
  then show ?thesis using r by (simp add: resolveAnchor_def anchor_holds_def split: if_splits)
next
  case False
  obtain s n h l target where s: "js_get ''segment'' a = VStr s" and n: "int_value (js_get ''seq'' a) = Some n" "1 \<le> n"
    and h: "js_get ''lineHash'' a = VStr h" and t: "map_of ch s = Some target" "map_of target n = Some l" "sha256 cd l = h"
    using r False by (auto simp: resolveAnchor_def split: if_splits jsval.splits option.splits)
  have sn: "s \<in> insert ''root'' (set names)" using out t(1) by (metis option.distinct(1))
  let ?c = "if s = ''root'' then fo_root f else fo_content f s"
  have target: "target = seqMap cd (readRawLines ?c)" using chs [OF sn] t(1) by simp
  have fc: "forest_chain f s = map fst (readRawLines ?c)" by (simp add: forest_chain_def readRawLines_fst)
  obtain aof where "chain_ok cd key rs aof (map fst (readRawLines ?c))" using ok [OF sn] unfolding fc by blast
  note m = seqMap_chain [OF this, of n]
  have b: "n \<le> int (length (readRawLines ?c))" and l: "l = fst (readRawLines ?c ! nat (n - 1))"
    using t(2) n(2) unfolding target m by (simp_all split: if_splits)
  have i: "nat (n - 1) < length (readRawLines ?c)" using b n(2) by linarith
  have "js_get ''seq'' a = VNum (of_nat (Suc (nat (n - 1))))"
    using n by (simp add: int_value_eq of_nat_nat)
  moreover have "nat (n - 1) < length (forest_chain f s)" using i fc by simp
  moreover have "forest_chain f s ! nat (n - 1) = l" using i unfolding fc l by simp
  ultimately show ?thesis using False s h t(3) sn unfolding anchor_holds_def by auto
qed

lemma first_bad_anchor_None:
  "first_bad_anchor cd ch re as = None \<longleftrightarrow> (\<forall>na\<in>set as. resolveAnchor cd (snd na) ch re = None)"
  by (induction as) (auto split: option.splits)

text \<open>The anchors between the segments of a forest.\<close>

definition forest_anchors :: "codec \<Rightarrow> forest \<Rightarrow> string list \<Rightarrow> anchors" where
  "forest_anchors cd f names = map (\<lambda>s. (s, anchor_target (segment_anchor cd f s))) names"

text \<open>What a verified forest promises: a valid root, valid and non-empty segments, anchors that hold,
  and no cycle of anchors.\<close>

definition forest_ok :: "codec \<Rightarrow> string option \<Rightarrow> bool \<Rightarrow> forest \<Rightarrow> bool" where
  "forest_ok cd key requireSignatures f \<longleftrightarrow>
     (let names = fst (discoverSegments (fo_objects f))
      in snd (discoverSegments (fo_objects f)) = []
       \<and> chain_ok cd key requireSignatures False (forest_chain f ''root'')
       \<and> (\<forall>s\<in>set names. forest_chain f s \<noteq> [] \<and> chain_ok cd key requireSignatures True (forest_chain f s)
            \<and> anchor_holds cd f names (segment_anchor cd f s))
       \<and> acyclic (anchor_rel (forest_anchors cd f names)))"

lemma root_chain_result:
  assumes "verifyChain cd key rs False (readRawLines c) = Inr r" and "cr_valid r"
  shows "chain_ok cd key rs False (raw_lines c)" and "cr_count r = length (raw_lines c)"
proof -
  let ?lines = "readRawLines c"
  have "\<exists>r. verifyChain cd key rs False ?lines = Inr r \<and> cr_valid r" using assms by (intro exI conjI)
  then show "chain_ok cd key rs False (raw_lines c)" unfolding verifyChain_valid readRawLines_fst by simp
  have len: "length (raw_lines c) = length ?lines" unfolding readRawLines_fst [symmetric] by simp
  show "cr_count r = length (raw_lines c)"
  proof (cases "?lines = []")
    case True
    then show ?thesis using assms(1) len by (auto simp: verifyChain_def)
  next
    case False
    have "chain_walk cd key rs False (length ?lines) (walk_state key False [] []) ?lines = Inr r"
      using assms(1) False by (simp add: verifyChain_def start_walk_state [of key False])
    from chain_walk_result [OF _ this assms(2)] show ?thesis using len by auto
  qed
qed

lemma verify_valid_cases:
  assumes "verify cd key rs re f = Inr r" and "fr_valid r"
  obtains root where "snd (discoverSegments (fo_objects f)) = []"
    "verifyChain cd key rs False (readRawLines (fo_root f)) = Inr root" "cr_valid root"
    "fst (discoverSegments (fo_objects f)) = []" "fr_count r = cr_count root"
  | root w where "snd (discoverSegments (fo_objects f)) = []"
    "verifyChain cd key rs False (readRawLines (fo_root f)) = Inr root" "cr_valid root"
    "verify_segments cd key rs f (length (fst (discoverSegments (fo_objects f)))) (fst (discoverSegments (fo_objects f)))
       \<lparr>sw_chains = [(''root'', seqMap cd (readRawLines (fo_root f)))], sw_anchors = [], sw_total = cr_count root,
        sw_signed = (cr_count root = 0 \<or> cr_signed root)\<rparr> = Inr (Inr w)"
    "first_bad_anchor cd (sw_chains w) (cr_count root > 0) (sw_anchors w) = None"
    "detectAnchorCycle (map (\<lambda>(i, a). (i, anchor_target a)) (sw_anchors w)) = None"
    "fr_count r = sw_total w"
proof (cases "snd (discoverSegments (fo_objects f))")
  case Nil
  let ?names = "fst (discoverSegments (fo_objects f))"
  obtain root where root: "verifyChain cd key rs False (readRawLines (fo_root f)) = Inr root"
    using assms Nil by (cases "verifyChain cd key rs False (readRawLines (fo_root f))")
      (auto simp: verify_def Let_def forest_fail_def split: if_splits)
  show ?thesis
  proof (cases "?names = []")
    case True
    have "cr_valid root \<and> fr_count r = cr_count root"
      using assms Nil root True by (auto simp: verify_def Let_def forest_fail_def split: if_splits)
    then show ?thesis using that(1) Nil root True by blast
  next
    case False
    have v: "cr_valid root" using assms Nil root False by (auto simp: verify_def Let_def forest_fail_def split: if_splits)
    let ?w0 = "\<lparr>sw_chains = [(''root'', seqMap cd (readRawLines (fo_root f)))], sw_anchors = [], sw_total = cr_count root,
        sw_signed = (cr_count root = 0 \<or> cr_signed root)\<rparr>"
    have e: "verify cd key rs re f = bind_res (verify_segments cd key rs f (length ?names) ?names ?w0) (\<lambda>res. case res of
                   Inl bad \<Rightarrow> Inr bad
                 | Inr w \<Rightarrow>
                     (case first_bad_anchor cd (sw_chains w) (cr_count root > 0) (sw_anchors w) of
                        Some (name, x) \<Rightarrow> Inr (forest_fail (sw_total w) (length ?names) (BadAnchor name x))
                      | None \<Rightarrow>
                          (case detectAnchorCycle (map (\<lambda>(i, a). (i, anchor_target a)) (sw_anchors w)) of
                             Some i \<Rightarrow> Inr (forest_fail (sw_total w) (length ?names) (AnchorCycle i))
                           | None \<Rightarrow> Inr \<lparr>fr_valid = True, fr_count = sw_total w, fr_segments = length ?names,
                               fr_signed = sw_signed w, fr_fault = None\<rparr>)))"
      using Nil root False v by (simp add: verify_def Let_def)
    have bad: "\<not> fr_valid b" if "verify_segments cd key rs f n names w = Inr (Inl b)" for n names w b
      using that
    proof (induction names arbitrary: w)
      case (Cons s names)
      show ?case
      proof (cases "verifyChain cd key rs True (readRawLines (fo_content f s))")
        case (Inr r)
        then show ?thesis using Cons by (cases "cr_valid r") (auto simp: Let_def forest_fail_def)
      qed (use Cons.prems in \<open>simp add: Let_def\<close>)
    qed simp
    obtain w where w: "verify_segments cd key rs f (length ?names) ?names ?w0 = Inr (Inr w)"
    proof (cases "verify_segments cd key rs f (length ?names) ?names ?w0")
      case (Inr x)
      show ?thesis
      proof (cases x)
        case (Inl b)
        have "r = b" using assms(1) unfolding e Inr Inl by simp
        then show ?thesis using bad [OF Inr [unfolded Inl]] assms(2) by simp
      qed (use that Inr in blast)
    qed (use assms(1) e in simp)
    have fb: "first_bad_anchor cd (sw_chains w) (cr_count root > 0) (sw_anchors w) = None"
      using assms unfolding e w by (auto simp: forest_fail_def split: option.splits)
    have dc: "detectAnchorCycle (map (\<lambda>(i, a). (i, anchor_target a)) (sw_anchors w)) = None"
      using assms unfolding e w by (auto simp: fb forest_fail_def split: option.splits)
    have "fr_count r = sw_total w" using assms(1) unfolding e w by (auto simp: fb dc)
    then show ?thesis using that(2) [OF Nil root v w fb dc] by blast
  qed
next
  case (Cons nr rest)
  then show ?thesis using assms by (cases nr) (auto simp: verify_def Let_def forest_fail_def)
qed

lemma verify_forest_ok:
  assumes "verify cd key rs re f = Inr r" and "fr_valid r"
  shows "forest_ok cd key rs f \<and> fr_count r = length (forest_chain f ''root'')
    + sum_list (map (\<lambda>s. length (forest_chain f s)) (fst (discoverSegments (fo_objects f))))"
  using assms
proof (cases rule: verify_valid_cases)
  case (1 root)
  have "forest_chain f ''root'' = raw_lines (fo_root f)" by (simp add: forest_chain_def)
  then show ?thesis
    using 1 root_chain_result [OF 1(2,3)] by (simp add: forest_ok_def forest_anchors_def anchor_rel_def acyclic_def)
next
  case (2 root w)
  let ?names = "fst (discoverSegments (fo_objects f))"
  have nr: "''root'' \<notin> set ?names" using discoverSegments_names(1) by blast
  note seg = verify_segments_ok [OF 2(4) nr]
  have fr: "forest_chain f ''root'' = raw_lines (fo_root f)" by (simp add: forest_chain_def)
  note root = root_chain_result [OF 2(2,3), folded fr]
  have rootn: "cr_count root > 0 \<longleftrightarrow> forest_chain f ''root'' \<noteq> []" using root(2) by simp
  have anchors: "map (\<lambda>(i, a). (i, anchor_target a)) (sw_anchors w) = forest_anchors cd f ?names"
    using seg by (simp add: forest_anchors_def)
  have ok: "\<exists>aof. chain_ok cd key rs aof (forest_chain f s)" if "s \<in> insert ''root'' (set ?names)" for s
    using that seg root(1) by blast
  have ch: "sw_chains w = map (\<lambda>s. (s, seqMap cd (readRawLines (if s = ''root'' then fo_root f else fo_content f s)))) (''root'' # ?names)"
    using seg nr by auto
  have hold: "anchor_holds cd f ?names (segment_anchor cd f s)" if "s \<in> set ?names" for s
  proof (rule resolveAnchor_holds [where ch = "sw_chains w"])
    show "map_of (sw_chains w) t = Some (seqMap cd (readRawLines (if t = ''root'' then fo_root f else fo_content f t)))"
      if "t \<in> insert ''root'' (set ?names)" for t
    proof -
      have "t \<in> set (''root'' # ?names)" using that by simp
      then show ?thesis unfolding ch map_of_map_restrict restrict_in [OF \<open>t \<in> set (''root'' # ?names)\<close>] by simp
    qed
    show "map_of (sw_chains w) t = None" if "t \<notin> insert ''root'' (set ?names)" for t
      using that unfolding ch map_of_eq_None_iff by auto
    show "\<exists>aof. chain_ok cd key rs aof (forest_chain f t)" if "t \<in> insert ''root'' (set ?names)" for t
      using ok that by blast
    have "(s, segment_anchor cd f s) \<in> set (sw_anchors w)" using seg that by auto
    then show "resolveAnchor cd (segment_anchor cd f s) (sw_chains w) (forest_chain f ''root'' \<noteq> []) = None"
      using 2(5) unfolding first_bad_anchor_None rootn by fastforce
  qed
  have "acyclic (anchor_rel (forest_anchors cd f ?names))"
    using 2(6) detectAnchorCycle_exact unfolding anchors by blast
  then show ?thesis using seg root hold 2(1,7) by (simp add: forest_ok_def)
qed

section \<open>Properties\<close>

text \<open>C29: A forest that \<open>verify\<close> accepts is sound: every object of the directory is a segment or an
  allowed file, the root and every segment are valid chains, no segment is empty, every fork anchor
  names an existing line by its number and its hash (a null anchor only when the root is empty), the
  anchors have no cycle, and the reported count is the number of all entries.\<close>

theorem verify_sound:
  assumes "verify cd key requireSignatures requireEntries f = Inr r" and "fr_valid r"
  shows "forest_ok cd key requireSignatures f \<and> fr_count r = length (forest_chain f ''root'')
    + sum_list (map (\<lambda>s. length (forest_chain f s)) (fst (discoverSegments (fo_objects f))))"
  by (rule verify_forest_ok [OF assms])

text \<open>A forest of one root entry and one segment of one entry anchored at it.\<close>

definition demo_seg :: string where
  "demo_seg = ''a-00000000000000000000000000.jsonl''"

definition demo_fork :: codec where
  "demo_fork = \<lparr>parseJson = map_of [(''one'', demo_entry 1 VNull []), (''two'', demo_entry 2 (VStr ''one'') []),
       (''fork'', demo_entry 1 VNull [(''anchor'',
          VObj [(''segment'', VStr ''root''), (''seq'', VNum 1), (''lineHash'', VStr ''one'')])])],
     stringifyJson = (\<lambda>_. []), sha256 = (\<lambda>s. s), hmac = (\<lambda>k b. [])\<rparr>"

definition demo_forest :: "string \<Rightarrow> forest" where
  "demo_forest c = \<lparr>fo_root = c,
     fo_objects = [\<lparr>do_name = demo_seg, do_kind = RegularFile, do_lock = False\<rparr>],
     fo_content = (\<lambda>_. ''fork'')\<rparr>"

definition two_lines :: string where
  "two_lines = ''one'' @ newline # ''two''"

lemma demo_verify:
  "verify demo_fork None False False (demo_forest ''one'') =
     Inr \<lparr>fr_valid = True, fr_count = 2, fr_segments = 1, fr_signed = False, fr_fault = None\<rparr>"
  "verify demo_fork None False False (demo_forest two_lines) =
     Inr \<lparr>fr_valid = True, fr_count = 3, fr_segments = 1, fr_signed = False, fr_fault = None\<rparr>"
  "discoverSegments (fo_objects (demo_forest c)) = ([demo_seg], [])"
  by code_simp+

theorem verify_sound_witness: "forest_ok demo_fork None False (demo_forest ''one'')"
  using verify_sound [OF demo_verify(1)] by simp

text \<open>A segment protects the ledger it was forked from: with a hash that has no collisions, two
  verified forests in which a segment starts with the same line, anchored at entry \<open>n + 1\<close> of the
  root, have the same first \<open>n + 1\<close> root entries, so history before a fork cannot be rewritten
  without touching the segment.\<close>

theorem fork_pins_root:
  assumes "inj (sha256 cd)"
    and "verify cd key rs re f = Inr r" "fr_valid r" and "verify cd key' rs' re' f' = Inr r'" "fr_valid r'"
    and "s \<in> set (fst (discoverSegments (fo_objects f)))" "s \<in> set (fst (discoverSegments (fo_objects f')))"
    and "hd (forest_chain f s) = hd (forest_chain f' s)"
    and "js_get ''segment'' (segment_anchor cd f s) = VStr ''root''"
    and "js_get ''seq'' (segment_anchor cd f s) = VNum (of_nat (Suc n))"
  shows "take (Suc n) (forest_chain f ''root'') = take (Suc n) (forest_chain f' ''root'')"
proof -
  let ?a = "segment_anchor cd f s"
  have ok: "forest_ok cd key rs f" "forest_ok cd key' rs' f'" using verify_forest_ok assms(2-5) by blast+
  have same: "segment_anchor cd f' s = ?a" using assms(8) by (simp add: segment_anchor_def)
  have "?a \<noteq> VNull" using assms(9) by (auto simp: js_get_def)
  then have at: "n < length (forest_chain g ''root'') \<and> js_get ''lineHash'' ?a = VStr (sha256 cd (forest_chain g ''root'' ! n))"
    if "anchor_holds cd g names ?a" for g names
    using that assms(9,10) by (auto simp: anchor_holds_def)
  have h: "anchor_holds cd f (fst (discoverSegments (fo_objects f))) ?a"
    "anchor_holds cd f' (fst (discoverSegments (fo_objects f'))) ?a"
    using ok assms(6,7) same unfolding forest_ok_def Let_def by metis+
  have eq: "forest_chain f ''root'' ! n = forest_chain f' ''root'' ! n"
    using at [OF h(1)] at [OF h(2)] assms(1) by (auto simp: inj_eq)
  show ?thesis
    by (rule conjunct2 [OF chain_line_pins [OF assms(1) _ _ _ _ eq]])
      (use ok at [OF h(1)] at [OF h(2)] in \<open>auto simp: forest_ok_def Let_def\<close>)
qed

theorem fork_pins_root_witness:
  "take 1 (forest_chain (demo_forest ''one'') ''root'') = take 1 (forest_chain (demo_forest two_lines) ''root'')"
proof -
  have a: "js_get ''segment'' (segment_anchor demo_fork (demo_forest ''one'') demo_seg) = VStr ''root''"
    "js_get ''seq'' (segment_anchor demo_fork (demo_forest ''one'') demo_seg) = VNum (of_nat (Suc 0))"
    "hd (forest_chain (demo_forest ''one'') demo_seg) = hd (forest_chain (demo_forest two_lines) demo_seg)"
    by code_simp+
  have "inj (sha256 demo_fork)" by (simp add: demo_fork_def inj_def)
  from fork_pins_root [OF this demo_verify(1) _ demo_verify(2) _ _ _ a(3) a(1) a(2)] show ?thesis
    by (simp add: demo_verify(3))
qed

end
