(* ===== verification/GateRecord.thy ===== *)
theory GateRecord
  imports GateForest
begin

text \<open>
  Writing the gate manifest: the ledger of \<^verbatim>\<open>packages/core/lib/ledger.mjs\<close> (\<open>parseLedger\<close>,
  \<open>appendEntries\<close>, the checks of a publishable finding) and the append of an entry to the root
  ledger, \<open>appendManifestEntry\<close> of \<^verbatim>\<open>packages/gate-manifest/lib/record.mjs\<close>. A ledger is its content;
  the lock that serialises the writers and the calls that flush a file are not part of this theory.
\<close>

section \<open>Ledgers\<close>

record ledger_state =
  le_entries :: "jsval list"
  le_skipped :: "nat list"
  le_rawLines :: "string list"
  le_lastRawLine :: "string option"

definition parseLedger :: "codec \<Rightarrow> string \<Rightarrow> ledger_state" where
  "parseLedger cd content =
     (let raw = readRawLines content
      in \<lparr>le_entries = List.map_filter (\<lambda>l. parseJson cd (fst l)) raw,
          le_skipped = map snd (filter (\<lambda>l. parseJson cd (fst l) = None) raw),
          le_rawLines = map fst raw,
          le_lastRawLine = (if raw = [] then None else Some (last (map fst raw)))\<rparr>)"

datatype finding_fault =
    FindingNotObject | FindingNoDesc | FindingSecret | FindingMultiline | FindingDescLong | FindingLong | FindingManyLines

datatype record_error =
    BadKey | PayloadNotObject | ReservedField string | ChainFrozen | MalformedLine nat | ManifestInvalid
  | SegmentsPresent nat | TailWithoutSeq | NotJson canonical_error | NotAFinding finding_fault
  | NotNew | NotOpen | KeyRequired | Unauthenticated string | CannotAuthenticate | NotConforming nat
  | FirstEntryOversized string | FirstEntryMalformed string | AmbiguousBranch "string list" | NotCommittable string
definition lift_json :: "canonical_error + 'a \<Rightarrow> record_error + 'a" where
  "lift_json r = (case r of Inl e \<Rightarrow> Inl (NotJson e) | Inr x \<Rightarrow> Inr x)"

lemma lift_json_Inr [simp]: "lift_json r = Inr x \<longleftrightarrow> r = Inr x"
  by (cases r) (simp_all add: lift_json_def)

definition json_line :: "codec \<Rightarrow> jsval \<Rightarrow> string" where
  "json_line cd e = stringifyJson cd e @ [newline]"

text \<open>\<open>appendEntries\<close> under its lock: the additions are made from the state of the ledger, each is
  checked before any byte is written (only the findings ledger has a check), and their lines follow
  the bytes that are there.\<close>

definition appendEntries ::
  "codec \<Rightarrow> (jsval \<Rightarrow> record_error + unit) \<Rightarrow> (ledger_state \<Rightarrow> record_error + jsval list) \<Rightarrow> string
   \<Rightarrow> record_error + (jsval list \<times> string)" where
  "appendEntries cd check factory content =
     bind_res (factory (parseLedger cd content)) (\<lambda>additions.
       if additions = [] then Inr ([], content)
       else bind_res (map_res check additions) (\<lambda>_. Inr (additions, content @ concat (map (json_line cd) additions))))"

section \<open>Publishable findings\<close>

fun countEntryNewlines :: "jsval \<Rightarrow> nat" where
  "countEntryNewlines (VStr s) = length (filter (\<lambda>c. c = CHR 0x0D \<or> c = newline) s)"
| "countEntryNewlines (VArr xs) = sum_list (map countEntryNewlines xs)"
| "countEntryNewlines (VObj kvs) = sum_list (map (\<lambda>kv. countEntryNewlines (snd kv)) kvs)"
| "countEntryNewlines v = 0"

definition MAX_FINDING_DESC :: nat where "MAX_FINDING_DESC = 600"
definition MAX_FINDING_ENTRY :: nat where "MAX_FINDING_ENTRY = 4000"
definition MAX_FINDING_LINES :: nat where "MAX_FINDING_LINES = 10"

text \<open>Whether a serialized entry matches a secret pattern or holds a token that looks random is the
  parameter \<open>looksSecret\<close>.\<close>

definition assertPublishableFinding :: "codec \<Rightarrow> (string \<Rightarrow> bool) \<Rightarrow> jsval \<Rightarrow> record_error + unit" where
  "assertPublishableFinding cd looksSecret entry =
     (if \<not> is_plain_obj entry then Inl (NotAFinding FindingNotObject)
      else case js_get ''desc'' entry of
        VStr desc \<Rightarrow>
          if trim desc = [] then Inl (NotAFinding FindingNoDesc)
          else let serialized = stringifyJson cd entry
          in if looksSecret serialized then Inl (NotAFinding FindingSecret)
          else if countEntryNewlines (VStr desc) \<noteq> 0 then Inl (NotAFinding FindingMultiline)
          else if length desc > MAX_FINDING_DESC then Inl (NotAFinding FindingDescLong)
          else if length serialized > MAX_FINDING_ENTRY then Inl (NotAFinding FindingLong)
          else if countEntryNewlines entry > MAX_FINDING_LINES then Inl (NotAFinding FindingManyLines)
          else Inr ()
      | _ \<Rightarrow> Inl (NotAFinding FindingNoDesc))"

section \<open>Building an entry\<close>

text \<open>Assignment to a property, and the spread \<open>{...base, ...extra}\<close>: a key that is there keeps its
  place.\<close>

definition js_put :: "string \<Rightarrow> jsval \<Rightarrow> jsval \<Rightarrow> jsval" where
  "js_put k v e = (case e of VObj kvs \<Rightarrow> VObj (AList.update k v kvs) | _ \<Rightarrow> e)"

definition js_spread :: "(string \<times> jsval) list \<Rightarrow> jsval \<Rightarrow> jsval" where
  "js_spread base extra = (case extra of
      VObj kvs \<Rightarrow> VObj (fold (\<lambda>kv. AList.update (fst kv) (snd kv)) kvs base)
    | _ \<Rightarrow> VObj base)"

definition or_else :: "jsval \<Rightarrow> jsval \<Rightarrow> jsval" where
  "or_else v d = (if nullish v then d else v)"

definition normalized_payload :: "string \<Rightarrow> jsval \<Rightarrow> jsval" where
  "normalized_payload now p =
     js_put ''files'' (or_else (js_get ''files'' p) (VObj []))
      (js_put ''ts'' (or_else (js_get ''ts'' p) (VStr now))
        (js_put ''gate'' (or_else (js_get ''gate'' p) (or_else (js_get ''type'' p) (VStr ''evidence''))) p))"

definition prev_link :: "codec \<Rightarrow> string option \<Rightarrow> jsval" where
  "prev_link cd lastLine = (case lastLine of None \<Rightarrow> VNull | Some l \<Rightarrow> VStr (sha256 cd l))"

definition sign_chained :: "codec \<Rightarrow> string option \<Rightarrow> bool \<Rightarrow> jsval \<Rightarrow> record_error + jsval" where
  "sign_chained cd key v2 e = (case key of
      None \<Rightarrow> Inr e
    | Some k \<Rightarrow>
        let e1 = if v2 then js_put ''sigVersion'' (VNum 2) e else e
        in bind_res (lift_json (signEntry cd k e1)) (\<lambda>s. Inr (js_put ''sig'' (VStr s) e1)))"

definition validateKeyParam :: "jsval \<Rightarrow> record_error + string option" where
  "validateKeyParam key = (case key of
      VNull \<Rightarrow> Inr None
    | VStr k \<Rightarrow> if k = [] then Inl BadKey else Inr (Some k)
    | _ \<Rightarrow> Inl BadKey)"

definition RESERVED_CHAIN_FIELDS :: "string list" where
  "RESERVED_CHAIN_FIELDS = [''seq'', ''prev'', ''sig'', ''sigVersion'', ''segment'', ''anchor'', ''branch'']"

definition check_payload :: "jsval \<Rightarrow> record_error + unit" where
  "check_payload p =
     (if \<not> is_plain_obj p then Inl PayloadNotObject
      else case find (\<lambda>k. js_has_own k p) RESERVED_CHAIN_FIELDS of
        Some k \<Rightarrow> Inl (ReservedField k)
      | None \<Rightarrow> Inr ())"

section \<open>Appending to the root ledger\<close>

definition hasActivationMarker :: "jsval \<Rightarrow> bool" where
  "hasActivationMarker marker \<longleftrightarrow>
     js_get ''format'' marker = VStr ''adlc-manifest-segments'' \<and> js_get ''version'' marker = VNum 1"

definition rootEndsInCutover :: "codec \<Rightarrow> string \<Rightarrow> bool" where
  "rootEndsInCutover cd content \<longleftrightarrow>
     raw_lines content \<noteq> []
     \<and> (case parseJson cd (last (raw_lines content)) of
          None \<Rightarrow> False
        | Some e \<Rightarrow> js_get ''gate'' e = VStr ''manifest-cutover'')"

definition isSegmentedRepo :: "codec \<Rightarrow> jsval \<Rightarrow> forest \<Rightarrow> bool" where
  "isSegmentedRepo cd marker f \<longleftrightarrow> hasActivationMarker marker \<or> rootEndsInCutover cd (fo_root f)"

text \<open>The number of the next entry; the last entry must have a positive one.\<close>

definition next_seq :: "jsval option \<Rightarrow> record_error + int" where
  "next_seq previous = (case previous of
      None \<Rightarrow> Inr 1
    | Some p \<Rightarrow> (case int_value (js_get ''seq'' p) of
          None \<Rightarrow> Inl TailWithoutSeq
        | Some s \<Rightarrow> if s < 1 then Inl TailWithoutSeq else Inr (s + 1)))"

definition js_truthy :: "jsval \<Rightarrow> bool" where
  "js_truthy v \<longleftrightarrow> v \<notin> {VUndefined, VNull, VBool False, VNum 0, VStr []}"

definition last_entry :: "jsval list \<Rightarrow> jsval option" where
  "last_entry es = (if es = [] \<or> \<not> js_truthy (last es) then None else Some (last es))"

text \<open>The checks on the ledger before an entry is made: those of the callback under the lock.\<close>

definition root_checks :: "codec \<Rightarrow> string option \<Rightarrow> jsval \<Rightarrow> forest \<Rightarrow> ledger_state \<Rightarrow> record_error + unit" where
  "root_checks cd key marker f st =
     (if isSegmentedRepo cd marker f then Inl ChainFrozen
      else case le_skipped st of
        n # _ \<Rightarrow> Inl (MalformedLine n)
      | [] \<Rightarrow>
          if le_rawLines st \<noteq> []
          then bind_res (lift_json (verify cd key False False f)) (\<lambda>r.
            if fr_valid r then Inr () else Inl ManifestInvalid)
          else if fst (discoverSegments (fo_objects f)) \<noteq> []
          then Inl (SegmentsPresent (length (fst (discoverSegments (fo_objects f)))))
          else Inr ())"

definition chained_entry :: "codec \<Rightarrow> string \<Rightarrow> jsval \<Rightarrow> int \<Rightarrow> string option \<Rightarrow> jsval" where
  "chained_entry cd now p s lastLine =
     js_put ''prev'' (prev_link cd lastLine) (js_spread [(''seq'', VNum (of_int s))] (normalized_payload now p))"

definition root_entry ::
  "codec \<Rightarrow> string \<Rightarrow> bool \<Rightarrow> string option \<Rightarrow> jsval \<Rightarrow> forest \<Rightarrow> jsval \<Rightarrow> ledger_state \<Rightarrow> record_error + jsval list" where
  "root_entry cd now v2 key marker f payload st =
     bind_res (root_checks cd key marker f st) (\<lambda>_.
       bind_res (next_seq (last_entry (le_entries st))) (\<lambda>s.
         bind_res (sign_chained cd key v2 (chained_entry cd now payload s (le_lastRawLine st))) (\<lambda>e. Inr [e])))"

text \<open>The entry that is appended and the content of the root afterwards. The forest is the one the
  writer sees once it holds the lock.\<close>

definition append_root ::
  "codec \<Rightarrow> string \<Rightarrow> bool \<Rightarrow> string option \<Rightarrow> jsval \<Rightarrow> forest \<Rightarrow> jsval \<Rightarrow> record_error + (jsval list \<times> string)" where
  "append_root cd now v2 key marker f payload =
     appendEntries cd (\<lambda>_. Inr ()) (root_entry cd now v2 key marker f payload) (fo_root f)"

section \<open>The next entry fits the chain\<close>

definition js_keys :: "jsval \<Rightarrow> string set" where
  "js_keys v = (case v of VObj kvs \<Rightarrow> fst ` set kvs | _ \<Rightarrow> {})"

lemma js_has_own_keys: "js_has_own k v \<longleftrightarrow> k \<in> js_keys v"
  by (cases v) (simp_all add: js_has_own_def js_keys_def)

lemma put_simps [simp]:
  "is_plain_obj (js_put k v e) = is_plain_obj e"
  "is_plain_obj e \<Longrightarrow> js_get k' (js_put k v e) = (if k' = k then v else js_get k' e)"
  "is_plain_obj e \<Longrightarrow> js_keys (js_put k v e) = insert k (js_keys e)"
  by (cases e; simp add: js_put_def is_plain_obj_def js_get_def js_keys_def)+

lemma fold_update_keys:
  "fst ` set (fold (\<lambda>kv. AList.update (fst kv) (snd kv)) kvs base) = fst ` set base \<union> fst ` set kvs"
  by (induction kvs arbitrary: base) auto

lemma fold_update_get:
  "k \<notin> fst ` set kvs \<Longrightarrow> map_of (fold (\<lambda>kv. AList.update (fst kv) (snd kv)) kvs base) k = map_of base k"
  by (induction kvs arbitrary: base) auto

lemma spread_simps [simp]:
  "is_plain_obj (js_spread base e)"
  "js_keys (js_spread base e) = fst ` set base \<union> js_keys e"
  by (cases e; simp add: js_spread_def is_plain_obj_def js_keys_def fold_update_keys)+

lemma spread_get: "k \<notin> js_keys e \<Longrightarrow> js_get k (js_spread base e) = js_get k (VObj base)"
  by (cases e) (simp_all add: js_spread_def js_keys_def js_get_def fold_update_get)

lemma normalized_keys: "is_plain_obj p \<Longrightarrow> js_keys (normalized_payload now p) = js_keys p \<union> {''gate'', ''ts'', ''files''}"
  by (auto simp: normalized_payload_def)

lemma check_payload_Inr:
  "check_payload p = Inr u \<longleftrightarrow> is_plain_obj p \<and> js_keys p \<inter> set RESERVED_CHAIN_FIELDS = {}"
proof (cases "find (\<lambda>k. js_has_own k p) RESERVED_CHAIN_FIELDS")
  case None
  then have "js_keys p \<inter> set RESERVED_CHAIN_FIELDS = {}" by (auto simp: find_None_iff js_has_own_keys)
  then show ?thesis using None by (simp add: check_payload_def)
next
  case (Some k)
  then have "k \<in> set RESERVED_CHAIN_FIELDS" "k \<in> js_keys p" by (auto simp: find_Some_iff js_has_own_keys)
  then show ?thesis using Some by (auto simp: check_payload_def)
qed

lemma chained_entry_ok:
  assumes "check_payload p = Inr ()"
  shows "is_plain_obj (chained_entry cd now p s l)" "js_get ''seq'' (chained_entry cd now p s l) = VNum (of_int s)"
    "js_get ''prev'' (chained_entry cd now p s l) = prev_link cd l" "js_get ''sig'' (chained_entry cd now p s l) = VUndefined"
    "js_keys (chained_entry cd now p s l) \<inter> {''sig'', ''sigVersion'', ''segment'', ''anchor'', ''branch''} = {}"
proof -
  have p: "is_plain_obj p" "js_keys p \<inter> set RESERVED_CHAIN_FIELDS = {}" using assms by (simp_all add: check_payload_Inr)
  have nk: "js_keys (normalized_payload now p) \<inter> set RESERVED_CHAIN_FIELDS = {}"
    using p by (auto simp: normalized_keys RESERVED_CHAIN_FIELDS_def)
  show "is_plain_obj (chained_entry cd now p s l)" by (simp add: chained_entry_def)
  show "js_get ''seq'' (chained_entry cd now p s l) = VNum (of_int s)"
    using nk by (auto simp: chained_entry_def spread_get RESERVED_CHAIN_FIELDS_def) (simp add: js_get_def)
  show "js_get ''prev'' (chained_entry cd now p s l) = prev_link cd l" by (simp add: chained_entry_def)
  show "js_get ''sig'' (chained_entry cd now p s l) = VUndefined"
    using nk by (auto simp: chained_entry_def spread_get RESERVED_CHAIN_FIELDS_def) (simp add: js_get_def)
  show "js_keys (chained_entry cd now p s l) \<inter> {''sig'', ''sigVersion'', ''segment'', ''anchor'', ''branch''} = {}"
    using nk by (auto simp: chained_entry_def RESERVED_CHAIN_FIELDS_def)
qed

text \<open>The signed bytes do not depend on the signature.\<close>

lemma filter_update: "k \<in> K \<Longrightarrow> filter (\<lambda>kv. fst kv \<notin> K) (AList.update k v kvs) = filter (\<lambda>kv. fst kv \<notin> K) kvs"
  by (induction kvs) auto

lemma canonicalEntryBytes_sig:
  assumes "is_plain_obj e"
  shows "canonicalEntryBytes cd (js_put ''sig'' s e) = canonicalEntryBytes cd e"
proof -
  obtain kvs where e: "e = VObj kvs" using assms by (cases e) (auto simp: is_plain_obj_def)
  have "without_keys [''sig'', ''segment''] (js_put ''sig'' s e) = without_keys [''sig'', ''segment''] e"
    using filter_update [of "''sig''" "{''sig'', ''segment''}" s kvs] by (simp add: without_keys_def e js_put_def)
  then show ?thesis using assms by (simp add: canonicalEntryBytes_def optional_field_def)
qed

lemma sign_chained_ok:
  assumes "sign_chained cd key v2 e = Inr e'" and "is_plain_obj e" and "\<And>b. hmac cd k b \<noteq> []" and "js_get ''sig'' e = VUndefined"
    and "key = None \<or> key = Some k"
  shows "is_plain_obj e'" and "js_get ''seq'' e' = js_get ''seq'' e" and "js_get ''prev'' e' = js_get ''prev'' e"
    and "js_has_own ''anchor'' e' = js_has_own ''anchor'' e" and "js_get ''anchor'' e' = js_get ''anchor'' e"
    and "sig_ok cd key rs es e'"
proof -
  let ?e1 = "if v2 then js_put ''sigVersion'' (VNum 2) e else e"
  have e1: "is_plain_obj ?e1" using assms(2) by simp
  have cases: "(key = None \<and> e' = e) \<or> (\<exists>s. key = Some k \<and> signEntry cd k ?e1 = Inr s \<and> e' = js_put ''sig'' (VStr s) ?e1)"
    using assms(1,5) by (auto simp: sign_chained_def Let_def bind_res_eq_Inr)
  then show "is_plain_obj e'" "js_get ''seq'' e' = js_get ''seq'' e" "js_get ''prev'' e' = js_get ''prev'' e"
      "js_has_own ''anchor'' e' = js_has_own ''anchor'' e" "js_get ''anchor'' e' = js_get ''anchor'' e"
    using assms(2) e1 by (auto simp: js_has_own_keys split: if_splits)
  show "sig_ok cd key rs es e'" using cases
  proof
    assume "\<exists>s. key = Some k \<and> signEntry cd k ?e1 = Inr s \<and> e' = js_put ''sig'' (VStr s) ?e1"
    then obtain s where s: "key = Some k" "signEntry cd k ?e1 = Inr s" "e' = js_put ''sig'' (VStr s) ?e1" by blast
    have "s \<noteq> []" using s(2) assms(3) by (auto simp: signEntry_def bind_res_eq_Inr)
    moreover have "signEntry cd k e' = Inr s"
      using s(2) canonicalEntryBytes_sig [OF e1] by (simp add: signEntry_def s(3))
    moreover have "js_get ''sig'' e' = VStr s" using e1 by (simp add: s(3))
    ultimately have "verifyEntrySig cd k e' = Inr True" "has_sig e'"
      by (simp_all add: verifyEntrySig_def has_sig_def nullish_def)
    then show ?thesis by (simp add: sig_ok_def s(1))
  qed (simp add: sig_ok_def)
qed

section \<open>Appending a line\<close>

lemma split_on_sep: "split_on c (a @ c # b) = split_on c a @ split_on c b"
  by (induction a) (auto simp: Let_def split: list.splits)

lemma trim_Nil: "trim [] = []"
  by (simp add: trim_def)

definition ends_line :: "string \<Rightarrow> bool" where
  "ends_line content \<longleftrightarrow> content = [] \<or> (\<exists>c. content = c @ [newline])"

definition clean_line :: "string \<Rightarrow> bool" where
  "clean_line l \<longleftrightarrow> newline \<notin> set l \<and> trim l \<noteq> []"

lemma raw_lines_append:
  assumes "ends_line content" and "clean_line l"
  shows "raw_lines (content @ l @ [newline]) = raw_lines content @ [l]" and "ends_line (content @ l @ [newline])"
proof -
  have l: "split_on newline (l @ [newline]) = [l, []]"
    using assms(2) split_on_append [of newline l "[]"] by (simp add: clean_line_def)
  show "raw_lines (content @ l @ [newline]) = raw_lines content @ [l]"
  proof (cases "content = []")
    case True
    then show ?thesis using l assms(2) by (simp add: raw_lines_def trim_Nil clean_line_def)
  next
    case False
    then obtain c where c: "content = c @ [newline]" using assms(1) by (auto simp: ends_line_def)
    have "split_on newline content = split_on newline c @ [[]]"
      unfolding c using split_on_sep [of newline c "[]"] by simp
    moreover have "split_on newline (content @ l @ [newline]) = split_on newline c @ [l, []]"
      unfolding c using split_on_sep [of newline c "l @ [newline]"] l by simp
    ultimately show ?thesis using assms(2) by (simp add: raw_lines_def trim_Nil clean_line_def)
  qed
  show "ends_line (content @ l @ [newline])" by (auto simp: ends_line_def)
qed

lemma chain_ok_snoc:
  assumes "chain_ok cd key rs aof ls" and "parseJson cd l = Some e"
    and "link_ok cd aof (ls @ [l]) (length ls) e" and "\<And>es. chain_entries cd ls = Some es \<Longrightarrow> sig_ok cd key rs es e"
  shows "chain_ok cd key rs aof (ls @ [l])"
proof -
  obtain es where es: "chain_entries cd ls = Some es"
    and ok: "\<forall>i<length ls. link_ok cd aof ls i (es ! i) \<and> sig_ok cd key rs (take i es) (es ! i)"
    using assms(1) by (auto simp: chain_ok_def split: option.splits)
  have len: "length es = length ls" using es by (auto simp: chain_entries_Some dest: list_all2_lengthD)
  have "chain_entries cd (ls @ [l]) = Some (es @ [e])"
    using es assms(2) unfolding chain_entries_Some by (simp add: list_all2_appendI)
  moreover have "link_ok cd aof (ls @ [l]) i ((es @ [e]) ! i) \<and> sig_ok cd key rs (take i (es @ [e])) ((es @ [e]) ! i)"
    if "i < Suc (length ls)" for i
  proof (cases "i < length ls")
    case True
    then show ?thesis using ok link_ok_prefix [OF True, of cd aof "[l]"] len by (simp add: nth_append)
  next
    case False
    then have i: "i = length es" using that len by simp
    have "link_ok cd aof (ls @ [l]) i e" using assms(3) unfolding i len .
    moreover have "sig_ok cd key rs es e" by (rule assms(4) [OF es])
    moreover have "(es @ [e]) ! i = e" "take i (es @ [e]) = es" unfolding i by simp_all
    ultimately show ?thesis by simp
  qed
  ultimately show ?thesis by (simp add: chain_ok_def)
qed

text \<open>What the state under the lock says of a valid chain.\<close>

lemma parseLedger_chain:
  assumes "chain_ok cd key rs aof (raw_lines content)"
  shows "chain_entries cd (raw_lines content) = Some (le_entries (parseLedger cd content))"
    and "next_seq (last_entry (le_entries (parseLedger cd content))) = Inr (int (length (raw_lines content)) + 1)"
    and "le_lastRawLine (parseLedger cd content) = (if raw_lines content = [] then None else Some (last (raw_lines content)))"
    and "le_rawLines (parseLedger cd content) = raw_lines content" and "le_skipped (parseLedger cd content) = []"
proof -
  let ?raw = "readRawLines content" and ?ls = "raw_lines content" and ?st = "parseLedger cd content"
  have raw: "map fst ?raw = ?ls" by (rule readRawLines_fst)
  obtain es where es: "chain_entries cd ?ls = Some es"
    and ok: "\<forall>i<length ?ls. link_ok cd aof ?ls i (es ! i)"
    using assms by (auto simp: chain_ok_def split: option.splits)
  have all: "list_all2 (\<lambda>l e. parseJson cd l = Some e) ?ls es" using es by (simp add: chain_entries_Some)
  have "List.map_filter (\<lambda>l. parseJson cd (fst l)) raw = es \<and> filter (\<lambda>l. parseJson cd (fst l) = None) raw = []"
    if "list_all2 (\<lambda>l e. parseJson cd l = Some e) (map fst raw) es" for raw :: "(string \<times> nat) list" and es
    using that by (induction raw arbitrary: es) (auto simp: list_all2_Cons1 map_filter_simps)
  from this [OF all [folded raw]] have ent: "le_entries ?st = es" and "le_skipped ?st = []"
    by (simp_all add: parseLedger_def Let_def)
  then show "chain_entries cd ?ls = Some (le_entries ?st)" "le_skipped ?st = []" using es by simp_all
  show "le_rawLines ?st = ?ls" using raw by (simp add: parseLedger_def Let_def)
  show "le_lastRawLine ?st = (if ?ls = [] then None else Some (last ?ls))"
    unfolding raw [symmetric] by (simp add: parseLedger_def Let_def)
  have len: "length es = length ?ls" using all by (auto dest: list_all2_lengthD)
  show "next_seq (last_entry (le_entries ?st)) = Inr (int (length ?ls) + 1)"
  proof (cases "es = []")
    case True
    then show ?thesis using len by (simp add: ent last_entry_def next_seq_def)
  next
    case False
    then have n: "length ?ls = Suc (length es - 1)" using len by (metis One_nat_def Suc_pred length_greater_0_conv)
    have "link_ok cd aof ?ls (length es - 1) (last es)" using ok [rule_format, of "length es - 1"] False n by (simp add: last_conv_nth)
    then have o: "is_plain_obj (last es)" "js_get ''seq'' (last es) = VNum (of_int (int (length ?ls)))"
      unfolding n by (simp_all add: link_ok_def)
    then have iv: "int_value (js_get ''seq'' (last es)) = Some (int (length ?ls))" by (simp only: int_value_eq)
    have "js_truthy (last es)" using o(1) by (auto simp: js_truthy_def is_plain_obj_def)
    then show ?thesis using False iv n by (simp add: ent last_entry_def next_seq_def)
  qed
qed

text \<open>An entry that reads back: its text is one line and parses to it.\<close>

definition reads_back :: "codec \<Rightarrow> jsval \<Rightarrow> bool" where
  "reads_back cd e \<longleftrightarrow> clean_line (stringifyJson cd e) \<and> parseJson cd (stringifyJson cd e) = Some e"

lemma append_root_Inr:
  assumes "append_root cd now v2 key marker f payload = Inr (es, content)"
  obtains e s where "es = [e]" "content = fo_root f @ json_line cd e"
    "root_checks cd key marker f (parseLedger cd (fo_root f)) = Inr ()"
    "next_seq (last_entry (le_entries (parseLedger cd (fo_root f)))) = Inr s"
    "sign_chained cd key v2 (chained_entry cd now payload s (le_lastRawLine (parseLedger cd (fo_root f)))) = Inr e"
proof -
  have ok: "map_res (\<lambda>_. Inr () :: record_error + unit) xs = Inr (replicate (length xs) ())" for xs :: "jsval list"
    by (induction xs) auto
  show ?thesis
    using assms that unfolding append_root_def appendEntries_def root_entry_def ok
    by (auto simp: bind_res_eq_Inr)
qed

lemma root_checks_Inr:
  assumes "root_checks cd key marker f (parseLedger cd (fo_root f)) = Inr ()"
  shows "\<not> isSegmentedRepo cd marker f"
    and "raw_lines (fo_root f) = [] \<Longrightarrow> fst (discoverSegments (fo_objects f)) = []"
    and "chain_ok cd key False False (raw_lines (fo_root f))"
proof -
  have raw: "le_rawLines (parseLedger cd (fo_root f)) = raw_lines (fo_root f)"
    by (simp add: parseLedger_def Let_def readRawLines_fst)
  show "\<not> isSegmentedRepo cd marker f" using assms by (simp add: root_checks_def split: if_splits)
  show "raw_lines (fo_root f) = [] \<Longrightarrow> fst (discoverSegments (fo_objects f)) = []"
    using assms raw by (simp add: root_checks_def split: if_splits list.splits)
  show "chain_ok cd key False False (raw_lines (fo_root f))"
  proof (cases "raw_lines (fo_root f) = []")
    case True
    then show ?thesis by (simp add: chain_ok_def chain_entries_def)
  next
    case False
    then obtain r where "verify cd key False False f = Inr r" "fr_valid r"
      using assms raw by (auto simp: root_checks_def bind_res_eq_Inr split: if_splits list.splits)
    then have "forest_ok cd key False f" using verify_forest_ok by blast
    then show ?thesis by (simp add: forest_ok_def Let_def forest_chain_def)
  qed
qed

lemma next_entry_links:
  assumes "check_payload p = Inr ()" and "sign_chained cd key v2 (chained_entry cd now p (int (length ls) + 1)
      (if ls = [] then None else Some (last ls))) = Inr e" and "\<And>k b. hmac cd k b \<noteq> []"
  shows "link_ok cd False (ls @ [l]) (length ls) e" and "sig_ok cd key rs es e"
proof -
  let ?c = "chained_entry cd now p (int (length ls) + 1) (if ls = [] then None else Some (last ls))"
  note c = chained_entry_ok [OF assms(1), of cd now "int (length ls) + 1" "if ls = [] then None else Some (last ls)"]
  obtain k where k: "key = None \<or> key = Some k" by (cases key) auto
  note s = sign_chained_ok [OF assms(2) c(1) assms(3) c(4) k]
  show "sig_ok cd key rs es e" by (rule s(6))
  have "js_get ''seq'' e = VNum (of_nat (Suc (length ls)))" unfolding s(2) c(2) by simp
  moreover have "js_get ''prev'' e = (if ls = [] then VNull else VStr (sha256 cd (last ls)))"
    unfolding s(3) c(3) by (simp add: prev_link_def)
  moreover have "\<not> js_has_own ''anchor'' e" unfolding s(4) using c(5) by (auto simp: js_has_own_keys)
  ultimately show "link_ok cd False (ls @ [l]) (length ls) e"
    using s(1) by (auto simp: link_ok_def nth_append last_conv_nth)
qed

lemma append_root_chain:
  assumes "append_root cd now v2 key marker f payload = Inr (es, content)" and "check_payload payload = Inr ()"
    and "\<And>k b. hmac cd k b \<noteq> []" and "\<And>e. es = [e] \<Longrightarrow> reads_back cd e" and "ends_line (fo_root f)"
    and "chain_ok cd key rs False (raw_lines (fo_root f))"
  shows "\<exists>l. raw_lines content = raw_lines (fo_root f) @ [l] \<and> chain_ok cd key rs False (raw_lines content) \<and> ends_line content"
proof -
  let ?ls = "raw_lines (fo_root f)"
  from assms(1) obtain e s where e: "es = [e]" "content = fo_root f @ json_line cd e"
      "root_checks cd key marker f (parseLedger cd (fo_root f)) = Inr ()"
      "next_seq (last_entry (le_entries (parseLedger cd (fo_root f)))) = Inr s"
      "sign_chained cd key v2 (chained_entry cd now payload s (le_lastRawLine (parseLedger cd (fo_root f)))) = Inr e"
    by (rule append_root_Inr)
  note p = parseLedger_chain [OF assms(6)]
  have s: "s = int (length ?ls) + 1" using e(4) p(2) by simp
  have rb: "clean_line (stringifyJson cd e)" "parseJson cd (stringifyJson cd e) = Some e"
    using assms(4) [OF e(1)] by (simp_all add: reads_back_def)
  have c: "raw_lines content = ?ls @ [stringifyJson cd e]" "ends_line content"
    using raw_lines_append [OF assms(5) rb(1)] by (simp_all add: e(2) json_line_def)
  note n = next_entry_links [OF assms(2) e(5) [unfolded p(3) s] assms(3)]
  have "chain_ok cd key rs False (?ls @ [stringifyJson cd e])"
    by (rule chain_ok_snoc [OF assms(6) rb(2)]) (use n in blast)+
  then show ?thesis using c by simp
qed

section \<open>A ledger that is only appended to\<close>

text \<open>The contract of a writer: a step keeps the ledger acceptable and only adds lines at its end.\<close>

locale append_log =
  fixes acceptable :: "'c \<Rightarrow> bool" and rows :: "'c \<Rightarrow> string list" and step :: "'c \<Rightarrow> 'c \<Rightarrow> bool"
  assumes step_acceptable: "step c c' \<Longrightarrow> acceptable c \<Longrightarrow> acceptable c'"
    and step_rows: "step c c' \<Longrightarrow> acceptable c \<Longrightarrow> \<exists>ls. rows c' = rows c @ ls"
begin

lemma history:
  assumes "step\<^sup>*\<^sup>* c c'" and "acceptable c"
  shows "acceptable c' \<and> (\<exists>ls. rows c' = rows c @ ls)"
  using assms
proof (induction rule: rtranclp_induct)
  case (step c' c'')
  then have "acceptable c'" and "\<exists>ls. rows c' = rows c @ ls" by blast+
  then show ?case using step_acceptable [OF step(2)] step_rows [OF step(2)] by (metis append_assoc)
qed auto

lemma rows_survive: "step\<^sup>*\<^sup>* c c' \<Longrightarrow> acceptable c \<Longrightarrow> i < length (rows c) \<Longrightarrow> rows c' ! i = rows c ! i"
  using history by (metis nth_append)

end

text \<open>One append to the root by any writer of the repository.\<close>

inductive root_append :: "codec \<Rightarrow> string option \<Rightarrow> jsval \<Rightarrow> forest \<Rightarrow> forest \<Rightarrow> bool" for cd key marker where
  "check_payload p = Inr () \<Longrightarrow> append_root cd now v2 key marker f p = Inr ([e], c) \<Longrightarrow> reads_back cd e \<Longrightarrow>
     root_append cd key marker f (f\<lparr>fo_root := c\<rparr>)"

inductive_cases root_appendE: "root_append cd key marker f f'"

definition root_acceptable :: "codec \<Rightarrow> string option \<Rightarrow> forest \<Rightarrow> bool" where
  "root_acceptable cd key f \<longleftrightarrow> (\<forall>k b. hmac cd k b \<noteq> []) \<and> ends_line (fo_root f) \<and> forest_ok cd key False f"

lemma anchor_holds_extend:
  assumes "anchor_holds cd f names a" and "forest_chain f ''root'' \<noteq> []"
    and "forest_chain f' ''root'' = forest_chain f ''root'' @ ls" and "\<And>s. s \<in> set names \<Longrightarrow> forest_chain f' s = forest_chain f s"
  shows "anchor_holds cd f' names a"
proof -
  have nn: "a \<noteq> VNull" using assms(1,2) by (auto simp: anchor_holds_def)
  then obtain s n where s: "js_get ''segment'' a = VStr s" "js_get ''seq'' a = VNum (of_nat (Suc n))"
      "s \<in> insert ''root'' (set names)" "n < length (forest_chain f s)" "js_get ''lineHash'' a = VStr (sha256 cd (forest_chain f s ! n))"
    using assms(1) by (auto simp: anchor_holds_def)
  have "n < length (forest_chain f' s) \<and> forest_chain f' s ! n = forest_chain f s ! n"
    using s(3,4) assms(3,4) by (cases "s = ''root''") (auto simp: nth_append)
  then show ?thesis using nn s unfolding anchor_holds_def by auto
qed

lemma root_append_ok:
  assumes "root_append cd key marker f f'" and "root_acceptable cd key f"
  shows "root_acceptable cd key f'" and "\<exists>l. forest_chain f' ''root'' = forest_chain f ''root'' @ [l]"
proof -
  from assms(1) obtain p now v2 e c where p: "check_payload p = Inr ()"
    and app: "append_root cd now v2 key marker f p = Inr ([e], c)" and rb: "reads_back cd e" and f': "f' = f\<lparr>fo_root := c\<rparr>"
    by (rule root_appendE)
  have acc: "\<And>k b. hmac cd k b \<noteq> []" "ends_line (fo_root f)" "forest_ok cd key False f"
    using assms(2) by (simp_all add: root_acceptable_def)
  let ?names = "fst (discoverSegments (fo_objects f))"
  have fr: "forest_chain g ''root'' = raw_lines (fo_root g)" for g by (simp add: forest_chain_def)
  have nr: "s \<noteq> ''root''" if "s \<in> set ?names" for s using discoverSegments_names(1) [OF that] .
  then have same: "forest_chain f' s = forest_chain f s" if "s \<in> set ?names" for s
    using that by (simp add: forest_chain_def f')
  then have same_anchor: "segment_anchor cd f' s = segment_anchor cd f s" if "s \<in> set ?names" for s
    using that by (simp add: segment_anchor_def)
  have root: "chain_ok cd key False False (raw_lines (fo_root f))"
    using acc(3) by (simp add: forest_ok_def Let_def fr)
  obtain l where l: "raw_lines c = raw_lines (fo_root f) @ [l]" "chain_ok cd key False False (raw_lines c)" "ends_line c"
    using append_root_chain [OF app p acc(1) _ acc(2) root] rb by blast
  then have ext: "forest_chain f' ''root'' = forest_chain f ''root'' @ [l]" by (simp add: fr f')
  then show "\<exists>l. forest_chain f' ''root'' = forest_chain f ''root'' @ [l]" by blast
  from app have checks: "root_checks cd key marker f (parseLedger cd (fo_root f)) = Inr ()" by (rule append_root_Inr)
  have ne: "forest_chain f ''root'' \<noteq> []" if "?names \<noteq> []"
    using root_checks_Inr(2) [OF checks] that by (auto simp: fr)
  have obs: "fo_objects f' = fo_objects f" by (simp add: f')
  have anch: "forest_anchors cd f' ?names = forest_anchors cd f ?names"
    using same_anchor by (simp add: forest_anchors_def)
  have "anchor_holds cd f' ?names (segment_anchor cd f' s)" if "s \<in> set ?names" for s
  proof -
    have "anchor_holds cd f ?names (segment_anchor cd f s)" using acc(3) that by (simp add: forest_ok_def Let_def)
    moreover have "?names \<noteq> []" using that by (metis empty_iff list.set(1))
    ultimately show ?thesis
      unfolding same_anchor [OF that] using anchor_holds_extend [OF _ ne ext same] by blast
  qed
  then have "forest_ok cd key False f'"
    using acc(3) l(2) same anch unfolding forest_ok_def Let_def obs by (simp add: fr f')
  then show "root_acceptable cd key f'" using acc(1) l(3) by (simp add: root_acceptable_def f')
qed

interpretation root_log: append_log "root_acceptable cd key" "\<lambda>f. forest_chain f ''root''" "root_append cd key marker"
  for cd key marker
  by unfold_locales (use root_append_ok in blast)+

section \<open>A last line without a newline\<close>

lemma trim_empty: "trim s = [] \<longleftrightarrow> (\<forall>c\<in>set s. is_space c)"
proof -
  have "trim s = [] \<longleftrightarrow> (\<forall>c\<in>set (dropWhile is_space s). is_space c)"
    by (simp add: trim_def dropWhile_eq_Nil_conv)
  also have "\<dots> \<longleftrightarrow> dropWhile is_space s = []"
  proof (cases "dropWhile is_space s")
    case (Cons c cs)
    then have "\<not> is_space c" using hd_dropWhile [of is_space s] unfolding Cons by simp
    then show ?thesis unfolding Cons by simp
  next
    case Nil
    show ?thesis unfolding Nil by simp
  qed
  finally show ?thesis by (simp only: dropWhile_eq_Nil_conv)
qed

lemma clean_line_append:
  assumes "clean_line l" and "newline \<notin> set x"
  shows "clean_line (l @ x)"
  using assms by (auto simp: clean_line_def trim_empty)

lemma readRawLines_last:
  assumes "ends_line pre" and "clean_line l"
  shows "readRawLines (pre @ l) = readRawLines pre @ [(l, length (split_on newline pre))]"
    and "readRawLines (pre @ l @ [newline]) = readRawLines pre @ [(l, length (split_on newline pre))]"
proof -
  have l: "split_on newline (l @ [newline]) = [l, []]" "split_on newline l = [l]"
    using assms(2) split_on_append [of newline l "[]"] split_on_no_sep [of newline l] by (simp_all add: clean_line_def)
  obtain ps where ps: "split_on newline pre = ps @ [[]]" "split_on newline (pre @ x) = ps @ split_on newline x" for x
  proof (cases "pre = []")
    case False
    then obtain q where "pre = q @ [newline]" using assms(1) by (auto simp: ends_line_def)
    then show ?thesis using that [of "split_on newline q"] split_on_sep [of newline q] by simp
  qed (use that [of "[]"] in simp)
  have z: "filter P (zip (ps @ qs) [1..<Suc (length (ps @ qs))])
      = filter P (zip ps [1..<Suc (length ps)]) @ filter P (zip qs [Suc (length ps)..<Suc (length ps) + length qs])"
    for P :: "string \<times> nat \<Rightarrow> bool" and qs
    using upt_add_eq_append [of 1 "Suc (length ps)" "length qs"] by (simp del: upt_Suc)
  have t: "zip [x] [k..<k + length [x]] = [(x, k)]" "zip [x, y] [k..<k + length [x, y]] = [(x, k), (y, Suc k)]"
    for x y :: string and k
    by (simp_all add: upt_conv_Cons)
  show "readRawLines (pre @ l) = readRawLines pre @ [(l, length (split_on newline pre))]"
    "readRawLines (pre @ l @ [newline]) = readRawLines pre @ [(l, length (split_on newline pre))]"
    using assms(2) unfolding readRawLines_def ps l z t by (simp_all add: clean_line_def trim_Nil del: upt_Suc)
qed

lemma sign_chained_obj: "sign_chained cd key v2 e = Inr e' \<Longrightarrow> is_plain_obj e \<Longrightarrow> is_plain_obj e'"
  by (cases key) (auto simp: sign_chained_def Let_def bind_res_eq_Inr)

lemma root_checks_verify:
  assumes "root_checks cd key marker f (parseLedger cd (fo_root f)) = Inr ()"
  shows "readRawLines (fo_root f) = [] \<or> (\<exists>r. verify cd key False False f = Inr r \<and> fr_valid r)"
  using assms
  by (auto simp: root_checks_def parseLedger_def Let_def bind_res_eq_Inr split: if_splits list.splits)

lemma chain_walk_last_malformed:
  assumes "chain_walk cd key rs aof n w (us @ [x]) = Inr r" and "cr_valid r"
    and "parseJson cd (fst x) \<noteq> None \<Longrightarrow> parseJson cd (fst y) = None"
  shows "chain_walk cd key rs aof n w (us @ [y]) = Inr (chain_fail (snd y - 1) VNull (Some (snd y)) MalformedJson)"
  using assms(1)
proof (induction us arbitrary: w)
  case Nil
  obtain st where st: "check_entry cd key rs aof w x = Inr st" using Nil by (auto simp: bind_res_eq_Inr)
  have "parseJson cd (fst x) \<noteq> None"
  proof
    assume "parseJson cd (fst x) = None"
    then have "st = Stop (chain_fail (snd x - 1) VNull (Some (snd x)) MalformedJson)"
      using st by (simp add: check_entry_def Let_def)
    then show False using Nil st assms(2) by (auto simp: chain_fail_def)
  qed
  then show ?case using assms(3) by (simp add: check_entry_def Let_def)
next
  case (Cons u us)
  obtain st where st: "check_entry cd key rs aof w u = Inr st" using Cons.prems by (auto simp: bind_res_eq_Inr)
  show ?case
  proof (cases st)
    case (Stop r')
    then show ?thesis using st Cons.prems assms(2) check_entry_Stop [of cd key rs aof w u r'] by simp
  next
    case (Go w')
    then show ?thesis using st Cons by simp
  qed
qed

lemma verify_last_malformed:
  assumes "verify cd key False False f = Inr r" and "fr_valid r"
    and "readRawLines (fo_root f) = us @ [(l, n)]" and "readRawLines c = us @ [(l', n)]"
    and "parseJson cd l \<noteq> None \<Longrightarrow> parseJson cd l' = None"
  shows "\<exists>r'. verify cd key False False (f\<lparr>fo_root := c\<rparr>) = Inr r' \<and> \<not> fr_valid r'
    \<and> fr_fault r' = Some (ChainBroken ''root'' (Some \<lparr>bk_seq = VNull, bk_line = Some n, bk_reason = MalformedJson\<rparr>))"
proof -
  obtain names bad where ds: "discoverSegments (fo_objects f) = (names, bad)" by fastforce
  have d: "bad = []"
    using assms(1,2) unfolding verify_def Let_def ds by (cases bad) (auto simp: forest_fail_def)
  have ne: "(names = [] \<and> False \<and> us @ [(x, n)] = []) = False" for x by simp
  note v = verify_def [of cd key False False, unfolded Let_def]
  obtain root where root: "verifyChain cd key False False (us @ [(l, n)]) = Inr root"
    using assms(1) unfolding v ds d fst_conv snd_conv assms(3) list.case ne if_False by (auto simp: bind_res_eq_Inr)
  have valid: "cr_valid root"
  proof (rule ccontr)
    assume "\<not> cr_valid root"
    then show False
      using assms(1,2) root unfolding v ds d fst_conv snd_conv assms(3) list.case ne if_False
      by (cases "names = []") (auto simp: forest_fail_def)
  qed
  have "chain_walk cd key False False (length us + 1) start_walk (us @ [(l, n)]) = Inr root"
    using root by (simp add: verifyChain_def)
  from chain_walk_last_malformed [OF this valid, of "(l', n)"] assms(5)
  have new: "verifyChain cd key False False (us @ [(l', n)]) = Inr (chain_fail (n - 1) VNull (Some n) MalformedJson)"
    by (simp add: verifyChain_def)
  have o: "fo_objects (f\<lparr>fo_root := c\<rparr>) = fo_objects f" "fo_root (f\<lparr>fo_root := c\<rparr>) = c" by simp_all
  show ?thesis
    unfolding v o ds d fst_conv snd_conv assms(4) list.case ne if_False new
    by (cases "names = []") (simp_all add: chain_fail_def forest_fail_def)
qed

section \<open>Properties\<close>

text \<open>The root ledger is append-only: whatever number of writers append to it, one after the other,
  a forest that was sound stays sound, and the entries it had are still there, unchanged and in
  their places, as long as the JSON text of each entry is one line that parses to the entry.\<close>

theorem root_history:
  assumes "(root_append cd key marker)\<^sup>*\<^sup>* f f'" and "\<forall>k b. hmac cd k b \<noteq> []"
    and "ends_line (fo_root f)" and "forest_ok cd key False f"
  shows "forest_ok cd key False f' \<and> (\<exists>ls. forest_chain f' ''root'' = forest_chain f ''root'' @ ls)"
  using root_log.history [OF assms(1)] assms(2-4) by (simp add: root_acceptable_def)

definition demo_root :: forest where
  "demo_root = \<lparr>fo_root = ''one'' @ [newline], fo_objects = [], fo_content = (\<lambda>_. [])\<rparr>"

definition demo_writer :: codec where
  "demo_writer = \<lparr>parseJson = demo_parse(''two'' \<mapsto> VObj [(''seq'', VNum 2), (''gate'', VStr ''g''), (''ts'', VStr ''t''),
       (''files'', VObj []), (''prev'', VStr ''one'')]),
     stringifyJson = (\<lambda>_. ''two''), sha256 = (\<lambda>s. s), hmac = (\<lambda>k b. ''sign'')\<rparr>"

lemma demo_append:
  "append_root demo_writer ''t'' True None VNull demo_root (VObj [(''gate'', VStr ''g'')])
     = Inr ([VObj [(''seq'', VNum 2), (''gate'', VStr ''g''), (''ts'', VStr ''t''), (''files'', VObj []), (''prev'', VStr ''one'')]],
            (''one'' @ [newline]) @ ''two'' @ [newline])"
  by code_simp

theorem root_history_witness:
  "forest_ok demo_writer None False (demo_root\<lparr>fo_root := (''one'' @ [newline]) @ ''two'' @ [newline]\<rparr>)"
proof -
  have "check_payload (VObj [(''gate'', VStr ''g'')]) = Inr ()" by code_simp
  moreover have "clean_line ''two''" by code_simp
  ultimately have "root_append demo_writer None VNull demo_root (demo_root\<lparr>fo_root := (''one'' @ [newline]) @ ''two'' @ [newline]\<rparr>)"
    using root_append.intros [OF _ demo_append] by (simp add: reads_back_def demo_writer_def)
  then have step: "(root_append demo_writer None VNull)\<^sup>*\<^sup>* demo_root
      (demo_root\<lparr>fo_root := (''one'' @ [newline]) @ ''two'' @ [newline]\<rparr>)" by (rule r_into_rtranclp)
  have "verify demo_writer None False False demo_root = Inr \<lparr>fr_valid = True, fr_count = 1, fr_segments = 0,
      fr_signed = False, fr_fault = None\<rparr>" by code_simp
  then have ok: "forest_ok demo_writer None False demo_root" using verify_forest_ok by fastforce
  have "\<forall>k b. hmac demo_writer k b \<noteq> []" "ends_line (fo_root demo_root)"
    by (auto simp: demo_writer_def demo_root_def ends_line_def)
  from conjunct1 [OF root_history [OF step this ok]] show ?thesis .
qed

text \<open>C39: \<open>appendEntries\<close> writes after the bytes that are there without looking whether they end a line.
  For every ledger whose last line has text and no newline, and every append the code lets through
  (which it does only after it verified the ledger): the old last entry and the new one share a line,
  and the next \<open>verify\<close> rejects the ledger as malformed JSON at that line. Of JSON only this is used: the
  text of an entry has no newline, and the text of an object after another JSON text is not JSON.\<close>

theorem append_glues_lines:
  assumes "append_root cd now v2 key marker f payload = Inr (es, c)"
    and "fo_root f = pre @ l" and "ends_line pre" and "clean_line l"
    and "\<And>e. newline \<notin> set (stringifyJson cd e)"
    and "\<And>a e. parseJson cd a \<noteq> None \<Longrightarrow> is_plain_obj e \<Longrightarrow> parseJson cd (a @ stringifyJson cd e) = None"
  shows "\<exists>e r r'. es = [e] \<and> c = pre @ (l @ stringifyJson cd e) @ [newline]
    \<and> verify cd key False False f = Inr r \<and> fr_valid r
    \<and> verify cd key False False (f\<lparr>fo_root := c\<rparr>) = Inr r' \<and> \<not> fr_valid r'
    \<and> fr_fault r' = Some (ChainBroken ''root''
        (Some \<lparr>bk_seq = VNull, bk_line = Some (length (split_on newline pre)), bk_reason = MalformedJson\<rparr>))"
proof -
  let ?n = "length (split_on newline pre)"
  from assms(1) obtain e s where e: "es = [e]" "c = fo_root f @ json_line cd e"
      "root_checks cd key marker f (parseLedger cd (fo_root f)) = Inr ()"
      "next_seq (last_entry (le_entries (parseLedger cd (fo_root f)))) = Inr s"
      "sign_chained cd key v2 (chained_entry cd now payload s (le_lastRawLine (parseLedger cd (fo_root f)))) = Inr e"
    by (rule append_root_Inr)
  have c: "c = pre @ (l @ stringifyJson cd e) @ [newline]" using e(2) assms(2) by (simp add: json_line_def)
  have obj: "is_plain_obj e" by (rule sign_chained_obj [OF e(5)]) (simp add: chained_entry_def)
  have clean: "clean_line (l @ stringifyJson cd e)" using assms(4,5) by (rule clean_line_append)
  have old: "readRawLines (fo_root f) = readRawLines pre @ [(l, ?n)]"
    unfolding assms(2) by (rule readRawLines_last(1) [OF assms(3,4)])
  have new: "readRawLines c = readRawLines pre @ [(l @ stringifyJson cd e, ?n)]"
    unfolding c by (rule readRawLines_last(2) [OF assms(3) clean])
  obtain r where r: "verify cd key False False f = Inr r" "fr_valid r"
    using root_checks_verify [OF e(3)] old by auto
  have "\<exists>r'. verify cd key False False (f\<lparr>fo_root := c\<rparr>) = Inr r' \<and> \<not> fr_valid r'
    \<and> fr_fault r' = Some (ChainBroken ''root'' (Some \<lparr>bk_seq = VNull, bk_line = Some ?n, bk_reason = MalformedJson\<rparr>))"
    by (rule verify_last_malformed [OF r old new]) (rule assms(6) [OF _ obj])
  then show ?thesis using e(1) c r by blast
qed

lemma demo_writer_json:
  "newline \<notin> set (stringifyJson demo_writer e)"
  "parseJson demo_writer a \<noteq> None \<Longrightarrow> is_plain_obj e \<Longrightarrow> parseJson demo_writer (a @ stringifyJson demo_writer e) = None"
  by (auto simp: demo_writer_def demo_parse_def newline_def append_eq_Cons_conv split: if_splits)

theorem append_glues_lines_witness:
  "\<exists>r'. verify demo_writer None False False (demo_root\<lparr>fo_root := ''one'' @ ''two'' @ [newline]\<rparr>) = Inr r' \<and> \<not> fr_valid r'"
proof -
  have 1: "append_root demo_writer ''t'' True None VNull (demo_root\<lparr>fo_root := ''one''\<rparr>) (VObj [])
      = Inr ([VObj [(''seq'', VNum 2), (''gate'', VStr ''evidence''), (''ts'', VStr ''t''), (''files'', VObj []),
                (''prev'', VStr ''one'')]], ''one'' @ ''two'' @ [newline])" by code_simp
  have "ends_line []" "clean_line ''one''" "fo_root (demo_root\<lparr>fo_root := ''one''\<rparr>) = [] @ ''one''"
    by (simp add: ends_line_def) code_simp+
  from append_glues_lines [OF 1 this(3) this(1,2) demo_writer_json]
  obtain r' where "verify demo_writer None False False
      (demo_root\<lparr>fo_root := ''one'', fo_root := ''one'' @ ''two'' @ [newline]\<rparr>) = Inr r'" "\<not> fr_valid r'" by blast
  then show ?thesis by (intro exI conjI) simp_all
qed

end
