(* ===== verification/GateSegment.thy ===== *)
theory GateSegment
  imports GateRecord "HOL-Library.Multiset"
begin

text \<open>
  Segments of the gate manifest: their names (\<open>deriveSlug\<close>, \<open>generateSegmentUlid\<close>), the open segment of
  a branch (\<open>peekOpenSegment\<close>, \<open>recoverOpenSegment\<close>, \<open>resolveOpenSegment\<close> of
  \<^verbatim>\<open>packages/tickets/lib/manifest-primitives.mjs\<close>) and the append to it
  (\<^verbatim>\<open>packages/gate-manifest/lib/segment-writer.mjs\<close>), with \<open>appendManifestEntry\<close> that chooses between
  the root and a segment. The branch git reports, the clock, the random bytes and whether git would
  ignore a file are parameters.
\<close>

unbundle bit_operations_syntax

section \<open>Names\<close>

fun encodeUlidPart :: "nat \<Rightarrow> nat \<Rightarrow> string \<Rightarrow> string" where
  "encodeUlidPart remaining 0 output = output"
| "encodeUlidPart remaining (Suc width) output =
     encodeUlidPart (drop_bit 5 remaining) width (ULID_ALPHABET ! (remaining AND 31) # output)"

text \<open>The ten random bytes are the number they spell.\<close>

definition generateSegmentUlid :: "int \<Rightarrow> nat \<Rightarrow> string option" where
  "generateSegmentUlid now random =
     (if now < 0 \<or> now > 0xffffffffffff \<or> random \<ge> 2 ^ 80 then None
      else Some (encodeUlidPart (nat now) 10 [] @ encodeUlidPart random 16 []))"

text \<open>\<open>replace(/X+/g, '-')\<close> for a class of characters.\<close>

function squeeze :: "(char \<Rightarrow> bool) \<Rightarrow> string \<Rightarrow> string" where
  "squeeze P [] = []"
| "squeeze P (c # cs) = (if P c then CHR ''-'' # squeeze P (dropWhile P cs) else c # squeeze P cs)"
  by pat_completeness auto
termination
  by (relation "measure (\<lambda>(P, s). length s)") (auto simp: le_imp_less_Suc length_dropWhile_le)

definition strip_trailing :: "string \<Rightarrow> string" where
  "strip_trailing s = rev (dropWhile (\<lambda>c. c = CHR ''-'') (rev s))"

definition deriveSlug :: "string \<Rightarrow> string" where
  "deriveSlug branchName =
     (let substituted = squeeze (\<lambda>c. \<not> slug_char c) (to_lower branchName);
          collapsed = strip_trailing (dropWhile (\<lambda>c. c = CHR ''-'') (squeeze (\<lambda>c. c = CHR ''-'') substituted));
          truncated = strip_trailing (take 40 collapsed)
      in if truncated = [] then ''segment'' else truncated)"

section \<open>The open segment of a branch\<close>

definition peekOpenSegment :: "string option \<Rightarrow> jsval \<Rightarrow> forest \<Rightarrow> string option" where
  "peekOpenSegment branch token f = (case (branch, js_get ''segment'' token, js_get ''ulid'' token, js_get ''branch'' token) of
      (Some b, VStr s, VStr u, VStr t) \<Rightarrow>
        if t = b \<and> s \<in> set (fst (discoverSegments (fo_objects f))) \<and> ulidOf s = u then Some s else None
    | _ \<Rightarrow> None)"

definition MAX_FIRST_LINE_BYTES :: nat where "MAX_FIRST_LINE_BYTES = 65536"

datatype first_entry = Oversized | Malformed | First jsval

definition firstEntryOf :: "codec \<Rightarrow> string \<Rightarrow> first_entry" where
  "firstEntryOf cd content =
     (let chunk = take MAX_FIRST_LINE_BYTES content
      in if newline \<notin> set chunk \<and> length chunk \<ge> MAX_FIRST_LINE_BYTES then Oversized
         else let firstLine = takeWhile (\<lambda>c. c \<noteq> newline) chunk
         in if trim firstLine = [] then Malformed
         else (case parseJson cd firstLine of None \<Rightarrow> Malformed | Some e \<Rightarrow> First e))"

fun branch_candidates :: "codec \<Rightarrow> forest \<Rightarrow> string \<Rightarrow> string list \<Rightarrow> record_error + string list" where
  "branch_candidates cd f b [] = Inr []"
| "branch_candidates cd f b (name # names) = (case firstEntryOf cd (fo_content f name) of
      Oversized \<Rightarrow> Inl (FirstEntryOversized name)
    | Malformed \<Rightarrow> Inl (FirstEntryMalformed name)
    | First e \<Rightarrow> bind_res (branch_candidates cd f b names) (\<lambda>cs.
        Inr (if js_get ''branch'' e = VStr b then name # cs else cs)))"

definition recoverOpenSegment ::
  "codec \<Rightarrow> string option \<Rightarrow> jsval \<Rightarrow> forest \<Rightarrow> record_error + string option" where
  "recoverOpenSegment cd branch token f = (case peekOpenSegment branch token f of
      Some s \<Rightarrow> Inr (Some s)
    | None \<Rightarrow> (case branch of
        None \<Rightarrow> Inr None
      | Some b \<Rightarrow>
          let discovered = discoverSegments (fo_objects f)
          in if snd discovered \<noteq> [] then Inl (NotConforming (length (snd discovered)))
             else bind_res (branch_candidates cd f b (fst discovered)) (\<lambda>cs. case cs of
                 [] \<Rightarrow> Inr None
               | [c] \<Rightarrow> Inr (Some c)
               | _ \<Rightarrow> Inl (AmbiguousBranch (sort cs)))))"

record resolved =
  rs_name :: string
  rs_isNew :: bool
  rs_anchor :: jsval
  rs_branch :: "string option"

definition open_resolved :: "string \<Rightarrow> resolved" where
  "open_resolved name = \<lparr>rs_name = name, rs_isNew = False, rs_anchor = VUndefined, rs_branch = None\<rparr>"

definition fork_anchor :: "codec \<Rightarrow> forest \<Rightarrow> jsval" where
  "fork_anchor cd f =
     (let rootLines = raw_lines (fo_root f)
      in if rootLines = [] then VNull
         else case parseJson cd (last rootLines) of
           None \<Rightarrow> VNull
         | Some lastEntry \<Rightarrow>
             if js_truthy lastEntry
             then VObj [(''segment'', VStr ''root''), (''seq'', js_get ''seq'' lastEntry), (''lineHash'', VStr (sha256 cd (last rootLines)))]
             else VNull)"

text \<open>The context of a writer: what git, the clock and the file system tell it.\<close>

record writer =
  wr_branch :: "string option"
  wr_token :: jsval \<comment> \<open>the lineage token\<close>
  wr_marker :: jsval
  wr_now :: string
  wr_ulid :: string
  wr_committable :: "string \<Rightarrow> bool"

text \<open>The recovered segment must be authenticated before it is extended.\<close>

definition authenticate :: "codec \<Rightarrow> string \<Rightarrow> forest \<Rightarrow> string \<Rightarrow> record_error + unit" where
  "authenticate cd k f name =
     (let ls = raw_lines (fo_content f name)
      in bind_res (case (if ls = [] then None else parseJson cd (hd ls)) of
            None \<Rightarrow> Inr False
          | Some first \<Rightarrow>
              if js_truthy first \<and> js_get ''sigVersion'' first = VNum 2
              then lift_json (verifyEntrySig cd k first) else Inr False) (\<lambda>firstAuthenticated.
         bind_res (lift_json (isChainIntact cd (Some k) ls)) (\<lambda>intact.
           if \<not> intact \<or> \<not> firstAuthenticated then Inl (Unauthenticated name) else Inr ())))"

definition resolveOpenSegment :: "codec \<Rightarrow> string option \<Rightarrow> writer \<Rightarrow> forest \<Rightarrow> record_error + (resolved \<times> jsval)" where
  "resolveOpenSegment cd key wr f =
     (let mint =
        (let name = deriveSlug (case wr_branch wr of None \<Rightarrow> [] | Some b \<Rightarrow> b) @ ''-'' @ wr_ulid wr @ ''.jsonl''
         in if \<not> wr_committable wr name then Inl (NotCommittable name)
            else Inr (\<lparr>rs_name = name, rs_isNew = True, rs_anchor = fork_anchor cd f, rs_branch = wr_branch wr\<rparr>,
              case wr_branch wr of
                None \<Rightarrow> wr_token wr
              | Some b \<Rightarrow> VObj [(''segment'', VStr name), (''ulid'', VStr (wr_ulid wr)), (''branch'', VStr b)]))
      in if js_get ''auth'' (wr_marker wr) = VStr ''keyed'' \<and> key = None then Inl KeyRequired
         else case peekOpenSegment (wr_branch wr) (wr_token wr) f of
           Some s \<Rightarrow> Inr (open_resolved s, wr_token wr)
         | None \<Rightarrow> (case key of
             Some k \<Rightarrow>
               bind_res (recoverOpenSegment cd (wr_branch wr) (wr_token wr) f) (\<lambda>r. case r of
                   Some s \<Rightarrow> bind_res (authenticate cd k f s) (\<lambda>_. Inr (open_resolved s, wr_token wr))
                 | None \<Rightarrow> mint)
           | None \<Rightarrow> (case recoverOpenSegment cd (wr_branch wr) (wr_token wr) f of
                 Inr None \<Rightarrow> mint
               | _ \<Rightarrow> Inl CannotAuthenticate)))"

section \<open>Appending to a segment\<close>

definition segment_entry :: "codec \<Rightarrow> string \<Rightarrow> jsval \<Rightarrow> resolved \<Rightarrow> int \<Rightarrow> string option \<Rightarrow> jsval" where
  "segment_entry cd now p r s lastLine =
     (let base = js_spread [(''seq'', VNum (of_int s))] (normalized_payload now p);
          anchored = (if rs_isNew r then
              (case rs_branch r of
                 None \<Rightarrow> js_put ''anchor'' (rs_anchor r) base
               | Some b \<Rightarrow> js_put ''branch'' (VStr b) (js_put ''anchor'' (rs_anchor r) base))
            else base)
      in js_put ''prev'' (prev_link cd lastLine) anchored)"

definition appendLockedEntry ::
  "codec \<Rightarrow> string \<Rightarrow> bool \<Rightarrow> string option \<Rightarrow> resolved \<Rightarrow> jsval \<Rightarrow> string \<Rightarrow> record_error + (jsval \<times> string)" where
  "appendLockedEntry cd now v2 key r payload content =
     (let rawLines = raw_lines content
      in if rs_isNew r \<and> rawLines \<noteq> [] then Inl NotNew
         else if \<not> rs_isNew r \<and> rawLines = [] then Inl NotOpen
         else case find (\<lambda>i. parseJson cd (rawLines ! i) = None) [0..<length rawLines] of
           Some i \<Rightarrow> Inl (MalformedLine (Suc i))
         | None \<Rightarrow>
             let entries = map (\<lambda>l. the (parseJson cd l)) rawLines
             in bind_res (next_seq (last_entry entries)) (\<lambda>s.
                  bind_res (sign_chained cd key (rs_isNew r \<or> v2)
                      (segment_entry cd now payload r s (if rawLines = [] then None else Some (last rawLines)))) (\<lambda>e.
                    Inr (e, content @ json_line cd e))))"

text \<open>What an append changes: one file, and the lineage token.\<close>

record appended =
  ap_entry :: jsval
  ap_file :: "string option" \<comment> \<open>\<open>None\<close> for the root\<close>
  ap_content :: string
  ap_token :: jsval

definition appendToSegment ::
  "codec \<Rightarrow> bool \<Rightarrow> string option \<Rightarrow> writer \<Rightarrow> forest \<Rightarrow> jsval \<Rightarrow> record_error + appended" where
  "appendToSegment cd v2 key wr f payload =
     bind_res (lift_json (verify cd key False False f)) (\<lambda>integrity.
       if \<not> fr_valid integrity then Inl ManifestInvalid
       else bind_res (resolveOpenSegment cd key wr f) (\<lambda>(r, token).
         bind_res (appendLockedEntry cd (wr_now wr) v2 key r payload
             (if rs_name r \<in> do_name ` set (fo_objects f) then fo_content f (rs_name r) else [])) (\<lambda>(e, content).
           Inr \<lparr>ap_entry = e, ap_file = Some (rs_name r), ap_content = content, ap_token = token\<rparr>)))"

text \<open>\<open>appendManifestEntry\<close>: \<open>f0\<close> is the forest before the lock, \<open>f\<close> the one under it.\<close>

definition appendManifestEntry ::
  "codec \<Rightarrow> bool \<Rightarrow> jsval \<Rightarrow> writer \<Rightarrow> forest \<Rightarrow> forest \<Rightarrow> jsval \<Rightarrow> record_error + appended" where
  "appendManifestEntry cd v2 keyParam wr f0 f payload =
     bind_res (validateKeyParam keyParam) (\<lambda>key.
       bind_res (check_payload payload) (\<lambda>_.
         if isSegmentedRepo cd (wr_marker wr) f0 then appendToSegment cd v2 key wr f payload
         else bind_res (append_root cd (wr_now wr) v2 key (wr_marker wr) f payload) (\<lambda>(es, content).
           Inr \<lparr>ap_entry = hd es, ap_file = None, ap_content = content, ap_token = wr_token wr\<rparr>)))"

section \<open>Names are well formed\<close>

lemma squeeze_chars: "set (squeeze P s) \<subseteq> insert (CHR ''-'') {c \<in> set s. \<not> P c}"
  by (induction P s rule: squeeze.induct) (auto dest: set_dropWhileD)

lemma strip_trailing_set: "set (strip_trailing s) \<subseteq> set s"
  by (auto simp: strip_trailing_def dest: set_dropWhileD)

lemma strip_trailing_length: "length (strip_trailing s) \<le> length s"
  using length_dropWhile_le [of "\<lambda>c. c = CHR ''-''" "rev s"] by (simp add: strip_trailing_def)

lemma deriveSlug_ok: "deriveSlug b \<noteq> []" "length (deriveSlug b) \<le> 40" "list_all slug_char (deriveSlug b)"
proof -
  let ?sub = "squeeze (\<lambda>c. \<not> slug_char c) (to_lower b)"
  let ?col = "strip_trailing (dropWhile (\<lambda>c. c = CHR ''-'') (squeeze (\<lambda>c. c = CHR ''-'') ?sub))"
  let ?tr = "strip_trailing (take 40 ?col)"
  have d: "deriveSlug b = (if ?tr = [] then ''segment'' else ?tr)" unfolding deriveSlug_def Let_def ..
  have dash: "slug_char (CHR ''-'')" by (simp add: slug_char_def)
  have "\<forall>c\<in>set ?sub. slug_char c" using squeeze_chars [of "\<lambda>c. \<not> slug_char c" "to_lower b"] dash by auto
  moreover have "set (squeeze (\<lambda>c. c = CHR ''-'') ?sub) \<subseteq> insert (CHR ''-'') (set ?sub)"
    using squeeze_chars [of "\<lambda>c. c = CHR ''-''" ?sub] by blast
  ultimately have "\<forall>c\<in>set (squeeze (\<lambda>c. c = CHR ''-'') ?sub). slug_char c" using dash by blast
  then have "\<forall>c\<in>set ?col. slug_char c" using strip_trailing_set by (meson set_dropWhileD subsetD)
  then have "\<forall>c\<in>set ?tr. slug_char c" using strip_trailing_set by (meson in_set_takeD subsetD)
  moreover have "length ?tr \<le> 40" using strip_trailing_length [of "take 40 ?col"] by simp
  ultimately show "deriveSlug b \<noteq> []" "length (deriveSlug b) \<le> 40" "list_all slug_char (deriveSlug b)"
    unfolding d by (auto simp: list_all_iff slug_char_def)
qed

text \<open>The big-endian digits of a number.\<close>

fun ulid_digits :: "nat \<Rightarrow> nat \<Rightarrow> string" where
  "ulid_digits v 0 = []"
| "ulid_digits v (Suc w) = ulid_digits (v div 32) w @ [ULID_ALPHABET ! (v mod 32)]"

lemma encodeUlidPart_digits: "encodeUlidPart v w acc = ulid_digits v w @ acc"
proof (induction w arbitrary: v acc)
  case (Suc w)
  have "v AND 31 = v mod 32" using take_bit_eq_mask [of 5 v] by (simp add: take_bit_eq_mod mask_eq_exp_minus_1)
  moreover have "drop_bit 5 v = v div 32" by (simp add: drop_bit_eq_div)
  ultimately show ?case using Suc by simp
qed simp

lemma ulid_digits_ok: "length (ulid_digits v w) = w" "set (ulid_digits v w) \<subseteq> set ULID_ALPHABET"
proof -
  have "ULID_ALPHABET ! (u mod 32) \<in> set ULID_ALPHABET" for u :: nat
    by (rule nth_mem) (simp add: ULID_ALPHABET_def)
  then show "length (ulid_digits v w) = w" "set (ulid_digits v w) \<subseteq> set ULID_ALPHABET"
    by (induction w arbitrary: v) auto
qed

lemma ulid_alphabet_sorted: "sorted_wrt (<) ULID_ALPHABET"
  by (simp add: ULID_ALPHABET_def less_char_def)

lemma ulid_digits_less:
  "u < v \<Longrightarrow> v < 32 ^ w \<Longrightarrow> (ulid_digits u w, ulid_digits v w) \<in> lexord {(a, b). a < b}"
proof (induction w arbitrary: u v)
  case (Suc w)
  consider "u div 32 < v div 32" | "u div 32 = v div 32" "u mod 32 < v mod 32"
    using Suc.prems(1) by (metis div_le_mono div_mult_mod_eq le_neq_implies_less less_imp_le_nat nat_add_left_cancel_less)
  then show ?case
  proof cases
    case 1
    have "v div 32 < 32 ^ w" using Suc.prems(2) by (simp add: less_mult_imp_div_less mult.commute)
    from Suc.IH [OF 1 this] show ?thesis
      by (simp add: lexord_sufI ulid_digits_ok)
  next
    case 2
    have "ULID_ALPHABET ! (u mod 32) < ULID_ALPHABET ! (v mod 32)"
      by (rule sorted_wrt_nth_less [OF ulid_alphabet_sorted 2(2)]) (simp add: ULID_ALPHABET_def)
    then have "([ULID_ALPHABET ! (u mod 32)], [ULID_ALPHABET ! (v mod 32)]) \<in> lexord {(a, b). a < b}"
      by simp
    then show ?thesis using 2(1) by (simp add: lexord_append_leftI)
  qed
qed simp

lemma generateSegmentUlid_Some:
  "generateSegmentUlid now random = Some u \<longleftrightarrow>
     0 \<le> now \<and> now \<le> 0xffffffffffff \<and> random < 2 ^ 80 \<and> u = ulid_digits (nat now) 10 @ ulid_digits random 16"
  by (auto simp: generateSegmentUlid_def encodeUlidPart_digits)

definition is_ulid :: "string \<Rightarrow> bool" where
  "is_ulid u \<longleftrightarrow> length u = 26 \<and> set u \<subseteq> set ULID_ALPHABET"

lemma generateSegmentUlid_ulid: "generateSegmentUlid now random = Some u \<Longrightarrow> is_ulid u"
  using ulid_digits_ok by (auto simp: generateSegmentUlid_Some is_ulid_def)

lemma minted_name:
  assumes "is_ulid u"
  shows "segment_name (deriveSlug b @ ''-'' @ u @ ''.jsonl'')" and "ulidOf (deriveSlug b @ ''-'' @ u @ ''.jsonl'') = u"
proof -
  let ?slug = "deriveSlug b" and ?name = "deriveSlug b @ ''-'' @ u @ ''.jsonl''"
  have lu: "length u = 26" and su: "list_all (\<lambda>c. c \<in> set ULID_ALPHABET) u"
    using assms by (auto simp: is_ulid_def list_all_iff)
  have len: "length ?name = length ?slug + 33" using lu by simp
  have base: "take (length ?name - 6) ?name = ?slug @ ''-'' @ u" using lu by simp
  have slug: "take (length (?slug @ ''-'' @ u) - 27) (?slug @ ''-'' @ u) = ?slug" using lu by simp
  have rest: "drop (length (?slug @ ''-'' @ u) - 27) (?slug @ ''-'' @ u) = ''-'' @ u" using lu by simp
  have "ends_with ?name ''.jsonl''" unfolding ends_with_iff by (intro exI [where x = "?slug @ ''-'' @ u"]) simp
  then show "segment_name ?name"
    unfolding segment_name_def Let_def base slug rest using deriveSlug_ok [of b] len su
    by (cases ?slug) auto
  show "ulidOf ?name = u" unfolding ulidOf_def using lu by simp
qed

text \<open>Names in the grammar differ in more than case.\<close>

lemma segment_name_parts:
  assumes "segment_name s"
  obtains slug u where "s = slug @ ''-'' @ u @ ''.jsonl''" "list_all slug_char slug" "is_ulid u"
proof -
  obtain v where s: "s = v @ ''.jsonl''" using assms by (auto simp: segment_name_def ends_with_iff)
  let ?slug = "take (length v - 27) v" and ?rest = "drop (length v - 27) v"
  have v: "27 < length v" "list_all slug_char ?slug" "hd ?rest = CHR ''-''" "list_all (\<lambda>c. c \<in> set ULID_ALPHABET) (tl ?rest)"
    using assms by (simp_all add: segment_name_def s Let_def)
  have "length ?rest = 27" using v(1) by simp
  then obtain u where u: "?rest = CHR ''-'' # u" "length u = 26" using v(3) by (cases ?rest) auto
  have "s = ?slug @ ?rest @ ''.jsonl''" unfolding s append_assoc [symmetric] append_take_drop_id ..
  moreover have "is_ulid u" using u v(4) by (auto simp: is_ulid_def list_all_iff)
  ultimately show ?thesis using that [of ?slug u] v(2) u(1) by simp
qed

lemma lower_slug: "slug_char c \<Longrightarrow> lower c = c"
proof -
  have "list_all (\<lambda>c. lower c = c) ''abcdefghijklmnopqrstuvwxyz0123456789-''" by code_simp
  then show "slug_char c \<Longrightarrow> lower c = c" unfolding slug_char_def list_all_iff by blast
qed

lemma lower_ulid_inj: "inj_on lower (set ULID_ALPHABET)"
proof -
  have "distinct (map lower ULID_ALPHABET)" by code_simp
  then show ?thesis unfolding distinct_map by blast
qed

lemma segment_name_case:
  assumes "segment_name s" and "segment_name t" and "to_lower s = to_lower t"
  shows "s = t"
proof -
  obtain a u where s: "s = a @ ''-'' @ u @ ''.jsonl''" "list_all slug_char a" "is_ulid u" using assms(1) by (rule segment_name_parts)
  obtain b w where t: "t = b @ ''-'' @ w @ ''.jsonl''" "list_all slug_char b" "is_ulid w" using assms(2) by (rule segment_name_parts)
  have lu: "length u = 26" "length w = 26" using s(3) t(3) by (simp_all add: is_ulid_def)
  have "length (to_lower s) = length (to_lower t)" using assms(3) by simp
  then have "length s = length t" unfolding to_lower_def length_map .
  then have len: "length a = length b" using lu unfolding s(1) t(1) by simp
  have "map lower a @ map lower (''-'' @ u @ ''.jsonl'') = map lower b @ map lower (''-'' @ w @ ''.jsonl'')"
    using assms(3) unfolding to_lower_def s(1) t(1) map_append .
  then have ab: "map lower a = map lower b" and uw: "map lower (''-'' @ u @ ''.jsonl'') = map lower (''-'' @ w @ ''.jsonl'')"
    using len by (metis append_eq_append_conv length_map)+
  have "map lower u = map lower w" using uw unfolding map_append append_same_eq same_append_eq .
  note eq = ab this
  have id: "map lower c = c" if "list_all slug_char c" for c
    by (rule map_idI) (use that lower_slug in \<open>simp add: list_all_iff\<close>)
  have "a = b" using eq(1) unfolding id [OF s(2)] id [OF t(2)] .
  moreover have "set u \<union> set w \<subseteq> set ULID_ALPHABET" using s(3) t(3) by (simp add: is_ulid_def)
  then have "inj_on lower (set u \<union> set w)" by (rule inj_on_subset [OF lower_ulid_inj])
  then have "u = w" using eq(2) inj_on_map_eq_map by metis
  ultimately show ?thesis unfolding s(1) t(1) by (rule arg_cong2)
qed

section \<open>The segments of a clean directory\<close>

definition seg_object :: "dir_object \<Rightarrow> bool" where
  "seg_object ob \<longleftrightarrow> do_name ob \<notin> set reserved_names \<and> do_kind ob = RegularFile \<and> \<not> ends_with (do_name ob) ''.lock''"

definition clean_object :: "dir_object \<Rightarrow> bool" where
  "clean_object ob \<longleftrightarrow> do_name ob \<in> set reserved_names
     \<or> do_kind ob = RegularFile \<and> (if ends_with (do_name ob) ''.lock'' then do_lock ob else segment_name (do_name ob))"

lemma discover_step_eq:
  "clean_object ob \<Longrightarrow> \<not> seg_object ob \<Longrightarrow> discover_step ob (vs, bad) = (vs, bad)"
  "clean_object ob \<Longrightarrow> seg_object ob \<Longrightarrow> to_lower (do_name ob) \<notin> to_lower ` set vs \<Longrightarrow> discover_step ob (vs, bad) = (vs @ [do_name ob], bad)"
  "\<not> clean_object ob \<or> seg_object ob \<and> to_lower (do_name ob) \<in> to_lower ` set vs \<Longrightarrow> \<exists>x. discover_step ob (vs, bad) = (vs, bad @ [x])"
proof -
  show "discover_step ob (vs, bad) = (vs, bad)" if "clean_object ob" "\<not> seg_object ob"
    using that by (auto simp: discover_step_def clean_object_def seg_object_def Let_def)
  show "discover_step ob (vs, bad) = (vs @ [do_name ob], bad)"
    if "clean_object ob" "seg_object ob" "to_lower (do_name ob) \<notin> to_lower ` set vs"
  proof -
    have "find (\<lambda>v. to_lower v = to_lower (do_name ob)) vs = None"
      unfolding find_None_iff using that(3) by (metis image_eqI)
    then show ?thesis using that(1,2) by (simp add: discover_step_def clean_object_def seg_object_def Let_def)
  qed
  show "\<exists>x. discover_step ob (vs, bad) = (vs, bad @ [x])"
    if h: "\<not> clean_object ob \<or> seg_object ob \<and> to_lower (do_name ob) \<in> to_lower ` set vs"
  proof (cases "clean_object ob")
    case False
    then show ?thesis by (cases "do_kind ob") (auto simp: discover_step_def clean_object_def Let_def)
  next
    case True
    then have s: "seg_object ob" "to_lower (do_name ob) \<in> to_lower ` set vs" using h by auto
    then obtain v where "find (\<lambda>v. to_lower v = to_lower (do_name ob)) vs = Some v"
      by (cases "find (\<lambda>v. to_lower v = to_lower (do_name ob)) vs") (auto simp: find_None_iff)
    then show ?thesis using True s(1) by (simp add: discover_step_def clean_object_def seg_object_def Let_def)
  qed
qed

lemma discover_fold_invalid: "\<exists>js. snd (fold discover_step xs st) = snd st @ js"
proof (induction xs arbitrary: st)
  case (Cons ob xs)
  obtain vs bad where st: "st = (vs, bad)" by fastforce
  have "\<exists>js. snd (discover_step ob st) = bad @ js"
    using discover_step_eq [of ob vs bad] unfolding st by (metis append_Nil2 snd_conv)
  then show ?case using Cons [of "discover_step ob st"] st by auto
qed simp

lemma discover_fold:
  "distinct (map to_lower vs) \<Longrightarrow>
     (snd (fold discover_step xs (vs, [])) = [] \<longleftrightarrow>
        (\<forall>ob\<in>set xs. clean_object ob) \<and> distinct (map to_lower (vs @ map do_name (filter seg_object xs))))
     \<and> (snd (fold discover_step xs (vs, [])) = [] \<longrightarrow>
        fst (fold discover_step xs (vs, [])) = vs @ map do_name (filter seg_object xs))"
proof (induction xs arbitrary: vs)
  case (Cons ob xs)
  consider "clean_object ob" "\<not> seg_object ob"
    | "clean_object ob" "seg_object ob" "to_lower (do_name ob) \<notin> to_lower ` set vs"
    | "\<not> clean_object ob \<or> seg_object ob \<and> to_lower (do_name ob) \<in> to_lower ` set vs" by blast
  then show ?case
  proof cases
    case 1
    then show ?thesis using Cons.IH [OF Cons.prems] by (simp add: discover_step_eq(1))
  next
    case 2
    have "distinct (map to_lower (vs @ [do_name ob]))" using Cons.prems 2(3) by auto
    from Cons.IH [OF this] show ?thesis using 2 by (simp add: discover_step_eq(2))
  next
    case 3
    then obtain x where x: "discover_step ob (vs, []) = (vs, [x])" using discover_step_eq(3) [of ob vs "[]"] by auto
    have "snd (fold discover_step (ob # xs) (vs, [])) \<noteq> []"
      using discover_fold_invalid [of xs "(vs, [x])"] by (auto simp: x)
    then show ?thesis using 3 by auto
  qed
qed simp

lemma discoverSegments_clean:
  "snd (discoverSegments obs) = [] \<longleftrightarrow>
     (\<forall>ob\<in>set obs. clean_object ob) \<and> distinct (map to_lower (map do_name (filter seg_object obs)))"
  "snd (discoverSegments obs) = [] \<Longrightarrow> set (fst (discoverSegments obs)) = do_name ` {ob \<in> set obs. seg_object ob}"
proof -
  let ?xs = "sort_key do_name obs"
  have "mset (filter seg_object ?xs) = mset (filter seg_object obs)"
    by simp
  then have m: "mset (map to_lower (map do_name (filter seg_object ?xs))) = mset (map to_lower (map do_name (filter seg_object obs)))"
    unfolding mset_map by simp
  have d: "distinct (map to_lower (map do_name (filter seg_object ?xs))) = distinct (map to_lower (map do_name (filter seg_object obs)))"
    using mset_eq_imp_distinct_iff [OF m] .
  show "snd (discoverSegments obs) = [] \<longleftrightarrow>
     (\<forall>ob\<in>set obs. clean_object ob) \<and> distinct (map to_lower (map do_name (filter seg_object obs)))"
    unfolding discoverSegments_def using discover_fold [of "[]" ?xs] d by simp
  show "snd (discoverSegments obs) = [] \<Longrightarrow> set (fst (discoverSegments obs)) = do_name ` {ob \<in> set obs. seg_object ob}"
    unfolding discoverSegments_def using discover_fold [of "[]" ?xs] by simp
qed

section \<open>The next entry of a segment\<close>

lemma segment_entry_ok:
  assumes "check_payload p = Inr ()"
  shows "is_plain_obj (segment_entry cd now p r s l)" "js_get ''seq'' (segment_entry cd now p r s l) = VNum (of_int s)"
    "js_get ''prev'' (segment_entry cd now p r s l) = prev_link cd l" "js_get ''sig'' (segment_entry cd now p r s l) = VUndefined"
    "js_has_own ''anchor'' (segment_entry cd now p r s l) \<longleftrightarrow> rs_isNew r"
    "rs_isNew r \<Longrightarrow> js_get ''anchor'' (segment_entry cd now p r s l) = rs_anchor r"
proof -
  have p: "is_plain_obj p" "js_keys p \<inter> set RESERVED_CHAIN_FIELDS = {}" using assms by (simp_all add: check_payload_Inr)
  let ?base = "js_spread [(''seq'', VNum (of_int s))] (normalized_payload now p)"
  have nk: "''seq'' \<notin> js_keys (normalized_payload now p)" "''sig'' \<notin> js_keys (normalized_payload now p)"
      "''anchor'' \<notin> js_keys (normalized_payload now p)"
    using p by (auto simp: normalized_keys RESERVED_CHAIN_FIELDS_def)
  have b: "js_get ''seq'' ?base = VNum (of_int s)" "js_get ''sig'' ?base = VUndefined"
    using nk by (simp_all add: spread_get) (simp_all add: js_get_def)
  show "is_plain_obj (segment_entry cd now p r s l)"
    by (simp add: segment_entry_def Let_def split: option.splits)
  show "js_get ''seq'' (segment_entry cd now p r s l) = VNum (of_int s)"
    using b by (simp add: segment_entry_def Let_def split: option.splits)
  show "js_get ''prev'' (segment_entry cd now p r s l) = prev_link cd l"
    by (simp add: segment_entry_def Let_def split: option.splits)
  show "js_get ''sig'' (segment_entry cd now p r s l) = VUndefined"
    using b by (simp add: segment_entry_def Let_def split: option.splits)
  show "js_has_own ''anchor'' (segment_entry cd now p r s l) \<longleftrightarrow> rs_isNew r"
    using nk by (simp add: segment_entry_def Let_def js_has_own_keys split: option.splits)
  show "rs_isNew r \<Longrightarrow> js_get ''anchor'' (segment_entry cd now p r s l) = rs_anchor r"
    by (simp add: segment_entry_def Let_def split: option.splits)
qed

lemma appendLockedEntry_Inr:
  assumes "appendLockedEntry cd now v2 key r p content = Inr (e, content')" and "chain_ok cd key rs aof (raw_lines content)"
  shows "rs_isNew r \<longleftrightarrow> raw_lines content = []" and "content' = content @ json_line cd e"
    and "sign_chained cd key (rs_isNew r \<or> v2) (segment_entry cd now p r (int (length (raw_lines content)) + 1)
          (if raw_lines content = [] then None else Some (last (raw_lines content)))) = Inr e"
proof -
  let ?ls = "raw_lines content"
  show new: "rs_isNew r \<longleftrightarrow> ?ls = []"
    using assms(1) by (cases "?ls = []"; cases "rs_isNew r") (simp_all add: appendLockedEntry_def Let_def)
  have "chain_entries cd ?ls = Some (le_entries (parseLedger cd content))" using parseLedger_chain(1) [OF assms(2)] .
  then have es: "map (\<lambda>l. the (parseJson cd l)) ?ls = le_entries (parseLedger cd content)"
    and all: "list_all (\<lambda>l. parseJson cd l \<noteq> None) ?ls"
    by (auto simp: chain_entries_def split: if_splits)
  have "find (\<lambda>i. parseJson cd (?ls ! i) = None) [0..<length ?ls] = None"
    using all by (auto simp: find_None_iff list_all_length)
  then have "bind_res (next_seq (last_entry (map (\<lambda>l. the (parseJson cd l)) ?ls))) (\<lambda>s.
      bind_res (sign_chained cd key (rs_isNew r \<or> v2)
          (segment_entry cd now p r s (if ?ls = [] then None else Some (last ?ls)))) (\<lambda>e. Inr (e, content @ json_line cd e)))
      = Inr (e, content')"
    using assms(1) new by (cases "rs_isNew r") (simp_all add: appendLockedEntry_def Let_def)
  then show "content' = content @ json_line cd e"
    "sign_chained cd key (rs_isNew r \<or> v2) (segment_entry cd now p r (int (length ?ls) + 1)
          (if ?ls = [] then None else Some (last ?ls))) = Inr e"
    unfolding es parseLedger_chain(2) [OF assms(2)] by (auto simp: bind_res_eq_Inr)
qed

lemma appendLockedEntry_chain:
  assumes app: "appendLockedEntry cd now v2 key r p content = Inr (e, content')" and p: "check_payload p = Inr ()"
    and hm: "\<And>k b. hmac cd k b \<noteq> []" and rb: "reads_back cd e" and el: "ends_line content"
    and ok: "chain_ok cd key rs True (raw_lines content)"
  shows "raw_lines content' = raw_lines content @ [stringifyJson cd e]" and "chain_ok cd key rs True (raw_lines content')"
    and "ends_line content'" and "rs_isNew r \<Longrightarrow> js_get ''anchor'' e = rs_anchor r"
proof -
  let ?ls = "raw_lines content"
  note a = appendLockedEntry_Inr [OF app ok]
  let ?c = "segment_entry cd now p r (int (length ?ls) + 1) (if ?ls = [] then None else Some (last ?ls))"
  note c = segment_entry_ok [OF p, where cd = cd and now = now and r = r and s = "int (length ?ls) + 1"
      and l = "if ?ls = [] then None else Some (last ?ls)"]
  obtain k where k: "key = None \<or> key = Some k" by (cases key) auto
  note s = sign_chained_ok [OF a(3) c(1) hm c(4) k]
  have l: "clean_line (stringifyJson cd e)" "parseJson cd (stringifyJson cd e) = Some e" using rb by (simp_all add: reads_back_def)
  show rl: "raw_lines content' = ?ls @ [stringifyJson cd e]" and "ends_line content'"
    using raw_lines_append [OF el l(1)] by (simp_all add: a(2) json_line_def)
  have "js_get ''seq'' e = VNum (of_nat (Suc (length ?ls)))" unfolding s(2) c(2) by simp
  moreover have "js_get ''prev'' e = (if ?ls = [] then VNull else VStr (sha256 cd (last ?ls)))"
    unfolding s(3) c(3) by (simp add: prev_link_def)
  moreover have "js_has_own ''anchor'' e \<longleftrightarrow> ?ls = []" unfolding s(4) c(5) using a(1) .
  ultimately have link: "link_ok cd True (?ls @ [stringifyJson cd e]) (length ?ls) e"
    using s(1) by (auto simp: link_ok_def nth_append last_conv_nth)
  show "chain_ok cd key rs True (raw_lines content')" unfolding rl by (rule chain_ok_snoc [OF ok l(2) link s(6)])
  show "rs_isNew r \<Longrightarrow> js_get ''anchor'' e = rs_anchor r" unfolding s(5) using c(6) .
qed

section \<open>The segment a writer resolves\<close>

lemma peek_known: "peekOpenSegment b token f = Some s \<Longrightarrow> s \<in> set (fst (discoverSegments (fo_objects f)))"
  by (auto simp: peekOpenSegment_def split: option.splits jsval.splits if_splits)

lemma candidates_known: "branch_candidates cd f b names = Inr cs \<Longrightarrow> set cs \<subseteq> set names"
proof (induction names arbitrary: cs)
  case (Cons n names)
  then show ?case by (auto simp: bind_res_eq_Inr split: first_entry.splits if_splits)
qed simp

lemma recover_known:
  assumes "recoverOpenSegment cd b token f = Inr (Some s)"
  shows "s \<in> set (fst (discoverSegments (fo_objects f)))"
proof (cases "peekOpenSegment b token f")
  case (Some t)
  then show ?thesis using assms peek_known by (simp add: recoverOpenSegment_def)
next
  case None
  obtain b' where b: "b = Some b'" using assms None by (cases b) (auto simp: recoverOpenSegment_def)
  obtain cs where cs: "branch_candidates cd f b' (fst (discoverSegments (fo_objects f))) = Inr cs"
    using assms None unfolding recoverOpenSegment_def b
    by (cases "branch_candidates cd f b' (fst (discoverSegments (fo_objects f)))") (auto simp: Let_def split: if_splits)
  have "cs = [s]"
    using assms None unfolding recoverOpenSegment_def b by (auto simp: Let_def cs split: if_splits list.splits)
  then show ?thesis using candidates_known [OF cs] by simp
qed

lemma resolve_cases:
  assumes "resolveOpenSegment cd key wr f = Inr (r, token)"
  shows "(r = open_resolved (rs_name r) \<and> rs_name r \<in> set (fst (discoverSegments (fo_objects f))) \<and> token = wr_token wr)
    \<or> (rs_isNew r \<and> rs_anchor r = fork_anchor cd f
        \<and> rs_name r = deriveSlug (case wr_branch wr of None \<Rightarrow> [] | Some b \<Rightarrow> b) @ ''-'' @ wr_ulid wr @ ''.jsonl'')"
proof -
  have mint: "?thesis" if "(let name = deriveSlug (case wr_branch wr of None \<Rightarrow> [] | Some b \<Rightarrow> b) @ ''-'' @ wr_ulid wr @ ''.jsonl''
         in if \<not> wr_committable wr name then Inl (NotCommittable name)
            else Inr (\<lparr>rs_name = name, rs_isNew = True, rs_anchor = fork_anchor cd f, rs_branch = wr_branch wr\<rparr>,
              case wr_branch wr of
                None \<Rightarrow> wr_token wr
              | Some b \<Rightarrow> VObj [(''segment'', VStr name), (''ulid'', VStr (wr_ulid wr)), (''branch'', VStr b)])) = Inr (r, token)"
    using that by (auto simp: Let_def split: if_splits)
  have opened: "?thesis" if "r = open_resolved s" "token = wr_token wr" "s \<in> set (fst (discoverSegments (fo_objects f)))" for s
    using that by (simp add: open_resolved_def)
  show ?thesis
  proof (cases "peekOpenSegment (wr_branch wr) (wr_token wr) f")
    case (Some s)
    then show ?thesis using assms opened [of s] peek_known by (auto simp: resolveOpenSegment_def Let_def split: if_splits)
  next
    case None
    show ?thesis
    proof (cases key)
      case (Some k)
      show ?thesis
      proof (cases "recoverOpenSegment cd (wr_branch wr) (wr_token wr) f")
        case (Inr rec)
        show ?thesis
        proof (cases rec)
          case rec: None
          show ?thesis by (rule mint) (use assms None Some Inr rec in \<open>simp add: resolveOpenSegment_def Let_def split: if_splits\<close>)
        next
          case rec: (Some s)
          have "r = open_resolved s" "token = wr_token wr"
            using assms None Some Inr rec by (auto simp: resolveOpenSegment_def Let_def bind_res_eq_Inr)
          then show ?thesis using opened recover_known [OF Inr [unfolded rec]] by blast
        qed
      qed (use assms None Some in \<open>simp add: resolveOpenSegment_def Let_def\<close>)
    next
      case key: None
      show ?thesis by (rule mint)
        (use assms None key in \<open>simp add: resolveOpenSegment_def Let_def split: if_splits sum.splits option.splits\<close>)
    qed
  qed
qed

section \<open>Appends keep the forest sound\<close>

lemma fork_anchor_cases:
  assumes "chain_ok cd key rs False (forest_chain f ''root'')"
  shows "if forest_chain f ''root'' = [] then fork_anchor cd f = VNull
    else fork_anchor cd f = VObj [(''segment'', VStr ''root''), (''seq'', VNum (of_nat (length (forest_chain f ''root'')))),
       (''lineHash'', VStr (sha256 cd (last (forest_chain f ''root''))))]"
proof (cases "forest_chain f ''root'' = []")
  case False
  let ?ls = "raw_lines (fo_root f)"
  have fr: "forest_chain f ''root'' = ?ls" by (simp add: forest_chain_def)
  then have n: "length ?ls - 1 < length ?ls" "length ?ls = Suc (length ?ls - 1)" using False by auto
  obtain e where e: "parseJson cd (?ls ! (length ?ls - 1)) = Some e" "link_ok cd False ?ls (length ?ls - 1) e"
    using chain_ok_at [OF assms, of "length ?ls - 1"] n unfolding fr by blast
  have "is_plain_obj e" "js_get ''seq'' e = VNum (of_nat (length ?ls))" using e(2) n(2) by (simp_all add: link_ok_def)
  moreover from this(1) have "js_truthy e" by (auto simp: js_truthy_def is_plain_obj_def)
  ultimately show ?thesis
    using False e(1) by (simp add: fork_anchor_def Let_def fr last_conv_nth)
qed (simp add: fork_anchor_def forest_chain_def Let_def)

lemma anchor_rel_forest:
  assumes "distinct names"
  shows "anchor_rel (forest_anchors cd f names) = {(i, j). i \<in> set names \<and> j \<in> set names \<and> anchor_target (segment_anchor cd f i) = Some j}"
proof -
  have "map_of (forest_anchors cd f names) = (Some \<circ> (\<lambda>s. anchor_target (segment_anchor cd f s))) |` set names"
    unfolding forest_anchors_def by (rule map_of_map_restrict)
  then show ?thesis by (auto simp: anchor_rel_def restrict_map_def split: if_splits)
qed

lemma anchor_holds_target:
  "anchor_holds cd f names a \<Longrightarrow> anchor_target a = Some j \<Longrightarrow> j \<in> insert ''root'' (set names)"
  by (auto simp: anchor_holds_def anchor_target_def anchor_segment_def split: if_splits)

lemma anchor_holds_grow:
  assumes "anchor_holds cd f names a" and "forest_chain f' ''root'' = forest_chain f ''root''"
    and "\<And>s. s \<in> set names \<Longrightarrow> \<exists>ls. forest_chain f' s = forest_chain f s @ ls" and "set names \<subseteq> set names'"
  shows "anchor_holds cd f' names' a"
proof (cases "a = VNull")
  case False
  then obtain s n where s: "js_get ''segment'' a = VStr s" "js_get ''seq'' a = VNum (of_nat (Suc n))"
      "s \<in> insert ''root'' (set names)" "n < length (forest_chain f s)" "js_get ''lineHash'' a = VStr (sha256 cd (forest_chain f s ! n))"
    using assms(1) by (auto simp: anchor_holds_def)
  obtain ls where "forest_chain f' s = forest_chain f s @ ls" using s(3) assms(2,3) by (cases "s = ''root''") auto
  then have "n < length (forest_chain f' s) \<and> forest_chain f' s ! n = forest_chain f s ! n"
    using s(4) by (simp add: nth_append)
  then show ?thesis using False s assms(4) unfolding anchor_holds_def by auto
qed (use assms(1,2) in \<open>simp add: anchor_holds_def\<close>)

lemma forest_ok_grow:
  assumes ok: "forest_ok cd key rs f" and clean: "snd (discoverSegments (fo_objects f')) = []"
    and names: "set (fst (discoverSegments (fo_objects f))) \<subseteq> set (fst (discoverSegments (fo_objects f')))"
    and rt: "forest_chain f' ''root'' = forest_chain f ''root''"
    and grow: "\<And>s. s \<in> set (fst (discoverSegments (fo_objects f))) \<Longrightarrow> \<exists>ls. forest_chain f' s = forest_chain f s @ ls"
    and chains: "\<And>s. s \<in> set (fst (discoverSegments (fo_objects f'))) \<Longrightarrow>
        forest_chain f' s \<noteq> [] \<and> chain_ok cd key rs True (forest_chain f' s)"
    and new: "\<And>s. s \<in> set (fst (discoverSegments (fo_objects f'))) \<Longrightarrow> s \<notin> set (fst (discoverSegments (fo_objects f))) \<Longrightarrow>
        segment_anchor cd f' s = fork_anchor cd f"
  shows "forest_ok cd key rs f'"
proof -
  let ?old = "fst (discoverSegments (fo_objects f))" and ?names = "fst (discoverSegments (fo_objects f'))"
  have root_ok: "chain_ok cd key rs False (forest_chain f ''root'')"
    and old: "\<And>s. s \<in> set ?old \<Longrightarrow> forest_chain f s \<noteq> [] \<and> anchor_holds cd f ?old (segment_anchor cd f s)"
    and acyc: "acyclic (anchor_rel (forest_anchors cd f ?old))"
    using ok by (simp_all add: forest_ok_def Let_def)
  have same: "segment_anchor cd f' s = segment_anchor cd f s" if "s \<in> set ?old" for s
    using grow [OF that] old [OF that] by (auto simp: segment_anchor_def hd_append)
  note fa = fork_anchor_cases [OF root_ok]
  have target: "anchor_target (fork_anchor cd f) \<in> {None, Some ''root''}"
    using fa by (auto simp: anchor_target_def anchor_segment_def js_get_def split: if_splits)
  have forked: "anchor_holds cd f' ?names (fork_anchor cd f)"
  proof (cases "forest_chain f ''root'' = []")
    case True
    then show ?thesis using fa rt by (simp add: anchor_holds_def)
  next
    case False
    let ?n = "length (forest_chain f ''root'') - 1"
    have n: "?n < length (forest_chain f ''root'')" "length (forest_chain f ''root'') = Suc ?n" using False by auto
    have a: "fork_anchor cd f = VObj [(''segment'', VStr ''root''), (''seq'', VNum (of_nat (Suc ?n))),
       (''lineHash'', VStr (sha256 cd (forest_chain f' ''root'' ! ?n)))]"
      using fa False n(2) by (simp add: last_conv_nth rt)
    have "js_get ''segment'' (fork_anchor cd f) = VStr ''root''" "js_get ''seq'' (fork_anchor cd f) = VNum (of_nat (Suc ?n))"
      "js_get ''lineHash'' (fork_anchor cd f) = VStr (sha256 cd (forest_chain f' ''root'' ! ?n))" "fork_anchor cd f \<noteq> VNull"
      unfolding a js_get_def by simp_all
    then have "\<exists>s n. js_get ''segment'' (fork_anchor cd f) = VStr s \<and> js_get ''seq'' (fork_anchor cd f) = VNum (of_nat (Suc n))
        \<and> s \<in> insert ''root'' (set ?names) \<and> n < length (forest_chain f' s)
        \<and> js_get ''lineHash'' (fork_anchor cd f) = VStr (sha256 cd (forest_chain f' s ! n))"
      using n(1) rt by (intro exI [of _ "''root''"] exI [of _ ?n]) simp
    then show ?thesis using \<open>fork_anchor cd f \<noteq> VNull\<close> unfolding anchor_holds_def by simp
  qed
  have holds: "anchor_holds cd f' ?names (segment_anchor cd f' s)" if "s \<in> set ?names" for s
  proof (cases "s \<in> set ?old")
    case True
    then show ?thesis using anchor_holds_grow [OF conjunct2 [OF old [OF True]] rt grow names] same by simp
  qed (use new that forked in simp)
  have "anchor_rel (forest_anchors cd f' ?names) \<subseteq> anchor_rel (forest_anchors cd f ?old)"
  proof -
    have nr: "''root'' \<notin> set ?names" using discoverSegments_names(1) by blast
    have "i \<in> set ?old \<and> j \<in> set ?old \<and> anchor_target (segment_anchor cd f i) = Some j"
      if ij: "i \<in> set ?names" "j \<in> set ?names" "anchor_target (segment_anchor cd f' i) = Some j" for i j
    proof -
      have "i \<in> set ?old"
      proof (rule ccontr)
        assume "i \<notin> set ?old"
        then have "anchor_target (fork_anchor cd f) = Some j" using new ij by simp
        then show False using target nr ij(2) by auto
      qed
      then have "anchor_target (segment_anchor cd f i) = Some j" using same ij(3) by simp
      moreover have "j \<in> insert ''root'' (set ?old)"
        using anchor_holds_target [OF conjunct2 [OF old [OF \<open>i \<in> set ?old\<close>]] calculation] .
      ultimately show ?thesis using \<open>i \<in> set ?old\<close> nr ij(2) by auto
    qed
    then show ?thesis unfolding anchor_rel_forest [OF discoverSegments_names(2)] by blast
  qed
  then have "acyclic (anchor_rel (forest_anchors cd f' ?names))" by (rule acyclic_subset [OF acyc])
  then show ?thesis using clean root_ok rt chains holds by (simp add: forest_ok_def Let_def)
qed

text \<open>The forest after an append.\<close>

definition apply_append :: "appended \<Rightarrow> forest \<Rightarrow> forest" where
  "apply_append a f = (case ap_file a of
      None \<Rightarrow> f\<lparr>fo_root := ap_content a\<rparr>
    | Some n \<Rightarrow> f\<lparr>fo_objects := (if n \<in> do_name ` set (fo_objects f) then fo_objects f
            else fo_objects f @ [\<lparr>do_name = n, do_kind = RegularFile, do_lock = False\<rparr>]),
         fo_content := (fo_content f)(n := ap_content a)\<rparr>)"

lemma segment_name_plain:
  assumes "segment_name n"
  shows "\<not> ends_with n ''.lock''" and "n \<notin> set reserved_names"
proof -
  obtain slug u where n: "n = slug @ ''-'' @ u @ ''.jsonl''" "is_ulid u" using assms by (rule segment_name_parts)
  show "\<not> ends_with n ''.lock''"
  proof
    assume "ends_with n ''.lock''"
    then obtain w where "n = w @ ''.lock''" by (auto simp: ends_with_iff)
    then have "last n = CHR ''k''" by simp
    then show False by (simp add: n)
  qed
  have "34 \<le> length n" using assms by (simp add: segment_name_def)
  then show "n \<notin> set reserved_names" by (auto simp: reserved_names_def)
qed

lemma discover_new_segment:
  assumes "snd (discoverSegments obs) = []" and "segment_name n" and "n \<notin> do_name ` set obs"
  shows "snd (discoverSegments (obs @ [\<lparr>do_name = n, do_kind = RegularFile, do_lock = False\<rparr>])) = []"
    and "set (fst (discoverSegments (obs @ [\<lparr>do_name = n, do_kind = RegularFile, do_lock = False\<rparr>]))) = insert n (set (fst (discoverSegments obs)))"
proof -
  let ?ob = "\<lparr>do_name = n, do_kind = RegularFile, do_lock = False\<rparr>"
  note plain = segment_name_plain [OF assms(2)]
  have seg: "seg_object ?ob" using plain by (simp add: seg_object_def)
  have cl: "clean_object ?ob" using plain assms(2) by (simp add: clean_object_def)
  have d: "\<forall>ob\<in>set obs. clean_object ob" "distinct (map to_lower (map do_name (filter seg_object obs)))"
    using assms(1) by (simp_all add: discoverSegments_clean(1))
  have "to_lower n \<noteq> to_lower (do_name ob)" if "ob \<in> set obs" "seg_object ob" for ob
  proof
    assume eq: "to_lower n = to_lower (do_name ob)"
    have "segment_name (do_name ob)" using d(1) that by (auto simp: clean_object_def seg_object_def)
    then show False using segment_name_case [OF assms(2) _ eq] assms(3) that(1) by auto
  qed
  then have "distinct (map to_lower (map do_name (filter seg_object (obs @ [?ob]))))"
    using d(2) seg by auto
  then show clean: "snd (discoverSegments (obs @ [?ob])) = []"
    using d(1) cl by (simp add: discoverSegments_clean(1))
  show "set (fst (discoverSegments (obs @ [?ob]))) = insert n (set (fst (discoverSegments obs)))"
    using seg unfolding discoverSegments_clean(2) [OF clean] discoverSegments_clean(2) [OF assms(1)] by force
qed

lemma appendToSegment_Inr:
  assumes "appendToSegment cd v2 key wr f p = Inr a"
  obtains r token e content where "forest_ok cd key False f" "resolveOpenSegment cd key wr f = Inr (r, token)"
    "appendLockedEntry cd (wr_now wr) v2 key r p (if rs_name r \<in> do_name ` set (fo_objects f) then fo_content f (rs_name r) else []) = Inr (e, content)"
    "a = \<lparr>ap_entry = e, ap_file = Some (rs_name r), ap_content = content, ap_token = token\<rparr>"
proof -
  obtain i where i: "verify cd key False False f = Inr i" "fr_valid i"
    using assms by (cases "verify cd key False False f") (auto simp: appendToSegment_def lift_json_def split: if_splits)
  obtain r token where r: "resolveOpenSegment cd key wr f = Inr (r, token)"
    using assms i by (auto simp: appendToSegment_def bind_res_eq_Inr lift_json_def)
  let ?c = "if rs_name r \<in> do_name ` set (fo_objects f) then fo_content f (rs_name r) else []"
  obtain e content where e: "appendLockedEntry cd (wr_now wr) v2 key r p ?c = Inr (e, content)"
    using assms i r by (auto simp: appendToSegment_def bind_res_eq_Inr lift_json_def)
  have "a = \<lparr>ap_entry = e, ap_file = Some (rs_name r), ap_content = content, ap_token = token\<rparr>"
    using assms i r e by (simp add: appendToSegment_def lift_json_def)
  then show ?thesis using that verify_forest_ok [OF i] r e by blast
qed

text \<open>A segment writer, with what it may rely on: signatures are not empty, the text of the new entry
  reads back, the files end with a line break, and the minted name is a ULID name.\<close>

lemma appendToSegment_ok:
  assumes app: "appendToSegment cd v2 key wr f p = Inr a" and p: "check_payload p = Inr ()"
    and hm: "\<And>k b. hmac cd k b \<noteq> []" and rb: "reads_back cd (ap_entry a)"
    and el: "\<forall>n. ends_line (fo_content f n)" and u: "is_ulid (wr_ulid wr)"
  shows "forest_ok cd key False (apply_append a f)" and "\<forall>n. ends_line (fo_content (apply_append a f) n)"
    and "\<exists>n l. ap_file a = Some n \<and> forest_chain (apply_append a f) n = (if n \<in> set (fst (discoverSegments (fo_objects f))) then forest_chain f n else []) @ [l]
      \<and> (\<forall>s. s \<noteq> n \<longrightarrow> forest_chain (apply_append a f) s = forest_chain f s)"
proof -
  obtain r token e content where ok: "forest_ok cd key False f" and res: "resolveOpenSegment cd key wr f = Inr (r, token)"
    and locked: "appendLockedEntry cd (wr_now wr) v2 key r p (if rs_name r \<in> do_name ` set (fo_objects f) then fo_content f (rs_name r) else []) = Inr (e, content)"
    and a: "a = \<lparr>ap_entry = e, ap_file = Some (rs_name r), ap_content = content, ap_token = token\<rparr>"
    using app by (rule appendToSegment_Inr)
  let ?n = "rs_name r" and ?names = "fst (discoverSegments (fo_objects f))" and ?f' = "apply_append a f"
  let ?c = "if ?n \<in> do_name ` set (fo_objects f) then fo_content f ?n else []"
  have clean: "snd (discoverSegments (fo_objects f)) = []"
    and seg: "\<And>s. s \<in> set ?names \<Longrightarrow> forest_chain f s \<noteq> [] \<and> chain_ok cd key False True (forest_chain f s)"
    using ok by (simp_all add: forest_ok_def Let_def)
  have nr: "s \<noteq> ''root''" if "s \<in> set ?names" for s using discoverSegments_names(1) [OF that] .
  have fc: "forest_chain f s = raw_lines (fo_content f s)" if "s \<in> set ?names" for s
    using nr [OF that] by (simp add: forest_chain_def)
  have known: "s \<in> do_name ` set (fo_objects f)" if "s \<in> set ?names" for s
    using that discoverSegments_clean(2) [OF clean] by auto
  have nil: "chain_ok cd key False True []" by (simp add: chain_ok_def chain_entries_def)
  have name: "segment_name ?n"
    using resolve_cases [OF res] minted_name(1) [OF u] discoverSegments_ok [of "fo_objects f"] by (auto simp: names_ok_def)
  text \<open>An object with the minted name would be a segment of the clean directory, with lines.\<close>
  have obj: "?n \<in> set ?names" if inobj: "?n \<in> do_name ` set (fo_objects f)"
  proof -
    obtain ob where ob: "ob \<in> set (fo_objects f)" "do_name ob = ?n" using inobj by auto
    have "clean_object ob" using clean ob(1) by (simp add: discoverSegments_clean(1))
    then have "seg_object ob" using ob(2) segment_name_plain [OF name] by (auto simp: seg_object_def clean_object_def)
    then have "do_name ob \<in> set ?names" using ob(1) unfolding discoverSegments_clean(2) [OF clean] by blast
    then show ?thesis unfolding ob(2) .
  qed
  have cok: "chain_ok cd key False True (raw_lines ?c)" and elc: "ends_line ?c"
    using obj seg fc nil el by (auto simp: raw_lines_def trim_Nil ends_line_def)
  have rb': "reads_back cd e" using rb by (simp add: a)
  note l = appendLockedEntry_chain [OF locked p hm rb' elc cok]
  have nroot: "?n \<noteq> ''root''" using name by (rule segment_not_root)
  have content: "fo_content ?f' = (fo_content f)(?n := content)" and rt: "fo_root ?f' = fo_root f"
    and objs: "fo_objects ?f' = (if ?n \<in> do_name ` set (fo_objects f) then fo_objects f
            else fo_objects f @ [\<lparr>do_name = ?n, do_kind = RegularFile, do_lock = False\<rparr>])"
    by (simp_all add: apply_append_def a)
  show "\<forall>n. ends_line (fo_content ?f' n)" using el l(3) by (simp add: content)
  have other: "forest_chain ?f' s = forest_chain f s" if "s \<noteq> ?n" for s
    using that by (simp add: forest_chain_def content rt)
  have this_chain: "forest_chain ?f' ?n = raw_lines ?c @ [stringifyJson cd e]"
    using nroot l(1) by (simp add: forest_chain_def content)
  have clean': "snd (discoverSegments (fo_objects ?f')) = []" and names': "set (fst (discoverSegments (fo_objects ?f'))) = insert ?n (set ?names)"
    using discover_new_segment [OF clean name] clean obj by (auto simp: objs)
  have old_n: "raw_lines ?c = forest_chain f ?n" if "?n \<in> set ?names" using that known fc by simp
  have new_n: "raw_lines ?c = []" if "?n \<notin> set ?names" using that obj by (auto simp: raw_lines_def trim_Nil)
  show "\<exists>n l. ap_file a = Some n \<and> forest_chain ?f' n = (if n \<in> set ?names then forest_chain f n else []) @ [l]
      \<and> (\<forall>s. s \<noteq> n \<longrightarrow> forest_chain ?f' s = forest_chain f s)"
    using other this_chain old_n new_n by (auto simp: a)
  show "forest_ok cd key False ?f'"
  proof (rule forest_ok_grow [OF ok clean'])
    show "set ?names \<subseteq> set (fst (discoverSegments (fo_objects ?f')))" using names' by blast
    show "forest_chain ?f' ''root'' = forest_chain f ''root''" using other nroot by metis
    show "\<exists>ls. forest_chain ?f' s = forest_chain f s @ ls" if "s \<in> set ?names" for s
      using other old_n this_chain that by (cases "s = ?n") auto
    show "forest_chain ?f' s \<noteq> [] \<and> chain_ok cd key False True (forest_chain ?f' s)"
      if "s \<in> set (fst (discoverSegments (fo_objects ?f')))" for s
    proof (cases "s = ?n")
      case True
      have "forest_chain ?f' s = raw_lines content" using True nroot by (simp add: forest_chain_def content)
      then show ?thesis using l(1,2) by simp
    qed (use that names' other seg in auto)
    show "segment_anchor cd ?f' s = fork_anchor cd f"
      if s: "s \<in> set (fst (discoverSegments (fo_objects ?f')))" "s \<notin> set ?names" for s
    proof -
      have sn: "s = ?n" using s names' by blast
      then have c: "raw_lines ?c = []" using new_n s(2) by blast
      have "rs_isNew r" "rs_anchor r = fork_anchor cd f" using resolve_cases [OF res] s(2) sn by (auto simp: open_resolved_def)
      then have "js_get ''anchor'' e = fork_anchor cd f" using l(4) by simp
      then show ?thesis using this_chain c rb' by (simp add: segment_anchor_def sn reads_back_def)
    qed
  qed
qed

section \<open>Any writer of the manifest\<close>

text \<open>One successful \<open>appendManifestEntry\<close>, by a writer on any branch, at any time, that may have looked
  at the repository before it waited for the lock.\<close>

inductive manifest_append :: "codec \<Rightarrow> jsval \<Rightarrow> forest \<Rightarrow> forest \<Rightarrow> bool" for cd keyParam where
  "appendManifestEntry cd v2 keyParam wr f0 f p = Inr a \<Longrightarrow> reads_back cd (ap_entry a) \<Longrightarrow> is_ulid (wr_ulid wr) \<Longrightarrow>
     manifest_append cd keyParam f (apply_append a f)"

inductive_cases manifest_appendE: "manifest_append cd keyParam f f'"

definition sound_files :: "codec \<Rightarrow> string option \<Rightarrow> forest \<Rightarrow> bool" where
  "sound_files cd key f \<longleftrightarrow> (\<forall>k b. hmac cd k b \<noteq> []) \<and> ends_line (fo_root f) \<and> (\<forall>n. ends_line (fo_content f n))
     \<and> forest_ok cd key False f"

definition chain_names :: "forest \<Rightarrow> string set" where
  "chain_names f = insert ''root'' (set (fst (discoverSegments (fo_objects f))))"

lemma append_root_single:
  assumes "append_root cd now v2 key marker f p = Inr (es, c)"
  shows "\<exists>e. es = [e]"
  using assms by (rule append_root_Inr) blast

lemma manifest_append_ok:
  assumes "manifest_append cd keyParam f f'" and "validateKeyParam keyParam = Inr key" and "sound_files cd key f"
  shows "sound_files cd key f' \<and> chain_names f \<subseteq> chain_names f'
    \<and> (\<forall>s\<in>chain_names f. \<exists>ls. forest_chain f' s = forest_chain f s @ ls)"
proof -
  from assms(1) obtain v2 wr f0 p a where app: "appendManifestEntry cd v2 keyParam wr f0 f p = Inr a"
    and rb: "reads_back cd (ap_entry a)" and u: "is_ulid (wr_ulid wr)" and f': "f' = apply_append a f"
    by (rule manifest_appendE)
  have hm: "\<And>k b. hmac cd k b \<noteq> []" and el: "ends_line (fo_root f)" "\<forall>n. ends_line (fo_content f n)" and ok: "forest_ok cd key False f"
    using assms(3) by (simp_all add: sound_files_def)
  have p: "check_payload p = Inr ()"
    using app assms(2) by (cases "check_payload p") (simp_all add: appendManifestEntry_def)
  show ?thesis
  proof (cases "isSegmentedRepo cd (wr_marker wr) f0")
    case True
    then have seg: "appendToSegment cd v2 key wr f p = Inr a" using app assms(2) p by (simp add: appendManifestEntry_def)
    note s = appendToSegment_ok [OF seg p hm rb el(2) u, folded f']
    obtain n l where n: "ap_file a = Some n" and
      grow: "forest_chain f' n = (if n \<in> set (fst (discoverSegments (fo_objects f))) then forest_chain f n else []) @ [l]"
        "\<forall>s. s \<noteq> n \<longrightarrow> forest_chain f' s = forest_chain f s" using s(3) by blast
    have rt: "fo_root f' = fo_root f" using n by (simp add: f' apply_append_def)
    have "forest_chain f' ''root'' = forest_chain f ''root''" using rt by (simp add: forest_chain_def)
    then have chains: "\<exists>ls. forest_chain f' s = forest_chain f s @ ls" if "s \<in> chain_names f" for s
      using that grow by (cases "s = ''root''"; cases "s = n") (auto simp: chain_names_def)
    have "set (fo_objects f) \<subseteq> set (fo_objects f')" using n by (auto simp: f' apply_append_def)
    moreover have "snd (discoverSegments (fo_objects f)) = []" "snd (discoverSegments (fo_objects f')) = []"
      using ok s(1) by (simp_all add: forest_ok_def Let_def)
    ultimately have "chain_names f \<subseteq> chain_names f'"
      by (auto simp: chain_names_def discoverSegments_clean(2))
    then show ?thesis using chains s(1,2) hm el(1) rt by (simp add: sound_files_def)
  next
    case False
    then obtain es c where r: "append_root cd (wr_now wr) v2 key (wr_marker wr) f p = Inr (es, c)"
      and a: "a = \<lparr>ap_entry = hd es, ap_file = None, ap_content = c, ap_token = wr_token wr\<rparr>"
      using app assms(2) p by (auto simp: appendManifestEntry_def bind_res_eq_Inr)
    obtain e where e: "es = [e]" using append_root_single [OF r] by blast
    have f'': "f' = f\<lparr>fo_root := c\<rparr>" by (simp add: f' a apply_append_def)
    have "root_append cd key (wr_marker wr) f f'"
      unfolding f'' using root_append.intros [OF p] r rb by (simp add: a e)
    moreover have "root_acceptable cd key f" using hm el(1) ok by (simp add: root_acceptable_def)
    ultimately have "root_acceptable cd key f'" "\<exists>l. forest_chain f' ''root'' = forest_chain f ''root'' @ [l]"
      using root_append_ok by blast+
    moreover from this have "\<exists>ls. forest_chain f' s = forest_chain f s @ ls" for s
      by (cases "s = ''root''") (auto simp: f'' forest_chain_def)
    ultimately show ?thesis
      using el(2) by (simp add: sound_files_def root_acceptable_def chain_names_def f'')
  qed
qed

interpretation manifest_log: append_log "\<lambda>f. sound_files cd key f \<and> validateKeyParam keyParam = Inr key \<and> s \<in> chain_names f"
    "\<lambda>f. forest_chain f s" "manifest_append cd keyParam"
  for cd key keyParam s
  by unfold_locales (use manifest_append_ok in blast)+

section \<open>Properties\<close>

text \<open>C28: The gate manifest is an append-only log, for files whose last line is ended: when the root and
  every segment file are empty or end in a newline, the forest is sound and no signature is the empty
  string, then after any number of successful appends, to the root or to segments, by writers on any
  branch that share one signing key, the forest is sound, every file still ends its last line, and every
  chain it had starts with the same lines, so no recorded evidence is lost, changed or reordered. The
  appends are those whose entry is written as one line that parses back to it and whose new segments are
  named by a well-formed ULID. (On a file that does not end its last line an append breaks the chain,
  as the last property of \<open>GateRecord\<close> shows.)\<close>

theorem manifest_history:
  assumes "(manifest_append cd keyParam)\<^sup>*\<^sup>* f f'" and "validateKeyParam keyParam = Inr key"
    and "\<forall>k b. hmac cd k b \<noteq> []" and "ends_line (fo_root f)" and "\<forall>n. ends_line (fo_content f n)"
    and "forest_ok cd key False f" and "s \<in> insert ''root'' (set (fst (discoverSegments (fo_objects f))))"
  shows "forest_ok cd key False f' \<and> ends_line (fo_root f') \<and> (\<forall>n. ends_line (fo_content f' n))
    \<and> (\<exists>ls. forest_chain f' s = forest_chain f s @ ls)"
  using manifest_log.history [OF assms(1), of key s] assms(2-7) by (simp add: sound_files_def chain_names_def)

definition demo_wr :: writer where
  "demo_wr = \<lparr>wr_branch = Some ''main'', wr_token = VNull, wr_marker = VNull, wr_now = ''t'',
     wr_ulid = ''00000000000000000000000000'', wr_committable = (\<lambda>_. True)\<rparr>"

definition demo_appended :: appended where
  "demo_appended = \<lparr>ap_entry = VObj [(''seq'', VNum 2), (''gate'', VStr ''g''), (''ts'', VStr ''t''), (''files'', VObj []), (''prev'', VStr ''one'')],
     ap_file = None, ap_content = (''one'' @ [newline]) @ ''two'' @ [newline], ap_token = VNull\<rparr>"

theorem manifest_history_witness: "forest_ok demo_writer None False (apply_append demo_appended demo_root)"
proof -
  have app: "appendManifestEntry demo_writer True VNull demo_wr demo_root demo_root (VObj [(''gate'', VStr ''g'')]) = Inr demo_appended"
    by code_simp
  have "clean_line ''two''" by code_simp
  then have rb: "reads_back demo_writer (ap_entry demo_appended)"
    by (simp add: reads_back_def demo_writer_def demo_appended_def)
  have "is_ulid (wr_ulid demo_wr)" by (simp add: is_ulid_def demo_wr_def ULID_ALPHABET_def)
  from manifest_append.intros [OF app rb this]
  have step: "(manifest_append demo_writer VNull)\<^sup>*\<^sup>* demo_root (apply_append demo_appended demo_root)" by (rule r_into_rtranclp)
  have "verify demo_writer None False False demo_root = Inr \<lparr>fr_valid = True, fr_count = 1, fr_segments = 0,
      fr_signed = False, fr_fault = None\<rparr>" by code_simp
  then have ok: "forest_ok demo_writer None False demo_root" using verify_forest_ok by fastforce
  have key: "validateKeyParam VNull = Inr None" by (simp add: validateKeyParam_def)
  have h: "\<forall>k b. hmac demo_writer k b \<noteq> []" "ends_line (fo_root demo_root)" "\<forall>n. ends_line (fo_content demo_root n)"
    by (auto simp: demo_writer_def demo_root_def ends_line_def)
  from conjunct1 [OF manifest_history [OF step key h ok insertI1]] show ?thesis .
qed

text \<open>Segment names sort by the time they were made: a later clock gives a ULID that is greater in the
  order of strings, whatever the random bytes, and the name of a segment gives its ULID back.\<close>

theorem segment_names_ordered:
  assumes "generateSegmentUlid now random = Some u" and "generateSegmentUlid now' random' = Some u'" and "now < now'"
  shows "u < u' \<and> ulidOf (deriveSlug b @ ''-'' @ u @ ''.jsonl'') = u \<and> segment_name (deriveSlug b @ ''-'' @ u @ ''.jsonl'')"
proof -
  have b: "nat now < nat now'" "nat now' < 32 ^ 10" and u: "u = ulid_digits (nat now) 10 @ ulid_digits random 16"
    and u': "u' = ulid_digits (nat now') 10 @ ulid_digits random' 16"
    using assms by (auto simp: generateSegmentUlid_Some)
  have "(u, u') \<in> lexord {(a, b). a < b}"
    unfolding u u' by (rule lexord_sufI [OF ulid_digits_less [OF b]]) (simp add: ulid_digits_ok)
  then have "u < u'" by (simp add: list_less_def)
  then show ?thesis using minted_name [OF generateSegmentUlid_ulid [OF assms(1)]] by simp
qed

lemma ulid_digits_rec: "w \<noteq> 0 \<Longrightarrow> ulid_digits v w = ulid_digits (v div 32) (w - 1) @ [ULID_ALPHABET ! (v mod 32)]"
  by (cases w) simp_all

theorem segment_names_ordered_witness:
  "ulidOf ''feature-x-0000000133000000000000000N.jsonl'' = ''0000000133000000000000000N''"
proof -
  have a: "generateSegmentUlid 1123 21 = Some ''0000000133000000000000000N''"
    and b: "generateSegmentUlid 1124 0 = Some ''00000001340000000000000000''"
    by (simp_all add: generateSegmentUlid_Some ulid_digits_rec ULID_ALPHABET_def)
  have s: "deriveSlug ''Feature/X'' = ''feature-x''" by code_simp
  show ?thesis using segment_names_ordered [OF a b, of "''Feature/X''"] unfolding s by simp
qed

end
