(* ===== verification/TicketStore.thy ===== *)
theory TicketStore
  imports TicketSchema JsString
begin

text \<open>
  The ticket store on disk: the file name of a ticket (\<^verbatim>\<open>packages/tickets/lib/filename.mjs\<close>), the
  snapshot of a store (\<^verbatim>\<open>snapshot.mjs\<close>), the directory store with one file for each ticket and the
  older store in one file (\<^verbatim>\<open>stores/directory.mjs\<close>, \<^verbatim>\<open>stores/legacy.mjs\<close>), and the choice between
  them (\<^verbatim>\<open>store.mjs\<close>). A directory is the list of its entries, sorted by name; \<open>JSON.parse\<close>, the texts
  of \<open>JSON.stringify\<close> and SHA-256 are the fields of a \<open>store_codec\<close>.
\<close>

record store_codec =
  sc_parse :: "string \<Rightarrow> jsval option"
  sc_stringify :: "jsval \<Rightarrow> string"
  sc_pretty :: "jsval \<Rightarrow> string"
  sc_sha :: "string \<Rightarrow> string"

section \<open>File names\<close>

definition slug_alnum :: "char \<Rightarrow> bool" where
  "slug_alnum c \<longleftrightarrow> c \<in> set ''abcdefghijklmnopqrstuvwxyz0123456789''"

fun dash_runs :: "string \<Rightarrow> string" where
  "dash_runs [] = []"
| "dash_runs [c] = (if slug_alnum c then [c] else ''-'')"
| "dash_runs (c # d # cs) =
     (if slug_alnum c then c # dash_runs (d # cs)
      else if slug_alnum d then CHR ''-'' # dash_runs (d # cs) else dash_runs (d # cs))"

definition strip_dashes_end :: "string \<Rightarrow> string" where
  "strip_dashes_end s = rev (dropWhile (\<lambda>c. c = CHR ''-'') (rev s))"

text \<open>\<open>nfkd\<close> is the Unicode normalisation with the combining marks removed.\<close>

definition ticketSlug :: "(string \<Rightarrow> string) \<Rightarrow> string \<Rightarrow> string" where
  "ticketSlug nfkd i =
     (let slug = strip_dashes_end (take 48 (strip_dashes_end (dropWhile (\<lambda>c. c = CHR ''-'') (dash_runs (to_lower (nfkd i))))))
      in if slug = [] then ''ticket'' else slug)"

definition ticketFilename :: "store_codec \<Rightarrow> (string \<Rightarrow> string) \<Rightarrow> string \<Rightarrow> string" where
  "ticketFilename sc nfkd i = ticketSlug nfkd i @ ''--'' @ sc_sha sc i @ ''.json''"

section \<open>Snapshots\<close>

record snapshot =
  sn_tickets :: "jsval list"
  sn_hash :: string
  sn_ticketHashes :: "(ident \<times> string) list"

datatype store_error =
    StoreNotFound | UnsafeStorePath | CaseCollisions | InvalidManifest | UnsupportedStoreFormat
  | UnrecognizedStoreEntry string | InvalidJson string | InvalidShard string | FilenameMismatch string
  | InvalidStore validate_error | NonJson canonical_error | InvalidEnvelopeFile
  | AmbiguousStore | RecoveryRequired "string list" | ConflictingOverride

definition hash_tickets :: "store_codec \<Rightarrow> jsval list \<Rightarrow> canonical_error + string" where
  "hash_tickets sc ts = storeHash (sc_sha sc) (sc_stringify sc) (map (\<lambda>t. (ticket_id t, t)) ts)"

definition as_store_error :: "canonical_error + 'a \<Rightarrow> store_error + 'a" where
  "as_store_error r = (case r of Inl e \<Rightarrow> Inl (NonJson e) | Inr x \<Rightarrow> Inr x)"

definition take_snapshot :: "store_codec \<Rightarrow> jsval list \<Rightarrow> store_error + snapshot" where
  "take_snapshot sc tickets =
     (let ts = sort_key ticket_id tickets
      in bind_res (as_store_error (hash_tickets sc ts)) (\<lambda>h.
           bind_res (as_store_error (map_res (\<lambda>t. bind_res (ticketHash (sc_sha sc) (sc_stringify sc) t) (\<lambda>k. Inr (ticket_id t, k))) ts)) (\<lambda>hs.
             Inr \<lparr>sn_tickets = ts, sn_hash = h, sn_ticketHashes = hs\<rparr>)))"

section \<open>Directories\<close>

datatype node = File string | Other

type_synonym dir = "(string \<times> node) list"

fun dir_put :: "string \<Rightarrow> node \<Rightarrow> dir \<Rightarrow> dir" where
  "dir_put n x [] = [(n, x)]"
| "dir_put n x ((m, y) # d) =
     (if n < m then (n, x) # (m, y) # d else if n = m then (n, x) # d else (m, y) # dir_put n x d)"

definition dir_del :: "string \<Rightarrow> dir \<Rightarrow> dir" where
  "dir_del n d = filter (\<lambda>e. fst e \<noteq> n) d"

definition dir_text :: "dir \<Rightarrow> string \<Rightarrow> string option" where
  "dir_text d n = (case map_of d n of Some (File s) \<Rightarrow> Some s | _ \<Rightarrow> None)"

definition store_manifest :: "bool \<Rightarrow> jsval" where
  "store_manifest archive = VObj [(''format'', VStr (if archive then ''adlc-ticket-archive'' else ''adlc-ticket-directory'')),
     (''version'', VNum 1)]"

definition same_canonical :: "store_codec \<Rightarrow> jsval \<Rightarrow> jsval \<Rightarrow> bool" where
  "same_canonical sc a b = (case (normalize a, normalize b) of
      (Inr x, Inr y) \<Rightarrow> sc_stringify sc x = sc_stringify sc y
    | _ \<Rightarrow> False)"

text \<open>One entry of the directory: a ticket file.\<close>

definition load_shard :: "store_codec \<Rightarrow> (string \<Rightarrow> string) \<Rightarrow> string \<times> node \<Rightarrow> store_error + jsval" where
  "load_shard sc nfkd entry = (case snd entry of
      Other \<Rightarrow> Inl (UnrecognizedStoreEntry (fst entry))
    | File text \<Rightarrow>
        if \<not> ends_with (fst entry) ''.json'' then Inl (UnrecognizedStoreEntry (fst entry))
        else (case sc_parse sc text of
            None \<Rightarrow> Inl (InvalidJson (fst entry))
          | Some t \<Rightarrow>
              if \<not> is_plain_obj t \<or> \<not> is_str (js_get ''id'' t) then Inl (InvalidShard (fst entry))
              else if fst entry \<noteq> ticketFilename sc nfkd (ticket_id t) then Inl (FilenameMismatch (fst entry))
              else Inr t))"

definition load_dir :: "store_codec \<Rightarrow> (string \<Rightarrow> string) \<Rightarrow> bool \<Rightarrow> dir \<Rightarrow> store_error + snapshot" where
  "load_dir sc nfkd archive d =
     (if \<not> distinct (map (\<lambda>e. to_lower (fst e)) d) then Inl CaseCollisions
      else case map_of d ''.store.json'' of
        Some (File text) \<Rightarrow>
          (case sc_parse sc text of
             None \<Rightarrow> Inl InvalidManifest
           | Some m \<Rightarrow>
               if \<not> same_canonical sc m (store_manifest archive) then Inl UnsupportedStoreFormat
               else bind_res (map_res (load_shard sc nfkd) (filter (\<lambda>e. fst e \<noteq> ''.store.json'') d)) (\<lambda>ts.
                 case validateTickets archive (\<not> archive) (VArr ts) of
                   Inl e \<Rightarrow> Inl (InvalidStore e)
                 | Inr _ \<Rightarrow> take_snapshot sc ts))
      | _ \<Rightarrow> Inl InvalidManifest)"

text \<open>The legacy store: one file with all tickets.\<close>

definition load_legacy :: "store_codec \<Rightarrow> node option \<Rightarrow> store_error + snapshot" where
  "load_legacy sc file = (case file of
      None \<Rightarrow> Inl StoreNotFound
    | Some Other \<Rightarrow> Inl UnsafeStorePath
    | Some (File text) \<Rightarrow>
        (case sc_parse sc text of
           None \<Rightarrow> Inl (InvalidJson [])
         | Some v \<Rightarrow> (case js_get ''tickets'' v of
               VArr ts \<Rightarrow> (case validateTickets False True (VArr ts) of
                   Inl e \<Rightarrow> Inl (InvalidStore e)
                 | Inr _ \<Rightarrow> take_snapshot sc ts)
             | _ \<Rightarrow> Inl InvalidEnvelopeFile)))"

section \<open>Which store\<close>

datatype store_choice = LegacyStore string | DirectoryStore string

definition resolveStoreOverride ::
  "(string \<Rightarrow> string) \<Rightarrow> string option \<Rightarrow> string option \<Rightarrow> string option \<Rightarrow> string option \<Rightarrow> store_error + string option" where
  "resolveStoreOverride resolvePath ticketStore legacyTickets envStore envTickets =
     (let modern = (if ticketStore \<noteq> None then ticketStore else envStore);
          legacy = (if legacyTickets \<noteq> None then legacyTickets else envTickets)
      in case (modern, legacy) of
           (Some m, Some l) \<Rightarrow>
             if m \<noteq> [] \<and> l \<noteq> [] \<and> resolvePath m \<noteq> resolvePath l then Inl ConflictingOverride else Inr (Some m)
         | (None, _) \<Rightarrow> Inr legacy
         | _ \<Rightarrow> Inr modern)"

definition pendingTransactions :: "string list \<Rightarrow> string list" where
  "pendingTransactions entries = sort (filter (\<lambda>e. \<not> starts_with e ''.'') entries)"

definition detectTicketStore ::
  "bool \<Rightarrow> string list \<Rightarrow> (store_error + string option) \<Rightarrow> (string \<Rightarrow> string) \<Rightarrow> bool \<Rightarrow> bool \<Rightarrow> store_error + store_choice" where
  "detectTicketStore allowRecovery txEntries override rooted legacyExists directoryExists =
     (let pending = pendingTransactions txEntries
      in if \<not> allowRecovery \<and> pending \<noteq> [] then Inl (RecoveryRequired pending)
         else bind_res override (\<lambda>ov. case ov of
             Some p \<Rightarrow>
               if p \<noteq> [] then
                 (if ends_with (rooted p) ''.json'' then Inr (LegacyStore (rooted p)) else Inr (DirectoryStore (rooted p)))
               else if legacyExists \<and> directoryExists then Inl AmbiguousStore
               else if directoryExists then Inr (DirectoryStore ''.adlc/tickets'')
               else if legacyExists then Inr (LegacyStore ''.adlc/tickets.json'') else Inl StoreNotFound
           | None \<Rightarrow>
               if legacyExists \<and> directoryExists then Inl AmbiguousStore
               else if directoryExists then Inr (DirectoryStore ''.adlc/tickets'')
               else if legacyExists then Inr (LegacyStore ''.adlc/tickets.json'') else Inl StoreNotFound))"

section \<open>Sorted directories\<close>

definition dir_ok :: "dir \<Rightarrow> bool" where
  "dir_ok d \<longleftrightarrow> sorted_wrt (<) (map fst d)"

lemma dir_put_names: "set (map fst (dir_put n x d)) = insert n (set (map fst d))"
  by (induction n x d rule: dir_put.induct) auto

lemma dir_put_ok: "dir_ok d \<Longrightarrow> dir_ok (dir_put n x d)"
proof (induction n x d rule: dir_put.induct)
  case (2 n x m y d)
  then show ?case using dir_put_names [of n x d] by (auto simp: dir_ok_def)
qed (simp add: dir_ok_def)

lemma dir_put_get: "dir_ok d \<Longrightarrow> map_of (dir_put n x d) = (map_of d)(n \<mapsto> x)"
proof (induction n x d rule: dir_put.induct)
  case (2 n x m y d)
  have "n \<notin> fst ` set d" if "n < m" using 2(2) that by (force simp: dir_ok_def)
  then show ?case using 2 by (auto simp: dir_ok_def fun_eq_iff)
qed auto

lemma dir_del_ok: "dir_ok d \<Longrightarrow> dir_ok (dir_del n d)"
  by (induction d) (auto simp: dir_ok_def dir_del_def)

lemma dir_del_get: "map_of (dir_del n d) = (map_of d)(n := None)"
  by (induction d) (auto simp: dir_del_def fun_eq_iff)

lemma dir_eqI:
  assumes "dir_ok d" and "dir_ok d'" and "map_of d = map_of d'"
  shows "d = d'"
  using assms
proof (induction d arbitrary: d')
  case Nil
  then show ?case by (cases d') (auto simp: fun_eq_iff split: if_splits)
next
  case (Cons e d)
  obtain n x where e: "e = (n, x)" by fastforce
  have n: "\<forall>m\<in>fst ` set d. n < m" "dir_ok d" using Cons.prems(1) by (auto simp: e dir_ok_def)
  have "map_of d' n = Some x" using Cons.prems(3) by (simp add: e fun_eq_iff) (metis (mono_tags))
  then obtain m y r where d': "d' = (m, y) # r" by (cases d') auto
  have m: "\<forall>k\<in>fst ` set r. m < k" "dir_ok r" using Cons.prems(2) by (auto simp: d' dir_ok_def)
  have keys: "insert n (fst ` set d) = insert m (fst ` set r)"
    using arg_cong [OF Cons.prems(3), of dom] unfolding dom_map_of_conv_image_fst by (simp add: e d')
  have nm: "n = m"
  proof (rule ccontr)
    assume "n \<noteq> m"
    then have "m \<in> fst ` set d" "n \<in> fst ` set r" using keys by auto
    then show False using n(1) m(1) by (meson order.asym)
  qed
  have xy: "x = y" using fun_cong [OF Cons.prems(3), of n] nm by (simp add: e d')
  have "map_of d = map_of r"
  proof
    fix k
    have "n \<notin> fst ` set d" "n \<notin> fst ` set r" using n(1) m(1) nm by blast+
    then have none: "map_of d n = None" "map_of r n = None" by (simp_all add: map_of_eq_None_iff)
    show "map_of d k = map_of r k"
      using fun_cong [OF Cons.prems(3), of k] none by (cases "k = n") (auto simp: e d' nm)
  qed
  then show ?case using Cons.IH [OF n(2) m(2)] nm xy by (simp add: e d')
qed

end
