(* ===== verification/TicketTx.thy ===== *)
theory TicketTx
  imports TicketStore
begin

text \<open>
  Transactions on the ticket store (\<^verbatim>\<open>packages/tickets/lib/transaction.mjs\<close>): the plan of a
  transaction, its steps on the disk, its recovery after a crash in either direction, with the audit
  of writes to a store that declares rails (\<^verbatim>\<open>trust-root.mjs\<close>) and the idempotent record of the
  evidence (\<^verbatim>\<open>evidence.mjs\<close>). A step is one call of \<^verbatim>\<open>durability.mjs\<close>; a crash may fall between any
  two steps. The lock that keeps other writers out is held throughout and is not part of the state.
\<close>

section \<open>The disk\<close>

text \<open>The directories a transaction writes to: the active store, the archive, and the directory of the
  legacy store. A directory that does not exist is empty.\<close>

datatype place = Active | Archived | Legacy
datatype op_action = WriteOp | DeleteOp
datatype op_role = TicketRole | AuxRole | LegacyRole

text \<open>The path of a copy below \<open>stage\<close> or \<open>backup\<close>: the name of the file, or \<open>aux-<index>\<close>.\<close>

datatype stage_key = FileKey string | AuxKey nat

record operation =
  op_role :: op_role
  op_action :: op_action
  op_place :: place
  op_name :: string \<comment> \<open>the file in its directory\<close>
  op_key :: stage_key
  op_backup :: bool
  op_before :: "string option" \<comment> \<open>hash of the backup\<close>
  op_after :: "string option" \<comment> \<open>hash of the stage\<close>

record journal =
  jn_id :: string
  jn_operation :: string
  jn_before :: string
  jn_after :: string
  jn_evidence :: bool
  jn_bypass :: bool
  jn_ticket :: "string option"
  jn_beforeTicket :: "string option"
  jn_beforeTicketHash :: "string option"
  jn_afterTicketHash :: "string option"
  jn_ops :: "operation list"

record evidence =
  ev_tx :: string
  ev_action :: string
  ev_gate :: string
  ev_operation :: string
  ev_ticket :: "string option"
  ev_ticketHash :: "string option"
  ev_storeHash :: string
  ev_audit :: "string option" \<comment> \<open>the hash from before, when the entry audits a bypass\<close>
  ev_authentic :: bool \<comment> \<open>signed with the configured key\<close>

text \<open>What an append of evidence finds in the manifest, beside the entries themselves
  (\<^verbatim>\<open>evidence.mjs\<close>, \<^verbatim>\<open>manifest-segments.mjs\<close>): is the repository segmented, before the lock and on the
  second look under it; is the lock had before the retries run out; the number of entries before the
  first line of the root that is not an entry; a root without lines although segments exist; and for the
  segments, by the key, whether the chains of the forest are intact and what comes of opening the segment
  to append to: \<open>resolveOpenSegment\<close> throws, its lock is not had, or its content is not what was
  resolved. The last line of the file that is appended to is taken to be ended.\<close>

datatype segment_answer = SegmentReady | SegmentRefused | SegmentLocked | SegmentMismatch

record manifest_state =
  mf_segmented :: bool
  mf_lock :: bool
  mf_frozen :: bool
  mf_malformed :: "nat option"
  mf_orphans :: bool
  mf_intact :: "string option \<Rightarrow> bool"
  mf_segment :: "string option \<Rightarrow> segment_answer"

record disk =
  dk_dir :: "place \<Rightarrow> dir"
  dk_stage :: "(stage_key \<times> string) list"
  dk_backup :: "(stage_key \<times> string) list"
  dk_journal :: "journal option"
  dk_evidence :: "evidence list" \<comment> \<open>the entries the writer scans: of the root, or of the forest\<close>
  dk_manifest :: "string \<Rightarrow> manifest_state" \<comment> \<open>what the append of an action finds\<close>

datatype act =
    StageAct stage_key string
  | BackupAct place string stage_key
  | JournalAct journal
  | CopyStage stage_key place string
  | CopyBackup stage_key place string
  | RenameAct place string string
  | RemoveAct place string
  | DropTx

definition put_file :: "place \<Rightarrow> string \<Rightarrow> string \<Rightarrow> disk \<Rightarrow> disk" where
  "put_file p n text d = d\<lparr>dk_dir := (dk_dir d)(p := dir_put n (File text) (dk_dir d p))\<rparr>"

definition del_file :: "place \<Rightarrow> string \<Rightarrow> disk \<Rightarrow> disk" where
  "del_file p n d = d\<lparr>dk_dir := (dk_dir d)(p := dir_del n (dk_dir d p))\<rparr>"

definition file_text :: "disk \<Rightarrow> place \<Rightarrow> string \<Rightarrow> string option" where
  "file_text d p n = dir_text (dk_dir d p) n"

fun perform :: "act \<Rightarrow> disk \<Rightarrow> disk" where
  "perform (StageAct k text) d = d\<lparr>dk_stage := AList.update k text (dk_stage d)\<rparr>"
| "perform (BackupAct p n k) d = (case file_text d p n of
      None \<Rightarrow> d
    | Some text \<Rightarrow> d\<lparr>dk_backup := AList.update k text (dk_backup d)\<rparr>)"
| "perform (JournalAct j) d = d\<lparr>dk_journal := Some j\<rparr>"
| "perform (CopyStage k p t) d = (case map_of (dk_stage d) k of None \<Rightarrow> d | Some text \<Rightarrow> put_file p t text d)"
| "perform (CopyBackup k p t) d = (case map_of (dk_backup d) k of None \<Rightarrow> d | Some text \<Rightarrow> put_file p t text d)"
| "perform (RenameAct p t n) d = (case file_text d p t of None \<Rightarrow> d | Some text \<Rightarrow> put_file p n text (del_file p t d))"
| "perform (RemoveAct p n) d = del_file p n d"
| "perform DropTx d = d\<lparr>dk_stage := [], dk_backup := [], dk_journal := None\<rparr>"

definition perform_all :: "act list \<Rightarrow> disk \<Rightarrow> disk" where
  "perform_all acts d = fold perform acts d"

section \<open>Trust roots\<close>

definition storeDeclaresRails :: "jsval list \<Rightarrow> bool" where
  "storeDeclaresRails tickets = list_ex (\<lambda>t. \<not> is_plain_obj t \<or> (case js_get ''rails'' t of
      VUndefined \<Rightarrow> False
    | VArr rs \<Rightarrow> rs \<noteq> []
    | _ \<Rightarrow> True)) tickets"

definition archive_entry_railed :: "store_codec \<Rightarrow> string \<times> node \<Rightarrow> bool" where
  "archive_entry_railed sc e = (case snd e of
      Other \<Rightarrow> True
    | File text \<Rightarrow> (case sc_parse sc text of
          None \<Rightarrow> True
        | Some v \<Rightarrow>
            if fst e = ''.store.json'' then \<not> is_str (js_get ''format'' v)
            else \<not> is_plain_obj v \<or> \<not> is_str (js_get ''id'' v) \<or> storeDeclaresRails [v]))"

text \<open>What else says that the repository uses rails: the legacy archive and the manifest.\<close>

record tx_context =
  cx_sc :: store_codec
  cx_nfkd :: "string \<Rightarrow> string"
  cx_legacyArchive :: "string option"
  cx_manifestBypass :: bool

definition archiveDeclaresRails :: "tx_context \<Rightarrow> disk \<Rightarrow> bool" where
  "archiveDeclaresRails cx d \<longleftrightarrow>
     (let es = dk_dir d Archived
      in es \<noteq> [] \<and> (list_ex (archive_entry_railed (cx_sc cx)) es \<or> ''.store.json'' \<notin> fst ` set es))
     \<or> (case cx_legacyArchive cx of
          None \<Rightarrow> False
        | Some text \<Rightarrow> (case sc_parse (cx_sc cx) text of
              None \<Rightarrow> True
            | Some v \<Rightarrow> (case js_get ''tickets'' v of VArr ts \<Rightarrow> storeDeclaresRails ts | _ \<Rightarrow> True)))"

definition repoDeclaresRails :: "tx_context \<Rightarrow> disk \<Rightarrow> jsval list \<Rightarrow> bool" where
  "repoDeclaresRails cx d tickets \<longleftrightarrow> storeDeclaresRails tickets \<or> archiveDeclaresRails cx d \<or> cx_manifestBypass cx"

datatype tx_error =
    StoreFault store_error
  | InvalidTickets validate_error
  | NotJsonTickets canonical_error
  | StaleSnapshot
  | ManifestKeyRequired
  | AuxUnreadable string | AuxExists string | AuxMissing string | StaleAux string
  | VerifyFailed | CallerVerifyFailed
  | EvidenceConflict | ManifestLockTimeout | InvalidManifest | ManifestFrozen | SegmentUnresolved
  | RecoveryDirectionRequired
  | InvalidJournal | CorruptStage string | CorruptBackup string
  | RecoveryVerifyFailed | EvidenceUnbound

definition assertWriteIsSignable :: "string option \<Rightarrow> bool \<Rightarrow> tx_error + unit" where
  "assertWriteIsSignable key allowUnsigned = (if key \<noteq> None \<or> allowUnsigned then Inr () else Inl ManifestKeyRequired)"

definition assertSignableTrustRootWrite ::
  "tx_context \<Rightarrow> disk \<Rightarrow> jsval list \<Rightarrow> string option \<Rightarrow> bool \<Rightarrow> tx_error + bool" where
  "assertSignableTrustRootWrite cx d tickets key allowUnsigned =
     (if \<not> repoDeclaresRails cx d tickets then Inr False
      else bind_res (assertWriteIsSignable key allowUnsigned) (\<lambda>_. Inr True))"

section \<open>Evidence\<close>

definition same_evidence :: "bool \<Rightarrow> evidence \<Rightarrow> evidence \<Rightarrow> bool" where
  "same_evidence acceptLegacyMatch old new \<longleftrightarrow>
     ev_gate old = ev_gate new \<and> ev_ticket old = ev_ticket new \<and> ev_operation old = ev_operation new
     \<and> ev_ticketHash old = ev_ticketHash new \<and> ev_storeHash old = ev_storeHash new
     \<and> (ev_audit old = ev_audit new \<or> acceptLegacyMatch \<and> ev_audit old = None)"

text \<open>An entry for the same transaction and action counts only if it is authentic, when a key is
  configured; then it must say the same.\<close>

definition findMatchingEvidence :: "string option \<Rightarrow> evidence \<Rightarrow> evidence list \<Rightarrow> evidence option" where
  "findMatchingEvidence key ev entries =
     find (\<lambda>e. ev_tx e = ev_tx ev \<and> ev_action e = ev_action ev \<and> (key = None \<or> ev_authentic e)) entries"

definition scan_evidence ::
  "string option \<Rightarrow> bool \<Rightarrow> evidence \<Rightarrow> evidence list \<Rightarrow> tx_error + evidence list \<Rightarrow> evidence list \<Rightarrow> tx_error + evidence list" where
  "scan_evidence key acceptLegacyMatch ev entries otherwise scanned =
     (case findMatchingEvidence key ev scanned of
        Some e \<Rightarrow> if same_evidence acceptLegacyMatch e ev then Inr entries else Inl EvidenceConflict
      | None \<Rightarrow> otherwise)"

definition append_evidence :: "string option \<Rightarrow> evidence \<Rightarrow> evidence list \<Rightarrow> evidence list" where
  "append_evidence key ev entries = entries @ [ev\<lparr>ev_authentic := (key \<noteq> None)\<rparr>]"

definition recordSegmentedTicketEvidence ::
  "string option \<Rightarrow> bool \<Rightarrow> manifest_state \<Rightarrow> evidence \<Rightarrow> evidence list \<Rightarrow> tx_error + evidence list" where
  "recordSegmentedTicketEvidence key acceptLegacyMatch m ev entries =
     (if \<not> mf_lock m then Inl ManifestLockTimeout
      else if \<not> mf_intact m key then Inl InvalidManifest
      else scan_evidence key acceptLegacyMatch ev entries
        (case mf_segment m key of
           SegmentRefused \<Rightarrow> Inl SegmentUnresolved
         | SegmentLocked \<Rightarrow> Inl ManifestLockTimeout
         | SegmentMismatch \<Rightarrow> Inl InvalidManifest
         | SegmentReady \<Rightarrow> Inr (append_evidence key ev entries)) entries)"

text \<open>The scan of the root stops at the first line that is not an entry, unless it matched before.\<close>

definition recordTicketEvidence ::
  "string option \<Rightarrow> bool \<Rightarrow> manifest_state \<Rightarrow> evidence \<Rightarrow> evidence list \<Rightarrow> tx_error + evidence list" where
  "recordTicketEvidence key acceptLegacyMatch m ev entries =
     (if mf_segmented m then recordSegmentedTicketEvidence key acceptLegacyMatch m ev entries
      else if \<not> mf_lock m then Inl ManifestLockTimeout
      else if mf_frozen m then Inl ManifestFrozen
      else case mf_malformed m of
        Some n \<Rightarrow> scan_evidence key acceptLegacyMatch ev entries (Inl InvalidManifest) (take n entries)
      | None \<Rightarrow> scan_evidence key acceptLegacyMatch ev entries
          (if mf_orphans m then Inl ManifestFrozen else Inr (append_evidence key ev entries)) entries)"

section \<open>Planning a transaction\<close>

record aux_request =
  ax_action :: op_action
  ax_name :: string
  ax_content :: string
  ax_mustBeAbsent :: bool
  ax_mustExist :: bool
  ax_expectedBefore :: "string option"

record tx_request =
  rq_id :: string
  rq_operation :: string
  rq_expected :: "string option"
  rq_evidence :: bool
  rq_ticket :: "string option"
  rq_beforeTicket :: "string option"
  rq_key :: "string option"
  rq_allowUnsigned :: bool
  rq_aux :: "aux_request list"

definition pretty_ticket :: "store_codec \<Rightarrow> jsval \<Rightarrow> tx_error + string" where
  "pretty_ticket sc t = (case normalize t of Inl e \<Rightarrow> Inl (NotJsonTickets e) | Inr n \<Rightarrow> Inr (sc_pretty sc n))"

definition by_filename :: "tx_context \<Rightarrow> jsval list \<Rightarrow> (string \<times> jsval) list" where
  "by_filename cx tickets = fold (\<lambda>t. AList.update (ticketFilename (cx_sc cx) (cx_nfkd cx) (ticket_id t)) t) tickets []"

text \<open>An operation with the text it stages.\<close>

type_synonym planned = "operation \<times> string option"

fun plan_writes :: "tx_context \<Rightarrow> disk \<Rightarrow> (string \<times> jsval) list \<Rightarrow> tx_error + planned list" where
  "plan_writes cx d [] = Inr []"
| "plan_writes cx d ((name, t) # rest) =
     bind_res (pretty_ticket (cx_sc cx) t) (\<lambda>text.
       bind_res (plan_writes cx d rest) (\<lambda>ops.
         if file_text d Active name = Some text then Inr ops
         else Inr ((\<lparr>op_role = TicketRole, op_action = WriteOp, op_place = Active, op_name = name, op_key = FileKey name,
              op_backup = (file_text d Active name \<noteq> None),
              op_before = map_option (sc_sha (cx_sc cx)) (file_text d Active name),
              op_after = Some (sc_sha (cx_sc cx) text)\<rparr>, Some text) # ops)))"

definition plan_delete :: "tx_context \<Rightarrow> disk \<Rightarrow> string \<Rightarrow> planned" where
  "plan_delete cx d name =
     (\<lparr>op_role = TicketRole, op_action = DeleteOp, op_place = Active, op_name = name, op_key = FileKey name, op_backup = True,
       op_before = map_option (sc_sha (cx_sc cx)) (file_text d Active name), op_after = None\<rparr>, None)"

definition plan_aux :: "tx_context \<Rightarrow> disk \<Rightarrow> nat \<times> aux_request \<Rightarrow> tx_error + planned" where
  "plan_aux cx d ia =
     (let a = snd ia; current = file_text d Archived (ax_name a); h = map_option (sc_sha (cx_sc cx)) current
      in if map_of (dk_dir d Archived) (ax_name a) = Some Other then Inl (AuxUnreadable (ax_name a))
         else if ax_mustBeAbsent a \<and> current \<noteq> None then Inl (AuxExists (ax_name a))
         else if ax_mustExist a \<and> current = None then Inl (AuxMissing (ax_name a))
         else if ax_expectedBefore a \<noteq> None \<and> h \<noteq> ax_expectedBefore a then Inl (StaleAux (ax_name a))
         else Inr (\<lparr>op_role = AuxRole, op_action = ax_action a, op_place = Archived, op_name = ax_name a,
                op_key = AuxKey (fst ia), op_backup = (current \<noteq> None), op_before = h,
                op_after = (if ax_action a = WriteOp then Some (sc_sha (cx_sc cx) (ax_content a)) else None)\<rparr>,
              if ax_action a = WriteOp then Some (ax_content a) else None))"

definition given :: "string option \<Rightarrow> bool" where
  "given i \<longleftrightarrow> i \<noteq> None \<and> i \<noteq> Some []"

definition evidence_binding ::
  "tx_context \<Rightarrow> snapshot \<Rightarrow> jsval list \<Rightarrow> string option \<Rightarrow> string option
   \<Rightarrow> canonical_error + (string option \<times> string option \<times> string option)" where
  "evidence_binding cx prev tickets ticketId beforeTicketId =
     (let priorId = (if beforeTicketId \<noteq> None then beforeTicketId else ticketId);
          recorded = Option.bind priorId (map_of (sn_ticketHashes prev))
      in bind_res (if given ticketId then
            (case find (\<lambda>t. ticket_id t = the ticketId) tickets of
               None \<Rightarrow> Inr None
             | Some t \<Rightarrow> bind_res (ticketHash (sc_sha (cx_sc cx)) (sc_stringify (cx_sc cx)) t) (\<lambda>h. Inr (Some h)))
          else Inr None) (\<lambda>logical.
           Inr (priorId,
             (if \<not> given priorId then None
              else if recorded \<noteq> None then recorded else if priorId = ticketId then logical else None),
             (if \<not> given ticketId then None else if logical \<noteq> None then logical else recorded))))"

definition lift_hash :: "canonical_error + 'a \<Rightarrow> tx_error + 'a" where
  "lift_hash r = (case r of Inl e \<Rightarrow> Inl (NotJsonTickets e) | Inr x \<Rightarrow> Inr x)"

record plan =
  pl_before :: snapshot
  pl_journal :: journal
  pl_planned :: "planned list"
  pl_audit :: bool

definition audit_gate :: "bool \<Rightarrow> string \<Rightarrow> string" where
  "audit_gate evidenceRequired operation = (if evidenceRequired then ''ticket-'' @ operation else ''ticket-mutation'')"

text \<open>Everything before the first step: the snapshot, the audit decision and the operations. \<open>loader\<close>
  reads the store, \<open>planner\<close> makes the operations of the kind of store.\<close>

definition plan_transaction ::
  "tx_context \<Rightarrow> (disk \<Rightarrow> store_error + snapshot) \<Rightarrow> (snapshot \<Rightarrow> tx_error + planned list) \<Rightarrow> tx_request \<Rightarrow> jsval list \<Rightarrow> disk
   \<Rightarrow> tx_error + plan" where
  "plan_transaction cx loader planner rq tickets d =
     (case validateTickets False True (VArr tickets) of
        Inl e \<Rightarrow> Inl (InvalidTickets e)
      | Inr _ \<Rightarrow> (case loader d of
          Inl e \<Rightarrow> Inl (StoreFault e)
        | Inr prev \<Rightarrow>
            if rq_expected rq \<noteq> None \<and> rq_expected rq \<noteq> Some (sn_hash prev) then Inl StaleSnapshot
            else bind_res (lift_hash (hash_tickets (cx_sc cx) tickets)) (\<lambda>afterHash.
              bind_res (if afterHash \<noteq> sn_hash prev \<or> rq_aux rq \<noteq> []
                        then assertSignableTrustRootWrite cx d (sn_tickets prev) (rq_key rq) (rq_allowUnsigned rq)
                        else Inr False) (\<lambda>audit.
                bind_res (planner prev) (\<lambda>ops.
                  bind_res (lift_hash (evidence_binding cx prev tickets (rq_ticket rq) (rq_beforeTicket rq))) (\<lambda>(prior, bh, ah).
                    Inr \<lparr>pl_before = prev,
                      pl_journal = \<lparr>jn_id = rq_id rq, jn_operation = rq_operation rq, jn_before = sn_hash prev,
                        jn_after = afterHash, jn_evidence = rq_evidence rq, jn_bypass = audit, jn_ticket = rq_ticket rq,
                        jn_beforeTicket = prior, jn_beforeTicketHash = bh, jn_afterTicketHash = ah, jn_ops = map fst ops\<rparr>,
                      pl_planned = ops, pl_audit = audit\<rparr>))))))"

definition directory_planner :: "tx_context \<Rightarrow> tx_request \<Rightarrow> jsval list \<Rightarrow> disk \<Rightarrow> snapshot \<Rightarrow> tx_error + planned list" where
  "directory_planner cx rq tickets d prev =
     (let byf = by_filename cx tickets;
          current = remdups (map (\<lambda>t. ticketFilename (cx_sc cx) (cx_nfkd cx) (ticket_id t)) (sn_tickets prev))
      in bind_res (plan_writes cx d byf) (\<lambda>ws.
           bind_res (map_res (plan_aux cx d) (enumerate 0 (rq_aux rq))) (\<lambda>axs.
             Inr (ws @ map (plan_delete cx d) (filter (\<lambda>n. n \<notin> fst ` set byf) current) @ axs))))"

definition legacy_planner :: "tx_context \<Rightarrow> string \<Rightarrow> jsval list \<Rightarrow> disk \<Rightarrow> snapshot \<Rightarrow> tx_error + planned list" where
  "legacy_planner cx name tickets d prev =
     bind_res (pretty_ticket (cx_sc cx) (VObj [(''tickets'', VArr tickets)])) (\<lambda>text.
       Inr [(\<lparr>op_role = LegacyRole, op_action = WriteOp, op_place = Legacy, op_name = name, op_key = FileKey name, op_backup = True,
          op_before = map_option (sc_sha (cx_sc cx)) (file_text d Legacy name), op_after = Some (sc_sha (cx_sc cx) text)\<rparr>,
         Some text)])"

section \<open>The steps of a transaction\<close>

definition prepare_acts :: "planned \<Rightarrow> act list" where
  "prepare_acts pl =
     (let o1 = fst pl;
          stage = (case snd pl of None \<Rightarrow> [] | Some text \<Rightarrow> [StageAct (op_key o1) text]);
          backup = (if op_backup o1 then [BackupAct (op_place o1) (op_name o1) (op_key o1)] else [])
      in if op_role o1 = AuxRole then backup @ stage else stage @ backup)"

definition temp_name :: "string \<Rightarrow> string \<Rightarrow> string \<Rightarrow> string" where
  "temp_name name suffix i = name @ suffix @ i"

definition apply_acts :: "string \<Rightarrow> operation \<Rightarrow> act list" where
  "apply_acts i o1 = (case op_action o1 of
      WriteOp \<Rightarrow> [CopyStage (op_key o1) (op_place o1) (temp_name (op_name o1) ''.txn-'' i),
                  RenameAct (op_place o1) (temp_name (op_name o1) ''.txn-'' i) (op_name o1)]
    | DeleteOp \<Rightarrow> [RemoveAct (op_place o1) (op_name o1)])"

definition tx_acts :: "plan \<Rightarrow> act list" where
  "tx_acts pl = concat (map prepare_acts (pl_planned pl)) @ [JournalAct (pl_journal pl)]
     @ concat (map (apply_acts (jn_id (pl_journal pl))) (jn_ops (pl_journal pl)))"

definition tx_evidence :: "plan \<Rightarrow> snapshot \<Rightarrow> evidence" where
  "tx_evidence pl after =
     (let j = pl_journal pl
      in \<lparr>ev_tx = jn_id j, ev_action = ''apply'',
          ev_gate = (if pl_audit pl then audit_gate (jn_evidence j) (jn_operation j) else ''ticket-'' @ jn_operation j),
          ev_operation = jn_operation j, ev_ticket = jn_ticket j, ev_ticketHash = jn_afterTicketHash j,
          ev_storeHash = sn_hash after, ev_audit = (if pl_audit pl then Some (sn_hash (pl_before pl)) else None),
          ev_authentic = False\<rparr>)"

text \<open>After the last operation: read the store back, let the caller verify, record, and drop the
  journal. An error leaves the disk as it is, with the journal.\<close>

definition finish_transaction ::
  "(disk \<Rightarrow> store_error + snapshot) \<Rightarrow> (disk \<Rightarrow> bool) \<Rightarrow> tx_request \<Rightarrow> plan \<Rightarrow> disk \<Rightarrow> (tx_error + snapshot) \<times> disk" where
  "finish_transaction loader verify rq pl d = (case loader d of
      Inl e \<Rightarrow> (Inl (StoreFault e), d)
    | Inr after \<Rightarrow>
        if sn_hash after \<noteq> jn_after (pl_journal pl) then (Inl VerifyFailed, d)
        else if \<not> verify d then (Inl CallerVerifyFailed, d)
        else if rq_evidence rq \<or> pl_audit pl then
          (case recordTicketEvidence (rq_key rq) False (dk_manifest d ''apply'') (tx_evidence pl after) (dk_evidence d) of
             Inl e \<Rightarrow> (Inl e, d)
           | Inr entries \<Rightarrow> (Inr after, perform DropTx (d\<lparr>dk_evidence := entries\<rparr>)))
        else (Inr after, perform DropTx d))"

definition run_transaction ::
  "(disk \<Rightarrow> store_error + snapshot) \<Rightarrow> (disk \<Rightarrow> bool) \<Rightarrow> tx_request \<Rightarrow> (tx_error + plan) \<Rightarrow> disk \<Rightarrow> (tx_error + snapshot) \<times> disk" where
  "run_transaction loader verify rq planned d = (case planned of
      Inl e \<Rightarrow> (Inl e, d)
    | Inr pl \<Rightarrow> finish_transaction loader verify rq pl (perform_all (tx_acts pl) d))"

definition load_active :: "tx_context \<Rightarrow> disk \<Rightarrow> store_error + snapshot" where
  "load_active cx d = load_dir (cx_sc cx) (cx_nfkd cx) False (dk_dir d Active)"

definition load_legacy_file :: "tx_context \<Rightarrow> string \<Rightarrow> disk \<Rightarrow> store_error + snapshot" where
  "load_legacy_file cx name d = load_legacy (cx_sc cx) (map_of (dk_dir d Legacy) name)"

definition applyDirectoryTransaction ::
  "tx_context \<Rightarrow> (disk \<Rightarrow> bool) \<Rightarrow> tx_request \<Rightarrow> jsval list \<Rightarrow> disk \<Rightarrow> (tx_error + snapshot) \<times> disk" where
  "applyDirectoryTransaction cx verify rq tickets d =
     run_transaction (load_active cx) verify rq
       (plan_transaction cx (load_active cx) (directory_planner cx rq tickets d) rq tickets d) d"

definition applyLegacyTransaction ::
  "tx_context \<Rightarrow> string \<Rightarrow> tx_request \<Rightarrow> jsval list \<Rightarrow> disk \<Rightarrow> (tx_error + snapshot) \<times> disk" where
  "applyLegacyTransaction cx name rq tickets d =
     run_transaction (load_legacy_file cx name) (\<lambda>_. True) rq
       (plan_transaction cx (load_legacy_file cx name) (legacy_planner cx name tickets d) (rq\<lparr>rq_aux := []\<rparr>) tickets d) d"

end
