(* ===== verification/TicketRecovery.thy ===== *)
theory TicketRecovery
  imports TicketTx
begin

text \<open>
  Recovery of an interrupted transaction (\<^verbatim>\<open>packages/tickets/lib/transaction.mjs\<close>): from the journal,
  the stage and the backups it drives the store forward or back. The result for a crash anywhere
  between two operations, in the transaction or in an earlier recovery, is that of a run without a
  crash; the result for a crash inside an operation is not.
\<close>

datatype direction = Complete | Rollback

datatype store_kind = DirectoryKind | LegacyKind string

section \<open>The journal\<close>

definition hex_digit :: "char \<Rightarrow> bool" where
  "hex_digit c \<longleftrightarrow> c \<in> set ''0123456789abcdef''"

definition shard_filename :: "string \<Rightarrow> bool" where
  "shard_filename s \<longleftrightarrow> length s \<ge> 72 \<and> ends_with s ''.json''
     \<and> list_all hex_digit (take 64 (drop (length s - 69) s)) \<and> take 2 (drop (length s - 71) s) = ''--''
     \<and> slug_alnum (hd s) \<and> list_all (\<lambda>c. slug_alnum c \<or> c = CHR ''-'') (take (length s - 71) s)"

text \<open>The form of a version 1 to 5 UUID: \<open>x\<close> is a digit of either case, \<open>v\<close> the version, \<open>y\<close> the variant.\<close>

definition uuid_char :: "char \<Rightarrow> char \<Rightarrow> bool" where
  "uuid_char m c \<longleftrightarrow>
     (if m = CHR ''-'' then c = CHR ''-'' else if m = CHR ''v'' then c \<in> set ''12345''
      else if m = CHR ''y'' then c \<in> set ''89abAB'' else c \<in> set ''0123456789abcdefABCDEF'')"

definition transaction_id :: "string \<Rightarrow> bool" where
  "transaction_id i = list_all2 uuid_char ''xxxxxxxx-xxxx-vxxx-yxxx-xxxxxxxxxxxx'' i"

definition expected_action :: "string \<Rightarrow> op_action option" where
  "expected_action operation =
     (if operation = ''archive'' then Some WriteOp else if operation = ''restore'' then Some DeleteOp else None)"

definition validateRecoveryOperation :: "tx_context \<Rightarrow> store_kind \<Rightarrow> journal \<Rightarrow> nat \<Rightarrow> operation \<Rightarrow> bool" where
  "validateRecoveryOperation cx kind j i o1 = (case op_role o1 of
      LegacyRole \<Rightarrow> (case kind of
          DirectoryKind \<Rightarrow> False
        | LegacyKind name \<Rightarrow> length (jn_ops j) = 1 \<and> op_action o1 = WriteOp
            \<and> op_place o1 = Legacy \<and> op_name o1 = name \<and> op_key o1 = FileKey name)
    | TicketRole \<Rightarrow> kind = DirectoryKind \<and> op_place o1 = Active \<and> shard_filename (op_name o1)
        \<and> op_key o1 = FileKey (op_name o1)
    | AuxRole \<Rightarrow> kind = DirectoryKind \<and> expected_action (jn_operation j) = Some (op_action o1)
        \<and> (case jn_ticket j of
             None \<Rightarrow> False
           | Some t \<Rightarrow> op_place o1 = Archived \<and> op_name o1 = ticketFilename (cx_sc cx) (cx_nfkd cx) t)
        \<and> op_key o1 = AuxKey (length (filter (\<lambda>o2. op_role o2 = AuxRole) (take i (jn_ops j)))))"

text \<open>The file name an operation of another role records is a path, not the name of a shard.\<close>

definition writtenShardFilenames :: "journal \<Rightarrow> string list" where
  "writtenShardFilenames j = map op_name (filter (\<lambda>o1. op_action o1 = WriteOp \<and> op_role o1 = TicketRole) (jn_ops j))"

definition backup_railed :: "tx_context \<Rightarrow> disk \<Rightarrow> operation \<Rightarrow> bool" where
  "backup_railed cx d o1 = (case map_of (dk_backup d) (op_key o1) of
      None \<Rightarrow> True
    | Some text \<Rightarrow>
        op_before o1 \<noteq> None \<and> op_before o1 \<noteq> Some (sc_sha (cx_sc cx) text)
        \<or> (case sc_parse (cx_sc cx) text of
             None \<Rightarrow> True
           | Some v \<Rightarrow> storeDeclaresRails (case js_get ''tickets'' v of VArr ts \<Rightarrow> ts | _ \<Rightarrow> [v])))"

definition journalBackupsDeclareRails :: "tx_context \<Rightarrow> disk \<Rightarrow> journal \<Rightarrow> bool" where
  "journalBackupsDeclareRails cx d j = list_ex (\<lambda>o1. op_backup o1 \<and> backup_railed cx d o1) (jn_ops j)"

text \<open>Is the recovery a write to a trust root? With the hash the store has now, if it loads.\<close>

definition recovery_trust ::
  "tx_context \<Rightarrow> (disk \<Rightarrow> store_error + snapshot) \<Rightarrow> journal \<Rightarrow> disk \<Rightarrow> bool \<times> string option" where
  "recovery_trust cx loader j d =
     (let now = (case loader d of
            Inl _ \<Rightarrow> (True, None)
          | Inr current \<Rightarrow>
              let replaced = list_ex (\<lambda>o1. op_role o1 = LegacyRole) (jn_ops j);
                  prior = (if replaced then []
                           else filter (\<lambda>t. ticketFilename (cx_sc cx) (cx_nfkd cx) (ticket_id t) \<notin> set (writtenShardFilenames j))
                                  (sn_tickets current))
              in (repoDeclaresRails cx d prior, Some (sn_hash current)))
      in (fst now \<or> journalBackupsDeclareRails cx d j \<or> jn_bypass j, snd now))"

section \<open>The steps of a recovery\<close>

text \<open>No step changes the stage or the backups, so their checks read the disk the recovery found.\<close>

definition recover_item ::
  "tx_context \<Rightarrow> store_kind \<Rightarrow> direction \<Rightarrow> journal \<Rightarrow> disk \<Rightarrow> nat \<times> operation \<Rightarrow> tx_error + act list" where
  "recover_item cx kind dir j d io =
     (let o1 = snd io; p = op_place o1; n = op_name o1; k = op_key o1; h = sc_sha (cx_sc cx)
      in if \<not> validateRecoveryOperation cx kind j (fst io) o1 then Inl InvalidJournal
         else case dir of
           Complete \<Rightarrow> (case op_action o1 of
               DeleteOp \<Rightarrow> Inr [RemoveAct p n]
             | WriteOp \<Rightarrow>
                 if map_of (dk_stage d) k = None \<or> map_option h (map_of (dk_stage d) k) \<noteq> op_after o1 then Inl (CorruptStage n)
                 else Inr [CopyStage k p (temp_name n ''.recovery-'' (jn_id j)), RenameAct p (temp_name n ''.recovery-'' (jn_id j)) n])
         | Rollback \<Rightarrow>
             if op_backup o1 then
               (if map_of (dk_backup d) k = None \<or> map_option h (map_of (dk_backup d) k) \<noteq> op_before o1 then Inl (CorruptBackup n)
                else Inr [CopyBackup k p (temp_name n ''.rollback-'' (jn_id j)), RenameAct p (temp_name n ''.rollback-'' (jn_id j)) n])
             else Inr [RemoveAct p n])"

fun recover_items ::
  "tx_context \<Rightarrow> store_kind \<Rightarrow> direction \<Rightarrow> journal \<Rightarrow> disk \<Rightarrow> (nat \<times> operation) list \<Rightarrow> tx_error option \<times> act list" where
  "recover_items cx kind dir j d [] = (None, [])"
| "recover_items cx kind dir j d (io # ios) = (case recover_item cx kind dir j d io of
      Inl e \<Rightarrow> (Some e, [])
    | Inr acts \<Rightarrow> (let r = recover_items cx kind dir j d ios in (fst r, acts @ snd r)))"

section \<open>The evidence of a recovery\<close>

definition recovered_ticket :: "direction \<Rightarrow> journal \<Rightarrow> string option" where
  "recovered_ticket dir j = (if dir = Rollback \<and> jn_beforeTicket j \<noteq> None then jn_beforeTicket j else jn_ticket j)"

definition recovered_hash :: "direction \<Rightarrow> journal \<Rightarrow> snapshot \<Rightarrow> string option" where
  "recovered_hash dir j after =
     (let i = recovered_ticket dir j; known = Option.bind i (map_of (sn_ticketHashes after))
      in if \<not> given i then None
         else if known \<noteq> None then known
         else if dir = Rollback then jn_beforeTicketHash j else jn_afterTicketHash j)"

definition recovery_gate :: "bool \<Rightarrow> journal \<Rightarrow> string" where
  "recovery_gate audit j = (if audit then audit_gate (jn_evidence j) (jn_operation j) else ''ticket-'' @ jn_operation j)"

definition completed_evidence :: "journal \<Rightarrow> evidence" where
  "completed_evidence j =
     \<lparr>ev_tx = jn_id j, ev_action = ''apply'', ev_gate = recovery_gate True j, ev_operation = jn_operation j,
       ev_ticket = jn_ticket j, ev_ticketHash = jn_afterTicketHash j, ev_storeHash = jn_after j,
       ev_audit = Some (jn_before j), ev_authentic = False\<rparr>"

definition recovery_action :: "direction \<Rightarrow> string" where
  "recovery_action dir = ''recover-'' @ (if dir = Complete then ''complete'' else ''rollback'')"

definition recovery_evidence :: "direction \<Rightarrow> bool \<Rightarrow> string option \<Rightarrow> journal \<Rightarrow> snapshot \<Rightarrow> evidence" where
  "recovery_evidence dir audit foundHash j after =
     \<lparr>ev_tx = jn_id j, ev_action = recovery_action dir,
       ev_gate = recovery_gate audit j, ev_operation = jn_operation j, ev_ticket = recovered_ticket dir j,
       ev_ticketHash = recovered_hash dir j after, ev_storeHash = sn_hash after,
       ev_audit = (if audit then Some (case foundHash of None \<Rightarrow> jn_before j | Some h \<Rightarrow> h) else None),
       ev_authentic = False\<rparr>"

definition record_recovery ::
  "string option \<Rightarrow> direction \<Rightarrow> bool \<Rightarrow> string option \<Rightarrow> journal \<Rightarrow> snapshot \<Rightarrow> (string \<Rightarrow> manifest_state) \<Rightarrow> evidence list
   \<Rightarrow> tx_error + evidence list" where
  "record_recovery key dir audit foundHash j after man entries =
     (if \<not> (jn_evidence j \<or> audit) then Inr entries
      else if given (recovered_ticket dir j) \<and> \<not> given (recovered_hash dir j after) then Inl EvidenceUnbound
      else bind_res (if dir = Complete \<and> audit then recordTicketEvidence key True (man ''apply'') (completed_evidence j) entries
                     else Inr entries) (\<lambda>es.
             recordTicketEvidence key False (man (recovery_action dir)) (recovery_evidence dir audit foundHash j after) es))"

text \<open>The two records are two appends: an error in the second keeps the first.\<close>

definition recovery_entries ::
  "string option \<Rightarrow> direction \<Rightarrow> bool \<Rightarrow> journal \<Rightarrow> snapshot \<Rightarrow> (string \<Rightarrow> manifest_state) \<Rightarrow> evidence list \<Rightarrow> evidence list" where
  "recovery_entries key dir audit j after man entries =
     (if dir = Complete \<and> audit \<and> \<not> (given (recovered_ticket dir j) \<and> \<not> given (recovered_hash dir j after))
      then (case recordTicketEvidence key True (man ''apply'') (completed_evidence j) entries of Inl _ \<Rightarrow> entries | Inr es \<Rightarrow> es)
      else entries)"

definition recoverDirectoryTransaction ::
  "tx_context \<Rightarrow> store_kind \<Rightarrow> (disk \<Rightarrow> store_error + snapshot) \<Rightarrow> string option \<Rightarrow> bool \<Rightarrow> direction \<Rightarrow> string \<Rightarrow> disk
   \<Rightarrow> (tx_error + snapshot) \<times> disk" where
  "recoverDirectoryTransaction cx kind loader key allowUnsigned dir i d = (case dk_journal d of
      None \<Rightarrow> (Inl InvalidJournal, d)
    | Some j \<Rightarrow>
        if \<not> transaction_id i \<or> jn_id j \<noteq> i \<or> jn_operation j = ''migrate'' then (Inl InvalidJournal, d)
        else let tr = recovery_trust cx loader j d in
        if fst tr \<and> key = None \<and> \<not> allowUnsigned then (Inl ManifestKeyRequired, d)
        else let r = recover_items cx kind dir j d (enumerate 0 (jn_ops j)); d' = perform_all (snd r) d in
        (case fst r of
           Some e \<Rightarrow> (Inl e, d')
         | None \<Rightarrow> (case loader d' of
               Inl e \<Rightarrow> (Inl (StoreFault e), d')
             | Inr after \<Rightarrow>
                 if sn_hash after \<noteq> (if dir = Complete then jn_after j else jn_before j) then (Inl RecoveryVerifyFailed, d')
                 else (case record_recovery key dir (fst tr) (snd tr) j after (dk_manifest d') (dk_evidence d') of
                     Inl e \<Rightarrow> (Inl e, d'\<lparr>dk_evidence := recovery_entries key dir (fst tr) j after (dk_manifest d') (dk_evidence d')\<rparr>)
                   | Inr es \<Rightarrow> (Inr after, perform DropTx (d'\<lparr>dk_evidence := es\<rparr>))))))"

end
