(* ===== verification/TicketCrash.thy ===== *)
theory TicketCrash
  imports TicketRecovery
begin

text \<open>
  What a crash does to a transaction on the ticket store: the invariant of the disk between the
  operations, and that recovery reaches the state of an uninterrupted run or the state before.
\<close>

section \<open>Files as a function\<close>

definition look :: "disk \<Rightarrow> place \<times> string \<Rightarrow> node option" where
  "look d x = map_of (dk_dir d (fst x)) (snd x)"

definition disk_ok :: "disk \<Rightarrow> bool" where
  "disk_ok d \<longleftrightarrow> (\<forall>p. dir_ok (dk_dir d p))"

definition target :: "operation \<Rightarrow> place \<times> string" where
  "target o1 = (op_place o1, op_name o1)"

text \<open>No name ends in the id of the transaction, as those of its temporary files do.\<close>

definition clean :: "string \<Rightarrow> disk \<Rightarrow> bool" where
  "clean i d \<longleftrightarrow> (\<forall>x. ends_with (snd x) i \<longrightarrow> look d x = None)"

definition same_frame :: "disk \<Rightarrow> disk \<Rightarrow> bool" where
  "same_frame d d' \<longleftrightarrow> dk_stage d' = dk_stage d \<and> dk_backup d' = dk_backup d
     \<and> dk_journal d' = dk_journal d \<and> dk_evidence d' = dk_evidence d \<and> dk_manifest d' = dk_manifest d"

lemma same_frame_refl [simp]: "same_frame d d"
  by (simp add: same_frame_def)

lemma same_frame_trans: "same_frame a b \<Longrightarrow> same_frame b c \<Longrightarrow> same_frame a c"
  by (simp add: same_frame_def)

lemma look_eqI: "disk_ok d \<Longrightarrow> disk_ok d' \<Longrightarrow> look d = look d' \<Longrightarrow> dk_dir d = dk_dir d'"
  by (rule ext, rule dir_eqI) (auto simp: disk_ok_def look_def fun_eq_iff)

lemma look_put: "disk_ok d \<Longrightarrow> look (put_file p n t d) = (look d)((p, n) \<mapsto> File t)"
  by (auto simp: look_def put_file_def disk_ok_def dir_put_get fun_eq_iff)

lemma look_del: "look (del_file p n d) = (look d)((p, n) := None)"
  by (auto simp: look_def del_file_def dir_del_get fun_eq_iff)

lemma disk_ok_put: "disk_ok d \<Longrightarrow> disk_ok (put_file p n t d)"
  by (simp add: disk_ok_def put_file_def dir_put_ok)

lemma disk_ok_del: "disk_ok d \<Longrightarrow> disk_ok (del_file p n d)"
  by (simp add: disk_ok_def del_file_def dir_del_ok)

lemma frame_put: "same_frame d (put_file p n t d)"
  by (simp add: same_frame_def put_file_def)

lemma frame_del: "same_frame d (del_file p n d)"
  by (simp add: same_frame_def del_file_def)

lemma file_text_look: "file_text d p n = (case look d (p, n) of Some (File s) \<Rightarrow> Some s | _ \<Rightarrow> None)"
  by (simp add: file_text_def dir_text_def look_def)

lemma perform_all_append: "perform_all (as @ bs) d = perform_all bs (perform_all as d)"
  by (simp add: perform_all_def)

lemma perform_all_Cons: "perform_all (a # as) d = perform_all as (perform a d)"
  by (simp add: perform_all_def)

lemma perform_all_Nil: "perform_all [] d = d"
  by (simp add: perform_all_def)

lemmas perform_all_simps = perform_all_append perform_all_Cons perform_all_Nil

section \<open>One operation\<close>

text \<open>\<open>acts\<close> set the file \<open>x\<close> to \<open>v\<close> and change nothing else, on a disk with stage \<open>S\<close> and
  backups \<open>B\<close> that has no temporary file of the transaction.\<close>

definition sets :: "string \<Rightarrow> disk \<Rightarrow> act list \<Rightarrow> place \<times> string \<Rightarrow> node option \<Rightarrow> bool" where
  "sets i d0 acts x v \<longleftrightarrow> (\<forall>d. disk_ok d \<and> clean i d \<and> same_frame d0 d \<longrightarrow>
     disk_ok (perform_all acts d) \<and> same_frame d (perform_all acts d) \<and> look (perform_all acts d) = (look d)(x := v))"

lemma sets_remove: "sets i d0 [RemoveAct p n] (p, n) None"
  by (simp add: sets_def perform_all_simps disk_ok_del frame_del look_del)

lemma copy_rename:
  assumes d: "disk_ok d" "look d (p, t) = None" "t \<noteq> n"
    and copy: "perform copy d = put_file p t text d"
  shows "disk_ok (perform_all [copy, RenameAct p t n] d)" (is ?a)
    and "same_frame d (perform_all [copy, RenameAct p t n] d)" (is ?b)
    and "look (perform_all [copy, RenameAct p t n] d) = (look d)((p, n) \<mapsto> File text)" (is ?c)
proof -
  have t: "file_text (put_file p t text d) p t = Some text" by (simp add: file_text_look look_put d)
  have e: "perform_all [copy, RenameAct p t n] d = put_file p n text (del_file p t (put_file p t text d))"
    by (simp add: perform_all_simps copy t)
  show ?a unfolding e by (intro disk_ok_put disk_ok_del d)
  show ?b unfolding e by (meson frame_put frame_del same_frame_trans)
  show ?c unfolding e using d by (auto simp: look_put look_del disk_ok_put disk_ok_del fun_eq_iff)
qed

lemma ends_with_temp: "ends_with (temp_name n s i) i"
  by (simp add: temp_name_def ends_with_def)

lemma sets_copy_stage:
  assumes "map_of (dk_stage d0) k = Some text" and "\<not> ends_with n i"
  shows "sets i d0 [CopyStage k p (temp_name n s i), RenameAct p (temp_name n s i) n] (p, n) (Some (File text))"
  unfolding sets_def
proof (intro allI impI)
  fix d assume d: "disk_ok d \<and> clean i d \<and> same_frame d0 d"
  have none: "look d (p, temp_name n s i) = None" using d ends_with_temp by (simp add: clean_def)
  have ne: "temp_name n s i \<noteq> n" using ends_with_temp assms(2) by metis
  have c: "perform (CopyStage k p (temp_name n s i)) d = put_file p (temp_name n s i) text d"
    using d assms(1) by (simp add: same_frame_def)
  show "disk_ok (perform_all [CopyStage k p (temp_name n s i), RenameAct p (temp_name n s i) n] d) \<and>
     same_frame d (perform_all [CopyStage k p (temp_name n s i), RenameAct p (temp_name n s i) n] d) \<and>
     look (perform_all [CopyStage k p (temp_name n s i), RenameAct p (temp_name n s i) n] d) = (look d)((p, n) \<mapsto> File text)"
    using copy_rename [OF _ none ne c] d by blast
qed

lemma sets_copy_backup:
  assumes "map_of (dk_backup d0) k = Some text" and "\<not> ends_with n i"
  shows "sets i d0 [CopyBackup k p (temp_name n s i), RenameAct p (temp_name n s i) n] (p, n) (Some (File text))"
  unfolding sets_def
proof (intro allI impI)
  fix d assume d: "disk_ok d \<and> clean i d \<and> same_frame d0 d"
  have none: "look d (p, temp_name n s i) = None" using d ends_with_temp by (simp add: clean_def)
  have ne: "temp_name n s i \<noteq> n" using ends_with_temp assms(2) by metis
  have c: "perform (CopyBackup k p (temp_name n s i)) d = put_file p (temp_name n s i) text d"
    using d assms(1) by (simp add: same_frame_def)
  show "disk_ok (perform_all [CopyBackup k p (temp_name n s i), RenameAct p (temp_name n s i) n] d) \<and>
     same_frame d (perform_all [CopyBackup k p (temp_name n s i), RenameAct p (temp_name n s i) n] d) \<and>
     look (perform_all [CopyBackup k p (temp_name n s i), RenameAct p (temp_name n s i) n] d) = (look d)((p, n) \<mapsto> File text)"
    using copy_rename [OF _ none ne c] d by blast
qed

section \<open>A list of operations\<close>

type_synonym change = "act list \<times> (place \<times> string) \<times> node option"

definition upd :: "change list \<Rightarrow> (place \<times> string \<Rightarrow> node option) \<Rightarrow> place \<times> string \<Rightarrow> node option" where
  "upd cs f = fold (\<lambda>c g. g(fst (snd c) := snd (snd c))) cs f"

lemma upd_other: "x \<notin> (\<lambda>c. fst (snd c)) ` set cs \<Longrightarrow> upd cs f x = f x"
  by (induction cs arbitrary: f) (auto simp: upd_def)

lemma upd_hit:
  assumes "distinct (map (\<lambda>c. fst (snd c)) cs)" and "c \<in> set cs"
  shows "upd cs f (fst (snd c)) = snd (snd c)"
  using assms
proof (induction cs arbitrary: f)
  case (Cons b cs)
  show ?case
  proof (cases "c = b")
    case True
    then have "fst (snd c) \<notin> (\<lambda>c. fst (snd c)) ` set cs" using Cons.prems(1) by auto
    then show ?thesis using True upd_other [of "fst (snd c)" cs] by (simp add: upd_def)
  next
    case False
    then show ?thesis using Cons by (simp add: upd_def)
  qed
qed simp

lemma clean_upd: "clean i d \<Longrightarrow> look d' = (look d)(x := v) \<Longrightarrow> \<not> ends_with (snd x) i \<Longrightarrow> clean i d'"
  by (auto simp: clean_def)

lemma sets_all:
  assumes "\<forall>c\<in>set cs. sets i d0 (fst c) (fst (snd c)) (snd (snd c)) \<and> \<not> ends_with (snd (fst (snd c))) i"
    and "disk_ok d" and "clean i d" and "same_frame d0 d"
  shows "disk_ok (perform_all (concat (map fst cs)) d) \<and> clean i (perform_all (concat (map fst cs)) d)
     \<and> same_frame d (perform_all (concat (map fst cs)) d) \<and> look (perform_all (concat (map fst cs)) d) = upd cs (look d)"
  using assms
proof (induction cs arbitrary: d)
  case Nil
  then show ?case by (simp add: perform_all_simps upd_def)
next
  case (Cons c cs)
  let ?d = "perform_all (fst c) d"
  have s: "sets i d0 (fst c) (fst (snd c)) (snd (snd c))" "\<not> ends_with (snd (fst (snd c))) i"
    using Cons.prems(1) by auto
  have d: "disk_ok ?d" "same_frame d ?d" "look ?d = (look d)(fst (snd c) := snd (snd c))"
    using s(1) Cons.prems(2-4) unfolding sets_def by blast+
  have cl: "clean i ?d" using clean_upd [OF Cons.prems(3) d(3) s(2)] .
  have fr: "same_frame d0 ?d" using same_frame_trans [OF Cons.prems(4) d(2)] .
  have cs: "\<forall>c\<in>set cs. sets i d0 (fst c) (fst (snd c)) (snd (snd c)) \<and> \<not> ends_with (snd (fst (snd c))) i"
    using Cons.prems(1) by simp
  note ih = Cons.IH [OF cs d(1) cl fr]
  have up: "upd cs (look ?d) = upd (c # cs) (look d)" by (simp add: upd_def d(3))
  show ?case using ih up same_frame_trans [OF d(2)] by (simp add: perform_all_append)
qed

section \<open>A prepared transaction\<close>

definition op_ready :: "tx_context \<Rightarrow> disk \<Rightarrow> disk \<Rightarrow> operation \<Rightarrow> bool" where
  "op_ready cx d0 dp o1 \<longleftrightarrow>
     (op_action o1 = WriteOp \<longrightarrow> (\<exists>text. map_of (dk_stage dp) (op_key o1) = Some text \<and> op_after o1 = Some (sc_sha (cx_sc cx) text)))
     \<and> (if op_backup o1
        then \<exists>text. look d0 (target o1) = Some (File text) \<and> map_of (dk_backup dp) (op_key o1) = Some text
               \<and> op_before o1 = Some (sc_sha (cx_sc cx) text)
        else look d0 (target o1) = None)"

definition prepared :: "tx_context \<Rightarrow> store_kind \<Rightarrow> journal \<Rightarrow> disk \<Rightarrow> disk \<Rightarrow> bool" where
  "prepared cx kind j d0 dp \<longleftrightarrow> disk_ok d0 \<and> clean (jn_id j) d0 \<and> transaction_id (jn_id j)
     \<and> dk_dir dp = dk_dir d0 \<and> dk_journal dp = Some j \<and> distinct (map target (jn_ops j))
     \<and> (\<forall>k<length (jn_ops j). validateRecoveryOperation cx kind j k (jn_ops j ! k))
     \<and> (\<forall>o1\<in>set (jn_ops j). op_ready cx d0 dp o1 \<and> \<not> ends_with (op_name o1) (jn_id j))"

definition forward_value :: "disk \<Rightarrow> operation \<Rightarrow> node option" where
  "forward_value dp o1 = (case op_action o1 of
      WriteOp \<Rightarrow> map_option File (map_of (dk_stage dp) (op_key o1))
    | DeleteOp \<Rightarrow> None)"

definition recover_acts :: "direction \<Rightarrow> string \<Rightarrow> operation \<Rightarrow> act list" where
  "recover_acts dir i o1 = (case dir of
      Complete \<Rightarrow> (case op_action o1 of
          DeleteOp \<Rightarrow> [RemoveAct (op_place o1) (op_name o1)]
        | WriteOp \<Rightarrow> [CopyStage (op_key o1) (op_place o1) (temp_name (op_name o1) ''.recovery-'' i),
            RenameAct (op_place o1) (temp_name (op_name o1) ''.recovery-'' i) (op_name o1)])
    | Rollback \<Rightarrow>
        if op_backup o1 then [CopyBackup (op_key o1) (op_place o1) (temp_name (op_name o1) ''.rollback-'' i),
            RenameAct (op_place o1) (temp_name (op_name o1) ''.rollback-'' i) (op_name o1)]
        else [RemoveAct (op_place o1) (op_name o1)])"

definition goal_value :: "direction \<Rightarrow> disk \<Rightarrow> disk \<Rightarrow> operation \<Rightarrow> node option" where
  "goal_value dir d0 dp o1 = (if dir = Complete then forward_value dp o1 else look d0 (target o1))"

lemma sets_apply:
  assumes "op_ready cx d0 dp o1" and "\<not> ends_with (op_name o1) i"
  shows "sets i dp (apply_acts i o1) (target o1) (forward_value dp o1)"
proof (cases "op_action o1")
  case WriteOp
  then obtain s where t: "map_of (dk_stage dp) (op_key o1) = Some s" using assms(1) by (auto simp: op_ready_def)
  show ?thesis using sets_copy_stage [OF t assms(2)] WriteOp t by (simp add: apply_acts_def target_def forward_value_def)
next
  case DeleteOp
  then show ?thesis by (simp add: apply_acts_def target_def forward_value_def sets_remove)
qed

lemma sets_recover:
  assumes "op_ready cx d0 dp o1" and "\<not> ends_with (op_name o1) i"
  shows "sets i dp (recover_acts dir i o1) (target o1) (goal_value dir d0 dp o1)"
proof (cases dir)
  case Complete
  show ?thesis
  proof (cases "op_action o1")
    case WriteOp
    then obtain s where t: "map_of (dk_stage dp) (op_key o1) = Some s" using assms(1) by (auto simp: op_ready_def)
    show ?thesis using sets_copy_stage [OF t assms(2)] WriteOp t Complete
      by (simp add: recover_acts_def target_def goal_value_def forward_value_def)
  next
    case DeleteOp
    then show ?thesis using Complete by (simp add: recover_acts_def target_def goal_value_def forward_value_def sets_remove)
  qed
next
  case Rollback
  show ?thesis
  proof (cases "op_backup o1")
    case True
    then obtain s where t: "look d0 (target o1) = Some (File s)" "map_of (dk_backup dp) (op_key o1) = Some s"
      using assms(1) by (auto simp: op_ready_def)
    show ?thesis using sets_copy_backup [OF t(2) assms(2)] True t Rollback
      by (simp add: recover_acts_def target_def goal_value_def)
  next
    case False
    then have "look d0 (target o1) = None" using assms(1) by (simp add: op_ready_def)
    then show ?thesis using False Rollback by (simp add: recover_acts_def target_def goal_value_def sets_remove)
  qed
qed

lemma recover_item_ready:
  assumes "validateRecoveryOperation cx kind j k o1" and "op_ready cx d0 dp o1" and "same_frame dp d"
  shows "recover_item cx kind dir j d (k, o1) = Inr (recover_acts dir (jn_id j) o1)"
  using assms
  by (cases dir; cases "op_action o1")
    (auto simp: recover_item_def recover_acts_def op_ready_def same_frame_def Let_def split: if_splits)

lemma recover_items_ready:
  assumes "\<forall>io\<in>set ios. validateRecoveryOperation cx kind j (fst io) (snd io) \<and> op_ready cx d0 dp (snd io)"
    and "same_frame dp d"
  shows "recover_items cx kind dir j d ios = (None, concat (map (\<lambda>io. recover_acts dir (jn_id j) (snd io)) ios))"
  using assms(1)
proof (induction ios)
  case (Cons io ios)
  obtain k o1 where io: "io = (k, o1)" by fastforce
  have h: "recover_item cx kind dir j d io = Inr (recover_acts dir (jn_id j) o1)"
    using recover_item_ready [OF _ _ assms(2), of cx kind j k o1 d0 dir] Cons.prems by (simp add: io)
  have r: "recover_items cx kind dir j d ios = (None, concat (map (\<lambda>io. recover_acts dir (jn_id j) (snd io)) ios))"
    using Cons.IH Cons.prems by simp
  show ?case by (simp add: h [unfolded io] r io)
qed simp

section \<open>Crashes\<close>

text \<open>The disk after a crash between two operations: in the transaction, or later in a recovery, of
  either direction, of what the crash before left.\<close>

inductive crashed :: "tx_context \<Rightarrow> store_kind \<Rightarrow> journal \<Rightarrow> disk \<Rightarrow> disk \<Rightarrow> bool" for cx kind j dp where
  in_transaction: "crashed cx kind j dp (perform_all (concat (map (apply_acts (jn_id j)) (take n (jn_ops j)))) dp)"
| in_recovery: "crashed cx kind j dp d \<Longrightarrow>
    crashed cx kind j dp (perform_all (snd (recover_items cx kind dir j d (take n (enumerate 0 (jn_ops j))))) d)"

definition crash_inv :: "journal \<Rightarrow> disk \<Rightarrow> disk \<Rightarrow> disk \<Rightarrow> bool" where
  "crash_inv j d0 dp d \<longleftrightarrow> disk_ok d \<and> clean (jn_id j) d \<and> same_frame dp d
     \<and> (\<forall>x. x \<notin> target ` set (jn_ops j) \<longrightarrow> look d x = look d0 x)"

lemma prepared_op:
  assumes "prepared cx kind j d0 dp" and "o1 \<in> set (jn_ops j)"
  shows "op_ready cx d0 dp o1" and "\<not> ends_with (op_name o1) (jn_id j)"
  using assms by (auto simp: prepared_def)

lemma prepared_item:
  assumes "prepared cx kind j d0 dp" and "io \<in> set (enumerate 0 (jn_ops j))"
  shows "validateRecoveryOperation cx kind j (fst io) (snd io)" and "op_ready cx d0 dp (snd io)"
    and "snd io \<in> set (jn_ops j)"
proof -
  have io: "fst io < length (jn_ops j)" "snd io = jn_ops j ! fst io"
    using assms(2) by (simp_all add: in_set_enumerate_eq)
  then show m: "snd io \<in> set (jn_ops j)" by simp
  show "validateRecoveryOperation cx kind j (fst io) (snd io)" using assms(1) io by (simp add: prepared_def)
  show "op_ready cx d0 dp (snd io)" by (rule prepared_op(1) [OF assms(1) m])
qed

text \<open>Any list of changes to targets of the operations keeps the invariant.\<close>

lemma changes_keep:
  assumes p: "prepared cx kind j d0 dp" and inv: "crash_inv j d0 dp d"
    and ops: "set os \<subseteq> set (jn_ops j)"
    and sets: "\<And>o1. o1 \<in> set os \<Longrightarrow> sets (jn_id j) dp (f o1) (target o1) (v o1)"
  shows "crash_inv j d0 dp (perform_all (concat (map f os)) d)"
    and "look (perform_all (concat (map f os)) d) = upd (map (\<lambda>o1. (f o1, target o1, v o1)) os) (look d)"
proof -
  let ?cs = "map (\<lambda>o1. (f o1, target o1, v o1)) os"
  have h: "\<forall>c\<in>set ?cs. sets (jn_id j) dp (fst c) (fst (snd c)) (snd (snd c)) \<and> \<not> ends_with (snd (fst (snd c))) (jn_id j)"
    using sets ops prepared_op(2) [OF p] by (auto simp: target_def)
  have d: "disk_ok d" "clean (jn_id j) d" "same_frame dp d" using inv by (auto simp: crash_inv_def)
  have e: "concat (map fst ?cs) = concat (map f os)" by (simp add: comp_def)
  note all = sets_all [OF h d, unfolded e]
  show l: "look (perform_all (concat (map f os)) d) = upd ?cs (look d)" using all by blast
  have "look (perform_all (concat (map f os)) d) x = look d0 x" if x: "x \<notin> target ` set (jn_ops j)" for x
  proof -
    have "x \<notin> (\<lambda>c. fst (snd c)) ` set ?cs" using x ops by auto
    then have "upd ?cs (look d) x = look d x" by (rule upd_other)
    then show ?thesis using inv x unfolding l crash_inv_def by simp
  qed
  then show "crash_inv j d0 dp (perform_all (concat (map f os)) d)"
    unfolding crash_inv_def using all same_frame_trans [OF d(3)] by (intro conjI) simp_all
qed

lemma crashed_inv:
  assumes p: "prepared cx kind j d0 dp" and c: "crashed cx kind j dp d"
  shows "crash_inv j d0 dp d"
  using c
proof (induction rule: crashed.induct)
  case (in_transaction n)
  have inv: "crash_inv j d0 dp dp" using p by (simp add: crash_inv_def prepared_def look_def disk_ok_def clean_def)
  have sub: "set (take n (jn_ops j)) \<subseteq> set (jn_ops j)" by (rule set_take_subset)
  show ?case
    by (rule changes_keep(1) [OF p inv sub, where v = "forward_value dp"])
      (rule sets_apply [OF prepared_op [OF p subsetD [OF sub]]])
next
  case (in_recovery d dir n)
  let ?ios = "take n (enumerate 0 (jn_ops j))"
  have io: "\<forall>io\<in>set ?ios. validateRecoveryOperation cx kind j (fst io) (snd io) \<and> op_ready cx d0 dp (snd io)"
    using prepared_item [OF p] in_set_takeD by fast
  have fr: "same_frame dp d" using in_recovery.IH by (simp add: crash_inv_def)
  have e: "snd (recover_items cx kind dir j d ?ios) = concat (map (recover_acts dir (jn_id j)) (map snd ?ios))"
    using recover_items_ready [OF io fr, of dir] by (simp add: comp_def)
  have sub: "set (map snd ?ios) \<subseteq> set (jn_ops j)"
    using prepared_item(3) [OF p] in_set_takeD by fastforce
  show ?case unfolding e
    by (rule changes_keep(1) [OF p in_recovery.IH sub, where v = "goal_value dir d0 dp"])
      (rule sets_recover [OF prepared_op [OF p subsetD [OF sub]]])
qed

section \<open>Recovery after a crash\<close>

definition all_recovery_acts :: "direction \<Rightarrow> journal \<Rightarrow> act list" where
  "all_recovery_acts dir j = concat (map (recover_acts dir (jn_id j)) (jn_ops j))"

lemma recovery_reaches_goal:
  assumes p: "prepared cx kind j d0 dp" and c: "crashed cx kind j dp d"
  shows "recover_items cx kind dir j d (enumerate 0 (jn_ops j)) = (None, all_recovery_acts dir j)"
    and "dk_dir (perform_all (all_recovery_acts dir j) d)
       = (if dir = Complete then dk_dir (perform_all (concat (map (apply_acts (jn_id j)) (jn_ops j))) dp) else dk_dir d0)"
    and "same_frame dp (perform_all (all_recovery_acts dir j) d)"
proof -
  let ?os = "jn_ops j"
  have inv: "crash_inv j d0 dp d" by (rule crashed_inv [OF p c])
  have inv0: "crash_inv j d0 dp dp" using p by (simp add: crash_inv_def prepared_def look_def disk_ok_def clean_def)
  have fr: "same_frame dp d" using inv by (simp add: crash_inv_def)
  have io: "\<forall>io\<in>set (enumerate 0 ?os). validateRecoveryOperation cx kind j (fst io) (snd io) \<and> op_ready cx d0 dp (snd io)"
    using prepared_item [OF p] by blast
  have m: "map (\<lambda>io. recover_acts dir (jn_id j) (snd io)) (enumerate 0 ?os) = map (recover_acts dir (jn_id j)) ?os"
    by (simp add: map_map [symmetric, unfolded comp_def] del: map_map)
  show "recover_items cx kind dir j d (enumerate 0 ?os) = (None, all_recovery_acts dir j)"
    using recover_items_ready [OF io fr, of dir] by (simp add: m all_recovery_acts_def)
  note rec = changes_keep [OF p inv subset_refl, where f = "recover_acts dir (jn_id j)" and v = "goal_value dir d0 dp",
      OF sets_recover [OF prepared_op [OF p]], simplified]
  note app = changes_keep [OF p inv0 subset_refl, where f = "apply_acts (jn_id j)" and v = "forward_value dp",
      OF sets_apply [OF prepared_op [OF p]], simplified]
  have dist: "distinct (map target ?os)" using p by (simp add: prepared_def)
  have hit: "upd (map (\<lambda>o1. (f o1, target o1, v o1)) ?os) g (target o1) = v o1" if "o1 \<in> set ?os" for f g v o1
    using upd_hit [of "map (\<lambda>o1. (f o1, target o1, v o1)) ?os" "(f o1, target o1, v o1)" g] dist that
    by (simp add: comp_def)
  have miss: "upd (map (\<lambda>o1. (f o1, target o1, v o1)) ?os) g x = g x" if "x \<notin> target ` set ?os" for f g v x
    using that upd_other [of x "map (\<lambda>o1. (f o1, target o1, v o1)) ?os" g] by (auto simp: image_iff)
  have ok: "disk_ok (perform_all (all_recovery_acts dir j) d)" "disk_ok (perform_all (concat (map (apply_acts (jn_id j)) ?os)) dp)"
    "disk_ok d0"
    using rec(1) app(1) p by (simp_all add: crash_inv_def all_recovery_acts_def prepared_def)
  show "same_frame dp (perform_all (all_recovery_acts dir j) d)"
    using rec(1) by (simp add: crash_inv_def all_recovery_acts_def)
  have old: "look d x = look d0 x" "look dp x = look d0 x" if "x \<notin> target ` set ?os" for x
    using that inv inv0 unfolding crash_inv_def by blast+
  show "dk_dir (perform_all (all_recovery_acts dir j) d)
       = (if dir = Complete then dk_dir (perform_all (concat (map (apply_acts (jn_id j)) ?os)) dp) else dk_dir d0)"
  proof (cases dir)
    case Complete
    have "look (perform_all (all_recovery_acts dir j) d) = look (perform_all (concat (map (apply_acts (jn_id j)) ?os)) dp)"
    proof
      fix x
      show "look (perform_all (all_recovery_acts dir j) d) x = look (perform_all (concat (map (apply_acts (jn_id j)) ?os)) dp) x"
      proof (cases "x \<in> target ` set ?os")
        case True
        then obtain o1 where "o1 \<in> set ?os" "x = target o1" by blast
        then show ?thesis by (simp add: all_recovery_acts_def rec(2) app(2) hit) (simp add: goal_value_def Complete)
      next
        case False
        then show ?thesis by (simp add: all_recovery_acts_def rec(2) app(2) miss old)
      qed
    qed
    then show ?thesis using look_eqI [OF ok(1,2)] Complete by simp
  next
    case Rollback
    have "look (perform_all (all_recovery_acts dir j) d) = look d0"
    proof
      fix x
      show "look (perform_all (all_recovery_acts dir j) d) x = look d0 x"
      proof (cases "x \<in> target ` set ?os")
        case True
        then obtain o1 where "o1 \<in> set ?os" "x = target o1" by blast
        then show ?thesis by (simp add: all_recovery_acts_def rec(2) hit) (simp add: goal_value_def Rollback)
      next
        case False
        then show ?thesis by (simp add: all_recovery_acts_def rec(2) miss old)
      qed
    qed
    then show ?thesis using look_eqI [OF ok(1,3)] Rollback by simp
  qed
qed

section \<open>What a plan prepares\<close>

definition prepared_disk :: "plan \<Rightarrow> disk \<Rightarrow> disk" where
  "prepared_disk pl d = perform_all (concat (map prepare_acts (pl_planned pl)) @ [JournalAct (pl_journal pl)]) d"

definition planned_key :: "planned \<Rightarrow> stage_key" where
  "planned_key pl = op_key (fst pl)"

lemma prepare_one:
  shows "dk_dir (perform_all (prepare_acts pl) d) = dk_dir d"
    and "dk_evidence (perform_all (prepare_acts pl) d) = dk_evidence d"
    and "map_of (dk_stage (perform_all (prepare_acts pl) d))
       = (case snd pl of None \<Rightarrow> map_of (dk_stage d) | Some s \<Rightarrow> (map_of (dk_stage d))(planned_key pl \<mapsto> s))"
    and "map_of (dk_backup (perform_all (prepare_acts pl) d))
       = (case (op_backup (fst pl), file_text d (op_place (fst pl)) (op_name (fst pl))) of
            (True, Some s) \<Rightarrow> (map_of (dk_backup d))(planned_key pl \<mapsto> s) | _ \<Rightarrow> map_of (dk_backup d))"
  by (auto simp: prepare_acts_def Let_def perform_all_simps planned_key_def update_conv' file_text_def
      split: option.splits bool.splits)

lemma prepare_all:
  assumes "distinct (map planned_key pls)"
  shows "dk_dir (perform_all (concat (map prepare_acts pls)) d) = dk_dir d
     \<and> dk_evidence (perform_all (concat (map prepare_acts pls)) d) = dk_evidence d
     \<and> (\<forall>k. k \<notin> planned_key ` set pls \<longrightarrow>
          map_of (dk_stage (perform_all (concat (map prepare_acts pls)) d)) k = map_of (dk_stage d) k
          \<and> map_of (dk_backup (perform_all (concat (map prepare_acts pls)) d)) k = map_of (dk_backup d) k)
     \<and> (\<forall>pl\<in>set pls.
          (\<forall>s. snd pl = Some s \<longrightarrow> map_of (dk_stage (perform_all (concat (map prepare_acts pls)) d)) (planned_key pl) = Some s)
          \<and> (\<forall>s. op_backup (fst pl) \<and> file_text d (op_place (fst pl)) (op_name (fst pl)) = Some s \<longrightarrow>
               map_of (dk_backup (perform_all (concat (map prepare_acts pls)) d)) (planned_key pl) = Some s))"
  using assms
proof (induction pls arbitrary: d)
  case (Cons pl pls)
  let ?d = "perform_all (prepare_acts pl) d"
  have dist: "distinct (map planned_key pls)" and new: "planned_key pl \<notin> planned_key ` set pls" using Cons.prems by auto
  note ih = Cons.IH [OF dist, of ?d]
  note one = prepare_one [of pl d]
  have e: "perform_all (concat (map prepare_acts (pl # pls))) d = perform_all (concat (map prepare_acts pls)) ?d"
    by (simp add: perform_all_append)
  have ft: "file_text ?d p n = file_text d p n" for p n by (simp add: file_text_def one(1))
  show ?case unfolding e
  proof (intro conjI allI impI ballI)
    show "dk_dir (perform_all (concat (map prepare_acts pls)) ?d) = dk_dir d" using ih one(1) by simp
    show "dk_evidence (perform_all (concat (map prepare_acts pls)) ?d) = dk_evidence d" using ih one(2) by simp
  next
    fix k assume k: "k \<notin> planned_key ` set (pl # pls)"
    then show "map_of (dk_stage (perform_all (concat (map prepare_acts pls)) ?d)) k = map_of (dk_stage d) k"
      using ih one(3) by (auto split: option.splits)
    show "map_of (dk_backup (perform_all (concat (map prepare_acts pls)) ?d)) k = map_of (dk_backup d) k"
      using k ih one(4) by (auto split: option.splits bool.splits)
  next
    fix q s assume q: "q \<in> set (pl # pls)" and s: "snd q = Some s"
    show "map_of (dk_stage (perform_all (concat (map prepare_acts pls)) ?d)) (planned_key q) = Some s"
    proof (cases "q \<in> set pls")
      case True then show ?thesis using ih s by blast
    next
      case False
      then have "q = pl" using q by simp
      then show ?thesis using ih new one(3) s by simp
    qed
  next
    fix q s assume q: "q \<in> set (pl # pls)"
      and s: "op_backup (fst q) \<and> file_text d (op_place (fst q)) (op_name (fst q)) = Some s"
    show "map_of (dk_backup (perform_all (concat (map prepare_acts pls)) ?d)) (planned_key q) = Some s"
    proof (cases "q \<in> set pls")
      case True then show ?thesis using ih s unfolding ft by blast
    next
      case False
      then have "q = pl" using q by simp
      then show ?thesis using ih new one(4) s by simp
    qed
  qed
qed (simp add: perform_all_simps)

text \<open>What the planners promise of one planned operation.\<close>

definition planned_ok :: "tx_context \<Rightarrow> disk \<Rightarrow> planned \<Rightarrow> bool" where
  "planned_ok cx d pl \<longleftrightarrow>
     (op_action (fst pl) = WriteOp \<longrightarrow> (\<exists>s. snd pl = Some s \<and> op_after (fst pl) = Some (sc_sha (cx_sc cx) s)))
     \<and> (if op_backup (fst pl)
        then \<exists>s. look d (target (fst pl)) = Some (File s) \<and> op_before (fst pl) = Some (sc_sha (cx_sc cx) s)
        else look d (target (fst pl)) = None)"

lemma prepared_diskI:
  assumes "disk_ok d" and "clean (jn_id (pl_journal pl)) d" and "transaction_id (jn_id (pl_journal pl))"
    and ops: "jn_ops (pl_journal pl) = map fst (pl_planned pl)"
    and "distinct (map target (jn_ops (pl_journal pl)))"
    and keys: "distinct (map planned_key (pl_planned pl))"
    and "\<forall>k<length (jn_ops (pl_journal pl)). validateRecoveryOperation cx kind (pl_journal pl) k (jn_ops (pl_journal pl) ! k)"
    and ok: "\<forall>q\<in>set (pl_planned pl). planned_ok cx d q \<and> \<not> ends_with (op_name (fst q)) (jn_id (pl_journal pl))"
  shows "prepared cx kind (pl_journal pl) d (prepared_disk pl d)"
proof -
  let ?d = "perform_all (concat (map prepare_acts (pl_planned pl))) d"
  note all = prepare_all [OF keys, of d]
  have e: "prepared_disk pl d = ?d\<lparr>dk_journal := Some (pl_journal pl)\<rparr>"
    by (simp add: prepared_disk_def perform_all_simps)
  have "op_ready cx d (prepared_disk pl d) (fst q)" if q: "q \<in> set (pl_planned pl)" for q
  proof -
    have o1: "planned_ok cx d q" using ok q by blast
    have st: "map_of (dk_stage ?d) (op_key (fst q)) = Some s" if "snd q = Some s" for s
      using all q that by (auto simp: planned_key_def)
    have bk: "map_of (dk_backup ?d) (op_key (fst q)) = Some s"
      if "op_backup (fst q)" "look d (target (fst q)) = Some (File s)" for s
      using all q that by (auto simp: planned_key_def file_text_look target_def)
    show ?thesis unfolding op_ready_def e using o1 st bk unfolding planned_ok_def by (auto split: if_splits)
  qed
  then show ?thesis using assms all unfolding prepared_def by (auto simp: e ops)
qed

section \<open>File names\<close>

text \<open>What SHA-256 in hexadecimal looks like.\<close>

definition sha_hex :: "tx_context \<Rightarrow> bool" where
  "sha_hex cx \<longleftrightarrow> (\<forall>s. length (sc_sha (cx_sc cx) s) = 64 \<and> list_all hex_digit (sc_sha (cx_sc cx) s))"

lemma dash_runs_chars: "c \<in> set (dash_runs s) \<Longrightarrow> slug_alnum c \<or> c = CHR ''-''"
  by (induction s rule: dash_runs.induct) (auto split: if_splits)

lemma strip_dashes_chars: "set (strip_dashes_end s) \<subseteq> set s"
  by (auto simp: strip_dashes_end_def dest: set_dropWhileD)

lemma strip_dashes_Nil [simp]: "strip_dashes_end [] = []"
  by (simp add: strip_dashes_end_def)

lemma strip_dashes_hd: "strip_dashes_end s \<noteq> [] \<Longrightarrow> hd (strip_dashes_end s) = hd s"
proof -
  assume h: "strip_dashes_end s \<noteq> []"
  obtain r where "rev s = r @ dropWhile (\<lambda>c. c = CHR ''-'') (rev s)"
    by (metis takeWhile_dropWhile_id)
  then have "s = strip_dashes_end s @ rev r"
    by (metis rev_append rev_rev_ident strip_dashes_end_def)
  then show ?thesis using h by (metis hd_append2)
qed

lemma ticketSlug_shape:
  shows "ticketSlug f i \<noteq> []" and "slug_alnum (hd (ticketSlug f i))"
    and "list_all (\<lambda>c. slug_alnum c \<or> c = CHR ''-'') (ticketSlug f i)"
proof -
  let ?a = "dropWhile (\<lambda>c. c = CHR ''-'') (dash_runs (to_lower (f i)))"
  let ?b = "strip_dashes_end ?a"
  let ?c = "strip_dashes_end (take 48 ?b)"
  have e: "ticketSlug f i = (if ?c = [] then ''ticket'' else ?c)" by (simp add: ticketSlug_def Let_def)
  show "ticketSlug f i \<noteq> []" by (simp add: e)
  have sub: "set ?c \<subseteq> set (dash_runs (to_lower (f i)))"
  proof -
    have "set ?a \<subseteq> set (dash_runs (to_lower (f i)))" by (rule subsetI) (drule set_dropWhileD, simp)
    then show ?thesis using strip_dashes_chars [of "take 48 ?b"] strip_dashes_chars [of ?a] set_take_subset [of 48 ?b]
      by (meson subset_trans)
  qed
  show "list_all (\<lambda>c. slug_alnum c \<or> c = CHR ''-'') (ticketSlug f i)"
  proof (cases "?c = []")
    case True
    then show ?thesis by (simp add: e slug_alnum_def)
  next
    case False
    then show ?thesis using sub dash_runs_chars unfolding e list_all_iff by (simp only: if_False) blast
  qed
  show "slug_alnum (hd (ticketSlug f i))"
  proof (cases "?c = []")
    case False
    then have b: "take 48 ?b \<noteq> []" using strip_dashes_Nil by metis
    have "hd ?c = hd (take 48 ?b)" by (rule strip_dashes_hd [OF False])
    moreover have "hd (take 48 ?b) = hd ?b" by (rule hd_take) simp
    moreover have "hd ?b = hd ?a" by (rule strip_dashes_hd) (use b take_Nil in metis)
    ultimately have h: "hd ?c = hd ?a" by simp
    have a: "?a \<noteq> []" using b strip_dashes_Nil take_Nil by metis
    have "hd ?a \<noteq> CHR ''-''" using hd_dropWhile [OF a] .
    moreover have "hd ?a \<in> set (dash_runs (to_lower (f i)))"
      using hd_in_set [OF a] set_dropWhileD by metis
    ultimately have "slug_alnum (hd ?c)" using dash_runs_chars h by force
    then show ?thesis using False by (simp only: e if_False)
  qed (simp add: e slug_alnum_def)
qed

lemma shard_filename_ticket:
  assumes "sha_hex cx"
  shows "shard_filename (ticketFilename (cx_sc cx) (cx_nfkd cx) i)"
proof -
  let ?s = "ticketSlug (cx_nfkd cx) i" and ?h = "sc_sha (cx_sc cx) i"
  let ?n = "?s @ ''--'' @ ?h @ ''.json''"
  have h: "length ?h = 64" "list_all hex_digit ?h" using assms by (simp_all add: sha_hex_def)
  have len: "length ?n = length ?s + 71" by (simp add: h)
  have pos: "1 \<le> length ?s" using ticketSlug_shape(1) [of "cx_nfkd cx" i] by (cases ?s) auto
  have a: "length ?n - 71 = length ?s" "length ?n - 69 = length ?s + 2" using len by auto
  have "take 64 (drop (length ?n - 69) ?n) = ?h" unfolding a by (simp add: h)
  moreover have "take 2 (drop (length ?n - 71) ?n) = ''--''" unfolding a by (simp add: numeral_2_eq_2)
  moreover have "take (length ?n - 71) ?n = ?s" unfolding a by simp
  moreover have "hd ?n = hd ?s" using ticketSlug_shape(1) [of "cx_nfkd cx" i] by simp
  moreover have "ends_with ?n ''.json''" unfolding ends_with_iff by (intro exI [where x = "?s @ ''--'' @ ?h"]) simp
  ultimately show ?thesis
    unfolding ticketFilename_def shard_filename_def
    using h ticketSlug_shape [of "cx_nfkd cx" i] len pos by simp
qed

lemma transaction_id_last:
  assumes "transaction_id i"
  shows "i \<noteq> []" and "last i \<in> set ''0123456789abcdefABCDEF''"
proof -
  let ?m = "''xxxxxxxx-xxxx-vxxx-yxxx-xxxxxxxxxxxx''"
  have l: "length i = 36" using list_all2_lengthD [OF assms [unfolded transaction_id_def]] by simp
  then show "i \<noteq> []" by auto
  have "uuid_char (?m ! 35) (i ! 35)"
    by (rule list_all2_nthD [OF assms [unfolded transaction_id_def]]) simp
  moreover have "last i = i ! 35" using l by (simp add: last_conv_nth \<open>i \<noteq> []\<close>)
  ultimately show "last i \<in> set ''0123456789abcdefABCDEF''" by (simp add: uuid_char_def)
qed

lemma ends_with_last: "ends_with w s \<Longrightarrow> s \<noteq> [] \<Longrightarrow> last w = last s"
  by (auto simp: ends_with_iff)

lemma json_not_id:
  assumes "ends_with n ''.json''" and "transaction_id i"
  shows "\<not> ends_with n i"
proof
  assume "ends_with n i"
  then have "last n = last i" using ends_with_last transaction_id_last(1) [OF assms(2)] by blast
  moreover have "last n = CHR ''n''" using ends_with_last [OF assms(1)] by simp
  ultimately have "last i = CHR ''n''" by (rule trans [OF sym])
  then show False using transaction_id_last(2) [OF assms(2)] by simp
qed

lemma shard_ends: "shard_filename s \<Longrightarrow> ends_with s ''.json''"
  by (simp add: shard_filename_def)

section \<open>The plan of a directory transaction\<close>

lemma load_active_shards:
  assumes "load_active cx d = Inr s"
  obtains tx ts where "look d (Active, ''.store.json'') = Some (File tx)"
    and "map_res (load_shard (cx_sc cx) (cx_nfkd cx)) (filter (\<lambda>e. fst e \<noteq> ''.store.json'') (dk_dir d Active)) = Inr ts"
    and "take_snapshot (cx_sc cx) ts = Inr s"
  using assms unfolding load_active_def load_dir_def look_def
  by (auto simp: bind_res_eq_Inr split: if_splits option.splits node.splits sum.splits) (metis sum.exhaust)

lemma list_all2_left: "list_all2 P xs ys \<Longrightarrow> x \<in> set xs \<Longrightarrow> \<exists>y\<in>set ys. P x y"
  by (induction xs ys rule: list_all2_induct) auto

lemma list_all2_right: "list_all2 P xs ys \<Longrightarrow> y \<in> set ys \<Longrightarrow> \<exists>x\<in>set xs. P x y"
  by (induction xs ys rule: list_all2_induct) auto

lemma load_shard_Inr:
  assumes "load_shard sc f e = Inr t"
  shows "\<exists>text. snd e = File text" and "fst e = ticketFilename sc f (ticket_id t)"
    and "ends_with (fst e) ''.json''"
  using assms by (auto simp: load_shard_def split: node.splits if_splits option.splits)

lemma take_snapshot_tickets: "take_snapshot sc ts = Inr s \<Longrightarrow> set (sn_tickets s) = set ts"
  by (auto simp: take_snapshot_def Let_def bind_res_eq_Inr)

lemma load_active_look:
  assumes l: "load_active cx d = Inr s"
  shows "look d (Active, n) \<noteq> Some Other"
    and "t \<in> set (sn_tickets s) \<Longrightarrow> dir_ok (dk_dir d Active) \<Longrightarrow>
      \<exists>text. look d (Active, ticketFilename (cx_sc cx) (cx_nfkd cx) (ticket_id t)) = Some (File text)"
proof -
  let ?es = "filter (\<lambda>e. fst e \<noteq> ''.store.json'') (dk_dir d Active)"
  obtain tx ts where m: "look d (Active, ''.store.json'') = Some (File tx)"
    and ts: "map_res (load_shard (cx_sc cx) (cx_nfkd cx)) ?es = Inr ts" and s: "take_snapshot (cx_sc cx) ts = Inr s"
    using load_active_shards [OF l] by metis
  have all: "list_all2 (\<lambda>e t. load_shard (cx_sc cx) (cx_nfkd cx) e = Inr t) ?es ts"
    using ts by (simp add: map_res_Inr_list_all2)
  show "look d (Active, n) \<noteq> Some Other"
  proof
    assume oth: "look d (Active, n) = Some Other"
    then have "n \<noteq> ''.store.json''" using m by auto
    moreover have "(n, Other) \<in> set (dk_dir d Active)" by (rule map_of_SomeD) (use oth in \<open>simp add: look_def\<close>)
    ultimately have "(n, Other) \<in> set ?es" by simp
    then obtain t where "load_shard (cx_sc cx) (cx_nfkd cx) (n, Other) = Inr t"
      using list_all2_left [OF all] by blast
    then show False by (simp add: load_shard_def)
  qed
  show "\<exists>text. look d (Active, ticketFilename (cx_sc cx) (cx_nfkd cx) (ticket_id t)) = Some (File text)"
    if t: "t \<in> set (sn_tickets s)" and ok: "dir_ok (dk_dir d Active)"
  proof -
    have "t \<in> set ts" using t take_snapshot_tickets [OF s] by simp
    then obtain e where e: "e \<in> set ?es" "load_shard (cx_sc cx) (cx_nfkd cx) e = Inr t"
      using list_all2_right [OF all] by blast
    obtain tx where tx: "snd e = File tx" using load_shard_Inr(1) [OF e(2)] by blast
    have "distinct (map fst (dk_dir d Active))" using ok by (simp add: dir_ok_def strict_sorted_iff)
    moreover have "e \<in> set (dk_dir d Active)" using e(1) by simp
    ultimately have "map_of (dk_dir d Active) (fst e) = Some (snd e)" by (simp add: map_of_eq_Some_iff)
    then show ?thesis using tx load_shard_Inr(2) [OF e(2)] by (simp add: look_def)
  qed
qed

lemma plan_transaction_Inr:
  assumes "plan_transaction cx loader planner rq tickets d = Inr pl"
  shows "loader d = Inr (pl_before pl)" and "planner (pl_before pl) = Inr (pl_planned pl)"
    and "jn_id (pl_journal pl) = rq_id rq" and "jn_operation (pl_journal pl) = rq_operation rq"
    and "jn_ticket (pl_journal pl) = rq_ticket rq" and "jn_ops (pl_journal pl) = map fst (pl_planned pl)"
    and "jn_before (pl_journal pl) = sn_hash (pl_before pl)" and "jn_evidence (pl_journal pl) = rq_evidence rq"
    and "jn_bypass (pl_journal pl) = pl_audit pl"
  using assms unfolding plan_transaction_def
  by (auto simp: bind_res_eq_Inr split: sum.splits if_splits prod.splits)

definition ticket_planned :: "planned \<Rightarrow> bool" where
  "ticket_planned q \<longleftrightarrow> op_role (fst q) = TicketRole \<and> op_place (fst q) = Active
     \<and> op_key (fst q) = FileKey (op_name (fst q))"

lemma file_text_None: "look d (p, n) \<noteq> Some Other \<Longrightarrow> file_text d p n = None \<longleftrightarrow> look d (p, n) = None"
  by (auto simp: file_text_look split: option.splits node.splits)

lemma file_text_Some: "file_text d p n = Some s \<longleftrightarrow> look d (p, n) = Some (File s)"
  by (auto simp: file_text_look split: option.splits node.splits)

lemma planned_okI:
  assumes "look d (op_place (fst q), op_name (fst q)) \<noteq> Some Other"
    and "op_backup (fst q) = (file_text d (op_place (fst q)) (op_name (fst q)) \<noteq> None)"
    and "op_before (fst q) = map_option (sc_sha (cx_sc cx)) (file_text d (op_place (fst q)) (op_name (fst q)))"
    and "op_action (fst q) = WriteOp \<Longrightarrow> op_after (fst q) = map_option (sc_sha (cx_sc cx)) (snd q) \<and> snd q \<noteq> None"
  shows "planned_ok cx d q"
proof (cases "file_text d (op_place (fst q)) (op_name (fst q))")
  case None
  then show ?thesis using assms file_text_None [OF assms(1)] by (auto simp: planned_ok_def target_def)
next
  case (Some s)
  then have "look d (op_place (fst q), op_name (fst q)) = Some (File s)" by (simp add: file_text_Some)
  then show ?thesis using assms Some by (auto simp: planned_ok_def target_def)
qed

lemma plan_writes_ok:
  assumes "plan_writes cx d bs = Inr ws" and "\<And>n. look d (Active, n) \<noteq> Some Other"
  shows "\<forall>q\<in>set ws. ticket_planned q \<and> op_name (fst q) \<in> fst ` set bs \<and> planned_ok cx d q"
    and "distinct (map fst bs) \<Longrightarrow> distinct (map (\<lambda>q. op_name (fst q)) ws)"
proof -
  have "(\<forall>q\<in>set ws. ticket_planned q \<and> op_name (fst q) \<in> fst ` set bs \<and> planned_ok cx d q)
     \<and> (distinct (map fst bs) \<longrightarrow> distinct (map (\<lambda>q. op_name (fst q)) ws))"
    using assms(1)
  proof (induction bs arbitrary: ws)
    case (Cons b bs)
    obtain name t where b: "b = (name, t)" by fastforce
    obtain tx os where tx: "pretty_ticket (cx_sc cx) t = Inr tx" and os: "plan_writes cx d bs = Inr os"
      using Cons.prems by (auto simp: b bind_res_eq_Inr)
    let ?o = "\<lparr>op_role = TicketRole, op_action = WriteOp, op_place = Active, op_name = name, op_key = FileKey name,
        op_backup = (file_text d Active name \<noteq> None), op_before = map_option (sc_sha (cx_sc cx)) (file_text d Active name),
        op_after = Some (sc_sha (cx_sc cx) tx)\<rparr>"
    have ws: "ws = (if file_text d Active name = Some tx then os else (?o, Some tx) # os)"
      using Cons.prems by (simp add: b tx os split: if_splits)
    have "planned_ok cx d (?o, Some tx)" by (rule planned_okI) (simp_all add: assms(2))
    then have new: "ticket_planned (?o, Some tx) \<and> planned_ok cx d (?o, Some tx)" by (simp add: ticket_planned_def)
    note ih = Cons.IH [OF os]
    have names: "(\<lambda>q. op_name (fst q)) ` set os \<subseteq> fst ` set bs" using ih by blast
    show ?case
    proof (cases "file_text d Active name = Some tx")
      case True
      then show ?thesis using ih by (auto simp: ws b)
    next
      case False
      then show ?thesis using ih new names by (auto simp: ws b)
    qed
  qed simp
  then show "\<forall>q\<in>set ws. ticket_planned q \<and> op_name (fst q) \<in> fst ` set bs \<and> planned_ok cx d q"
    and "distinct (map fst bs) \<Longrightarrow> distinct (map (\<lambda>q. op_name (fst q)) ws)" by blast+
qed

lemma by_filename_keys:
  "distinct (map fst (by_filename cx ts))"
  "fst ` set (by_filename cx ts) = (\<lambda>t. ticketFilename (cx_sc cx) (cx_nfkd cx) (ticket_id t)) ` set ts"
proof -
  let ?f = "\<lambda>t. ticketFilename (cx_sc cx) (cx_nfkd cx) (ticket_id t)"
  have "distinct (map fst al) \<Longrightarrow> distinct (map fst (fold (\<lambda>t. AList.update (?f t) t) ts al))
     \<and> fst ` set (fold (\<lambda>t. AList.update (?f t) t) ts al) = ?f ` set ts \<union> fst ` set al" for al
    by (induction ts arbitrary: al) (auto simp: distinct_update dom_update)
  from this [of "[]"] show "distinct (map fst (by_filename cx ts))"
    "fst ` set (by_filename cx ts) = ?f ` set ts" by (simp_all add: by_filename_def)
qed

text \<open>The auxiliary operations that archive and restore make: at most one, on the archived shard of
  the ticket.\<close>

definition aux_fits :: "tx_context \<Rightarrow> tx_request \<Rightarrow> bool" where
  "aux_fits cx rq = (case rq_aux rq of
      [] \<Rightarrow> True
    | [a] \<Rightarrow> expected_action (rq_operation rq) = Some (ax_action a)
        \<and> (case rq_ticket rq of None \<Rightarrow> False | Some t \<Rightarrow> ax_name a = ticketFilename (cx_sc cx) (cx_nfkd cx) t)
    | _ \<Rightarrow> False)"

lemma aux_fits_cases:
  assumes "aux_fits cx rq"
  obtains "rq_aux rq = []"
  | a t where "rq_aux rq = [a]" "expected_action (rq_operation rq) = Some (ax_action a)" "rq_ticket rq = Some t"
      "ax_name a = ticketFilename (cx_sc cx) (cx_nfkd cx) t"
  using assms by (auto simp: aux_fits_def split: list.splits option.splits)

lemma plan_aux_ok:
  assumes "plan_aux cx d (k, a) = Inr q"
  shows "op_role (fst q) = AuxRole" and "op_place (fst q) = Archived" and "op_name (fst q) = ax_name a"
    and "op_key (fst q) = AuxKey k" and "op_action (fst q) = ax_action a" and "planned_ok cx d q"
proof -
  have o1: "look d (Archived, ax_name a) \<noteq> Some Other" using assms by (auto simp: plan_aux_def look_def)
  show "op_role (fst q) = AuxRole" "op_place (fst q) = Archived" "op_name (fst q) = ax_name a"
    "op_key (fst q) = AuxKey k" "op_action (fst q) = ax_action a"
    using assms by (auto simp: plan_aux_def Let_def split: if_splits)
  show "planned_ok cx d q"
    by (rule planned_okI) (use assms o1 in \<open>auto simp: plan_aux_def Let_def split: if_splits\<close>)
qed

text \<open>What the directory planner makes, in a form for the checks of the recovery.\<close>

definition dir_planned :: "tx_context \<Rightarrow> tx_request \<Rightarrow> disk \<Rightarrow> planned \<Rightarrow> bool" where
  "dir_planned cx rq d q \<longleftrightarrow> planned_ok cx d q \<and> shard_filename (op_name (fst q)) \<and>
     (ticket_planned q
      \<or> op_role (fst q) = AuxRole \<and> op_place (fst q) = Archived \<and> op_key (fst q) = AuxKey 0
        \<and> expected_action (rq_operation rq) = Some (op_action (fst q))
        \<and> (\<exists>t. rq_ticket rq = Some t \<and> op_name (fst q) = ticketFilename (cx_sc cx) (cx_nfkd cx) t))"

lemma plan_aux_all:
  assumes "aux_fits cx rq" and "sha_hex cx"
    and "map_res (plan_aux cx d) (enumerate 0 (rq_aux rq)) = Inr axs"
  shows "length axs \<le> 1" and "q \<in> set axs \<Longrightarrow> dir_planned cx rq d q \<and> op_role (fst q) = AuxRole"
proof -
  have "length axs \<le> 1 \<and> (\<forall>q\<in>set axs. dir_planned cx rq d q \<and> op_role (fst q) = AuxRole)"
  proof (rule aux_fits_cases [OF assms(1)])
    assume "rq_aux rq = []"
    then show ?thesis using assms(3) by simp
  next
    fix a t assume a: "rq_aux rq = [a]" and ex: "expected_action (rq_operation rq) = Some (ax_action a)"
      and t: "rq_ticket rq = Some t" and nm: "ax_name a = ticketFilename (cx_sc cx) (cx_nfkd cx) t"
    obtain q where axs: "axs = [q]" and q: "plan_aux cx d (0, a) = Inr q"
      using assms(3) by (auto simp: a bind_res_eq_Inr)
    note ok = plan_aux_ok [OF q]
    have "dir_planned cx rq d q"
      unfolding dir_planned_def ok nm using ok(6) shard_filename_ticket [OF assms(2)] ex t by simp
    then show ?thesis using ok(1) by (simp add: axs)
  qed
  then show "length axs \<le> 1" and "q \<in> set axs \<Longrightarrow> dir_planned cx rq d q \<and> op_role (fst q) = AuxRole" by blast+
qed

lemma plan_delete_ok:
  assumes "look d (Active, n) = Some (File s)"
  shows "planned_ok cx d (plan_delete cx d n)" and "ticket_planned (plan_delete cx d n)"
    and "op_name (fst (plan_delete cx d n)) = n"
  using assms by (simp_all add: plan_delete_def planned_ok_def ticket_planned_def target_def file_text_look)

lemma distinct_finer:
  assumes "distinct (map f xs)" and "\<And>x y. x \<in> set xs \<Longrightarrow> y \<in> set xs \<Longrightarrow> g x = g y \<Longrightarrow> f x = f y"
  shows "distinct (map g xs)"
  using assms by (induction xs) (auto simp: image_iff)

lemma distinct_snoc_short:
  assumes "distinct (map g xs)" and "length ys \<le> 1" and "\<And>x y. x \<in> set xs \<Longrightarrow> y \<in> set ys \<Longrightarrow> g x \<noteq> g y"
  shows "distinct (map g (xs @ ys))"
proof -
  have "ys = [] \<or> (\<exists>y. ys = [y])" using assms(2) by (cases ys) auto
  then show ?thesis using assms(1,3) by (auto simp: image_iff)
qed

definition aux_planned :: "planned \<Rightarrow> bool" where
  "aux_planned q \<longleftrightarrow> op_role (fst q) = AuxRole \<and> op_place (fst q) = Archived \<and> op_key (fst q) = AuxKey 0"

lemma tickets_and_aux:
  assumes ts: "\<And>q. q \<in> set ts \<Longrightarrow> ticket_planned q" and dist: "distinct (map (\<lambda>q. op_name (fst q)) ts)"
    and len: "length axs \<le> 1" and axs: "\<And>q. q \<in> set axs \<Longrightarrow> aux_planned q"
  shows "distinct (map planned_key (ts @ axs))" and "distinct (map (\<lambda>q. target (fst q)) (ts @ axs))"
    and "length (filter (\<lambda>q. op_role (fst q) = AuxRole) (ts @ axs)) \<le> 1"
proof -
  note d = ticket_planned_def aux_planned_def planned_key_def target_def
  have "distinct (map planned_key ts)"
    by (rule distinct_finer [OF dist]) (use ts in \<open>simp add: d\<close>)
  then show "distinct (map planned_key (ts @ axs))"
    by (rule distinct_snoc_short [OF _ len]) (use ts axs in \<open>simp add: d\<close>)
  have "distinct (map (\<lambda>q. target (fst q)) ts)"
    by (rule distinct_finer [OF dist]) (simp add: d)
  then show "distinct (map (\<lambda>q. target (fst q)) (ts @ axs))"
    by (rule distinct_snoc_short [OF _ len]) (use ts axs in \<open>simp add: d\<close>)
  have "filter (\<lambda>q. op_role (fst q) = AuxRole) ts = []"
    unfolding filter_empty_conv using ts by (simp add: d)
  moreover have "length (filter (\<lambda>q. op_role (fst q) = AuxRole) axs) \<le> 1"
    by (rule le_trans [OF length_filter_le len])
  ultimately show "length (filter (\<lambda>q. op_role (fst q) = AuxRole) (ts @ axs)) \<le> 1" by simp
qed

definition delete_names :: "tx_context \<Rightarrow> jsval list \<Rightarrow> snapshot \<Rightarrow> string list" where
  "delete_names cx tickets prev = filter (\<lambda>n. n \<notin> fst ` set (by_filename cx tickets))
     (remdups (map (\<lambda>t. ticketFilename (cx_sc cx) (cx_nfkd cx) (ticket_id t)) (sn_tickets prev)))"

lemma delete_names_mem:
  assumes "n \<in> set (delete_names cx tickets prev)"
  shows "n \<notin> fst ` set (by_filename cx tickets)"
    and "\<exists>t\<in>set (sn_tickets prev). n = ticketFilename (cx_sc cx) (cx_nfkd cx) (ticket_id t)"
  using assms by (auto simp: delete_names_def)

lemma directory_planner_Inr:
  assumes "directory_planner cx rq tickets d prev = Inr ops"
  obtains ws axs where "plan_writes cx d (by_filename cx tickets) = Inr ws"
    and "map_res (plan_aux cx d) (enumerate 0 (rq_aux rq)) = Inr axs"
    and "ops = (ws @ map (plan_delete cx d) (delete_names cx tickets prev)) @ axs"
  using assms by (auto simp: directory_planner_def Let_def bind_res_eq_Inr delete_names_def)

lemma directory_planner_ok:
  assumes plan: "directory_planner cx rq tickets d prev = Inr ops" and load: "load_active cx d = Inr prev"
    and "disk_ok d" and "aux_fits cx rq" and sha: "sha_hex cx"
  shows "\<forall>q\<in>set ops. dir_planned cx rq d q" and "distinct (map planned_key ops)"
    and "distinct (map (\<lambda>q. target (fst q)) ops)"
    and "length (filter (\<lambda>q. op_role (fst q) = AuxRole) ops) \<le> 1"
proof -
  let ?old = "delete_names cx tickets prev"
  let ?ds = "map (plan_delete cx d) ?old"
  obtain ws axs where ws: "plan_writes cx d (by_filename cx tickets) = Inr ws"
    and axs: "map_res (plan_aux cx d) (enumerate 0 (rq_aux rq)) = Inr axs" and ops: "ops = (ws @ ?ds) @ axs"
    using directory_planner_Inr [OF plan] by metis
  have dok: "dir_ok (dk_dir d Active)" using assms(3) by (simp add: disk_ok_def)
  note wok = plan_writes_ok [OF ws load_active_look(1) [OF load]]
  note aok = plan_aux_all [OF assms(4) sha axs]
  have dl: "planned_ok cx d (plan_delete cx d n) \<and> ticket_planned (plan_delete cx d n)
      \<and> op_name (fst (plan_delete cx d n)) = n \<and> shard_filename n" if n: "n \<in> set ?old" for n
  proof -
    obtain t where t: "t \<in> set (sn_tickets prev)" and e: "n = ticketFilename (cx_sc cx) (cx_nfkd cx) (ticket_id t)"
      using delete_names_mem(2) [OF n] by blast
    obtain s where "look d (Active, n) = Some (File s)" using load_active_look(2) [OF load t dok] e by blast
    from plan_delete_ok [OF this] show ?thesis using shard_filename_ticket [OF sha] e by simp
  qed
  have wd: "dir_planned cx rq d q \<and> ticket_planned q" if q: "q \<in> set ws" for q
  proof -
    obtain t where "op_name (fst q) = ticketFilename (cx_sc cx) (cx_nfkd cx) (ticket_id t)"
      using bspec [OF wok(1) q] unfolding by_filename_keys(2) by blast
    then show ?thesis using bspec [OF wok(1) q] shard_filename_ticket [OF sha] by (simp add: dir_planned_def)
  qed
  have dd: "dir_planned cx rq d q \<and> ticket_planned q" if q: "q \<in> set ?ds" for q
  proof -
    obtain n where "n \<in> set ?old" "q = plan_delete cx d n" using q by auto
    then show ?thesis using dl by (simp add: dir_planned_def)
  qed
  have ad: "dir_planned cx rq d q \<and> aux_planned q" if q: "q \<in> set axs" for q
    using aok(2) [OF q] by (auto simp: dir_planned_def aux_planned_def ticket_planned_def)
  show "\<forall>q\<in>set ops. dir_planned cx rq d q" unfolding ops set_append using wd dd ad by blast
  have tick: "ticket_planned q" if "q \<in> set (ws @ ?ds)" for q using that wd dd unfolding set_append by blast
  have names: "map (\<lambda>q. op_name (fst q)) ?ds = map (\<lambda>n. n) ?old"
    unfolding map_map by (rule map_cong [OF refl]) (use dl in simp)
  have disj: "set (map (\<lambda>q. op_name (fst q)) ws) \<inter> set ?old = {}"
    using wok(1) delete_names_mem(1) by fastforce
  have old: "distinct ?old" by (simp add: delete_names_def)
  have dist: "distinct (map (\<lambda>q. op_name (fst q)) (ws @ ?ds))"
    unfolding map_append names distinct_append using wok(2) [OF by_filename_keys(1)] disj old by simp
  note all = tickets_and_aux [OF tick dist aok(1) conjunct2 [OF ad]]
  show "distinct (map planned_key ops)" "distinct (map (\<lambda>q. target (fst q)) ops)"
    "length (filter (\<lambda>q. op_role (fst q) = AuxRole) ops) \<le> 1"
    unfolding ops using all by blast+
qed

lemma one_aux:
  assumes "length (filter f xs) \<le> 1" and "k < length xs" and "f (xs ! k)"
  shows "filter f (take k xs) = []"
proof -
  have "filter f xs = filter f (take k xs) @ filter f (xs ! k # drop (Suc k) xs)"
    by (metis assms(2) filter_append id_take_nth_drop append_Cons append_Nil)
  then have "length (filter f xs) = length (filter f (take k xs)) + 1 + length (filter f (drop (Suc k) xs))"
    using assms(3) by simp
  then show ?thesis using assms(1) by simp
qed

lemma directory_prepared:
  assumes plan: "plan_transaction cx (load_active cx) (directory_planner cx rq tickets d) rq tickets d = Inr pl"
    and ok: "disk_ok d" and cl: "clean (rq_id rq) d" and tid: "transaction_id (rq_id rq)"
    and aux: "aux_fits cx rq" and sha: "sha_hex cx"
  shows "prepared cx DirectoryKind (pl_journal pl) d (prepared_disk pl d)"
proof -
  let ?j = "pl_journal pl"
  note pi = plan_transaction_Inr [OF plan]
  note dp = directory_planner_ok [OF pi(2) pi(1) ok aux sha]
  have aux1: "length (filter (\<lambda>o1. op_role o1 = AuxRole) (jn_ops ?j)) \<le> 1"
    using dp(4) by (simp add: pi(6) filter_map comp_def)
  have valid: "validateRecoveryOperation cx DirectoryKind ?j k (jn_ops ?j ! k)" if k: "k < length (jn_ops ?j)" for k
  proof -
    have "dir_planned cx rq d (pl_planned pl ! k)" using dp(1) k by (simp add: pi(6))
    moreover have e: "jn_ops ?j ! k = fst (pl_planned pl ! k)" using k by (simp add: pi(6))
    moreover have "filter (\<lambda>o2. op_role o2 = AuxRole) (take k (jn_ops ?j)) = []"
      if "op_role (jn_ops ?j ! k) = AuxRole" by (rule one_aux [OF aux1 k that])
    ultimately show ?thesis
      by (auto simp: validateRecoveryOperation_def dir_planned_def ticket_planned_def pi(4,5))
  qed
  have names: "\<not> ends_with (op_name (fst q)) (jn_id ?j)" if "q \<in> set (pl_planned pl)" for q
    using dp(1) that json_not_id [OF shard_ends tid] by (simp add: dir_planned_def pi(3))
  show ?thesis
  proof (rule prepared_diskI [OF ok _ _ pi(6) _ dp(2)])
    show "clean (jn_id ?j) d" "transaction_id (jn_id ?j)" using cl tid by (simp_all add: pi(3))
    show "distinct (map target (jn_ops ?j))" using dp(3) by (simp add: pi(6) comp_def)
    show "\<forall>k<length (jn_ops ?j). validateRecoveryOperation cx DirectoryKind ?j k (jn_ops ?j ! k)" using valid by blast
    show "\<forall>q\<in>set (pl_planned pl). planned_ok cx d q \<and> \<not> ends_with (op_name (fst q)) (jn_id ?j)"
      using dp(1) names by (simp add: dir_planned_def)
  qed
qed

section \<open>The evidence of a recovered transaction\<close>

text \<open>The manifest takes the next entry.\<close>

definition manifest_ready :: "string option \<Rightarrow> manifest_state \<Rightarrow> bool" where
  "manifest_ready key m \<longleftrightarrow> mf_lock m
     \<and> (if mf_segmented m then mf_intact m key \<and> mf_segment m key = SegmentReady
        else \<not> mf_frozen m \<and> mf_malformed m = None \<and> \<not> mf_orphans m)"

lemma recordTicketEvidence_fresh:
  assumes "manifest_ready key m" and "\<And>e. e \<in> set entries \<Longrightarrow> ev_tx e \<noteq> ev_tx ev \<or> ev_action e \<noteq> ev_action ev"
  shows "recordTicketEvidence key b m ev entries = Inr (entries @ [ev\<lparr>ev_authentic := (key \<noteq> None)\<rparr>])"
proof -
  have "findMatchingEvidence key ev entries = None"
    unfolding findMatchingEvidence_def find_None_iff using assms(2) by blast
  then show ?thesis using assms(1)
    by (simp add: recordTicketEvidence_def recordSegmentedTicketEvidence_def manifest_ready_def scan_evidence_def append_evidence_def)
qed

lemma recordTicketEvidence_error: "recordTicketEvidence key b m ev entries = Inl e \<Longrightarrow> e \<noteq> ManifestKeyRequired"
  by (auto simp: recordTicketEvidence_def recordSegmentedTicketEvidence_def scan_evidence_def
      split: if_splits option.splits segment_answer.splits)

definition evidence_bound :: "direction \<Rightarrow> journal \<Rightarrow> snapshot \<Rightarrow> bool" where
  "evidence_bound dir j after \<longleftrightarrow> given (recovered_ticket dir j) \<longrightarrow> given (recovered_hash dir j after)"

lemma record_recovery_fresh:
  assumes "\<And>e. e \<in> set entries \<Longrightarrow> ev_tx e \<noteq> jn_id j" and "evidence_bound dir j after"
    and "manifest_ready key (man ''apply'')" and "manifest_ready key (man (recovery_action dir))"
  shows "\<exists>es. record_recovery key dir audit h j after man entries = Inr es"
proof -
  let ?c = "(completed_evidence j)\<lparr>ev_authentic := (key \<noteq> None)\<rparr>"
  let ?r = "recovery_evidence dir audit h j after"
  have c: "recordTicketEvidence key True (man ''apply'') (completed_evidence j) entries = Inr (entries @ [?c])"
    by (rule recordTicketEvidence_fresh [OF assms(3)]) (use assms(1) in \<open>simp add: completed_evidence_def\<close>)
  have r1: "recordTicketEvidence key False (man (recovery_action dir)) ?r entries = Inr (entries @ [?r\<lparr>ev_authentic := (key \<noteq> None)\<rparr>])"
    by (rule recordTicketEvidence_fresh [OF assms(4)]) (use assms(1) in \<open>simp add: recovery_evidence_def\<close>)
  have r2: "recordTicketEvidence key False (man (recovery_action dir)) ?r (entries @ [?c])
      = Inr ((entries @ [?c]) @ [?r\<lparr>ev_authentic := (key \<noteq> None)\<rparr>])"
  proof (rule recordTicketEvidence_fresh [OF assms(4)])
    fix e assume "e \<in> set (entries @ [?c])"
    then consider "e \<in> set entries" | "e = ?c" by auto
    then show "ev_tx e \<noteq> ev_tx ?r \<or> ev_action e \<noteq> ev_action ?r"
      by cases (use assms(1) in \<open>auto simp: recovery_evidence_def completed_evidence_def recovery_action_def\<close>)
  qed
  have nb: "\<not> (given (recovered_ticket dir j) \<and> \<not> given (recovered_hash dir j after))"
    using assms(2) by (auto simp: evidence_bound_def)
  define complete where "complete \<longleftrightarrow> dir = Complete \<and> audit"
  define owed where "owed \<longleftrightarrow> jn_evidence j \<or> audit"
  show ?thesis
    unfolding record_recovery_def if_not_P [OF nb] complete_def [symmetric] owed_def [symmetric]
    by (cases complete; cases owed; simp only: c r1 r2 if_True if_False simp_thms bind_res_simps) simp_all
qed

lemma bind_res_eq_Inl: "bind_res r f = Inl e \<longleftrightarrow> r = Inl e \<or> (\<exists>x. r = Inr x \<and> f x = Inl e)"
  by (cases r) simp_all

lemma record_recovery_error:
  assumes "record_recovery key dir audit h j after man entries = Inl e"
  shows "e \<noteq> ManifestKeyRequired"
  using assms
  by (auto simp: record_recovery_def bind_res_eq_Inl dest: recordTicketEvidence_error split: if_splits)

section \<open>Recovery of the whole transaction\<close>

lemma load_active_cong: "dk_dir d = dk_dir d' \<Longrightarrow> load_active cx d = load_active cx d'"
  by (simp add: load_active_def)

lemma load_active_manifest: "load_active cx (d\<lparr>dk_manifest := m\<rparr>) = load_active cx d"
  by (simp add: load_active_def)

lemma perform_tx_acts:
  "perform_all (tx_acts pl) d
     = perform_all (concat (map (apply_acts (jn_id (pl_journal pl))) (jn_ops (pl_journal pl)))) (prepared_disk pl d)"
  by (simp add: tx_acts_def prepared_disk_def perform_all_simps)

lemma prepared_evidence:
  assumes "directory_planner cx rq tickets d (pl_before pl) = Inr (pl_planned pl)" and "load_active cx d = Inr (pl_before pl)"
    and "disk_ok d" and "aux_fits cx rq" and "sha_hex cx"
  shows "dk_evidence (prepared_disk pl d) = dk_evidence d"
  using prepare_all [OF directory_planner_ok(2) [OF assms], of d] by (simp add: prepared_disk_def perform_all_simps)

lemma finish_Inr:
  assumes "finish_transaction loader verify rq pl d = (Inr after, d')"
  shows "loader d = Inr after" and "sn_hash after = jn_after (pl_journal pl)" and "dk_dir d' = dk_dir d"
  using assms by (auto simp: finish_transaction_def split: sum.splits if_splits)

lemma crashed_frame:
  assumes "prepared cx kind j d0 dp" and "crashed cx kind j dp d"
  shows "dk_journal d = Some j" and "dk_evidence d = dk_evidence dp"
  using crashed_inv [OF assms] assms(1) by (simp_all add: crash_inv_def same_frame_def prepared_def)

text \<open>No step reads the state of the manifest before the evidence is recorded.\<close>

lemma manifest_upd:
  "dk_dir (d\<lparr>dk_manifest := m\<rparr>) = dk_dir d" "dk_stage (d\<lparr>dk_manifest := m\<rparr>) = dk_stage d"
  "dk_backup (d\<lparr>dk_manifest := m\<rparr>) = dk_backup d" "dk_journal (d\<lparr>dk_manifest := m\<rparr>) = dk_journal d"
  "dk_evidence (d\<lparr>dk_manifest := m\<rparr>) = dk_evidence d" "dk_manifest (d\<lparr>dk_manifest := m\<rparr>) = m"
  by simp_all

lemma perform_manifest: "perform a (d\<lparr>dk_manifest := m\<rparr>) = (perform a d)\<lparr>dk_manifest := m\<rparr>"
  by (cases a) (simp_all add: put_file_def del_file_def file_text_def split: option.split)

lemma perform_all_manifest: "perform_all as (d\<lparr>dk_manifest := m\<rparr>) = (perform_all as d)\<lparr>dk_manifest := m\<rparr>"
  by (induction "as" arbitrary: d) (simp_all add: perform_all_def perform_manifest)

lemma recover_items_manifest: "recover_items cx kind dir j (d\<lparr>dk_manifest := m\<rparr>) ios = recover_items cx kind dir j d ios"
proof (induction ios)
  case (Cons io ios)
  have "recover_item cx kind dir j (d\<lparr>dk_manifest := m\<rparr>) io = recover_item cx kind dir j d io"
    by (simp only: recover_item_def manifest_upd)
  then show ?case by (simp only: recover_items.simps Cons.IH)
qed simp

lemma recovery_trust_manifest:
  assumes "\<And>d. loader (d\<lparr>dk_manifest := m\<rparr>) = loader d"
  shows "recovery_trust cx loader j (d\<lparr>dk_manifest := m\<rparr>) = recovery_trust cx loader j d"
proof -
  have "repoDeclaresRails cx (d\<lparr>dk_manifest := m\<rparr>) ts = repoDeclaresRails cx d ts" for ts
    by (simp only: repoDeclaresRails_def archiveDeclaresRails_def manifest_upd)
  moreover have "journalBackupsDeclareRails cx (d\<lparr>dk_manifest := m\<rparr>) j = journalBackupsDeclareRails cx d j"
    by (simp only: journalBackupsDeclareRails_def backup_railed_def manifest_upd)
  ultimately show ?thesis by (simp only: recovery_trust_def assms)
qed

text \<open>What recovery does to files that load with the hash of its direction: it records and drops the
  journal, or it fails and keeps the journal.\<close>

definition recovered :: "snapshot \<Rightarrow> (place \<Rightarrow> dir) \<Rightarrow> journal \<Rightarrow> disk \<Rightarrow> (tx_error + snapshot) \<times> disk \<Rightarrow> bool" where
  "recovered after files j found r \<longleftrightarrow> (case fst r of
      Inr s \<Rightarrow> s = after \<and> dk_dir (snd r) = files \<and> dk_journal (snd r) = None
    | Inl e \<Rightarrow> dk_journal (snd r) = Some j
        \<and> (if e = ManifestKeyRequired then snd r = found else dk_dir (snd r) = files))"

lemma recovery_result:
  assumes p: "prepared cx kind j d0 dp" and c: "crashed cx kind j dp d" and op: "jn_operation j \<noteq> ''migrate''"
    and load: "loader (perform_all (all_recovery_acts dir j) d) = Inr after"
    and indep: "\<And>d. loader (d\<lparr>dk_manifest := m\<rparr>) = loader d"
    and hash: "sn_hash after = (if dir = Complete then jn_after j else jn_before j)"
    and fresh: "\<And>e. e \<in> set (dk_evidence dp) \<Longrightarrow> ev_tx e \<noteq> jn_id j"
  shows "recovered after (dk_dir (perform_all (all_recovery_acts dir j) d)) j (d\<lparr>dk_manifest := m\<rparr>)
       (recoverDirectoryTransaction cx kind loader key allowUnsigned dir (jn_id j) (d\<lparr>dk_manifest := m\<rparr>))"
    and "key \<noteq> None \<or> allowUnsigned \<Longrightarrow> evidence_bound dir j after \<Longrightarrow> manifest_ready key (m ''apply'') \<Longrightarrow>
      manifest_ready key (m (recovery_action dir)) \<Longrightarrow>
      fst (recoverDirectoryTransaction cx kind loader key allowUnsigned dir (jn_id j) (d\<lparr>dk_manifest := m\<rparr>)) = Inr after"
proof -
  let ?d = "perform_all (all_recovery_acts dir j) d"
  let ?r = "recoverDirectoryTransaction cx kind loader key allowUnsigned dir (jn_id j) (d\<lparr>dk_manifest := m\<rparr>)"
  note goal = recovery_reaches_goal [OF p c, of dir]
  have ev: "dk_evidence ?d = dk_evidence dp" and jn: "dk_journal ?d = Some j"
    using goal(3) crashed_frame(1) [OF p c] p by (simp_all add: same_frame_def prepared_def)
  define tr where "tr = recovery_trust cx loader j d"
  have id: "\<not> (\<not> transaction_id (jn_id j) \<or> jn_id j \<noteq> jn_id j \<or> jn_operation j = ''migrate'')"
    using p op by (simp add: prepared_def)
  have ok: "\<not> (sn_hash after \<noteq> (if dir = Complete then jn_after j else jn_before j))" using hash by simp
  have eq: "?r = (if fst tr \<and> key = None \<and> \<not> allowUnsigned then (Inl ManifestKeyRequired, d\<lparr>dk_manifest := m\<rparr>)
     else (case record_recovery key dir (fst tr) (snd tr) j after m (dk_evidence dp) of
         Inl e \<Rightarrow> (Inl e, ?d\<lparr>dk_manifest := m, dk_evidence := recovery_entries key dir (fst tr) j after m (dk_evidence dp)\<rparr>)
       | Inr es \<Rightarrow> (Inr after, perform DropTx (?d\<lparr>dk_manifest := m, dk_evidence := es\<rparr>))))"
    unfolding recoverDirectoryTransaction_def manifest_upd crashed_frame(1) [OF p c] option.case if_not_P [OF id] Let_def
      recover_items_manifest recovery_trust_manifest [of loader m, OF indep] goal(1) fst_conv snd_conv tr_def [symmetric]
      perform_all_manifest indep load sum.case if_not_P [OF ok] ev by (rule refl)
  show "recovered after (dk_dir ?d) j (d\<lparr>dk_manifest := m\<rparr>) ?r"
  proof (cases "fst tr \<and> key = None \<and> \<not> allowUnsigned")
    case True
    then show ?thesis unfolding eq using crashed_frame(1) [OF p c] by (simp add: recovered_def)
  next
    case False
    show ?thesis
    proof (cases "record_recovery key dir (fst tr) (snd tr) j after m (dk_evidence dp)")
      case (Inl e)
      have "e \<noteq> ManifestKeyRequired" using record_recovery_error [OF Inl] .
      then show ?thesis unfolding eq if_not_P [OF False] Inl sum.case using jn by (simp add: recovered_def)
    next
      case (Inr es)
      show ?thesis unfolding eq if_not_P [OF False] Inr sum.case by (simp add: recovered_def)
    qed
  qed
  assume k: "key \<noteq> None \<or> allowUnsigned" and b: "evidence_bound dir j after"
    and m: "manifest_ready key (m ''apply'')" "manifest_ready key (m (recovery_action dir))"
  obtain es where es: "record_recovery key dir (fst tr) (snd tr) j after m (dk_evidence dp) = Inr es"
    using record_recovery_fresh [OF fresh b m] by blast
  have nk: "\<not> (fst tr \<and> key = None \<and> \<not> allowUnsigned)" using k by blast
  show "fst ?r = Inr after" unfolding eq if_not_P [OF nk] es by simp
qed

text \<open>C15: recovery completes. The crash may fall between any two of the file operations of a directory
  transaction, up to its record in the manifest, or of recoveries of it in either direction; no evidence
  of an earlier transaction has its id; and \<open>m\<close> is the state the manifest is in by then, whatever it is.
  When recovery in the direction complete returns, the snapshot is the one that the transaction without
  a crash returns, every directory holds the files of that run, and the journal is dropped. When it fails,
  the journal is kept, and the files are those of that run too, unless the failure is the refusal for want
  of a key, which changes nothing. It does not fail when there is a key or unsigned records are allowed,
  the evidence can be bound to its ticket, and the manifest is ready for the two appends: its lock is had,
  and it is neither malformed, broken nor frozen.\<close>

theorem recovery_completes_transaction:
  assumes "sha_hex cx" and "disk_ok d" and "clean (rq_id rq) d" and "transaction_id (rq_id rq)" and "aux_fits cx rq"
    and "rq_operation rq \<noteq> ''migrate''" and "\<forall>e\<in>set (dk_evidence d). ev_tx e \<noteq> rq_id rq"
    and "plan_transaction cx (load_active cx) (directory_planner cx rq tickets d) rq tickets d = Inr pl"
    and "applyDirectoryTransaction cx verify rq tickets d = (Inr after, d1)"
    and "crashed cx DirectoryKind (pl_journal pl) (prepared_disk pl d) d2"
  shows "let r = recoverDirectoryTransaction cx DirectoryKind (load_active cx) key allowUnsigned Complete (rq_id rq)
         (d2\<lparr>dk_manifest := m\<rparr>)
     in recovered after (dk_dir d1) (pl_journal pl) (d2\<lparr>dk_manifest := m\<rparr>) r
        \<and> ((key \<noteq> None \<or> allowUnsigned) \<and> evidence_bound Complete (pl_journal pl) after
            \<and> manifest_ready key (m ''apply'') \<and> manifest_ready key (m ''recover-complete'') \<longrightarrow> fst r = Inr after)"
proof -
  let ?j = "pl_journal pl"
  note pi = plan_transaction_Inr [OF assms(8)]
  note p = directory_prepared [OF assms(8,2,3,4,5,1)]
  have run: "finish_transaction (load_active cx) verify rq pl (perform_all (tx_acts pl) d) = (Inr after, d1)"
    using assms(9) by (simp add: applyDirectoryTransaction_def run_transaction_def assms(8))
  note fin = finish_Inr [OF run]
  note goal = recovery_reaches_goal [OF p assms(10), of Complete]
  have files: "dk_dir (perform_all (all_recovery_acts Complete ?j) d2) = dk_dir (perform_all (tx_acts pl) d)"
    using goal(2) by (simp add: perform_tx_acts)
  have fresh: "ev_tx e \<noteq> jn_id ?j" if "e \<in> set (dk_evidence (prepared_disk pl d))" for e
    using that assms(7) prepared_evidence [OF pi(2,1) assms(2,5,1)] by (simp add: pi(3))
  have op: "jn_operation ?j \<noteq> ''migrate''" using assms(6) by (simp add: pi(4))
  have load: "load_active cx (perform_all (all_recovery_acts Complete ?j) d2) = Inr after"
    using load_active_cong [OF files] fin(1) by simp
  have hash: "sn_hash after = (if Complete = Complete then jn_after ?j else jn_before ?j)" using fin(2) by simp
  note r = recovery_result [where loader = "load_active cx" and m = m and key = key and allowUnsigned = allowUnsigned,
      OF p assms(10) op load load_active_manifest hash fresh]
  have act: "recovery_action Complete = ''recover-complete''" by (simp add: recovery_action_def)
  show ?thesis using r unfolding Let_def pi(3) files fin(3) act by blast
qed

text \<open>C16: recovery rolls back. After the same crashes, and under the same conditions, recovery in the
  direction rollback returns the snapshot from before the transaction, leaves every directory as it was,
  and drops the journal; when it fails it keeps the journal, and the directories are back as they were
  unless it refused for want of a key and changed nothing.\<close>

theorem recovery_rolls_back:
  assumes "sha_hex cx" and "disk_ok d" and "clean (rq_id rq) d" and "transaction_id (rq_id rq)" and "aux_fits cx rq"
    and "rq_operation rq \<noteq> ''migrate''" and "\<forall>e\<in>set (dk_evidence d). ev_tx e \<noteq> rq_id rq"
    and "plan_transaction cx (load_active cx) (directory_planner cx rq tickets d) rq tickets d = Inr pl"
    and "crashed cx DirectoryKind (pl_journal pl) (prepared_disk pl d) d2"
  shows "let r = recoverDirectoryTransaction cx DirectoryKind (load_active cx) key allowUnsigned Rollback (rq_id rq)
         (d2\<lparr>dk_manifest := m\<rparr>)
     in recovered (pl_before pl) (dk_dir d) (pl_journal pl) (d2\<lparr>dk_manifest := m\<rparr>) r
        \<and> ((key \<noteq> None \<or> allowUnsigned) \<and> evidence_bound Rollback (pl_journal pl) (pl_before pl)
            \<and> manifest_ready key (m ''apply'') \<and> manifest_ready key (m ''recover-rollback'') \<longrightarrow> fst r = Inr (pl_before pl))"
proof -
  let ?j = "pl_journal pl"
  note pi = plan_transaction_Inr [OF assms(8)]
  note p = directory_prepared [OF assms(8,2,3,4,5,1)]
  note goal = recovery_reaches_goal [OF p assms(9), of Rollback]
  have files: "dk_dir (perform_all (all_recovery_acts Rollback ?j) d2) = dk_dir d" using goal(2) by simp
  have fresh: "ev_tx e \<noteq> jn_id ?j" if "e \<in> set (dk_evidence (prepared_disk pl d))" for e
    using that assms(7) prepared_evidence [OF pi(2,1) assms(2,5,1)] by (simp add: pi(3))
  have op: "jn_operation ?j \<noteq> ''migrate''" using assms(6) by (simp add: pi(4))
  have load: "load_active cx (perform_all (all_recovery_acts Rollback ?j) d2) = Inr (pl_before pl)"
    using load_active_cong [OF files] pi(1) by simp
  have hash: "sn_hash (pl_before pl) = (if Rollback = Complete then jn_after ?j else jn_before ?j)" by (simp add: pi(7))
  note r = recovery_result [where loader = "load_active cx" and m = m and key = key and allowUnsigned = allowUnsigned,
      OF p assms(9) op load load_active_manifest hash fresh]
  have act: "recovery_action Rollback = ''recover-rollback''" by (simp add: recovery_action_def)
  show ?thesis using r unfolding Let_def pi(3) files act by blast
qed

section \<open>A crash inside an operation\<close>

text \<open>A file in the active directory whose name ends in the id of a transaction stops every load.\<close>

lemma leftover_blocks_load:
  assumes "transaction_id i" and "ends_with n i" and "look d (Active, n) \<noteq> None"
  shows "\<exists>e. load_active cx d = Inl e"
proof (rule ccontr)
  assume "\<not> (\<exists>e. load_active cx d = Inl e)"
  then obtain s where l: "load_active cx d = Inr s" by (metis sum.exhaust)
  have nj: "\<not> ends_with n ''.json''" using json_not_id assms(1,2) by blast
  have "ends_with ''.store.json'' ''.json''" by (simp add: ends_with_def)
  then have "n \<noteq> ''.store.json''" using nj by metis
  obtain x where "look d (Active, n) = Some x" using assms(3) by blast
  then have "(n, x) \<in> set (dk_dir d Active)" by (simp add: look_def map_of_SomeD)
  then have mem: "(n, x) \<in> set (filter (\<lambda>e. fst e \<noteq> ''.store.json'') (dk_dir d Active))"
    using \<open>n \<noteq> ''.store.json''\<close> by simp
  obtain ts where "map_res (load_shard (cx_sc cx) (cx_nfkd cx)) (filter (\<lambda>e. fst e \<noteq> ''.store.json'') (dk_dir d Active)) = Inr ts"
    by (rule load_active_shards [OF l])
  then have all: "list_all2 (\<lambda>e t. load_shard (cx_sc cx) (cx_nfkd cx) e = Inr t)
      (filter (\<lambda>e. fst e \<noteq> ''.store.json'') (dk_dir d Active)) ts"
    by (simp add: map_res_Inr_list_all2)
  obtain t where "load_shard (cx_sc cx) (cx_nfkd cx) (n, x) = Inr t"
    using list_all2_left [OF all mem] by blast
  from load_shard_Inr(3) [OF this] show False using nj by simp
qed

text \<open>An act that may change the file \<open>x\<close>, or the journal.\<close>

fun touches :: "place \<times> string \<Rightarrow> act \<Rightarrow> bool" where
  "touches x (CopyStage k p t) = (x = (p, t))"
| "touches x (CopyBackup k p t) = (x = (p, t))"
| "touches x (RenameAct p t n) = (x = (p, t) \<or> x = (p, n))"
| "touches x (RemoveAct p n) = (x = (p, n))"
| "touches x a = True"

lemma put_keeps:
  assumes "x \<noteq> (p, n)" and "disk_ok d"
  shows "look (put_file p n s d) x = look d x \<and> disk_ok (put_file p n s d) \<and> dk_journal (put_file p n s d) = dk_journal d"
  using assms frame_put [of d p n s] by (simp add: look_put disk_ok_put same_frame_def)

lemma del_keeps:
  assumes "x \<noteq> (p, n)" and "disk_ok d"
  shows "look (del_file p n d) x = look d x \<and> disk_ok (del_file p n d) \<and> dk_journal (del_file p n d) = dk_journal d"
  using assms frame_del [of d p n] by (simp add: look_del disk_ok_del same_frame_def)

lemma untouched:
  assumes a: "\<not> touches x a" and d: "disk_ok d"
  shows "look (perform a d) x = look d x \<and> disk_ok (perform a d) \<and> dk_journal (perform a d) = dk_journal d"
proof (cases a)
  case (CopyStage k p t)
  have x: "x \<noteq> (p, t)" using a by (simp add: CopyStage)
  show ?thesis unfolding CopyStage perform.simps
    by (cases "map_of (dk_stage d) k") (simp_all only: option.case put_keeps [OF x d] d)
next
  case (CopyBackup k p t)
  have x: "x \<noteq> (p, t)" using a by (simp add: CopyBackup)
  show ?thesis unfolding CopyBackup perform.simps
    by (cases "map_of (dk_backup d) k") (simp_all only: option.case put_keeps [OF x d] d)
next
  case (RenameAct p t n)
  have x: "x \<noteq> (p, t)" "x \<noteq> (p, n)" using a by (simp_all add: RenameAct)
  note dl = del_keeps [OF x(1) d]
  note pt = put_keeps [OF x(2) conjunct1 [OF conjunct2 [OF dl]]]
  show ?thesis unfolding RenameAct perform.simps
    by (cases "file_text d p t") (simp_all only: option.case pt dl d)
next
  case (RemoveAct p n)
  have x: "x \<noteq> (p, n)" using a by (simp add: RemoveAct)
  show ?thesis unfolding RemoveAct perform.simps by (rule del_keeps [OF x d])
qed (use a in simp_all)

lemma untouched_all:
  assumes "\<forall>a\<in>set as. \<not> touches x a" and "disk_ok d"
  shows "look (perform_all as d) x = look d x \<and> dk_journal (perform_all as d) = dk_journal d"
  using assms
proof (induction as arbitrary: d)
  case (Cons a as)
  have "\<not> touches x a" using Cons.prems by simp
  note u = untouched [OF this Cons.prems(2)]
  show ?case using Cons.IH [of "perform a d"] Cons.prems(1) u by (simp add: perform_all_Cons)
qed (simp add: perform_all_Nil)

lemma txn_not_recovery:
  "temp_name n ''.txn-'' i \<noteq> temp_name m ''.recovery-'' i" "temp_name n ''.txn-'' i \<noteq> temp_name m ''.rollback-'' i"
proof -
  have "last (butlast (n @ ''.txn-'')) \<noteq> last (butlast (m @ ''.recovery-''))"
    "last (butlast (n @ ''.txn-'')) \<noteq> last (butlast (m @ ''.rollback-''))"
    by (simp_all add: butlast_append)
  then show "temp_name n ''.txn-'' i \<noteq> temp_name m ''.recovery-'' i" "temp_name n ''.txn-'' i \<noteq> temp_name m ''.rollback-'' i"
    unfolding temp_name_def by (metis append_assoc append_same_eq)+
qed

lemma recover_item_untouched:
  assumes "transaction_id (jn_id j)" and "recover_item cx DirectoryKind dir j d (k, o1) = Inr as" and "a \<in> set as"
  shows "\<not> touches (Active, temp_name n ''.txn-'' (jn_id j)) a"
proof -
  let ?t = "temp_name n ''.txn-'' (jn_id j)"
  have v: "validateRecoveryOperation cx DirectoryKind j k o1"
    using assms(2) by (auto simp: recover_item_def Let_def split: if_splits)
  have ne: "?t \<noteq> op_name o1" if "op_place o1 = Active"
  proof -
    have "shard_filename (op_name o1)"
      using v that by (auto simp: validateRecoveryOperation_def split: op_role.splits option.splits)
    then show ?thesis using json_not_id [OF shard_ends assms(1)] ends_with_temp by metis
  qed
  show ?thesis
    using assms(2,3) v ne txn_not_recovery [of n "jn_id j" "op_name o1"]
    by (auto simp: recover_item_def Let_def split: if_splits direction.splits op_action.splits)
qed

lemma recover_items_untouched:
  assumes "transaction_id (jn_id j)" and "a \<in> set (snd (recover_items cx DirectoryKind dir j d ios))"
  shows "\<not> touches (Active, temp_name n ''.txn-'' (jn_id j)) a"
  using assms(2)
proof (induction ios)
  case (Cons io ios)
  show ?case
  proof (cases "recover_item cx DirectoryKind dir j d io")
    case (Inr as)
    then have "a \<in> set as \<or> a \<in> set (snd (recover_items cx DirectoryKind dir j d ios))"
      using Cons.prems by (simp add: Let_def)
    then show ?thesis using Cons.IH recover_item_untouched [OF assms(1), of cx dir d "fst io" "snd io"] Inr by auto
  qed (use Cons.prems in simp)
qed simp

text \<open>C40: a crash between the copy and the rename of one operation leaves the file
  \<open><shard>.txn-<id>\<close> in the store directory. From then on recovery fails in either direction, with any
  key, and keeps the journal, so that every other command refuses to run.\<close>

theorem crash_before_rename_blocks_recovery:
  assumes "disk_ok d" and "dk_journal d = Some j" and "look d (Active, temp_name n ''.txn-'' (jn_id j)) \<noteq> None"
  shows "\<exists>e. fst (recoverDirectoryTransaction cx DirectoryKind (load_active cx) key allowUnsigned dir i d) = Inl e
     \<and> dk_journal (snd (recoverDirectoryTransaction cx DirectoryKind (load_active cx) key allowUnsigned dir i d)) = Some j"
proof (cases "transaction_id i \<and> jn_id j = i")
  case False
  then show ?thesis by (auto simp: recoverDirectoryTransaction_def assms(2))
next
  case True
  then have tid: "transaction_id (jn_id j)" by simp
  let ?r = "recover_items cx DirectoryKind dir j d (enumerate 0 (jn_ops j))"
  let ?d = "perform_all (snd ?r) d"
  have u: "look ?d (Active, temp_name n ''.txn-'' (jn_id j)) = look d (Active, temp_name n ''.txn-'' (jn_id j))
      \<and> dk_journal ?d = dk_journal d"
    by (rule untouched_all [OF _ assms(1)]) (use recover_items_untouched [OF tid] in blast)
  then obtain e where "load_active cx ?d = Inl e"
    using leftover_blocks_load [OF tid ends_with_temp] assms(3) by metis
  then show ?thesis using u assms(2)
    by (auto simp: recoverDirectoryTransaction_def Let_def split: option.splits if_splits)
qed

section \<open>An instance\<close>

definition ex_ticket :: jsval where
  "ex_ticket = VObj [(''id'', VStr ''a''), (''title'', VStr ''t'')]"

definition ex_codec :: store_codec where
  "ex_codec = \<lparr>sc_parse = (\<lambda>s. if s = ''M'' then Some (store_manifest False) else if s = ''T'' then Some ex_ticket else None),
     sc_stringify = (\<lambda>v. case v of VArr [] \<Rightarrow> ''e'' | VObj _ \<Rightarrow> ''o'' | _ \<Rightarrow> ''f''),
     sc_pretty = (\<lambda>v. ''T''),
     sc_sha = (\<lambda>s. replicate 64 (if s \<noteq> [] \<and> last s = CHR ''e'' then CHR ''0'' else CHR ''1''))\<rparr>"

definition ex_context :: tx_context where
  "ex_context = \<lparr>cx_sc = ex_codec, cx_nfkd = id, cx_legacyArchive = None, cx_manifestBypass = False\<rparr>"

definition ex_file :: string where
  "ex_file = ticketFilename ex_codec id ''a''"

definition ex_dir :: "place \<Rightarrow> dir" where
  "ex_dir p = (if p = Active then [(''.store.json'', File ''M''), (ex_file, File ''T'')] else [])"

definition ex_ready :: manifest_state where
  "ex_ready = \<lparr>mf_segmented = False, mf_lock = True, mf_frozen = False, mf_malformed = None, mf_orphans = False,
     mf_intact = (\<lambda>_. True), mf_segment = (\<lambda>_. SegmentReady)\<rparr>"

definition ex_disk :: disk where
  "ex_disk = \<lparr>dk_dir = ex_dir, dk_stage = [], dk_backup = [], dk_journal = None, dk_evidence = [], dk_manifest = (\<lambda>_. ex_ready)\<rparr>"

definition ex_request :: tx_request where
  "ex_request = \<lparr>rq_id = ''0a0b0c0d-0000-4000-8000-00000000abcd'', rq_operation = ''archive'', rq_expected = None,
     rq_evidence = True, rq_ticket = Some ''a'', rq_beforeTicket = None, rq_key = Some ''k'', rq_allowUnsigned = False,
     rq_aux = [\<lparr>ax_action = WriteOp, ax_name = ex_file, ax_content = ''T'', ax_mustBeAbsent = True, ax_mustExist = False,
       ax_expectedBefore = None\<rparr>]\<rparr>"

definition ex_plan :: plan where
  "ex_plan = projr (plan_transaction ex_context (load_active ex_context) (directory_planner ex_context ex_request [] ex_disk)
     ex_request [] ex_disk)"

definition ex_run :: "(tx_error + snapshot) \<times> disk" where
  "ex_run = applyDirectoryTransaction ex_context (\<lambda>_. True) ex_request [] ex_disk"

text \<open>The crash after the shard has left the active store and before it is in the archive.\<close>

definition ex_crash :: disk where
  "ex_crash = perform_all (concat (map (apply_acts (jn_id (pl_journal ex_plan))) (take 1 (jn_ops (pl_journal ex_plan)))))
     (prepared_disk ex_plan ex_disk)"

lemma ex_hyps:
  shows "sha_hex ex_context" and "disk_ok ex_disk" and "clean (rq_id ex_request) ex_disk"
    and "transaction_id (rq_id ex_request)" and "aux_fits ex_context ex_request"
    and "rq_operation ex_request \<noteq> ''migrate''" and "\<forall>e\<in>set (dk_evidence ex_disk). ev_tx e \<noteq> rq_id ex_request"
proof -
  show "sha_hex ex_context" by (simp add: sha_hex_def ex_context_def ex_codec_def hex_digit_def list_all_iff)
  have names: "dir_ok (ex_dir Active)" by code_simp
  have "dir_ok (ex_dir p)" for p by (cases "p = Active") (use names in \<open>simp_all add: ex_dir_def dir_ok_def\<close>)
  then show "disk_ok ex_disk" by (simp add: disk_ok_def ex_disk_def)
  have e: "list_all (\<lambda>e. \<not> ends_with (fst e) (rq_id ex_request)) (ex_dir Active)" by code_simp
  show "clean (rq_id ex_request) ex_disk"
    unfolding clean_def
  proof (intro allI impI)
    fix x :: "place \<times> string" assume x: "ends_with (snd x) (rq_id ex_request)"
    show "look ex_disk x = None"
    proof (cases "fst x = Active")
      case True
      have "snd x \<notin> fst ` set (ex_dir Active)" using e x by (auto simp: list_all_iff)
      then show ?thesis by (simp add: look_def ex_disk_def True map_of_eq_None_iff)
    qed (simp add: look_def ex_disk_def ex_dir_def)
  qed
  show "transaction_id (rq_id ex_request)" by code_simp
  show "aux_fits ex_context ex_request" by code_simp
  show "rq_operation ex_request \<noteq> ''migrate''" by code_simp
  show "\<forall>e\<in>set (dk_evidence ex_disk). ev_tx e \<noteq> rq_id ex_request" by (simp add: ex_disk_def)
qed

lemma ex_plan_eq:
  "plan_transaction ex_context (load_active ex_context) (directory_planner ex_context ex_request [] ex_disk) ex_request [] ex_disk
     = Inr ex_plan"
proof -
  have "\<not> isl (plan_transaction ex_context (load_active ex_context) (directory_planner ex_context ex_request [] ex_disk)
     ex_request [] ex_disk)" by code_simp
  then show ?thesis by (simp add: ex_plan_def)
qed

lemma ex_run_eq: "applyDirectoryTransaction ex_context (\<lambda>_. True) ex_request [] ex_disk = (Inr (projr (fst ex_run)), snd ex_run)"
proof -
  have "\<not> isl (fst ex_run)" by code_simp
  then show ?thesis by (simp add: ex_run_def prod_eq_iff)
qed

lemma ex_crashed: "crashed ex_context DirectoryKind (pl_journal ex_plan) (prepared_disk ex_plan ex_disk) ex_crash"
  unfolding ex_crash_def by (rule crashed.in_transaction)

lemma ex_bound: "evidence_bound Complete (pl_journal ex_plan) (projr (fst ex_run))"
  "evidence_bound Rollback (pl_journal ex_plan) (pl_before ex_plan)"
  by code_simp+

lemma ex_manifest_ready: "manifest_ready key ex_ready"
  by (simp add: manifest_ready_def ex_ready_def)

theorem recovery_completes_transaction_witness:
  "dk_dir (snd (recoverDirectoryTransaction ex_context DirectoryKind (load_active ex_context) (Some ''k'') False Complete
      (rq_id ex_request) (ex_crash\<lparr>dk_manifest := (\<lambda>_. ex_ready)\<rparr>))) = dk_dir (snd ex_run)
   \<and> look (snd ex_run) (Archived, ex_file) = Some (File ''T'') \<and> look ex_crash (Archived, ex_file) = None"
proof -
  let ?r = "recoverDirectoryTransaction ex_context DirectoryKind (load_active ex_context) (Some ''k'') False Complete
      (rq_id ex_request) (ex_crash\<lparr>dk_manifest := (\<lambda>_. ex_ready)\<rparr>)"
  note t = recovery_completes_transaction [OF ex_hyps ex_plan_eq ex_run_eq ex_crashed,
        where key = "Some ''k''" and allowUnsigned = False and m = "\<lambda>_. ex_ready", unfolded Let_def]
  have "fst ?r = Inr (projr (fst ex_run))" using conjunct2 [OF t] ex_bound(1) ex_manifest_ready by blast
  then have "dk_dir (snd ?r) = dk_dir (snd ex_run)" using conjunct1 [OF t] unfolding recovered_def by simp
  moreover have "look (snd ex_run) (Archived, ex_file) = Some (File ''T'') \<and> look ex_crash (Archived, ex_file) = None"
    by code_simp
  ultimately show ?thesis by blast
qed

theorem recovery_rolls_back_witness:
  "dk_dir (snd (recoverDirectoryTransaction ex_context DirectoryKind (load_active ex_context) (Some ''k'') False Rollback
      (rq_id ex_request) (ex_crash\<lparr>dk_manifest := (\<lambda>_. ex_ready)\<rparr>))) = ex_dir \<and> look ex_crash (Active, ex_file) = None"
proof -
  let ?r = "recoverDirectoryTransaction ex_context DirectoryKind (load_active ex_context) (Some ''k'') False Rollback
      (rq_id ex_request) (ex_crash\<lparr>dk_manifest := (\<lambda>_. ex_ready)\<rparr>)"
  note t = recovery_rolls_back [OF ex_hyps ex_plan_eq ex_crashed,
        where key = "Some ''k''" and allowUnsigned = False and m = "\<lambda>_. ex_ready", unfolded Let_def]
  have "fst ?r = Inr (pl_before ex_plan)" using conjunct2 [OF t] ex_bound(2) ex_manifest_ready by blast
  then have "dk_dir (snd ?r) = dk_dir ex_disk" using conjunct1 [OF t] unfolding recovered_def by simp
  moreover have "dk_dir ex_disk = ex_dir" by (simp add: ex_disk_def)
  moreover have "look ex_crash (Active, ex_file) = None" by code_simp
  ultimately show ?thesis by simp
qed

text \<open>A crash after the first step of the first operation of a transaction that creates the ticket.\<close>

definition ex_create :: tx_request where
  "ex_create = ex_request\<lparr>rq_operation := ''create'', rq_aux := []\<rparr>"

definition ex_empty :: disk where
  "ex_empty = ex_disk\<lparr>dk_dir := (\<lambda>p. if p = Active then [(''.store.json'', File ''M'')] else [])\<rparr>"

definition ex_create_plan :: plan where
  "ex_create_plan = projr (plan_transaction ex_context (load_active ex_context)
     (directory_planner ex_context ex_create [ex_ticket] ex_empty) ex_create [ex_ticket] ex_empty)"

definition ex_torn :: disk where
  "ex_torn = perform_all (take 3 (tx_acts ex_create_plan)) ex_empty"

theorem crash_before_rename_blocks_recovery_witness:
  "isl (fst (recoverDirectoryTransaction ex_context DirectoryKind (load_active ex_context) (Some ''k'') False Complete
      (rq_id ex_create) ex_torn)) \<and> length (tx_acts ex_create_plan) = 4"
proof -
  have dir: "dir_ok (dk_dir ex_torn Active)" "dir_ok (dk_dir ex_torn Archived)" "dir_ok (dk_dir ex_torn Legacy)" by code_simp+
  have "dir_ok (dk_dir ex_torn p)" for p by (cases p) (use dir in simp_all)
  then have ok: "disk_ok ex_torn" by (simp add: disk_ok_def)
  have "dk_journal ex_torn \<noteq> None" by code_simp
  then obtain j where j: "dk_journal ex_torn = Some j" by blast
  have "look ex_torn (Active, temp_name ex_file ''.txn-'' (jn_id (the (dk_journal ex_torn)))) \<noteq> None" by code_simp
  then have t: "look ex_torn (Active, temp_name ex_file ''.txn-'' (jn_id j)) \<noteq> None" by (simp add: j)
  have n: "length (tx_acts ex_create_plan) = 4" by code_simp
  obtain e where "fst (recoverDirectoryTransaction ex_context DirectoryKind (load_active ex_context) (Some ''k'') False Complete
      (rq_id ex_create) ex_torn) = Inl e"
    using crash_before_rename_blocks_recovery [OF ok j t] by blast
  then show ?thesis using n by simp
qed

section \<open>Audit of writes to a trust root\<close>

lemma scan_evidence_mem:
  assumes "scan_evidence key False ev entries other scanned = Inr es" and "set scanned \<subseteq> set entries"
    and "\<And>es. other = Inr es \<Longrightarrow> es = append_evidence key ev entries"
  shows "\<exists>e\<in>set es. ev_tx e = ev_tx ev \<and> ev_action e = ev_action ev \<and> ev_gate e = ev_gate ev
     \<and> ev_audit e = ev_audit ev \<and> ev_storeHash e = ev_storeHash ev \<and> (key \<noteq> None \<longrightarrow> ev_authentic e)"
proof (cases "findMatchingEvidence key ev scanned")
  case None
  then have "es = append_evidence key ev entries" using assms(1,3) by (simp add: scan_evidence_def)
  then show ?thesis by (simp add: append_evidence_def)
next
  case (Some e)
  then have "es = entries" "same_evidence False e ev" using assms(1) by (simp_all add: scan_evidence_def split: if_splits)
  moreover have "e \<in> set entries" "ev_tx e = ev_tx ev" "ev_action e = ev_action ev" "key = None \<or> ev_authentic e"
    using Some assms(2) by (auto simp: findMatchingEvidence_def find_Some_iff)
  ultimately show ?thesis by (auto simp: same_evidence_def)
qed

lemma recordTicketEvidence_mem:
  assumes "recordTicketEvidence key False m ev entries = Inr es"
  shows "\<exists>e\<in>set es. ev_tx e = ev_tx ev \<and> ev_action e = ev_action ev \<and> ev_gate e = ev_gate ev
     \<and> ev_audit e = ev_audit ev \<and> ev_storeHash e = ev_storeHash ev \<and> (key \<noteq> None \<longrightarrow> ev_authentic e)"
proof -
  obtain other scanned where "scan_evidence key False ev entries other scanned = Inr es" "set scanned \<subseteq> set entries"
    "\<And>es. other = Inr es \<Longrightarrow> es = append_evidence key ev entries"
    using assms that set_take_subset [of _ entries] unfolding recordTicketEvidence_def recordSegmentedTicketEvidence_def
    by (fastforce split: if_splits option.splits segment_answer.splits)
  then show ?thesis by (rule scan_evidence_mem)
qed

lemma plan_transaction_audit:
  assumes "plan_transaction cx loader planner rq tickets d = Inr pl" and "loader d = Inr prev"
    and "repoDeclaresRails cx d (sn_tickets prev)" and "hash_tickets (cx_sc cx) tickets \<noteq> Inr (sn_hash prev) \<or> rq_aux rq \<noteq> []"
  shows "pl_audit pl" and "rq_key rq \<noteq> None \<or> rq_allowUnsigned rq" and "pl_before pl = prev"
proof -
  have change: "h \<noteq> sn_hash prev \<or> rq_aux rq \<noteq> []" if "lift_hash (hash_tickets (cx_sc cx) tickets) = Inr h" for h
    using assms(4) that by (auto simp: lift_hash_def split: sum.splits)
  show "pl_audit pl" "rq_key rq \<noteq> None \<or> rq_allowUnsigned rq" "pl_before pl = prev"
    using assms(1-3) change unfolding plan_transaction_def assertSignableTrustRootWrite_def assertWriteIsSignable_def
    by (auto simp: bind_res_eq_Inr split: sum.splits if_splits prod.splits)
qed

text \<open>C17: a change of a store that declares rails, or of the archive, is never silent. Without a key, and
  without the permission to record unsigned, the transaction fails and leaves the disk as it was. When it
  succeeds, the evidence holds an entry of this transaction with the hash of the store before and after,
  authentic if there is a key.\<close>

theorem trust_root_change_is_audited:
  assumes "load_active cx d = Inr prev" and "repoDeclaresRails cx d (sn_tickets prev)"
    and "hash_tickets (cx_sc cx) tickets \<noteq> Inr (sn_hash prev) \<or> rq_aux rq \<noteq> []"
  shows "(rq_key rq = None \<and> \<not> rq_allowUnsigned rq \<longrightarrow>
       (\<exists>e. applyDirectoryTransaction cx verify rq tickets d = (Inl e, d)))
     \<and> (\<forall>after d1. applyDirectoryTransaction cx verify rq tickets d = (Inr after, d1) \<longrightarrow>
       (\<exists>e\<in>set (dk_evidence d1). ev_tx e = rq_id rq \<and> ev_audit e = Some (sn_hash prev)
          \<and> ev_gate e = audit_gate (rq_evidence rq) (rq_operation rq)
          \<and> ev_storeHash e = sn_hash after \<and> (rq_key rq \<noteq> None \<longrightarrow> ev_authentic e)))"
proof (cases "plan_transaction cx (load_active cx) (directory_planner cx rq tickets d) rq tickets d")
  case (Inl e)
  then show ?thesis by (simp add: applyDirectoryTransaction_def run_transaction_def)
next
  case (Inr pl)
  note au = plan_transaction_audit [OF Inr assms]
  note pi = plan_transaction_Inr [OF Inr]
  let ?d = "perform_all (tx_acts pl) d"
  have run: "applyDirectoryTransaction cx verify rq tickets d = finish_transaction (load_active cx) verify rq pl ?d"
    by (simp add: applyDirectoryTransaction_def run_transaction_def Inr)
  have "\<exists>e\<in>set (dk_evidence d1). ev_tx e = rq_id rq \<and> ev_audit e = Some (sn_hash prev)
          \<and> ev_gate e = audit_gate (rq_evidence rq) (rq_operation rq)
          \<and> ev_storeHash e = sn_hash after \<and> (rq_key rq \<noteq> None \<longrightarrow> ev_authentic e)"
    if f: "finish_transaction (load_active cx) verify rq pl ?d = (Inr after, d1)" for after d1
  proof -
    obtain es where es: "recordTicketEvidence (rq_key rq) False (dk_manifest ?d ''apply'') (tx_evidence pl after) (dk_evidence ?d) = Inr es"
      and d1: "dk_evidence d1 = es"
      using f au(1) by (auto simp: finish_transaction_def split: sum.splits if_splits)
    show ?thesis unfolding d1 using recordTicketEvidence_mem [OF es] au(1,3) pi(3,4,8)
      by (auto simp: tx_evidence_def Let_def)
  qed
  then show ?thesis using au(2) unfolding run by blast
qed

definition ex_railed :: tx_context where
  "ex_railed = ex_context\<lparr>cx_manifestBypass := True\<rparr>"

theorem trust_root_change_is_audited_witness:
  "fst (applyDirectoryTransaction ex_railed (\<lambda>_. True) (ex_request\<lparr>rq_key := None\<rparr>) [] ex_disk) = Inl ManifestKeyRequired
   \<and> snd (applyDirectoryTransaction ex_railed (\<lambda>_. True) (ex_request\<lparr>rq_key := None\<rparr>) [] ex_disk) = ex_disk"
proof -
  have "\<not> isl (load_active ex_railed ex_disk)" by code_simp
  then obtain s where load: "load_active ex_railed ex_disk = Inr s" by (metis isl_def sum.exhaust)
  have rails: "repoDeclaresRails ex_railed ex_disk (sn_tickets s)" by (simp add: repoDeclaresRails_def ex_railed_def)
  have aux: "rq_aux (ex_request\<lparr>rq_key := None\<rparr>) \<noteq> []" by (simp add: ex_request_def)
  have key: "rq_key (ex_request\<lparr>rq_key := None\<rparr>) = None \<and> \<not> rq_allowUnsigned (ex_request\<lparr>rq_key := None\<rparr>)"
    by (simp add: ex_request_def)
  obtain e where "applyDirectoryTransaction ex_railed (\<lambda>_. True) (ex_request\<lparr>rq_key := None\<rparr>) [] ex_disk = (Inl e, ex_disk)"
    using trust_root_change_is_audited [OF load rails disjI2 [OF aux], where verify = "\<lambda>_. True" and tickets = "[]"] key by blast
  moreover have "fst (applyDirectoryTransaction ex_railed (\<lambda>_. True) (ex_request\<lparr>rq_key := None\<rparr>) [] ex_disk) = Inl ManifestKeyRequired"
    by code_simp
  ultimately show ?thesis by simp
qed

end
