(* ===== verification/TicketCommit.thy ===== *)
theory TicketCommit
  imports TicketCrash "HOL-Library.Multiset"
begin

text \<open>
  What a committed transaction leaves: the store on disk as an abstract set of tickets. A transaction on
  the directory store implements the assignment of that set.
\<close>

section \<open>The files after the last operation\<close>

lemma plan_writes_action: "plan_writes cx d bs = Inr ws \<Longrightarrow> q \<in> set ws \<Longrightarrow> op_action (fst q) = WriteOp"
  by (induction bs arbitrary: ws) (auto simp: bind_res_eq_Inr split: if_splits)

lemma plan_aux_delete: "plan_aux cx d (k, a) = Inr q \<Longrightarrow> op_action (fst q) = DeleteOp \<Longrightarrow> snd q = None"
  by (auto simp: plan_aux_def Let_def split: if_splits)

lemma planner_delete:
  assumes "directory_planner cx rq tickets d prev = Inr ops" and q: "q \<in> set ops" and "op_action (fst q) = DeleteOp"
  shows "snd q = None"
proof -
  obtain ws axs where ws: "plan_writes cx d (by_filename cx tickets) = Inr ws"
    and axs: "map_res (plan_aux cx d) (enumerate 0 (rq_aux rq)) = Inr axs"
    and ops: "ops = (ws @ map (plan_delete cx d) (delete_names cx tickets prev)) @ axs"
    using directory_planner_Inr [OF assms(1)] by metis
  consider "q \<in> set ws" | n where "q = plan_delete cx d n" | "q \<in> set axs" using q by (auto simp: ops)
  then show ?thesis
  proof cases
    case 1 then show ?thesis using plan_writes_action [OF ws] assms(3) by simp
  next
    case 2 then show ?thesis by (simp add: plan_delete_def)
  next
    case 3
    have "list_all2 (\<lambda>a q. plan_aux cx d a = Inr q) (enumerate 0 (rq_aux rq)) axs"
      using axs by (simp add: map_res_Inr_list_all2)
    then obtain a where "plan_aux cx d a = Inr q" using list_all2_right [OF _ 3] by blast
    then show ?thesis using plan_aux_delete [of cx d "fst a" "snd a"] assms(3) by simp
  qed
qed

lemma tx_files:
  assumes plan: "plan_transaction cx (load_active cx) (directory_planner cx rq tickets d) rq tickets d = Inr pl"
    and ok: "disk_ok d" and cl: "clean (rq_id rq) d" and tid: "transaction_id (rq_id rq)"
    and aux: "aux_fits cx rq" and sha: "sha_hex cx"
  shows "q \<in> set (pl_planned pl) \<Longrightarrow> look (perform_all (tx_acts pl) d) (target (fst q)) = map_option File (snd q)"
    and "x \<notin> (\<lambda>q. target (fst q)) ` set (pl_planned pl) \<Longrightarrow> look (perform_all (tx_acts pl) d) x = look d x"
    and "disk_ok (perform_all (tx_acts pl) d)"
proof -
  let ?j = "pl_journal pl" and ?dp = "prepared_disk pl d"
  note pi = plan_transaction_Inr [OF plan]
  note dp = directory_planner_ok [OF pi(2) pi(1) ok aux sha]
  note p = directory_prepared [OF plan ok cl tid aux sha]
  have inv: "crash_inv ?j d ?dp ?dp" using p by (simp add: crash_inv_def prepared_def look_def disk_ok_def clean_def)
  note app = changes_keep [OF p inv subset_refl, where f = "apply_acts (jn_id ?j)" and v = "forward_value ?dp",
      OF sets_apply [OF prepared_op [OF p]], simplified]
  let ?cs = "map (\<lambda>o1. (apply_acts (jn_id ?j) o1, target o1, forward_value ?dp o1)) (jn_ops ?j)"
  have l: "look (perform_all (tx_acts pl) d) = upd ?cs (look ?dp)" unfolding perform_tx_acts by (rule app(2))
  have same: "look ?dp = look d" using p by (simp add: look_def prepared_def fun_eq_iff)
  show "disk_ok (perform_all (tx_acts pl) d)" using app(1) by (simp add: perform_tx_acts crash_inv_def)
  show "look (perform_all (tx_acts pl) d) (target (fst q)) = map_option File (snd q)" if q: "q \<in> set (pl_planned pl)"
  proof -
    let ?c = "(apply_acts (jn_id ?j) (fst q), target (fst q), forward_value ?dp (fst q))"
    have "?c \<in> set ?cs" using q by (auto simp: pi(6))
    moreover have "distinct (map (\<lambda>c. fst (snd c)) ?cs)" using dp(3) by (simp add: pi(6) comp_def)
    ultimately have "upd ?cs (look ?dp) (fst (snd ?c)) = snd (snd ?c)" by (intro upd_hit)
    then have u: "look (perform_all (tx_acts pl) d) (target (fst q)) = forward_value ?dp (fst q)" by (simp add: l)
    have ok1: "planned_ok cx d q" using dp(1) q by (simp add: dir_planned_def)
    have st: "map_of (dk_stage ?dp) (op_key (fst q)) = Some s" if "snd q = Some s" for s
    proof -
      have "map_of (dk_stage (perform_all (concat (map prepare_acts (pl_planned pl))) d)) (planned_key q) = Some s"
        using prepare_all [OF dp(2), of d] q that by blast
      then show ?thesis by (simp add: prepared_disk_def perform_all_simps planned_key_def)
    qed
    have del: "op_action (fst q) = DeleteOp \<Longrightarrow> snd q = None"
      using pi(2) q planner_delete by blast
    show ?thesis unfolding u forward_value_def using ok1 st del
      by (cases "op_action (fst q)") (auto simp: planned_ok_def)
  qed
  show "look (perform_all (tx_acts pl) d) x = look d x" if "x \<notin> (\<lambda>q. target (fst q)) ` set (pl_planned pl)"
  proof -
    have "(\<lambda>c. fst (snd c)) ` set ?cs = (\<lambda>q. target (fst q)) ` set (pl_planned pl)"
      by (simp add: pi(6) image_image)
    then have "x \<notin> (\<lambda>c. fst (snd c)) ` set ?cs" using that by simp
    then show ?thesis unfolding l same by (rule upd_other)
  qed
qed

abbreviation file_of :: "tx_context \<Rightarrow> jsval \<Rightarrow> string" where
  "file_of cx t \<equiv> ticketFilename (cx_sc cx) (cx_nfkd cx) (ticket_id t)"

lemma by_filename_mem: "(n, t) \<in> set (by_filename cx ts) \<Longrightarrow> t \<in> set ts \<and> n = file_of cx t"
proof -
  have "(n, t) \<in> set (fold (\<lambda>t. AList.update (file_of cx t) t) ts al) \<Longrightarrow> (n, t) \<in> set al \<or> t \<in> set ts \<and> n = file_of cx t" for al
  proof (induction ts arbitrary: al)
    case (Cons u ts)
    then have "(n, t) \<in> set (AList.update (file_of cx u) u al) \<or> t \<in> set ts \<and> n = file_of cx t" by auto
    moreover have "set (AList.update (file_of cx u) u al) \<subseteq> insert (file_of cx u, u) (set al)"
      by (induction al) auto
    ultimately show ?case by auto
  qed simp
  from this [of "[]"] show "(n, t) \<in> set (by_filename cx ts) \<Longrightarrow> t \<in> set ts \<and> n = file_of cx t"
    by (simp add: by_filename_def)
qed

lemma by_filename_all:
  assumes "inj_on (file_of cx) (set ts)" and "t \<in> set ts"
  shows "(file_of cx t, t) \<in> set (by_filename cx ts)"
proof -
  have "file_of cx t \<in> fst ` set (by_filename cx ts)" using assms(2) by (auto simp: by_filename_keys(2))
  then obtain u where u: "(file_of cx t, u) \<in> set (by_filename cx ts)" by auto
  then show ?thesis using by_filename_mem [OF u] inj_onD [OF assms(1)] assms(2) by metis
qed

text \<open>The planned writes: those tickets whose text is not yet in their file.\<close>

definition write_op :: "tx_context \<Rightarrow> disk \<Rightarrow> string \<times> string \<Rightarrow> planned" where
  "write_op cx d ns =
     (\<lparr>op_role = TicketRole, op_action = WriteOp, op_place = Active, op_name = fst ns, op_key = FileKey (fst ns),
        op_backup = (file_text d Active (fst ns) \<noteq> None),
        op_before = map_option (sc_sha (cx_sc cx)) (file_text d Active (fst ns)),
        op_after = Some (sc_sha (cx_sc cx) (snd ns))\<rparr>, Some (snd ns))"

definition ticket_text :: "tx_context \<Rightarrow> jsval \<Rightarrow> string" where
  "ticket_text cx t = sc_pretty (cx_sc cx) (projr (normalize t))"

lemma plan_writes_filter:
  assumes "plan_writes cx d bs = Inr ws"
  shows "ws = map (write_op cx d) (filter (\<lambda>ns. file_text d Active (fst ns) \<noteq> Some (snd ns))
     (map (\<lambda>b. (fst b, ticket_text cx (snd b))) bs))"
    and "\<forall>b\<in>set bs. \<exists>n. normalize (snd b) = Inr n"
proof -
  have "ws = map (write_op cx d) (filter (\<lambda>ns. file_text d Active (fst ns) \<noteq> Some (snd ns))
     (map (\<lambda>b. (fst b, ticket_text cx (snd b))) bs)) \<and> (\<forall>b\<in>set bs. \<exists>n. normalize (snd b) = Inr n)"
    using assms
  proof (induction bs arbitrary: ws)
    case (Cons b bs)
    obtain n t where b: "b = (n, t)" by fastforce
    obtain tx os where tx: "pretty_ticket (cx_sc cx) t = Inr tx" and os: "plan_writes cx d bs = Inr os"
      using Cons.prems by (auto simp: b bind_res_eq_Inr)
    obtain m where m: "normalize t = Inr m" "tx = sc_pretty (cx_sc cx) m"
      using tx by (auto simp: pretty_ticket_def split: sum.splits)
    have tt: "ticket_text cx t = tx" by (simp add: ticket_text_def m)
    have ws: "ws = (if file_text d Active n = Some tx then os else write_op cx d (n, tx) # os)"
      using Cons.prems by (simp add: b tx os write_op_def split: if_splits)
    show ?case using Cons.IH [OF os] m(1) by (simp add: b ws tt)
  qed simp
  then show "ws = map (write_op cx d) (filter (\<lambda>ns. file_text d Active (fst ns) \<noteq> Some (snd ns))
     (map (\<lambda>b. (fst b, ticket_text cx (snd b))) bs))" "\<forall>b\<in>set bs. \<exists>n. normalize (snd b) = Inr n" by blast+
qed

text \<open>The names in the active directory are the manifest and the files of the tickets that load.\<close>

lemma load_active_names:
  assumes l: "load_active cx d = Inr s" and n: "look d (Active, n) \<noteq> None"
  shows "n = ''.store.json'' \<or> (\<exists>t\<in>set (sn_tickets s). n = file_of cx t)"
proof (cases "n = ''.store.json''")
  case False
  obtain ts where ts: "map_res (load_shard (cx_sc cx) (cx_nfkd cx)) (filter (\<lambda>e. fst e \<noteq> ''.store.json'') (dk_dir d Active)) = Inr ts"
    and s: "take_snapshot (cx_sc cx) ts = Inr s"
    by (rule load_active_shards [OF l])
  have all: "list_all2 (\<lambda>e t. load_shard (cx_sc cx) (cx_nfkd cx) e = Inr t)
      (filter (\<lambda>e. fst e \<noteq> ''.store.json'') (dk_dir d Active)) ts"
    using ts by (simp add: map_res_Inr_list_all2)
  obtain x where "(n, x) \<in> set (dk_dir d Active)" using n map_of_SomeD by (fastforce simp: look_def)
  then have "(n, x) \<in> set (filter (\<lambda>e. fst e \<noteq> ''.store.json'') (dk_dir d Active))" using False by simp
  from list_all2_left [OF all this] obtain t where "t \<in> set ts" "load_shard (cx_sc cx) (cx_nfkd cx) (n, x) = Inr t" by blast
  then show ?thesis using load_shard_Inr(2) take_snapshot_tickets [OF s] by fastforce
qed simp

text \<open>The active directory after the transaction, as a function of the names.\<close>

lemma tx_active_files:
  assumes plan: "plan_transaction cx (load_active cx) (directory_planner cx rq tickets d) rq tickets d = Inr pl"
    and ok: "disk_ok d" and cl: "clean (rq_id rq) d" and tid: "transaction_id (rq_id rq)"
    and aux: "aux_fits cx rq" and sha: "sha_hex cx" and inj: "inj_on (file_of cx) (set tickets)"
  shows "t \<in> set tickets \<Longrightarrow> look (perform_all (tx_acts pl) d) (Active, file_of cx t) = Some (File (ticket_text cx t))"
    and "t \<in> set tickets \<Longrightarrow> \<exists>n. normalize t = Inr n"
    and "n \<notin> file_of cx ` set tickets \<Longrightarrow> n \<noteq> ''.store.json'' \<Longrightarrow> look (perform_all (tx_acts pl) d) (Active, n) = None"
proof -
  note pi = plan_transaction_Inr [OF plan]
  note files = tx_files [OF plan ok cl tid aux sha]
  let ?bs = "by_filename cx tickets"
  obtain ws axs where ws: "plan_writes cx d ?bs = Inr ws"
    and axs: "map_res (plan_aux cx d) (enumerate 0 (rq_aux rq)) = Inr axs"
    and ops: "pl_planned pl = (ws @ map (plan_delete cx d) (delete_names cx tickets (pl_before pl))) @ axs"
    using directory_planner_Inr [OF pi(2)] by metis
  note wf = plan_writes_filter [OF ws]
  have ap: "fst (target (fst q)) = Archived" if "q \<in> set axs" for q
    using plan_aux_all(2) [OF aux sha axs that] by (auto simp: dir_planned_def ticket_planned_def target_def)
  have an: "(Active, m) \<notin> (\<lambda>q. target (fst q)) ` set axs" for m
  proof
    assume "(Active, m) \<in> (\<lambda>q. target (fst q)) ` set axs"
    then obtain q where "q \<in> set axs" "target (fst q) = (Active, m)" by (metis imageE)
    then show False using ap by fastforce
  qed
  have wn: "(\<lambda>q. target (fst q)) ` set ws \<subseteq> Pair Active ` file_of cx ` set tickets"
    unfolding wf(1) using by_filename_mem by (fastforce simp: write_op_def target_def)
  have dn: "(\<lambda>q. target (fst q)) ` set (map (plan_delete cx d) (delete_names cx tickets (pl_before pl)))
      = Pair Active ` set (delete_names cx tickets (pl_before pl))"
    by (simp add: image_image plan_delete_def target_def)
  have keys: "fst ` set ?bs = file_of cx ` set tickets" by (rule by_filename_keys(2))
  show "\<exists>n. normalize t = Inr n" if t: "t \<in> set tickets"
    using bspec [OF wf(2) by_filename_all [OF inj t]] by simp
  show "look (perform_all (tx_acts pl) d) (Active, file_of cx t) = Some (File (ticket_text cx t))" if t: "t \<in> set tickets"
  proof (cases "file_text d Active (file_of cx t) = Some (ticket_text cx t)")
    case False
    have "(file_of cx t, ticket_text cx t) \<in> set (map (\<lambda>b. (fst b, ticket_text cx (snd b))) ?bs)"
      using by_filename_all [OF inj t] by force
    then have "write_op cx d (file_of cx t, ticket_text cx t) \<in> set ws" unfolding wf(1) using False by simp
    then have "write_op cx d (file_of cx t, ticket_text cx t) \<in> set (pl_planned pl)" by (simp add: ops)
    from files(1) [OF this] show ?thesis by (simp add: write_op_def target_def)
  next
    case True
    have "(Active, file_of cx t) \<notin> (\<lambda>q. target (fst q)) ` set ws"
    proof
      assume "(Active, file_of cx t) \<in> (\<lambda>q. target (fst q)) ` set ws"
      then obtain b where b: "b \<in> set ?bs" "fst b = file_of cx t"
        "file_text d Active (fst b) \<noteq> Some (ticket_text cx (snd b))"
        unfolding wf(1) by (auto simp: write_op_def target_def)
      have "snd b = t" using b(1,2) by_filename_all [OF inj t] by_filename_keys(1) [of cx tickets]
        by (metis eq_key_imp_eq_value prod.collapse)
      then show False using b True by simp
    qed
    moreover have "file_of cx t \<notin> set (delete_names cx tickets (pl_before pl))"
      using delete_names_mem(1) t keys by blast
    ultimately have "(Active, file_of cx t) \<notin> (\<lambda>q. target (fst q)) ` set (pl_planned pl)"
      unfolding ops set_append image_Un dn using an by auto
    from files(2) [OF this] show ?thesis using True by (simp add: file_text_Some)
  qed
  show "look (perform_all (tx_acts pl) d) (Active, n) = None"
    if n: "n \<notin> file_of cx ` set tickets" "n \<noteq> ''.store.json''"
  proof (cases "n \<in> set (delete_names cx tickets (pl_before pl))")
    case True
    then have "plan_delete cx d n \<in> set (pl_planned pl)" by (simp add: ops)
    from files(1) [OF this] show ?thesis by (simp add: plan_delete_def target_def)
  next
    case False
    have "(Active, n) \<notin> (\<lambda>q. target (fst q)) ` set (pl_planned pl)"
      unfolding ops set_append image_Un dn using an wn n(1) False by auto
    from files(2) [OF this] have e: "look (perform_all (tx_acts pl) d) (Active, n) = look d (Active, n)" .
    have "n \<notin> file_of cx ` set (sn_tickets (pl_before pl))" using False n(1) by (auto simp: delete_names_def keys)
    then have "look d (Active, n) = None" using load_active_names [OF pi(1)] n(2) by blast
    then show ?thesis using e by simp
  qed
qed

section \<open>The store after a committed transaction\<close>

lemma sort_key_unique:
  assumes "distinct (map f xs)" and "distinct (map f ys)" and "set xs = set ys"
  shows "sort_key f xs = sort_key f ys"
proof (rule properties_for_sort_key)
  show "mset (sort_key f ys) = mset xs"
    using assms by (simp add: set_eq_iff_mset_eq_distinct [symmetric] distinct_map)
  show "sorted (map f (sort_key f ys))" by simp
  fix k assume k: "k \<in> set (sort_key f ys)"
  have one: "filter (\<lambda>x. f k = f x) zs = [k]" if "distinct (map f zs)" "k \<in> set zs" for zs
    using that
  proof (induction zs)
    case (Cons z zs)
    show ?case
    proof (cases "z = k")
      case True
      then have "filter (\<lambda>x. f k = f x) zs = []" using Cons.prems(1) by (auto simp: filter_empty_conv)
      then show ?thesis using True by simp
    next
      case False
      then have "k \<in> set zs" using Cons.prems(2) by simp
      moreover have "f k \<noteq> f z" using Cons.prems(1) imageI [OF \<open>k \<in> set zs\<close>, of f] by auto
      ultimately show ?thesis using Cons by simp
    qed
  qed simp
  have "filter (\<lambda>x. f k = f x) (sort_key f ys) = sort_key f (filter (\<lambda>x. f k = f x) ys)" by (rule filter_sort)
  then show "filter (\<lambda>x. f k = f x) (sort_key f ys) = filter (\<lambda>x. f k = f x) xs"
    using one [OF assms(1)] one [OF assms(2)] k assms(3) by simp
qed

definition canonical_of :: "jsval \<Rightarrow> jsval" where
  "canonical_of t = projr (normalize t)"

text \<open>The contract of JSON: what is written can be read back.\<close>

definition reads_back :: "tx_context \<Rightarrow> jsval list \<Rightarrow> bool" where
  "reads_back cx tickets \<longleftrightarrow> (\<forall>t\<in>set tickets. sc_parse (cx_sc cx) (ticket_text cx t) = Some (canonical_of t))"

lemma load_active_valid:
  assumes "load_active cx d = Inr s"
    and "map_res (load_shard (cx_sc cx) (cx_nfkd cx)) (filter (\<lambda>e. fst e \<noteq> ''.store.json'') (dk_dir d Active)) = Inr ts"
  shows "valid_store ts" and "take_snapshot (cx_sc cx) ts = Inr s"
proof -
  have "(\<exists>r. validateTickets False True (VArr ts) = Inr r) \<and> take_snapshot (cx_sc cx) ts = Inr s"
    using assms(1) unfolding load_active_def load_dir_def
    by (auto simp: bind_res_eq_Inr assms(2) split: if_splits option.splits node.splits sum.splits)
  then show "valid_store ts" "take_snapshot (cx_sc cx) ts = Inr s" using validate_Inr_iff by blast+
qed

lemma store_json_no_shard: "sha_hex cx \<Longrightarrow> file_of cx t \<noteq> ''.store.json''"
  using shard_filename_ticket [of cx "ticket_id t"] by (auto simp: shard_filename_def slug_alnum_def)

text \<open>What loads from a directory that holds exactly the texts of \<open>tickets\<close>.\<close>

lemma load_of_files:
  assumes load: "load_active cx d = Inr s" and ok: "disk_ok d" and sha: "sha_hex cx"
    and inj: "inj_on (file_of cx) (set tickets)" and rb: "reads_back cx tickets" and dist: "distinct tickets"
    and here: "\<And>t. t \<in> set tickets \<Longrightarrow> look d (Active, file_of cx t) = Some (File (ticket_text cx t))"
    and none: "\<And>n. n \<notin> file_of cx ` set tickets \<Longrightarrow> n \<noteq> ''.store.json'' \<Longrightarrow> look d (Active, n) = None"
  shows "sn_tickets s = sort_key ticket_id (map canonical_of tickets)"
proof -
  let ?es = "filter (\<lambda>e. fst e \<noteq> ''.store.json'') (dk_dir d Active)"
  let ?load = "load_shard (cx_sc cx) (cx_nfkd cx)"
  obtain ts where ts: "map_res ?load ?es = Inr ts" by (rule load_active_shards [OF load])
  note v = load_active_valid [OF load ts]
  have all: "list_all2 (\<lambda>e t. ?load e = Inr t) ?es ts" using ts by (simp add: map_res_Inr_list_all2)
  have shard: "u = canonical_of t" if "?load (file_of cx t, File (ticket_text cx t)) = Inr u" "t \<in> set tickets" for t u
    using that rb by (auto simp: load_shard_def reads_back_def split: if_splits)
  have fwd: "canonical_of t \<in> set ts \<and> file_of cx (canonical_of t) = file_of cx t" if t: "t \<in> set tickets" for t
  proof -
    have "(file_of cx t, File (ticket_text cx t)) \<in> set (dk_dir d Active)"
      using here [OF t] by (auto simp: look_def intro: map_of_SomeD)
    then have "(file_of cx t, File (ticket_text cx t)) \<in> set ?es" using store_json_no_shard [OF sha] by simp
    from list_all2_left [OF all this] obtain u where u: "u \<in> set ts" "?load (file_of cx t, File (ticket_text cx t)) = Inr u"
      by blast
    have e: "u = canonical_of t" by (rule shard [OF u(2) t])
    show ?thesis using u(1) load_shard_Inr(2) [OF u(2)] by (simp add: e)
  qed
  have bwd: "u \<in> canonical_of ` set tickets" if u: "u \<in> set ts" for u
  proof -
    obtain e where e: "e \<in> set ?es" "?load e = Inr u" using list_all2_right [OF all u] by blast
    have "distinct (map fst (dk_dir d Active))" using ok by (simp add: disk_ok_def dir_ok_def strict_sorted_iff)
    then have l: "look d (Active, fst e) = Some (snd e)" using e(1) by (simp add: look_def map_of_eq_Some_iff)
    then obtain t where t: "t \<in> set tickets" "fst e = file_of cx t" using none [of "fst e"] e(1) by auto
    have "e = (file_of cx t, File (ticket_text cx t))" using here [OF t(1)] l t(2) by (cases e) simp
    then show ?thesis using shard [of t u] e(2) t(1) by blast
  qed
  have set: "set ts = set (map canonical_of tickets)" using fwd bwd by auto
  have d1: "distinct (map ticket_id ts)" using v(1) by (simp add: valid_store_def)
  have d2: "distinct (map (\<lambda>t. ticket_id (canonical_of t)) tickets)"
  proof (rule distinct_finer [where f = "\<lambda>t. t"])
    show "distinct (map (\<lambda>t. t) tickets)" using dist by simp
    fix t u assume tu: "t \<in> set tickets" "u \<in> set tickets" "ticket_id (canonical_of t) = ticket_id (canonical_of u)"
    then have "file_of cx t = file_of cx u" using fwd by metis
    then show "t = u" using inj tu(1,2) by (simp add: inj_on_def)
  qed
  have "sn_tickets s = sort_key ticket_id ts" using v(2) by (auto simp: take_snapshot_def Let_def bind_res_eq_Inr)
  also have "\<dots> = sort_key ticket_id (map canonical_of tickets)"
    by (rule sort_key_unique [OF d1 _ set]) (use d2 in \<open>simp add: comp_def\<close>)
  finally show ?thesis .
qed

lemma transaction_stores:
  assumes "sha_hex cx" and "disk_ok d" and "clean (rq_id rq) d" and "transaction_id (rq_id rq)" and "aux_fits cx rq"
    and "inj_on (file_of cx) (set tickets)" and "reads_back cx tickets"
    and "applyDirectoryTransaction cx verify rq tickets d = (Inr after, d1)"
  shows "load_active cx d1 = Inr after \<and> sn_tickets after = sort_key ticket_id (map canonical_of tickets)
     \<and> dk_journal d1 = None"
proof -
  obtain pl where plan: "plan_transaction cx (load_active cx) (directory_planner cx rq tickets d) rq tickets d = Inr pl"
    using assms(8) by (auto simp: applyDirectoryTransaction_def run_transaction_def split: sum.splits)
  let ?d = "perform_all (tx_acts pl) d"
  have run: "finish_transaction (load_active cx) verify rq pl ?d = (Inr after, d1)"
    using assms(8) by (simp add: applyDirectoryTransaction_def run_transaction_def plan)
  note fin = finish_Inr [OF run]
  note files = tx_active_files [OF plan assms(2,3,4,5,1,6)]
  have "valid_store tickets" using plan validate_Inr_iff
    by (auto simp: plan_transaction_def split: sum.splits)
  then have "distinct tickets" by (auto simp: valid_store_def distinct_map)
  then have "sn_tickets after = sort_key ticket_id (map canonical_of tickets)"
    by (rule load_of_files [OF fin(1) tx_files(3) [OF plan assms(2,3,4,5,1)] assms(1,6,7) _ files(1,3)])
  moreover have "load_active cx d1 = Inr after" using load_active_cong [OF fin(3)] fin(1) by simp
  moreover have "dk_journal d1 = None" using run by (auto simp: finish_transaction_def split: sum.splits if_splits)
  ultimately show ?thesis by simp
qed

text \<open>C14: a transaction on the directory store assigns the set of tickets. When it succeeds, the snapshot
  it returns is what the store now loads, it holds exactly the requested tickets in canonical form
  sorted by id, and no journal is left.\<close>

theorem transaction_assigns_tickets:
  assumes "sha_hex cx" and "disk_ok d" and "clean (rq_id rq) d" and "transaction_id (rq_id rq)" and "aux_fits cx rq"
    and "inj_on (file_of cx) (set tickets)" and "reads_back cx tickets"
    and "applyDirectoryTransaction cx verify rq tickets d = (Inr after, d1)"
  shows "load_active cx d1 = Inr after \<and> sn_tickets after = sort_key ticket_id (map canonical_of tickets)
     \<and> dk_journal d1 = None"
  by (rule transaction_stores [OF assms])

lemma ex_create_run:
  "applyDirectoryTransaction ex_context (\<lambda>_. True) ex_create [ex_ticket] ex_empty
     = (Inr (projr (fst (applyDirectoryTransaction ex_context (\<lambda>_. True) ex_create [ex_ticket] ex_empty))),
        snd (applyDirectoryTransaction ex_context (\<lambda>_. True) ex_create [ex_ticket] ex_empty))"
proof -
  have "\<not> isl (fst (applyDirectoryTransaction ex_context (\<lambda>_. True) ex_create [ex_ticket] ex_empty))" by code_simp
  then show ?thesis by (simp add: prod_eq_iff)
qed

theorem transaction_assigns_tickets_witness:
  "sn_tickets (projr (fst (applyDirectoryTransaction ex_context (\<lambda>_. True) ex_create [ex_ticket] ex_empty))) = [ex_ticket]"
proof -
  have d: "dir_ok [(''.store.json'', File ''M'')]" by (simp add: dir_ok_def)
  have ok: "disk_ok ex_empty" using d by (simp add: disk_ok_def ex_empty_def dir_ok_def)
  have n: "\<not> ends_with ''.store.json'' (rq_id ex_create)" by code_simp
  have cl: "clean (rq_id ex_create) ex_empty" using n by (auto simp: clean_def look_def ex_empty_def)
  have tid: "transaction_id (rq_id ex_create)" by code_simp
  have aux: "aux_fits ex_context ex_create" by code_simp
  have inj: "inj_on (file_of ex_context) (set [ex_ticket])" by simp
  have rb: "reads_back ex_context [ex_ticket]"
  proof -
    have "sc_parse (cx_sc ex_context) (ticket_text ex_context ex_ticket) = Some (canonical_of ex_ticket)" by code_simp
    then show ?thesis by (simp add: reads_back_def)
  qed
  have c: "canonical_of ex_ticket = ex_ticket" by code_simp
  have "sn_tickets (projr (fst (applyDirectoryTransaction ex_context (\<lambda>_. True) ex_create [ex_ticket] ex_empty)))
      = sort_key ticket_id (map canonical_of [ex_ticket])"
    using transaction_assigns_tickets [OF ex_hyps(1) ok cl tid aux inj rb ex_create_run] by blast
  then show ?thesis by (simp add: c)
qed

end
