(* ===== verification/TicketService.thy ===== *)
theory TicketService
  imports TicketCommit Glob
begin

text \<open>
  The operations on tickets (\<^verbatim>\<open>packages/tickets/lib/service.mjs\<close>, \<^verbatim>\<open>archive.mjs\<close>): each makes a plan
  from the current snapshot, checks its guards, and is applied as one transaction. \<open>mutate\<close> of an
  operation is a function of the tickets; the archive and the files of the repository are read from the
  disk and from the fields of \<open>service\<close>.
\<close>

section \<open>The service\<close>

record service =
  sv_cx :: tx_context
  sv_kind :: store_kind
  sv_protected :: "string list"
  sv_key :: "string option"
  sv_allowUnsigned :: bool
  sv_manifests :: "string list" \<comment> \<open>what \<open>discoverManifests\<close> finds\<close>
  sv_files :: "string list option" \<comment> \<open>what \<open>repositoryFiles\<close> finds\<close>

datatype service_error =
    SnapshotFault store_error
  | InvalidPlan validate_error
  | PlanNotJson canonical_error
  | TxFault tx_error
  | SnapshotStale | TicketStale string | PlanStale
  | ArchiveCollision string | InvalidLegacyArchive
  | RailCoversManifest "jsval list" | RailMatchesNothing "jsval list"
  | TicketExists string | InvalidBatch | TicketNotFound string | IdentityChange
  | AuthorizationRequired "string list" | ProtectedTicket string | TicketReferenced string
  | ArchiveInboundEdge "string list" | ArchiveHashMismatch | BadArchivedTicket
  | NotIterable

datatype file_op = CreateOp string | UpdateOp string | DiscardOp string | RenameOp string string

datatype graph_effect = RewrittenEdges nat | ReconciledTickets nat

record mutation_plan =
  mp_operation :: string
  mp_expected :: string
  mp_after :: string
  mp_ticket :: "string option"
  mp_beforeTicket :: "string option"
  mp_changedFields :: "string list"
  mp_fileOps :: "file_op list"
  mp_graph :: "graph_effect list"
  mp_sensitive :: "string list"
  mp_evidence :: bool
  mp_ticketHashes :: "(string \<times> string) list"
  mp_tickets :: "jsval list"
  mp_planHash :: string

text \<open>What an operation says about its change; an absent field leaves the default of the operation.\<close>

record detail =
  dt_ticket :: "string option"
  dt_beforeTicket :: "string option"
  dt_changedFields :: "string list"
  dt_fileOps :: "file_op list"
  dt_graph :: "graph_effect list"
  dt_sensitive :: "string list option"
  dt_evidence :: "bool option"

definition no_detail :: detail where
  "no_detail = \<lparr>dt_ticket = None, dt_beforeTicket = None, dt_changedFields = [], dt_fileOps = [], dt_graph = [],
     dt_sensitive = None, dt_evidence = None\<rparr>"

section \<open>JavaScript objects\<close>

definition obj_keys :: "jsval \<Rightarrow> string list" where
  "obj_keys v = (case v of VObj kvs \<Rightarrow> map fst kvs | _ \<Rightarrow> [])"

definition obj_set :: "string \<Rightarrow> jsval \<Rightarrow> jsval \<Rightarrow> jsval" where
  "obj_set k x v = (case v of VObj kvs \<Rightarrow> VObj (AList.update k x kvs) | _ \<Rightarrow> v)"

definition obj_delete :: "string \<Rightarrow> jsval \<Rightarrow> jsval" where
  "obj_delete k v = (case v of VObj kvs \<Rightarrow> VObj (filter (\<lambda>kv. fst kv \<noteq> k) kvs) | _ \<Rightarrow> v)"

definition comparable :: "store_codec \<Rightarrow> jsval \<Rightarrow> string option" where
  "comparable sc v = (case normalize v of Inl _ \<Rightarrow> None | Inr n \<Rightarrow> Some (sc_stringify sc n))"

definition changedFields :: "store_codec \<Rightarrow> jsval \<Rightarrow> jsval \<Rightarrow> string list" where
  "changedFields sc a b =
     sort (filter (\<lambda>k. comparable sc (js_get k a) \<noteq> comparable sc (js_get k b)) (remdups (obj_keys a @ obj_keys b)))"

text \<open>\<open>x ?? []\<close> as an array; anything else has no array methods and throws.\<close>

definition array_or_empty :: "jsval \<Rightarrow> service_error + jsval list" where
  "array_or_empty v = (case v of VArr xs \<Rightarrow> Inr xs | VUndefined \<Rightarrow> Inr [] | VNull \<Rightarrow> Inr [] | _ \<Rightarrow> Inl NotIterable)"

section \<open>Guards\<close>

definition coversManifest :: "jsval \<Rightarrow> string list \<Rightarrow> bool" where
  "coversManifest rail paths = (case rail of VStr g \<Rightarrow> g \<noteq> [] \<and> list_ex (globMatch g) paths | _ \<Rightarrow> False)"

definition railsMatchingNothing :: "jsval list \<Rightarrow> string list \<Rightarrow> jsval list" where
  "railsMatchingNothing rails files =
     filter (\<lambda>r. case r of VStr g \<Rightarrow> g \<noteq> [] \<and> \<not> list_ex (globMatch g) files | _ \<Rightarrow> False) rails"

definition assertNoManifestRails :: "service \<Rightarrow> jsval list \<Rightarrow> service_error + unit" where
  "assertNoManifestRails sv rails =
     (let offenders = filter (\<lambda>r. coversManifest r (sv_manifests sv)) rails
      in if offenders = [] then Inr () else Inl (RailCoversManifest offenders))"

definition assertRailsExist :: "service \<Rightarrow> jsval list \<Rightarrow> service_error + unit" where
  "assertRailsExist sv rails = (case sv_files sv of
      None \<Rightarrow> Inr ()
    | Some files \<Rightarrow>
        let offenders = railsMatchingNothing rails files
        in if offenders = [] then Inr () else Inl (RailMatchesNothing offenders))"

definition rails_array :: "jsval \<Rightarrow> jsval list" where
  "rails_array t = (case js_get ''rails'' t of VArr rs \<Rightarrow> rs | _ \<Rightarrow> [])"

definition assertIdNotArchived :: "service \<Rightarrow> disk \<Rightarrow> string \<Rightarrow> service_error + unit" where
  "assertIdNotArchived sv d i =
     (if look d (Archived, ticketFilename (cx_sc (sv_cx sv)) (cx_nfkd (sv_cx sv)) i) \<noteq> None then Inl (ArchiveCollision i)
      else case cx_legacyArchive (sv_cx sv) of
        None \<Rightarrow> Inr ()
      | Some text \<Rightarrow> (case sc_parse (cx_sc (sv_cx sv)) text of
            None \<Rightarrow> Inl InvalidLegacyArchive
          | Some v \<Rightarrow> (case js_get ''tickets'' v of
                VArr ts \<Rightarrow> if list_ex (\<lambda>t. js_get ''id'' t = VStr i) ts then Inl (ArchiveCollision i) else Inr ()
              | _ \<Rightarrow> Inl InvalidLegacyArchive)))"

definition guard_new :: "service \<Rightarrow> disk \<Rightarrow> jsval \<Rightarrow> service_error + unit" where
  "guard_new sv d t =
     bind_res (assertIdNotArchived sv d (ticket_id t)) (\<lambda>_.
       bind_res (assertNoManifestRails sv (rails_array t)) (\<lambda>_. assertRailsExist sv (rails_array t)))"

section \<open>Planning\<close>

definition load_store :: "service \<Rightarrow> disk \<Rightarrow> store_error + snapshot" where
  "load_store sv d = (case sv_kind sv of
      DirectoryKind \<Rightarrow> load_active (sv_cx sv) d
    | LegacyKind name \<Rightarrow> load_legacy_file (sv_cx sv) name d)"

definition public_plan :: "mutation_plan \<Rightarrow> mutation_plan" where
  "public_plan p = p\<lparr>mp_tickets := [], mp_planHash := []\<rparr>"

text \<open>\<open>planText\<close> is the canonical JSON of the public fields of a plan.\<close>

definition plan_hash :: "service \<Rightarrow> (mutation_plan \<Rightarrow> string) \<Rightarrow> mutation_plan \<Rightarrow> string" where
  "plan_hash sv planText p = sc_sha (cx_sc (sv_cx sv)) (''adlc:ticket-plan:v1'' @ [CHR 0x00] @ planText (public_plan p))"

definition lift_err :: "('e \<Rightarrow> service_error) \<Rightarrow> 'e + 'a \<Rightarrow> service_error + 'a" where
  "lift_err f r = (case r of Inl e \<Rightarrow> Inl (f e) | Inr x \<Rightarrow> Inr x)"

definition fill_plan ::
  "service \<Rightarrow> (mutation_plan \<Rightarrow> string) \<Rightarrow> string \<Rightarrow> string list \<Rightarrow> bool \<Rightarrow> snapshot \<Rightarrow> jsval list \<Rightarrow> detail
   \<Rightarrow> (string \<times> string) list \<Rightarrow> string \<Rightarrow> mutation_plan" where
  "fill_plan sv planText operation sensitive evidenceRequired prev tickets dt hashes after =
     (let p = \<lparr>mp_operation = operation, mp_expected = sn_hash prev, mp_after = after, mp_ticket = dt_ticket dt,
         mp_beforeTicket = (if dt_beforeTicket dt \<noteq> None then dt_beforeTicket dt else dt_ticket dt),
         mp_changedFields = dt_changedFields dt, mp_fileOps = dt_fileOps dt, mp_graph = dt_graph dt,
         mp_sensitive = (case dt_sensitive dt of None \<Rightarrow> sensitive | Some s \<Rightarrow> s),
         mp_evidence = (case dt_evidence dt of None \<Rightarrow> evidenceRequired | Some b \<Rightarrow> b),
         mp_ticketHashes = hashes, mp_tickets = tickets, mp_planHash = []\<rparr>
      in p\<lparr>mp_planHash := plan_hash sv planText p\<rparr>)"

definition hash_each :: "store_codec \<Rightarrow> jsval list \<Rightarrow> canonical_error + (string \<times> string) list" where
  "hash_each sc = map_res (\<lambda>t. bind_res (ticketHash (sc_sha sc) (sc_stringify sc) t) (\<lambda>h. Inr (ticket_id t, h)))"

definition make_plan ::
  "service \<Rightarrow> (mutation_plan \<Rightarrow> string) \<Rightarrow> string \<Rightarrow> (snapshot \<Rightarrow> service_error + jsval list \<times> detail)
   \<Rightarrow> string list \<Rightarrow> bool \<Rightarrow> string option \<Rightarrow> disk \<Rightarrow> service_error + mutation_plan" where
  "make_plan sv planText operation mutate sensitive evidenceRequired expected d =
     bind_res (lift_err SnapshotFault (load_store sv d)) (\<lambda>prev.
       if given expected \<and> expected \<noteq> Some (sn_hash prev) then Inl SnapshotStale
       else bind_res (mutate prev) (\<lambda>td.
         bind_res (lift_err InvalidPlan (validateTickets False True (VArr (fst td)))) (\<lambda>_.
           bind_res (lift_err PlanNotJson (hash_each (cx_sc (sv_cx sv)) (fst td))) (\<lambda>hashes.
             bind_res (lift_err PlanNotJson (hash_tickets (cx_sc (sv_cx sv)) (fst td))) (\<lambda>after.
               Inr (fill_plan sv planText operation sensitive evidenceRequired prev (fst td) (snd td) hashes after))))))"

subsection \<open>Create\<close>

definition falsy :: "jsval \<Rightarrow> bool" where
  "falsy v \<longleftrightarrow> nullish v \<or> v = VStr [] \<or> v = VNum 0 \<or> v = VBool False"

definition with_id :: "string \<Rightarrow> jsval \<Rightarrow> jsval" where
  "with_id fresh t = (if falsy (js_get ''id'' t) then obj_set ''id'' (VStr fresh) t else t)"

definition create_in :: "jsval \<Rightarrow> snapshot \<Rightarrow> service_error + jsval list \<times> detail" where
  "create_in t prev =
     (if list_ex (\<lambda>u. ticket_id u = ticket_id t) (sn_tickets prev) then Inl (TicketExists (ticket_id t))
      else Inr (sn_tickets prev @ [t],
        no_detail\<lparr>dt_ticket := Some (ticket_id t), dt_changedFields := sort (obj_keys t), dt_fileOps := [CreateOp (ticket_id t)]\<rparr>))"

definition planCreate :: "service \<Rightarrow> (mutation_plan \<Rightarrow> string) \<Rightarrow> string \<Rightarrow> jsval \<Rightarrow> disk \<Rightarrow> service_error + mutation_plan" where
  "planCreate sv planText fresh input d =
     (let t = with_id fresh input
      in bind_res (guard_new sv d t) (\<lambda>_. make_plan sv planText ''create'' (create_in t) [] False None d))"

fun first_duplicate :: "string list \<Rightarrow> string list \<Rightarrow> string option" where
  "first_duplicate seen [] = None"
| "first_duplicate seen (i # is') = (if i \<in> set seen then Some i else first_duplicate (i # seen) is')"

definition create_all_in :: "jsval list \<Rightarrow> snapshot \<Rightarrow> service_error + jsval list \<times> detail" where
  "create_all_in batch prev = (case find (\<lambda>t. list_ex (\<lambda>u. ticket_id u = ticket_id t) (sn_tickets prev)) batch of
      Some t \<Rightarrow> Inl (TicketExists (ticket_id t))
    | None \<Rightarrow> Inr (sn_tickets prev @ batch,
        no_detail\<lparr>dt_changedFields := sort (remdups (concat (map obj_keys batch))), dt_fileOps := map (\<lambda>t. CreateOp (ticket_id t)) batch\<rparr>))"

definition planCreateBatch ::
  "service \<Rightarrow> (mutation_plan \<Rightarrow> string) \<Rightarrow> (nat \<Rightarrow> string) \<Rightarrow> jsval list \<Rightarrow> disk \<Rightarrow> service_error + mutation_plan" where
  "planCreateBatch sv planText fresh inputs d =
     (if inputs = [] then Inl InvalidBatch
      else let batch = map (\<lambda>(k, t). with_id (fresh k) t) (enumerate 0 inputs)
      in case first_duplicate [] (map ticket_id batch) of
           Some i \<Rightarrow> Inl (TicketExists i)
         | None \<Rightarrow> bind_res (map_res (guard_new sv d) batch) (\<lambda>_.
             make_plan sv planText ''batch-create'' (create_all_in batch) [] False None d))"

subsection \<open>Update\<close>

definition replace_first :: "(jsval \<Rightarrow> bool) \<Rightarrow> jsval \<Rightarrow> jsval list \<Rightarrow> jsval list" where
  "replace_first P x ts = takeWhile (\<lambda>t. \<not> P t) ts @ (case dropWhile (\<lambda>t. \<not> P t) ts of [] \<Rightarrow> [] | _ # r \<Rightarrow> x # r)"

definition update_sensitive :: "jsval \<Rightarrow> jsval \<Rightarrow> jsval list \<Rightarrow> jsval list \<Rightarrow> jsval list \<Rightarrow> jsval list \<Rightarrow> string list" where
  "update_sensitive old new oldRails newRails oldScope newScope =
     (if list_ex (\<lambda>r. r \<notin> set newRails) oldRails then [''rail-narrowing''] else [])
     @ (if list_ex (\<lambda>s. s \<notin> set oldScope) newScope then [''scope-widening''] else [])
     @ (if (js_get ''completed'' old = VBool True) \<noteq> (js_get ''completed'' new = VBool True) then [''lifecycle-change''] else [])"

definition update_in :: "service \<Rightarrow> string \<Rightarrow> jsval \<Rightarrow> string option \<Rightarrow> bool \<Rightarrow> snapshot \<Rightarrow> service_error + jsval list \<times> detail" where
  "update_in sv i input expect authorized prev = (case find (\<lambda>t. ticket_id t = i) (sn_tickets prev) of
      None \<Rightarrow> Inl (TicketNotFound i)
    | Some old \<Rightarrow>
        if js_get ''id'' input \<noteq> VStr i then Inl IdentityChange
        else if given expect \<and> map_of (sn_ticketHashes prev) i \<noteq> expect then Inl (TicketStale i)
        else bind_res (array_or_empty (js_get ''rails'' input)) (\<lambda>newRails.
          let oldRails = rails_array old; added = filter (\<lambda>r. r \<notin> set oldRails) newRails
          in bind_res (assertNoManifestRails sv added) (\<lambda>_.
            bind_res (assertRailsExist sv added) (\<lambda>_.
              bind_res (array_or_empty (js_get ''scope'' input)) (\<lambda>newScope.
                bind_res (array_or_empty (js_get ''scope'' old)) (\<lambda>oldScope.
                  let sensitive = update_sensitive old input oldRails newRails oldScope newScope
                  in if sensitive \<noteq> [] \<and> \<not> authorized then Inl (AuthorizationRequired sensitive)
                     else Inr (replace_first (\<lambda>t. ticket_id t = i) input (sn_tickets prev),
                       no_detail\<lparr>dt_ticket := Some i, dt_changedFields := changedFields (cx_sc (sv_cx sv)) old input,
                         dt_fileOps := [UpdateOp i], dt_sensitive := Some sensitive, dt_evidence := Some (sensitive \<noteq> [])\<rparr>)))))))"

definition planUpdate ::
  "service \<Rightarrow> (mutation_plan \<Rightarrow> string) \<Rightarrow> string \<Rightarrow> jsval \<Rightarrow> string option \<Rightarrow> bool \<Rightarrow> disk \<Rightarrow> service_error + mutation_plan" where
  "planUpdate sv planText i input expect authorized d =
     make_plan sv planText ''update'' (update_in sv i input expect authorized) [] authorized None d"

subsection \<open>Discard, complete, reassign, reconcile\<close>

definition points_to :: "string \<Rightarrow> jsval \<Rightarrow> bool" where
  "points_to i t = list_ex (\<lambda>e. js_get ''to'' e = VStr i) (ticket_edges t)"

definition discard_in :: "service \<Rightarrow> string \<Rightarrow> snapshot \<Rightarrow> service_error + jsval list \<times> detail" where
  "discard_in sv i prev =
     (if i \<in> set (sv_protected sv) then Inl (ProtectedTicket i)
      else if list_ex (points_to i) (sn_tickets prev) then Inl (TicketReferenced i)
      else if \<not> list_ex (\<lambda>t. ticket_id t = i) (sn_tickets prev) then Inl (TicketNotFound i)
      else Inr (takeWhile (\<lambda>t. ticket_id t \<noteq> i) (sn_tickets prev) @ tl (dropWhile (\<lambda>t. ticket_id t \<noteq> i) (sn_tickets prev)),
        no_detail\<lparr>dt_ticket := Some i, dt_fileOps := [DiscardOp i]\<rparr>))"

definition planDiscard :: "service \<Rightarrow> (mutation_plan \<Rightarrow> string) \<Rightarrow> string \<Rightarrow> disk \<Rightarrow> service_error + mutation_plan" where
  "planDiscard sv planText i d = make_plan sv planText ''discard'' (discard_in sv i) [] False None d"

definition complete_in :: "service \<Rightarrow> string \<Rightarrow> string option \<Rightarrow> bool \<Rightarrow> snapshot \<Rightarrow> service_error + jsval list \<times> detail" where
  "complete_in sv i expect authorized prev = (case find (\<lambda>t. ticket_id t = i) (sn_tickets prev) of
      None \<Rightarrow> Inl (TicketNotFound i)
    | Some t \<Rightarrow>
        if expect \<noteq> None \<and> map_of (sn_ticketHashes prev) i \<noteq> expect then Inl (TicketStale i)
        else if i \<in> set (sv_protected sv) \<and> \<not> authorized then Inl (AuthorizationRequired [i])
        else let t' = obj_set ''completed'' (VBool True) t
          in Inr (replace_first (\<lambda>u. ticket_id u = i) t' (sn_tickets prev),
            no_detail\<lparr>dt_ticket := Some i, dt_changedFields := changedFields (cx_sc (sv_cx sv)) t t', dt_fileOps := [UpdateOp i]\<rparr>))"

definition planComplete ::
  "service \<Rightarrow> (mutation_plan \<Rightarrow> string) \<Rightarrow> string \<Rightarrow> string option \<Rightarrow> bool \<Rightarrow> disk \<Rightarrow> service_error + mutation_plan" where
  "planComplete sv planText i expect authorized d =
     make_plan sv planText ''complete'' (complete_in sv i expect authorized) [''lifecycle-change''] True None d"

definition redirect_edge :: "string \<Rightarrow> string \<Rightarrow> jsval \<Rightarrow> jsval" where
  "redirect_edge i i2 e = (if js_get ''to'' e = VStr i then obj_set ''to'' (VStr i2) e else e)"

definition redirect_edges :: "string \<Rightarrow> string \<Rightarrow> jsval \<Rightarrow> jsval" where
  "redirect_edges i i2 t = (case js_get ''edges'' t of
      VArr es \<Rightarrow> obj_set ''edges'' (VArr (map (redirect_edge i i2) es)) t
    | _ \<Rightarrow> t)"

definition rename_ticket :: "string \<Rightarrow> string \<Rightarrow> jsval \<Rightarrow> jsval" where
  "rename_ticket i i2 t = (if ticket_id t = i then obj_set ''id'' (VStr i2) t else t)"

definition reassign_in :: "string \<Rightarrow> string \<Rightarrow> snapshot \<Rightarrow> service_error + jsval list \<times> detail" where
  "reassign_in i i2 prev =
     (if list_ex (\<lambda>t. ticket_id t = i2) (sn_tickets prev) then Inl (TicketExists i2)
      else if \<not> list_ex (\<lambda>t. ticket_id t = i) (sn_tickets prev) then Inl (TicketNotFound i)
      else Inr (map (redirect_edges i i2) (map (rename_ticket i i2) (sn_tickets prev)),
        no_detail\<lparr>dt_ticket := Some i2, dt_beforeTicket := Some i, dt_changedFields := [''id''], dt_fileOps := [RenameOp i i2],
          dt_graph := [RewrittenEdges (length (filter (\<lambda>e. js_get ''to'' e = VStr i) (concat (map ticket_edges (sn_tickets prev)))))]\<rparr>))"

definition planReassign ::
  "service \<Rightarrow> (mutation_plan \<Rightarrow> string) \<Rightarrow> string \<Rightarrow> string \<Rightarrow> bool \<Rightarrow> disk \<Rightarrow> service_error + mutation_plan" where
  "planReassign sv planText i i2 authorized d =
     (if \<not> authorized then Inl (AuthorizationRequired [])
      else bind_res (assertIdNotArchived sv d i2) (\<lambda>_.
        make_plan sv planText ''reassign'' (reassign_in i i2) [''identity-change''] True None d))"

definition mutates_existing :: "store_codec \<Rightarrow> jsval list \<Rightarrow> jsval \<Rightarrow> bool" where
  "mutates_existing sc old t = (case find (\<lambda>u. ticket_id u = ticket_id t) (rev old) of
      None \<Rightarrow> False
    | Some u \<Rightarrow> ticketHash (sc_sha sc) (sc_stringify sc) u \<noteq> ticketHash (sc_sha sc) (sc_stringify sc) t)"

definition reconcile_in :: "service \<Rightarrow> jsval list \<Rightarrow> snapshot \<Rightarrow> service_error + jsval list \<times> detail" where
  "reconcile_in sv desired prev =
     (let old = remdups (map ticket_id (sn_tickets prev)); new = remdups (map ticket_id desired)
      in Inr (desired,
        no_detail\<lparr>dt_fileOps := map CreateOp (filter (\<lambda>i. i \<notin> set old) new) @ map DiscardOp (filter (\<lambda>i. i \<notin> set new) old),
          dt_graph := [ReconciledTickets (length desired)],
          dt_evidence := Some (list_ex (mutates_existing (cx_sc (sv_cx sv)) (sn_tickets prev)) desired)\<rparr>))"

definition planReconciliation ::
  "service \<Rightarrow> (mutation_plan \<Rightarrow> string) \<Rightarrow> jsval list \<Rightarrow> bool \<Rightarrow> string option \<Rightarrow> disk \<Rightarrow> service_error + mutation_plan" where
  "planReconciliation sv planText desired authorized expected d =
     (if \<not> authorized then Inl (AuthorizationRequired [])
      else bind_res (map_res (\<lambda>t. assertIdNotArchived sv d (ticket_id t)) desired) (\<lambda>_.
        make_plan sv planText ''remote-reconciliation'' (reconcile_in sv desired) [''remote-reconciliation''] False expected d))"

section \<open>Applying a plan\<close>

definition plan_request :: "service \<Rightarrow> string \<Rightarrow> mutation_plan \<Rightarrow> tx_request" where
  "plan_request sv uuid p =
     \<lparr>rq_id = uuid, rq_operation = mp_operation p, rq_expected = Some (mp_expected p), rq_evidence = mp_evidence p,
       rq_ticket = mp_ticket p, rq_beforeTicket = mp_beforeTicket p, rq_key = sv_key sv, rq_allowUnsigned = sv_allowUnsigned sv,
       rq_aux = []\<rparr>"

definition apply_plan ::
  "service \<Rightarrow> (mutation_plan \<Rightarrow> string) \<Rightarrow> string \<Rightarrow> mutation_plan \<Rightarrow> disk \<Rightarrow> (service_error + snapshot) \<times> disk" where
  "apply_plan sv planText uuid p d =
     (if plan_hash sv planText p \<noteq> mp_planHash p then (Inl PlanStale, d)
      else case hash_tickets (cx_sc (sv_cx sv)) (mp_tickets p) of
        Inl e \<Rightarrow> (Inl (PlanNotJson e), d)
      | Inr h \<Rightarrow>
          if h \<noteq> mp_after p then (Inl PlanStale, d)
          else apfst (lift_err TxFault)
            (case sv_kind sv of
               DirectoryKind \<Rightarrow> applyDirectoryTransaction (sv_cx sv) (\<lambda>_. True) (plan_request sv uuid p) (mp_tickets p) d
             | LegacyKind name \<Rightarrow> applyLegacyTransaction (sv_cx sv) name (plan_request sv uuid p) (mp_tickets p) d))"

section \<open>Archive and restore\<close>

definition load_archive :: "tx_context \<Rightarrow> disk \<Rightarrow> store_error + snapshot" where
  "load_archive cx d = load_dir (cx_sc cx) (cx_nfkd cx) True (dk_dir d Archived)"

definition ensureArchive :: "tx_context \<Rightarrow> disk \<Rightarrow> (store_error + unit) \<times> disk" where
  "ensureArchive cx d =
     (let d' = (if dk_dir d Archived = [] then put_file Archived ''.store.json''
            (sc_pretty (cx_sc cx) (projr (normalize (store_manifest True)))) d else d)
      in (case load_archive cx d' of Inl e \<Rightarrow> Inl e | Inr _ \<Rightarrow> Inr (), d'))"

definition archive_metadata :: "string \<Rightarrow> string \<Rightarrow> string \<Rightarrow> string \<Rightarrow> jsval \<Rightarrow> jsval" where
  "archive_metadata now reason hash sourceHash revision =
     VObj [(''version'', VNum 1), (''archivedAt'', VStr now), (''reason'', VStr reason), (''ticketHash'', VStr hash),
       (''sourceStoreHash'', VStr sourceHash), (''sourceRevision'', revision)]"

definition archive_request :: "service \<Rightarrow> string \<Rightarrow> string \<Rightarrow> string \<Rightarrow> string \<Rightarrow> aux_request \<Rightarrow> tx_request" where
  "archive_request sv uuid operation expected i a =
     \<lparr>rq_id = uuid, rq_operation = operation, rq_expected = Some expected, rq_evidence = True, rq_ticket = Some i,
       rq_beforeTicket = None, rq_key = sv_key sv, rq_allowUnsigned = sv_allowUnsigned sv, rq_aux = [a]\<rparr>"

definition archive_file :: "tx_context \<Rightarrow> string \<Rightarrow> string" where
  "archive_file cx i = ticketFilename (cx_sc cx) (cx_nfkd cx) i"

definition archiveTicket ::
  "service \<Rightarrow> string \<Rightarrow> string \<Rightarrow> string \<Rightarrow> jsval \<Rightarrow> string \<Rightarrow> string option \<Rightarrow> bool \<Rightarrow> disk
   \<Rightarrow> (service_error + snapshot \<times> jsval) \<times> disk" where
  "archiveTicket sv uuid now reason revision i expected authorized d =
     (if \<not> authorized then (Inl (AuthorizationRequired []), d)
      else case load_active (sv_cx sv) d of
        Inl e \<Rightarrow> (Inl (SnapshotFault e), d)
      | Inr active \<Rightarrow>
          if given expected \<and> expected \<noteq> Some (sn_hash active) then (Inl SnapshotStale, d)
          else case assertSignableTrustRootWrite (sv_cx sv) d (sn_tickets active) (sv_key sv) (sv_allowUnsigned sv) of
            Inl e \<Rightarrow> (Inl (TxFault e), d)
          | Inr _ \<Rightarrow> (case find (\<lambda>t. ticket_id t = i) (sn_tickets active) of
              None \<Rightarrow> (Inl (TicketNotFound i), d)
            | Some t \<Rightarrow>
                let inbound = filter (\<lambda>u. ticket_id u \<noteq> i \<and> points_to i u) (sn_tickets active)
                in if inbound \<noteq> [] then (Inl (ArchiveInboundEdge (map ticket_id inbound)), d)
                   else case ensureArchive (sv_cx sv) d of
                     (Inl e, d') \<Rightarrow> (Inl (SnapshotFault e), d')
                   | (Inr _, d') \<Rightarrow>
                       if look d' (Archived, archive_file (sv_cx sv) i) \<noteq> None then (Inl (ArchiveCollision i), d')
                       else case ticketHash (sc_sha (cx_sc (sv_cx sv))) (sc_stringify (cx_sc (sv_cx sv))) t of
                         Inl e \<Rightarrow> (Inl (PlanNotJson e), d')
                       | Inr h \<Rightarrow>
                           let archived = obj_set ''_adlcArchive'' (archive_metadata now reason h (sn_hash active) revision) t;
                             a = \<lparr>ax_action = WriteOp, ax_name = archive_file (sv_cx sv) i, ax_content = ticket_text (sv_cx sv) archived,
                                  ax_mustBeAbsent = True, ax_mustExist = False, ax_expectedBefore = None\<rparr>;
                             verify = (\<lambda>d. case load_archive (sv_cx sv) d of Inl _ \<Rightarrow> False
                               | Inr s \<Rightarrow> list_ex (\<lambda>u. ticket_id u = i) (sn_tickets s));
                             r = applyDirectoryTransaction (sv_cx sv) verify (archive_request sv uuid ''archive'' (sn_hash active) i a)
                               (filter (\<lambda>u. ticket_id u \<noteq> i) (sn_tickets active)) d'
                           in (case fst r of Inl e \<Rightarrow> Inl (TxFault e) | Inr s \<Rightarrow> Inr (s, archived), snd r)))"

definition restoreTicket ::
  "service \<Rightarrow> string \<Rightarrow> string \<Rightarrow> string option \<Rightarrow> bool \<Rightarrow> disk \<Rightarrow> (service_error + snapshot \<times> jsval) \<times> disk" where
  "restoreTicket sv uuid i expected authorized d =
     (if \<not> authorized then (Inl (AuthorizationRequired []), d)
      else case load_active (sv_cx sv) d of
        Inl e \<Rightarrow> (Inl (SnapshotFault e), d)
      | Inr active \<Rightarrow>
          if given expected \<and> expected \<noteq> Some (sn_hash active) then (Inl SnapshotStale, d)
          else if list_ex (\<lambda>t. ticket_id t = i) (sn_tickets active) then (Inl (TicketExists i), d)
          else case load_archive (sv_cx sv) d of
            Inl e \<Rightarrow> (Inl (SnapshotFault e), d)
          | Inr _ \<Rightarrow> (case file_text d Archived (archive_file (sv_cx sv) i) of
              None \<Rightarrow> (Inl (TicketNotFound i), d)
            | Some text \<Rightarrow> (case sc_parse (cx_sc (sv_cx sv)) text of
                None \<Rightarrow> (Inl BadArchivedTicket, d)
              | Some archived \<Rightarrow>
                  let metadata = js_get ''_adlcArchive'' archived; t = obj_delete ''_adlcArchive'' archived
                  in case (if falsy metadata then Inr []
                           else ticketHash (sc_sha (cx_sc (sv_cx sv))) (sc_stringify (cx_sc (sv_cx sv))) t) of
                       Inl e \<Rightarrow> (Inl (PlanNotJson e), d)
                     | Inr h \<Rightarrow>
                         if falsy metadata \<or> js_get ''ticketHash'' metadata \<noteq> VStr h then (Inl ArchiveHashMismatch, d)
                         else let a = \<lparr>ax_action = DeleteOp, ax_name = archive_file (sv_cx sv) i, ax_content = [],
                                  ax_mustBeAbsent = False, ax_mustExist = True,
                                  ax_expectedBefore = Some (sc_sha (cx_sc (sv_cx sv)) text)\<rparr>;
                             r = applyDirectoryTransaction (sv_cx sv) (\<lambda>d. look d (Archived, archive_file (sv_cx sv) i) = None)
                               (archive_request sv uuid ''restore'' (sn_hash active) i a) (sn_tickets active @ [t]) d
                           in (case fst r of Inl e \<Rightarrow> Inl (TxFault e) | Inr s \<Rightarrow> Inr (s, t), snd r))))"

section \<open>What a plan promises\<close>

lemma lift_err_Inr [simp]: "lift_err f r = Inr x \<longleftrightarrow> r = Inr x"
  by (auto simp: lift_err_def split: sum.splits)

lemma if_Inl_Inr: "(if b then Inl e else r) = Inr x \<longleftrightarrow> \<not> b \<and> r = Inr x"
  by simp

lemma make_plan_Inr:
  assumes "make_plan sv planText operation mutate sensitive ev expected d = Inr p"
  obtains prev dt where "load_store sv d = Inr prev" and "mutate prev = Inr (mp_tickets p, dt)"
    and "validateTickets False True (VArr (mp_tickets p)) = Inr (mp_tickets p)"
    and "hash_tickets (cx_sc (sv_cx sv)) (mp_tickets p) = Inr (mp_after p)" and "mp_expected p = sn_hash prev"
    and "plan_hash sv planText p = mp_planHash p"
    and "mp_sensitive p = (case dt_sensitive dt of None \<Rightarrow> sensitive | Some s \<Rightarrow> s)"
    and "mp_evidence p = (case dt_evidence dt of None \<Rightarrow> ev | Some b \<Rightarrow> b)"
    and "mp_operation p = operation" and "mp_ticket p = dt_ticket dt"
proof -
  obtain prev where load: "load_store sv d = Inr prev"
    using assms unfolding make_plan_def by (auto simp only: bind_res_eq_Inr lift_err_Inr)
  have "\<exists>td. mutate prev = Inr td \<and> (\<exists>r. validateTickets False True (VArr (fst td)) = Inr r)
      \<and> (\<exists>after hashes. hash_tickets (cx_sc (sv_cx sv)) (fst td) = Inr after
        \<and> p = fill_plan sv planText operation sensitive ev prev (fst td) (snd td) hashes after)"
    using assms unfolding make_plan_def load
    by (simp only: if_Inl_Inr bind_res_eq_Inr lift_err_Inr sum.inject) blast
  then obtain tickets dt r hashes after where m: "mutate prev = Inr (tickets, dt)"
    and v: "validateTickets False True (VArr tickets) = Inr r"
    and h: "hash_tickets (cx_sc (sv_cx sv)) tickets = Inr after"
    and p: "p = fill_plan sv planText operation sensitive ev prev tickets dt hashes after" by auto
  have "r = tickets" using v validate_Inr_iff by blast
  then show ?thesis using that [OF load, of dt] m v h by (simp add: p fill_plan_def Let_def plan_hash_def public_plan_def)
qed

lemma find_first: "find P xs = Some x \<Longrightarrow> \<exists>us vs. xs = us @ x # vs \<and> P x \<and> (\<forall>u\<in>set us. \<not> P u)"
proof (induction xs)
  case (Cons y xs)
  show ?case
  proof (cases "P y")
    case True
    then show ?thesis using Cons.prems by (intro exI [where x = "[]"] exI [where x = xs]) simp
  next
    case False
    then obtain us vs where "xs = us @ x # vs \<and> P x \<and> (\<forall>u\<in>set us. \<not> P u)" using Cons by auto
    then show ?thesis using False by (intro exI [where x = "y # us"] exI [where x = vs]) simp
  qed
qed simp

lemma replace_first_split: "P x \<Longrightarrow> \<forall>u\<in>set us. \<not> P u \<Longrightarrow> replace_first P y (us @ x # vs) = us @ y # vs"
  by (simp add: replace_first_def takeWhile_append2 dropWhile_append2)

text \<open>What makes a change of a ticket one that needs authorization.\<close>

definition keeps_contract :: "jsval \<Rightarrow> jsval \<Rightarrow> bool" where
  "keeps_contract old new \<longleftrightarrow>
     (\<exists>rs ss os. array_or_empty (js_get ''rails'' new) = Inr rs \<and> array_or_empty (js_get ''scope'' new) = Inr ss
        \<and> array_or_empty (js_get ''scope'' old) = Inr os \<and> set (rails_array old) \<subseteq> set rs \<and> set ss \<subseteq> set os
        \<and> (js_get ''completed'' old = VBool True \<longleftrightarrow> js_get ''completed'' new = VBool True))"

lemma update_in_Inr:
  assumes "update_in sv i input expect authorized prev = Inr (ts, dt)"
  obtains us old vs where "sn_tickets prev = us @ old # vs" and "ticket_id old = i" and "ticket_id input = i"
    and "ts = us @ input # vs" and "dt_sensitive dt \<noteq> None"
    and "dt_evidence dt = Some (dt_sensitive dt \<noteq> Some [])"
    and "keeps_contract old input \<or> authorized \<and> dt_sensitive dt \<noteq> Some []"
proof -
  obtain old where f: "find (\<lambda>t. ticket_id t = i) (sn_tickets prev) = Some old"
    using assms by (auto simp: update_in_def split: option.splits)
  obtain us vs where sp: "sn_tickets prev = us @ old # vs" "ticket_id old = i" "\<forall>u\<in>set us. ticket_id u \<noteq> i"
    using find_first [OF f] by blast
  have rep: "replace_first (\<lambda>t. ticket_id t = i) input (sn_tickets prev) = us @ input # vs"
    unfolding sp(1) by (rule replace_first_split) (use sp in simp_all)
  obtain rs ss os where a: "js_get ''id'' input = VStr i" "array_or_empty (js_get ''rails'' input) = Inr rs"
    "array_or_empty (js_get ''scope'' input) = Inr ss" "array_or_empty (js_get ''scope'' old) = Inr os"
    "update_sensitive old input (rails_array old) rs os ss = [] \<or> authorized"
    and r: "ts = replace_first (\<lambda>t. ticket_id t = i) input (sn_tickets prev)"
    "dt_sensitive dt = Some (update_sensitive old input (rails_array old) rs os ss)"
    "dt_evidence dt = Some (update_sensitive old input (rails_array old) rs os ss \<noteq> [])"
    using assms unfolding update_in_def f
    by (auto simp: bind_res_eq_Inr Let_def no_detail_def split: if_splits)
  have "keeps_contract old input" if "update_sensitive old input (rails_array old) rs os ss = []"
  proof -
    have "set (rails_array old) \<subseteq> set rs" "set ss \<subseteq> set os"
      "js_get ''completed'' old = VBool True \<longleftrightarrow> js_get ''completed'' input = VBool True"
      using that by (auto simp: update_sensitive_def list_ex_iff split: if_splits)
    then show ?thesis using a(2-4) unfolding keeps_contract_def by blast
  qed
  moreover have "ticket_id input = i" using a(1) by (simp add: ticket_id_def)
  ultimately show ?thesis using that [OF sp(1,2)] r rep a(5) by auto
qed

text \<open>C12: without authorization an update keeps the contract of its ticket: the new ticket declares every
  rail of the old one and no scope that the old one did not have, and it is completed if and only if the
  old one was. Every other ticket stays as it was and where it was. With authorization, a plan that does
  not keep the contract names the change and asks for evidence.\<close>

theorem update_keeps_contract:
  assumes "planUpdate sv planText i input expect authorized d = Inr p" and "load_store sv d = Inr prev"
  shows "\<exists>us old vs. sn_tickets prev = us @ old # vs \<and> mp_tickets p = us @ input # vs
     \<and> ticket_id old = i \<and> ticket_id input = i
     \<and> (keeps_contract old input \<or> authorized \<and> mp_evidence p \<and> mp_sensitive p \<noteq> [])"
proof -
  obtain prev' dt where l: "load_store sv d = Inr prev'" and u: "update_in sv i input expect authorized prev' = Inr (mp_tickets p, dt)"
    and s: "mp_sensitive p = (case dt_sensitive dt of None \<Rightarrow> [] | Some s \<Rightarrow> s)"
    and e: "mp_evidence p = (case dt_evidence dt of None \<Rightarrow> authorized | Some b \<Rightarrow> b)"
    by (rule make_plan_Inr [OF assms(1) [unfolded planUpdate_def]])
  have "prev' = prev" using l assms(2) by simp
  then have u: "update_in sv i input expect authorized prev = Inr (mp_tickets p, dt)" using u by simp
  obtain us old vs where sp: "sn_tickets prev = us @ old # vs" "ticket_id old = i" "ticket_id input = i"
    "mp_tickets p = us @ input # vs"
    and dt: "dt_sensitive dt \<noteq> None" "dt_evidence dt = Some (dt_sensitive dt \<noteq> Some [])"
    "keeps_contract old input \<or> authorized \<and> dt_sensitive dt \<noteq> Some []"
    by (rule update_in_Inr [OF u])
  obtain ss where ss: "dt_sensitive dt = Some ss" using dt(1) by blast
  have "keeps_contract old input \<or> authorized \<and> mp_evidence p \<and> mp_sensitive p \<noteq> []"
    using dt(2,3) by (auto simp: s e ss)
  then show ?thesis using sp by blast
qed

lemma load_store_valid:
  assumes "load_store sv d = Inr s" and "t \<in> set (sn_tickets s)"
  shows "validateTicket False t = []"
proof -
  have "\<exists>ts. valid_store ts \<and> take_snapshot (cx_sc (sv_cx sv)) ts = Inr s"
  proof (cases "sv_kind sv")
    case DirectoryKind
    then have l: "load_active (sv_cx sv) d = Inr s" using assms(1) by (simp add: load_store_def)
    obtain ts where ts: "map_res (load_shard (cx_sc (sv_cx sv)) (cx_nfkd (sv_cx sv)))
        (filter (\<lambda>e. fst e \<noteq> ''.store.json'') (dk_dir d Active)) = Inr ts"
      by (rule load_active_shards [OF l])
    show ?thesis using load_active_valid [OF l ts] by blast
  next
    case (LegacyKind name)
    then have "load_legacy (cx_sc (sv_cx sv)) (map_of (dk_dir d Legacy) name) = Inr s"
      using assms(1) by (simp add: load_store_def load_legacy_file_def)
    then obtain ts r where "validateTickets False True (VArr ts) = Inr r" "take_snapshot (cx_sc (sv_cx sv)) ts = Inr s"
      by (auto simp: load_legacy_def split: option.splits node.splits jsval.splits sum.splits)
    then show ?thesis using validate_Inr_iff by blast
  qed
  then show ?thesis using assms(2) take_snapshot_tickets by (auto simp: valid_store_def)
qed

lemma js_get_set:
  assumes "is_plain_obj v"
  shows "js_get k (obj_set k2 x v) = (if k = k2 then x else js_get k v)"
  using assms by (auto simp: is_plain_obj_def js_get_def obj_set_def update_conv' split: jsval.splits)

lemma valid_ticket_obj: "validateTicket a t = [] \<Longrightarrow> is_plain_obj t"
  by (simp add: validateTicket_def split: if_splits)

text \<open>The references of a list of tickets.\<close>

definition references :: "jsval list \<Rightarrow> (ident \<times> ident) set" where
  "references ts = {(ticket_id t, j) | t e j. t \<in> set ts \<and> e \<in> set (ticket_edges t) \<and> js_get ''to'' e = VStr j}"

lemma referencesI: "t \<in> set ts \<Longrightarrow> e \<in> set (ticket_edges t) \<Longrightarrow> js_get ''to'' e = VStr j \<Longrightarrow> (ticket_id t, j) \<in> references ts"
  unfolding references_def by blast

definition renaming :: "ident \<Rightarrow> ident \<Rightarrow> ident \<Rightarrow> ident" where
  "renaming i i2 j = (if j = i then i2 else j)"

lemma redirect_edge_to: "js_get ''to'' (redirect_edge i i2 e) = (case js_get ''to'' e of VStr j \<Rightarrow> VStr (renaming i i2 j) | v \<Rightarrow> v)"
proof (cases "js_get ''to'' e = VStr i")
  case True
  then have "is_plain_obj e" by (auto simp: js_get_def is_plain_obj_def split: jsval.splits)
  then show ?thesis using True by (simp add: redirect_edge_def js_get_set renaming_def)
next
  case False
  then show ?thesis by (auto simp: redirect_edge_def renaming_def split: jsval.splits)
qed

lemma redirect_edge_VStr:
  "js_get ''to'' (redirect_edge i i2 e) = VStr k \<longleftrightarrow> (\<exists>j. js_get ''to'' e = VStr j \<and> k = renaming i i2 j)"
  unfolding redirect_edge_to by (cases "js_get ''to'' e") auto

lemma reassigned_ticket:
  assumes "is_plain_obj t"
  shows "ticket_id (redirect_edges i i2 (rename_ticket i i2 t)) = renaming i i2 (ticket_id t)"
    and "ticket_edges (redirect_edges i i2 (rename_ticket i i2 t)) = map (redirect_edge i i2) (ticket_edges t)"
proof -
  let ?u = "rename_ticket i i2 t"
  have u: "is_plain_obj ?u" using assms by (auto simp: rename_ticket_def obj_set_def is_plain_obj_def split: jsval.splits)
  have g: "js_get ''edges'' ?u = js_get ''edges'' t" by (simp add: rename_ticket_def js_get_set assms)
  have i: "ticket_id ?u = renaming i i2 (ticket_id t)"
    by (auto simp: rename_ticket_def renaming_def ticket_id_def js_get_set assms)
  show "ticket_id (redirect_edges i i2 ?u) = renaming i i2 (ticket_id t)"
    using i by (auto simp: redirect_edges_def ticket_id_def js_get_set u split: jsval.splits)
  show "ticket_edges (redirect_edges i i2 ?u) = map (redirect_edge i i2) (ticket_edges t)"
    by (auto simp: redirect_edges_def ticket_edges_def js_get_set u g split: jsval.splits)
qed

text \<open>a reassignment renames the node of its ticket and keeps the graph: the ids after it are the
  renamed ids in the same order, and the references are the images of the references, so that no edge is
  lost and none is left pointing to the old id.\<close>

theorem reassign_renames_graph:
  assumes "planReassign sv planText i i2 authorized d = Inr p" and "load_store sv d = Inr prev"
  shows "map ticket_id (mp_tickets p) = map (renaming i i2) (map ticket_id (sn_tickets prev))
     \<and> references (mp_tickets p) = map_prod (renaming i i2) (renaming i i2) ` references (sn_tickets prev)
     \<and> i2 \<notin> ticket_id ` set (sn_tickets prev) \<and> authorized \<and> mp_evidence p"
proof -
  have au: "authorized" using assms(1) by (simp add: planReassign_def split: if_splits)
  have mk: "make_plan sv planText ''reassign'' (reassign_in i i2) [''identity-change''] True None d = Inr p"
    using assms(1) au by (auto simp: planReassign_def bind_res_eq_Inr)
  obtain prev' dt where l: "load_store sv d = Inr prev'" and r: "reassign_in i i2 prev' = Inr (mp_tickets p, dt)"
    and e: "mp_evidence p = (case dt_evidence dt of None \<Rightarrow> True | Some b \<Rightarrow> b)"
    by (rule make_plan_Inr [OF mk])
  have "prev' = prev" using l assms(2) by simp
  then have r: "reassign_in i i2 prev = Inr (mp_tickets p, dt)" using r by simp
  let ?g = "\<lambda>t. redirect_edges i i2 (rename_ticket i i2 t)"
  have r2: "\<not> list_ex (\<lambda>t. ticket_id t = i2) (sn_tickets prev)"
    "mp_tickets p = map (redirect_edges i i2) (map (rename_ticket i i2) (sn_tickets prev))" "dt_evidence dt = None"
    using r unfolding reassign_in_def if_Inl_Inr by (simp_all add: no_detail_def) auto
  have ts: "mp_tickets p = map ?g (sn_tickets prev)" by (simp add: r2(2) comp_def)
  have new: "i2 \<notin> ticket_id ` set (sn_tickets prev)" using r2(1) by (auto simp: list_ex_iff)
  note dt = r2(3)
  have obj: "is_plain_obj t" if "t \<in> set (sn_tickets prev)" for t
    using load_store_valid [OF assms(2) that] valid_ticket_obj by blast
  have ids: "map ticket_id (mp_tickets p) = map (renaming i i2) (map ticket_id (sn_tickets prev))"
    unfolding ts map_map by (rule map_cong [OF refl]) (use reassigned_ticket(1) [OF obj] in simp)
  have "references (mp_tickets p) = map_prod (renaming i i2) (renaming i i2) ` references (sn_tickets prev)"
  proof (rule set_eqI, rule iffI)
    fix x assume "x \<in> references (mp_tickets p)"
    then obtain t e k where t: "t \<in> set (sn_tickets prev)" and e: "e \<in> set (ticket_edges (?g t))"
      and k: "js_get ''to'' e = VStr k" and x: "x = (ticket_id (?g t), k)"
      unfolding references_def ts by auto
    obtain e0 where e0: "e0 \<in> set (ticket_edges t)" "e = redirect_edge i i2 e0"
      using e unfolding reassigned_ticket(2) [OF obj [OF t]] by auto
    obtain j where j: "js_get ''to'' e0 = VStr j" "k = renaming i i2 j"
      using k unfolding e0(2) redirect_edge_VStr by blast
    have "(ticket_id t, j) \<in> references (sn_tickets prev)" using t e0(1) j(1) unfolding references_def by blast
    then show "x \<in> map_prod (renaming i i2) (renaming i i2) ` references (sn_tickets prev)"
      unfolding x j(2) reassigned_ticket(1) [OF obj [OF t]] by (metis map_prod_imageI)
  next
    fix x assume "x \<in> map_prod (renaming i i2) (renaming i i2) ` references (sn_tickets prev)"
    then obtain t e j where t: "t \<in> set (sn_tickets prev)" "e \<in> set (ticket_edges t)" "js_get ''to'' e = VStr j"
      and x: "x = (renaming i i2 (ticket_id t), renaming i i2 j)"
      unfolding references_def by auto
    have "redirect_edge i i2 e \<in> set (ticket_edges (?g t))"
      unfolding reassigned_ticket(2) [OF obj [OF t(1)]] using t(2) by simp
    moreover have "js_get ''to'' (redirect_edge i i2 e) = VStr (renaming i i2 j)" using t(3) redirect_edge_VStr by blast
    moreover have "?g t \<in> set (mp_tickets p)" unfolding ts using t(1) by simp
    ultimately have "(ticket_id (?g t), renaming i i2 j) \<in> references (mp_tickets p)" by (intro referencesI)
    then show "x \<in> references (mp_tickets p)" by (simp add: x reassigned_ticket(1) [OF obj [OF t(1)]])
  qed
  then show ?thesis using ids new au by (simp add: e dt)
qed

section \<open>What applying a plan does\<close>

lemma stale_snapshot_refused:
  assumes "load_active cx d = Inr s" and "rq_expected rq = Some h" and "sn_hash s \<noteq> h"
  shows "\<exists>e. applyDirectoryTransaction cx verify rq tickets d = (Inl e, d)
     \<and> (validateTickets False True (VArr tickets) = Inr tickets \<longrightarrow> e = StaleSnapshot)"
  using assms
  by (auto simp: applyDirectoryTransaction_def run_transaction_def plan_transaction_def split: sum.splits)

text \<open>C11: plans are applied with optimistic concurrency. A plan made on any disk by any operation and
  applied to a directory store whose tickets have changed since, by their hash, is refused and changes
  nothing, and so is a plan whose public content was altered. When it is applied, the store then loads
  exactly the tickets of the plan, in canonical form and sorted by id.\<close>

theorem plan_applies_or_refuses:
  assumes "make_plan sv planText operation mutate sensitive ev expected d0 = Inr p" and "sv_kind sv = DirectoryKind"
    and "sha_hex (sv_cx sv)" and "disk_ok d" and "clean uuid d" and "transaction_id uuid"
    and "inj_on (file_of (sv_cx sv)) (set (mp_tickets p))" and "reads_back (sv_cx sv) (mp_tickets p)"
  shows "(\<forall>s. load_active (sv_cx sv) d = Inr s \<and> sn_hash s \<noteq> mp_expected p \<longrightarrow>
        apply_plan sv planText uuid p d = (Inl (TxFault StaleSnapshot), d))
     \<and> (\<forall>q. mp_planHash q = mp_planHash p \<and> plan_hash sv planText q \<noteq> plan_hash sv planText p \<longrightarrow>
        apply_plan sv planText uuid q d = (Inl PlanStale, d))
     \<and> (\<forall>after d1. apply_plan sv planText uuid p d = (Inr after, d1) \<longrightarrow>
        load_active (sv_cx sv) d1 = Inr after \<and> sn_tickets after = sort_key ticket_id (map canonical_of (mp_tickets p)))"
proof -
  obtain prev dt where v: "validateTickets False True (VArr (mp_tickets p)) = Inr (mp_tickets p)"
    and h: "hash_tickets (cx_sc (sv_cx sv)) (mp_tickets p) = Inr (mp_after p)"
    and ph: "plan_hash sv planText p = mp_planHash p"
    by (rule make_plan_Inr [OF assms(1)])
  let ?tx = "applyDirectoryTransaction (sv_cx sv) (\<lambda>_. True) (plan_request sv uuid p) (mp_tickets p) d"
  have ap: "apply_plan sv planText uuid p d = apfst (lift_err TxFault) ?tx"
    by (simp add: apply_plan_def ph h assms(2))
  have rq: "rq_id (plan_request sv uuid p) = uuid" "rq_expected (plan_request sv uuid p) = Some (mp_expected p)"
    "aux_fits (sv_cx sv) (plan_request sv uuid p)" by (simp_all add: plan_request_def aux_fits_def)
  have stale: "apply_plan sv planText uuid p d = (Inl (TxFault StaleSnapshot), d)"
    if "load_active (sv_cx sv) d = Inr s" "sn_hash s \<noteq> mp_expected p" for s
    using stale_snapshot_refused [OF that(1) rq(2) that(2), of "\<lambda>_. True" "mp_tickets p"] v
    by (auto simp: ap lift_err_def)
  have altered: "apply_plan sv planText uuid q d = (Inl PlanStale, d)"
    if "mp_planHash q = mp_planHash p" "plan_hash sv planText q \<noteq> plan_hash sv planText p" for q
    using that ph by (simp add: apply_plan_def)
  have ran: "load_active (sv_cx sv) d1 = Inr after \<and> sn_tickets after = sort_key ticket_id (map canonical_of (mp_tickets p))"
    if "apply_plan sv planText uuid p d = (Inr after, d1)" for after d1
  proof -
    have "fst ?tx = Inr after" "snd ?tx = d1"
      using that by (auto simp: ap apfst_def map_prod_def split: prod.splits)
    then have tx: "?tx = (Inr after, d1)" by (simp add: prod_eq_iff)
    have "clean (rq_id (plan_request sv uuid p)) d" "transaction_id (rq_id (plan_request sv uuid p))"
      using assms(5,6) by (simp_all add: rq(1))
    from transaction_stores [OF assms(3,4) this rq(3) assms(7,8) tx] show ?thesis by blast
  qed
  show ?thesis using stale altered ran by blast
qed

section \<open>Instances\<close>

definition ex_service :: service where
  "ex_service = \<lparr>sv_cx = ex_context, sv_kind = DirectoryKind, sv_protected = [], sv_key = Some ''k'', sv_allowUnsigned = False,
     sv_manifests = [], sv_files = None\<rparr>"

definition ex_text :: "mutation_plan \<Rightarrow> string" where
  "ex_text p = mp_operation p"

definition ex_changed :: jsval where
  "ex_changed = VObj [(''id'', VStr ''a''), (''title'', VStr ''u''), (''rails'', VArr [VStr ''lib/**''])]"

definition ex_update :: mutation_plan where
  "ex_update = projr (planUpdate ex_service ex_text ''a'' ex_changed None False ex_disk)"

definition ex_reassign :: mutation_plan where
  "ex_reassign = projr (planReassign ex_service ex_text ''a'' ''b'' True ex_disk)"

definition ex_new :: mutation_plan where
  "ex_new = projr (planCreate ex_service ex_text [] ex_ticket ex_empty)"

lemma ex_loaded: "load_store ex_service ex_disk = Inr (projr (load_store ex_service ex_disk))"
proof -
  have "\<not> isl (load_store ex_service ex_disk)" by code_simp
  then show ?thesis by simp
qed

theorem update_keeps_contract_witness:
  "mp_tickets ex_update = [ex_changed] \<and> keeps_contract ex_ticket ex_changed"
proof -
  have "\<not> isl (planUpdate ex_service ex_text ''a'' ex_changed None False ex_disk)" by code_simp
  then have p: "planUpdate ex_service ex_text ''a'' ex_changed None False ex_disk = Inr ex_update"
    by (simp add: ex_update_def)
  have one: "sn_tickets (projr (load_store ex_service ex_disk)) = [ex_ticket]" by code_simp
  show ?thesis using update_keeps_contract [OF p ex_loaded] unfolding one by (auto simp: Cons_eq_append_conv)
qed

theorem reassign_renames_graph_witness:
  "map ticket_id (mp_tickets ex_reassign) = [''b'']"
proof -
  have "\<not> isl (planReassign ex_service ex_text ''a'' ''b'' True ex_disk)" by code_simp
  then have p: "planReassign ex_service ex_text ''a'' ''b'' True ex_disk = Inr ex_reassign"
    by (simp add: ex_reassign_def)
  have one: "map (renaming ''a'' ''b'') (map ticket_id (sn_tickets (projr (load_store ex_service ex_disk)))) = [''b'']" by code_simp
  show ?thesis using reassign_renames_graph [OF p ex_loaded] one by simp
qed

theorem plan_applies_or_refuses_witness:
  "fst (apply_plan ex_service ex_text (rq_id ex_request) ex_new ex_disk) = Inl (TxFault StaleSnapshot)"
proof -
  have "\<not> isl (planCreate ex_service ex_text [] ex_ticket ex_empty)" by code_simp
  then have "planCreate ex_service ex_text [] ex_ticket ex_empty = Inr ex_new" by (simp add: ex_new_def)
  then have p: "make_plan ex_service ex_text ''create'' (create_in (with_id [] ex_ticket)) [] False None ex_empty = Inr ex_new"
    by (auto simp: planCreate_def Let_def bind_res_eq_Inr)
  have k: "sv_kind ex_service = DirectoryKind" and cx: "sv_cx ex_service = ex_context" by (simp_all add: ex_service_def)
  have ts: "mp_tickets ex_new = [ex_ticket]" by code_simp
  have inj: "inj_on (file_of (sv_cx ex_service)) (set (mp_tickets ex_new))" by (simp add: ts)
  have "sc_parse (cx_sc ex_context) (ticket_text ex_context ex_ticket) = Some (canonical_of ex_ticket)" by code_simp
  then have rb: "reads_back (sv_cx ex_service) (mp_tickets ex_new)" by (simp add: reads_back_def ts cx)
  have "sn_hash (projr (load_store ex_service ex_disk)) \<noteq> mp_expected ex_new" by code_simp
  moreover have "load_active (sv_cx ex_service) ex_disk = Inr (projr (load_store ex_service ex_disk))"
    using ex_loaded by (simp add: load_store_def k)
  ultimately have "apply_plan ex_service ex_text (rq_id ex_request) ex_new ex_disk = (Inl (TxFault StaleSnapshot), ex_disk)"
    using plan_applies_or_refuses [OF p k _ ex_hyps(2,3,4) inj rb] ex_hyps(1) by (simp add: cx)
  then show ?thesis by simp
qed

end
