(* ===== verification/TicketArchive.thy ===== *)
theory TicketArchive
  imports TicketService
begin

text \<open>
  Archive and restore (\<^verbatim>\<open>packages/tickets/lib/archive.mjs\<close>) undo each other: what restoring an archived
  ticket leaves in the active store and in the archive.
\<close>

section \<open>Canonical tickets\<close>

lemma map_res_filter:
  assumes "map_res g xs = Inr ys" and "\<And>x y. g x = Inr y \<Longrightarrow> Q y = P x"
  shows "map_res g (filter P xs) = Inr (filter Q ys)"
  using assms(1)
proof (induction xs arbitrary: ys)
  case (Cons x xs)
  obtain y zs where y: "g x = Inr y" and zs: "map_res g xs = Inr zs" and ys: "ys = y # zs"
    using Cons.prems by (auto simp: bind_res_eq_Inr)
  show ?case using Cons.IH [OF zs] assms(2) [OF y] y by (simp add: ys)
qed simp

text \<open>Removing a key that was added gives back the canonical form.\<close>

lemma normalize_delete_set:
  assumes "normalize (obj_set k x (VObj kvs)) = Inr n" and "k \<notin> fst ` set kvs"
  shows "normalize (VObj kvs) = Inr (obj_delete k n)"
proof -
  let ?g = "\<lambda>kv. bind_res (normalize (snd kv)) (\<lambda>v. Inr (fst kv, v))"
  have up: "AList.update k x kvs = kvs @ [(k, x)]"
    using assms(2) by (induction kvs) auto
  obtain out where out: "map_res ?g (sort_key fst (kvs @ [(k, x)])) = Inr out" and n: "n = VObj out"
    using assms(1) by (auto simp: obj_set_def up bind_res_eq_Inr)
  have keep: "filter (\<lambda>kv. fst kv \<noteq> k) kvs = kvs" using assms(2) by (auto simp: filter_id_conv)
  have "filter (\<lambda>kv. fst kv \<noteq> k) (sort_key fst (kvs @ [(k, x)])) = sort_key fst (filter (\<lambda>kv. fst kv \<noteq> k) (kvs @ [(k, x)]))"
    by (rule filter_sort)
  also have "\<dots> = sort_key fst kvs" using keep by simp
  finally have s: "filter (\<lambda>kv. fst kv \<noteq> k) (sort_key fst (kvs @ [(k, x)])) = sort_key fst kvs" .
  have "map_res ?g (filter (\<lambda>kv. fst kv \<noteq> k) (sort_key fst (kvs @ [(k, x)]))) = Inr (filter (\<lambda>kv. fst kv \<noteq> k) out)"
    by (rule map_res_filter [OF out]) (auto simp: bind_res_eq_Inr)
  then show ?thesis by (simp add: s n obj_delete_def)
qed

lemma same_json_str: "same_json a b \<Longrightarrow> js_get k a = VStr s \<Longrightarrow> js_get k b = VStr s"
proof (induction rule: same_json.cases)
  case (same_obj kvs kvs')
  then obtain v where v: "map_of kvs k = Some v" "v = VStr s" by (auto simp: js_get_def split: option.splits)
  then obtain v' where v': "map_of kvs' k = Some v'" using same_obj(3) by (metis domI domD)
  have "same_json v v'" using same_obj(4) v(1) v' by blast
  then have "v' = VStr s" using v(2) by (auto elim: same_json.cases)
  then show ?case using v' same_obj(2) by (simp add: js_get_def)
qed (auto simp: js_get_def)

lemma canonical_ticket:
  assumes "wf_js t" and "normalize t = Inr n"
  shows "canonical_of t = n" and "canonical_of (canonical_of t) = canonical_of t"
    and "ticket_text cx (canonical_of t) = ticket_text cx t"
    and "js_get ''id'' t = VStr i \<Longrightarrow> ticket_id (canonical_of t) = ticket_id t"
proof -
  show c: "canonical_of t = n" by (simp add: canonical_of_def assms(2))
  have n: "normalize n = Inr n" by (rule normalize_idem [OF assms])
  show "canonical_of (canonical_of t) = canonical_of t" unfolding c by (simp add: canonical_of_def n)
  show "ticket_text cx (canonical_of t) = ticket_text cx t" unfolding c by (simp add: ticket_text_def n assms(2))
  show "ticket_id (canonical_of t) = ticket_id t" if "js_get ''id'' t = VStr i"
    using same_json_str [OF same_json_normalize_self [OF assms] that] that unfolding c by (simp add: ticket_id_def)
qed

section \<open>Archiving\<close>

lemma apply_tx_plan:
  assumes "applyDirectoryTransaction cx verify rq tickets d = (Inr after, d1)"
  obtains pl where "plan_transaction cx (load_active cx) (directory_planner cx rq tickets d) rq tickets d = Inr pl"
    and "finish_transaction (load_active cx) verify rq pl (perform_all (tx_acts pl) d) = (Inr after, d1)"
  using assms by (auto simp: applyDirectoryTransaction_def run_transaction_def split: sum.splits)

lemma finish_verified:
  assumes "finish_transaction loader verify rq pl d = (Inr after, d')"
  shows "verify d"
  using assms by (auto simp: finish_transaction_def split: sum.splits if_splits)

text \<open>A written auxiliary file holds its content.\<close>

lemma aux_written:
  assumes run: "applyDirectoryTransaction cx verify rq tickets d = (Inr after, d1)"
    and ok: "disk_ok d" and cl: "clean (rq_id rq) d" and tid: "transaction_id (rq_id rq)"
    and aux: "aux_fits cx rq" and sha: "sha_hex cx" and a: "rq_aux rq = [a]" "ax_action a = WriteOp"
  shows "look d1 (Archived, ax_name a) = Some (File (ax_content a))"
proof -
  obtain pl where plan: "plan_transaction cx (load_active cx) (directory_planner cx rq tickets d) rq tickets d = Inr pl"
    and fin: "finish_transaction (load_active cx) verify rq pl (perform_all (tx_acts pl) d) = (Inr after, d1)"
    by (rule apply_tx_plan [OF run])
  obtain ws axs where axs: "map_res (plan_aux cx d) (enumerate 0 (rq_aux rq)) = Inr axs"
    and ops: "pl_planned pl = (ws @ map (plan_delete cx d) (delete_names cx tickets (pl_before pl))) @ axs"
    using directory_planner_Inr [OF plan_transaction_Inr(2) [OF plan]] by metis
  obtain q where q: "plan_aux cx d (0, a) = Inr q" "axs = [q]" using axs by (auto simp: a bind_res_eq_Inr)
  have "snd q = Some (ax_content a)" using q(1) a(2) by (auto simp: plan_aux_def Let_def split: if_splits)
  moreover have "target (fst q) = (Archived, ax_name a)" using plan_aux_ok(2,3) [OF q(1)] by (simp add: target_def)
  moreover have "q \<in> set (pl_planned pl)" by (simp add: ops q(2))
  ultimately have "look (perform_all (tx_acts pl) d) (Archived, ax_name a) = Some (File (ax_content a))"
    using tx_files(1) [OF plan ok cl tid aux sha, of q] by simp
  then show ?thesis using finish_Inr(3) [OF fin] by (simp add: look_def)
qed

text \<open>The disk that \<open>ensureArchive\<close> leaves differs in the archive only, and is in order.\<close>

lemma ensureArchive_disk:
  assumes "ensureArchive cx d = (r, d')" and "disk_ok d" and "clean u d" and "transaction_id u"
  shows "disk_ok d'" and "clean u d'" and "dk_dir d' Active = dk_dir d Active"
proof -
  let ?s = "sc_pretty (cx_sc cx) (projr (normalize (store_manifest True)))"
  have d': "d' = d \<or> d' = put_file Archived ''.store.json'' ?s d"
    using assms(1) by (auto simp: ensureArchive_def Let_def split: if_splits)
  show "disk_ok d'" using d' assms(2) disk_ok_put by blast
  have n: "\<not> ends_with ''.store.json'' u" by (rule json_not_id [OF _ assms(4)]) (simp add: ends_with_def)
  show "clean u d'" using d' assms(3) n by (auto simp: clean_def look_put [OF assms(2)])
  show "dk_dir d' Active = dk_dir d Active" using d' by (auto simp: put_file_def)
qed

definition archive_verify :: "tx_context \<Rightarrow> string \<Rightarrow> disk \<Rightarrow> bool" where
  "archive_verify cx i d = (case load_archive cx d of Inl _ \<Rightarrow> False | Inr s \<Rightarrow> list_ex (\<lambda>u. ticket_id u = i) (sn_tickets s))"

definition archive_aux :: "tx_context \<Rightarrow> string \<Rightarrow> jsval \<Rightarrow> aux_request" where
  "archive_aux cx i archived = \<lparr>ax_action = WriteOp, ax_name = archive_file cx i, ax_content = ticket_text cx archived,
     ax_mustBeAbsent = True, ax_mustExist = False, ax_expectedBefore = None\<rparr>"

lemma archiveTicket_Inr:
  assumes "archiveTicket sv u now reason revision i expected authorized d = (Inr (s, archived), d1)"
  obtains active t d' h where "load_active (sv_cx sv) d = Inr active" and "find (\<lambda>t. ticket_id t = i) (sn_tickets active) = Some t"
    and "ensureArchive (sv_cx sv) d = (Inr (), d')"
    and "ticketHash (sc_sha (cx_sc (sv_cx sv))) (sc_stringify (cx_sc (sv_cx sv))) t = Inr h"
    and "archived = obj_set ''_adlcArchive'' (archive_metadata now reason h (sn_hash active) revision) t"
    and "applyDirectoryTransaction (sv_cx sv) (archive_verify (sv_cx sv) i)
       (archive_request sv u ''archive'' (sn_hash active) i (archive_aux (sv_cx sv) i archived))
       (filter (\<lambda>u. ticket_id u \<noteq> i) (sn_tickets active)) d' = (Inr s, d1)"
proof -
  have au: authorized using assms by (simp add: archiveTicket_def split: if_splits)
  obtain active where l: "load_active (sv_cx sv) d = Inr active"
    using assms by (cases "load_active (sv_cx sv) d") (simp_all add: archiveTicket_def au)
  have e: "\<not> (given expected \<and> expected \<noteq> Some (sn_hash active))"
  proof
    assume "given expected \<and> expected \<noteq> Some (sn_hash active)"
    then show False using assms by (simp add: archiveTicket_def au l)
  qed
  obtain b where sg: "assertSignableTrustRootWrite (sv_cx sv) d (sn_tickets active) (sv_key sv) (sv_allowUnsigned sv) = Inr b"
    using assms by (cases "assertSignableTrustRootWrite (sv_cx sv) d (sn_tickets active) (sv_key sv) (sv_allowUnsigned sv)")
      (simp_all add: archiveTicket_def au l if_not_P [OF e])
  obtain t where t: "find (\<lambda>t. ticket_id t = i) (sn_tickets active) = Some t"
    using assms by (cases "find (\<lambda>t. ticket_id t = i) (sn_tickets active)")
      (simp_all add: archiveTicket_def au l if_not_P [OF e] sg)
  have ib: "filter (\<lambda>u. ticket_id u \<noteq> i \<and> points_to i u) (sn_tickets active) = []"
    using assms by (cases "filter (\<lambda>u. ticket_id u \<noteq> i \<and> points_to i u) (sn_tickets active) = []")
      (simp_all only: archiveTicket_def au l if_not_P [OF e] sg t sum.case option.case Let_def not_True_eq_False if_True if_False
        prod.inject sum.distinct simp_thms)
  obtain r d' where ea: "ensureArchive (sv_cx sv) d = (r, d')" by fastforce
  have r: "r = Inr ()"
    using assms by (cases r) (simp_all add: archiveTicket_def au l if_not_P [OF e] sg t ib Let_def ea)
  have nl: "look d' (Archived, archive_file (sv_cx sv) i) = None"
    using assms by (cases "look d' (Archived, archive_file (sv_cx sv) i)")
      (simp_all add: archiveTicket_def au l if_not_P [OF e] sg t ib Let_def ea r)
  obtain h where h: "ticketHash (sc_sha (cx_sc (sv_cx sv))) (sc_stringify (cx_sc (sv_cx sv))) t = Inr h"
    using assms by (cases "ticketHash (sc_sha (cx_sc (sv_cx sv))) (sc_stringify (cx_sc (sv_cx sv))) t")
      (simp_all add: archiveTicket_def au l if_not_P [OF e] sg t ib Let_def ea r nl)
  let ?a = "obj_set ''_adlcArchive'' (archive_metadata now reason h (sn_hash active) revision) t"
  let ?r = "applyDirectoryTransaction (sv_cx sv) (archive_verify (sv_cx sv) i)
       (archive_request sv u ''archive'' (sn_hash active) i (archive_aux (sv_cx sv) i ?a))
       (filter (\<lambda>u. ticket_id u \<noteq> i) (sn_tickets active)) d'"
  have f: "archiveTicket sv u now reason revision i expected authorized d
      = (case fst ?r of Inl e \<Rightarrow> Inl (TxFault e) | Inr s \<Rightarrow> Inr (s, ?a), snd ?r)"
    by (simp only: archiveTicket_def au l if_not_P [OF e] sg t ib Let_def ea r nl h sum.case option.case prod.case
        archive_aux_def archive_verify_def [abs_def] not_True_eq_False if_False simp_thms)
  have "?r = (Inr s, d1) \<and> archived = ?a"
    using assms unfolding f by (cases "fst ?r") (auto simp: prod_eq_iff)
  then show ?thesis using that [OF l t ea [unfolded r] h] by blast
qed

definition restore_aux :: "tx_context \<Rightarrow> string \<Rightarrow> string \<Rightarrow> aux_request" where
  "restore_aux cx i s = \<lparr>ax_action = DeleteOp, ax_name = archive_file cx i, ax_content = [], ax_mustBeAbsent = False,
     ax_mustExist = True, ax_expectedBefore = Some (sc_sha (cx_sc cx) s)\<rparr>"

lemma restoreTicket_Inr:
  assumes "restoreTicket sv u i expected authorized d = (Inr (s, t), d2)"
  obtains active tx archived where "load_active (sv_cx sv) d = Inr active" and "\<not> list_ex (\<lambda>t. ticket_id t = i) (sn_tickets active)"
    and "file_text d Archived (archive_file (sv_cx sv) i) = Some tx" and "sc_parse (cx_sc (sv_cx sv)) tx = Some archived"
    and "t = obj_delete ''_adlcArchive'' archived"
    and "applyDirectoryTransaction (sv_cx sv) (\<lambda>d. look d (Archived, archive_file (sv_cx sv) i) = None)
       (archive_request sv u ''restore'' (sn_hash active) i (restore_aux (sv_cx sv) i tx)) (sn_tickets active @ [t]) d = (Inr s, d2)"
proof -
  have au: authorized using assms by (simp add: restoreTicket_def split: if_splits)
  obtain active where l: "load_active (sv_cx sv) d = Inr active"
    using assms by (cases "load_active (sv_cx sv) d") (simp_all add: restoreTicket_def au)
  have e: "\<not> (given expected \<and> expected \<noteq> Some (sn_hash active))"
  proof
    assume "given expected \<and> expected \<noteq> Some (sn_hash active)"
    then show False using assms by (simp add: restoreTicket_def au l)
  qed
  have n: "\<not> list_ex (\<lambda>t. ticket_id t = i) (sn_tickets active)"
  proof
    assume "list_ex (\<lambda>t. ticket_id t = i) (sn_tickets active)"
    then show False using assms by (simp add: restoreTicket_def au l if_not_P [OF e])
  qed
  obtain sa where la: "load_archive (sv_cx sv) d = Inr sa"
    using assms by (cases "load_archive (sv_cx sv) d") (simp_all add: restoreTicket_def au l if_not_P [OF e] n)
  obtain tx where tx: "file_text d Archived (archive_file (sv_cx sv) i) = Some tx"
    using assms by (cases "file_text d Archived (archive_file (sv_cx sv) i)")
      (simp_all add: restoreTicket_def au l if_not_P [OF e] n la)
  obtain ar where ar: "sc_parse (cx_sc (sv_cx sv)) tx = Some ar"
    using assms by (cases "sc_parse (cx_sc (sv_cx sv)) tx") (simp_all add: restoreTicket_def au l if_not_P [OF e] n la tx)
  let ?t = "obj_delete ''_adlcArchive'' ar" and ?m = "js_get ''_adlcArchive'' ar"
  let ?h = "if falsy ?m then Inr [] else ticketHash (sc_sha (cx_sc (sv_cx sv))) (sc_stringify (cx_sc (sv_cx sv))) ?t"
  obtain h where h: "?h = Inr h"
    using assms by (cases ?h) (simp_all only: restoreTicket_def au l if_not_P [OF e] n la tx ar sum.case option.case Let_def
        not_True_eq_False if_False prod.inject sum.distinct simp_thms)
  have m: "\<not> (falsy ?m \<or> js_get ''ticketHash'' ?m \<noteq> VStr h)"
  proof
    assume c: "falsy ?m \<or> js_get ''ticketHash'' ?m \<noteq> VStr h"
    show False using assms by (simp only: restoreTicket_def au l if_not_P [OF e] n la tx ar sum.case option.case Let_def h if_P [OF c]
        not_True_eq_False if_False prod.inject sum.distinct simp_thms)
  qed
  let ?r = "applyDirectoryTransaction (sv_cx sv) (\<lambda>d. look d (Archived, archive_file (sv_cx sv) i) = None)
       (archive_request sv u ''restore'' (sn_hash active) i (restore_aux (sv_cx sv) i tx)) (sn_tickets active @ [?t]) d"
  have f: "restoreTicket sv u i expected authorized d = (case fst ?r of Inl e \<Rightarrow> Inl (TxFault e) | Inr s \<Rightarrow> Inr (s, ?t), snd ?r)"
    by (simp only: restoreTicket_def au l if_not_P [OF e] n la tx ar sum.case option.case Let_def h if_not_P [OF m] restore_aux_def
        not_True_eq_False if_False simp_thms)
  have "?r = (Inr s, d2) \<and> t = ?t"
    using assms unfolding f by (cases "fst ?r") (auto simp: prod_eq_iff)
  then show ?thesis using that [OF l n tx ar] by blast
qed

section \<open>The round trip\<close>

lemma archive_request_fits:
  "aux_fits (sv_cx sv) (archive_request sv u ''archive'' h i (archive_aux (sv_cx sv) i x))"
  "aux_fits (sv_cx sv) (archive_request sv u ''restore'' h i (restore_aux (sv_cx sv) i y))"
  "rq_id (archive_request sv u operation h i a) = u" "rq_aux (archive_request sv u operation h i a) = [a]"
  by (simp_all add: aux_fits_def archive_request_def archive_aux_def restore_aux_def archive_file_def expected_action_def)

text \<open>The tickets of a loaded store as JSON values that can be written and read back.\<close>

definition storable :: "tx_context \<Rightarrow> jsval list \<Rightarrow> bool" where
  "storable cx ts \<longleftrightarrow> (\<forall>t\<in>set ts. wf_js t \<and> (\<exists>n. normalize t = Inr n)) \<and> inj_on (file_of cx) (set ts) \<and> reads_back cx ts"

lemma canonical_storable:
  assumes st: "storable cx ts" and ids: "\<forall>t\<in>set ts. js_get ''id'' t = VStr (ticket_id t)"
  shows "canonical_of ` canonical_of ` set ts = canonical_of ` set ts"
    and "inj_on (file_of cx) (canonical_of ` set ts)" and "set us = canonical_of ` set ts \<Longrightarrow> reads_back cx us"
    and "t \<in> set ts \<Longrightarrow> ticket_id (canonical_of t) = ticket_id t"
proof -
  have c: "canonical_of (canonical_of t) = canonical_of t \<and> ticket_text cx (canonical_of t) = ticket_text cx t
      \<and> ticket_id (canonical_of t) = ticket_id t" if t: "t \<in> set ts" for t
  proof -
    obtain n where n: "wf_js t" "normalize t = Inr n" using st t by (auto simp: storable_def)
    note cn = canonical_ticket [OF n]
    show ?thesis using cn(2) cn(3) [of cx] cn(4) [OF bspec [OF ids t]] by blast
  qed
  show "canonical_of ` canonical_of ` set ts = canonical_of ` set ts"
    unfolding image_image by (rule image_cong [OF refl]) (use c in blast)
  show "inj_on (file_of cx) (canonical_of ` set ts)"
  proof (rule inj_onI)
    fix x y assume "x \<in> canonical_of ` set ts" "y \<in> canonical_of ` set ts" and f: "file_of cx x = file_of cx y"
    then obtain t v where tv: "t \<in> set ts" "v \<in> set ts" "x = canonical_of t" "y = canonical_of v" by blast
    have "file_of cx t = file_of cx v" using f c [OF tv(1)] c [OF tv(2)] by (simp add: tv(3,4))
    then show "x = y" using st tv by (auto simp: storable_def inj_on_def)
  qed
  show "reads_back cx us" if "set us = canonical_of ` set ts"
    using that st c by (auto simp: reads_back_def storable_def)
  show "t \<in> set ts \<Longrightarrow> ticket_id (canonical_of t) = ticket_id t" using c by blast
qed

lemma storable_subset: "storable cx ts \<Longrightarrow> set us \<subseteq> set ts \<Longrightarrow> inj_on (file_of cx) (set us) \<and> reads_back cx us"
  by (auto simp: storable_def reads_back_def intro: inj_on_subset)

lemma distinct_sort_map: "distinct (map f (sort_key f xs)) \<longleftrightarrow> distinct (map f xs)"
  by (simp add: distinct_map)

lemma load_active_wf:
  assumes l: "load_active cx d = Inr s"
  shows "t \<in> set (sn_tickets s) \<Longrightarrow> validateTicket False t = []" and "distinct (map ticket_id (sn_tickets s))"
proof -
  obtain ts where ts: "map_res (load_shard (cx_sc cx) (cx_nfkd cx)) (filter (\<lambda>e. fst e \<noteq> ''.store.json'') (dk_dir d Active)) = Inr ts"
    by (rule load_active_shards [OF l])
  note v = load_active_valid [OF l ts]
  have s: "sn_tickets s = sort_key ticket_id ts" using v(2) by (auto simp: take_snapshot_def Let_def bind_res_eq_Inr)
  show "validateTicket False t = []" if "t \<in> set (sn_tickets s)" using v(1) that by (simp add: s valid_store_def)
  show "distinct (map ticket_id (sn_tickets s))"
    using v(1) by (simp add: s valid_store_def distinct_map)
qed

lemma restored_ticket:
  assumes v: "validateTicket False t = []" and wf: "wf_js t" "normalize t = Inr n"
    and m: "normalize (obj_set ''_adlcArchive'' x t) = Inr nm"
  shows "obj_delete ''_adlcArchive'' (canonical_of (obj_set ''_adlcArchive'' x t)) = canonical_of t"
proof -
  obtain kvs where t: "t = VObj kvs" using valid_ticket_obj [OF v] by (auto simp: is_plain_obj_def split: jsval.splits)
  have "\<not> js_has_own ''_adlcArchive'' t" using v by (auto simp: validateTicket_def split: if_splits)
  then have "''_adlcArchive'' \<notin> fst ` set kvs" by (simp add: js_has_own_def t)
  from normalize_delete_set [OF m [unfolded t] this] show ?thesis
    using wf(2) m by (simp add: canonical_of_def t)
qed

text \<open>C13: restoring undoes archiving. When a ticket is archived and then restored, by transactions that
  succeed, the active store holds what it held before, in canonical form, the archive no longer has the
  ticket, and in between the active store held exactly the other tickets and the archive the ticket.\<close>

theorem restore_undoes_archive:
  assumes sha: "sha_hex (sv_cx sv)" and ok: "disk_ok d" and u1: "clean u1 d" "transaction_id u1"
    and u2: "clean u2 d1" "transaction_id u2" "disk_ok d1"
    and load: "load_active (sv_cx sv) d = Inr active" and st: "storable (sv_cx sv) (sn_tickets active)"
    and rb: "reads_back (sv_cx sv) [archived]" "\<exists>n. normalize archived = Inr n"
    and arch: "archiveTicket sv u1 now reason revision i e1 authorized d = (Inr (s1, archived), d1)"
    and rest: "restoreTicket sv u2 i e2 authorized2 d1 = (Inr (s2, t2), d2)"
  shows "sn_tickets s1 = sort_key ticket_id (map canonical_of (filter (\<lambda>t. ticket_id t \<noteq> i) (sn_tickets active)))
     \<and> look d1 (Archived, archive_file (sv_cx sv) i) = Some (File (ticket_text (sv_cx sv) archived))
     \<and> sn_tickets s2 = sort_key ticket_id (map canonical_of (sn_tickets active))
     \<and> look d2 (Archived, archive_file (sv_cx sv) i) = None"
proof -
  let ?cx = "sv_cx sv" and ?ts = "sn_tickets active"
  let ?others = "filter (\<lambda>t. ticket_id t \<noteq> i) ?ts"
  obtain active' t d' h where l: "load_active ?cx d = Inr active'" and f: "find (\<lambda>t. ticket_id t = i) (sn_tickets active') = Some t"
    and ea: "ensureArchive ?cx d = (Inr (), d')"
    and ar: "archived = obj_set ''_adlcArchive'' (archive_metadata now reason h (sn_hash active') revision) t"
    and run1: "applyDirectoryTransaction ?cx (archive_verify ?cx i)
       (archive_request sv u1 ''archive'' (sn_hash active') i (archive_aux ?cx i archived))
       (filter (\<lambda>u. ticket_id u \<noteq> i) (sn_tickets active')) d' = (Inr s1, d1)"
    by (rule archiveTicket_Inr [OF arch])
  have a: "active' = active" using l load by simp
  have t: "t \<in> set ?ts" "ticket_id t = i" using find_first [OF f] by (auto simp: a)
  note ens = ensureArchive_disk [OF ea ok u1]
  note wf = load_active_wf [OF load]
  have ids: "\<forall>t\<in>set ?ts. js_get ''id'' t = VStr (ticket_id t)" using wf(1) validateTicket_id by blast
  note can = canonical_storable [OF st ids]
  have oth: "inj_on (file_of ?cx) (set ?others) \<and> reads_back ?cx ?others" by (rule storable_subset [OF st]) auto
  note run1 = run1 [unfolded a]
  let ?r1 = "archive_request sv u1 ''archive'' (sn_hash active) i (archive_aux ?cx i archived)"
  have cl1: "clean (rq_id ?r1) d'" "transaction_id (rq_id ?r1)" using ens(2) u1(2) by (simp_all add: archive_request_fits(3))
  note tx1 = transaction_stores [OF sha ens(1) cl1 archive_request_fits(1) conjunct1 [OF oth] conjunct2 [OF oth] run1]
  have s1: "sn_tickets s1 = sort_key ticket_id (map canonical_of ?others)" using tx1 by blast
  have "look d1 (Archived, ax_name (archive_aux ?cx i archived)) = Some (File (ax_content (archive_aux ?cx i archived)))"
    by (rule aux_written [OF run1 ens(1) cl1 archive_request_fits(1) sha archive_request_fits(4)]) (simp add: archive_aux_def)
  then have filed: "look d1 (Archived, archive_file ?cx i) = Some (File (ticket_text ?cx archived))" by (simp add: archive_aux_def)
  obtain active2 tx ar2 where l2: "load_active ?cx d1 = Inr active2"
    and tx: "file_text d1 Archived (archive_file ?cx i) = Some tx" and p: "sc_parse (cx_sc ?cx) tx = Some ar2"
    and t2: "t2 = obj_delete ''_adlcArchive'' ar2"
    and run2: "applyDirectoryTransaction ?cx (\<lambda>d. look d (Archived, archive_file ?cx i) = None)
       (archive_request sv u2 ''restore'' (sn_hash active2) i (restore_aux ?cx i tx)) (sn_tickets active2 @ [t2]) d1 = (Inr s2, d2)"
    by (rule restoreTicket_Inr [OF rest])
  have a2: "active2 = s1" using l2 tx1 by simp
  have "tx = ticket_text ?cx archived" using tx filed by (simp add: file_text_Some)
  then have ar2: "ar2 = canonical_of archived" using p rb(1) by (simp add: reads_back_def)
  obtain n where n: "wf_js t" "normalize t = Inr n" using st t(1) by (auto simp: storable_def)
  obtain nm where nm: "normalize archived = Inr nm" using rb(2) by blast
  have t2c: "t2 = canonical_of t" using restored_ticket [OF wf(1) [OF t(1)] n nm [unfolded ar]] by (simp add: t2 ar2 ar)
  have inj: "inj_on ticket_id (set ?ts)" using wf(2) by (simp add: distinct_map)
  have split: "set ?ts = insert t (set ?others)"
  proof (rule set_eqI)
    fix u
    show "u \<in> set ?ts \<longleftrightarrow> u \<in> insert t (set ?others)"
    proof (cases "ticket_id u = i")
      case True
      then have "u \<in> set ?ts \<longleftrightarrow> u = t" using t inj_onD [OF inj _ _ t(1), of u] by auto
      then show ?thesis by (simp add: True)
    next
      case False
      then have "u \<noteq> t" using t(2) by blast
      then show ?thesis by (simp add: False)
    qed
  qed
  have set2: "set (sn_tickets active2 @ [t2]) = canonical_of ` set ?ts"
  proof -
    have "set (sn_tickets active2 @ [t2]) = insert (canonical_of t) (canonical_of ` set ?others)" by (simp add: a2 s1 t2c)
    then show ?thesis using arg_cong [OF split, of "image canonical_of"] by (simp only: image_insert)
  qed
  have inj2: "inj_on (file_of ?cx) (set (sn_tickets active2 @ [t2]))" and rb2: "reads_back ?cx (sn_tickets active2 @ [t2])"
    using can(2) can(3) [OF set2] unfolding set2 by simp_all
  let ?r2 = "archive_request sv u2 ''restore'' (sn_hash active2) i (restore_aux ?cx i tx)"
  have cl2: "clean (rq_id ?r2) d1" "transaction_id (rq_id ?r2)" using u2 by (simp_all add: archive_request_fits(3))
  have s2: "sn_tickets s2 = sort_key ticket_id (map canonical_of (sn_tickets active2 @ [t2]))"
    using transaction_stores [OF sha u2(3) cl2 archive_request_fits(2) inj2 rb2 run2] by blast
  have load2: "load_active ?cx d2 = Inr s2"
    using transaction_stores [OF sha u2(3) cl2 archive_request_fits(2) inj2 rb2 run2] by blast
  have idc: "map ticket_id (map canonical_of ?ts) = map ticket_id ?ts"
    unfolding map_map by (rule map_cong [OF refl]) (use can(4) in simp)
  have d1: "distinct (map ticket_id (map canonical_of (sn_tickets active2 @ [t2])))" using load_active_wf(2) [OF load2] unfolding s2 distinct_sort_map .
  have "sn_tickets s2 = sort_key ticket_id (map canonical_of ?ts)" unfolding s2
    by (rule sort_key_unique [OF d1]) (simp_all only: idc wf(2) set_map set2 can(1))
  moreover have "look d2 (Archived, archive_file ?cx i) = None"
  proof -
    obtain pl where fin: "finish_transaction (load_active ?cx) (\<lambda>d. look d (Archived, archive_file ?cx i) = None) ?r2 pl
        (perform_all (tx_acts pl) d1) = (Inr s2, d2)"
      by (rule apply_tx_plan [OF run2])
    show ?thesis using finish_verified [OF fin] finish_Inr(3) [OF fin] by (simp add: look_def)
  qed
  ultimately show ?thesis using s1 filed by blast
qed

definition ex_archived :: jsval where
  "ex_archived = obj_set ''_adlcArchive'' (archive_metadata ''now'' ''done'' (replicate 64 CHR ''1'') (replicate 64 CHR ''1'') VNull) ex_ticket"

definition ex_archive_codec :: store_codec where
  "ex_archive_codec = ex_codec\<lparr>
     sc_parse := (\<lambda>s. if s = ''M'' then Some (store_manifest False) else if s = ''A'' then Some (store_manifest True)
       else if s = ''T'' then Some ex_ticket else if s = ''R'' then Some (canonical_of ex_archived) else None),
     sc_pretty := (\<lambda>v. if js_get ''_adlcArchive'' v \<noteq> VUndefined then ''R'' else if js_get ''format'' v \<noteq> VUndefined then ''A'' else ''T'')\<rparr>"

definition ex_archive_service :: service where
  "ex_archive_service = ex_service\<lparr>sv_cx := ex_context\<lparr>cx_sc := ex_archive_codec\<rparr>\<rparr>"

definition ex_archive_run :: "(service_error + snapshot \<times> jsval) \<times> disk" where
  "ex_archive_run = archiveTicket ex_archive_service (rq_id ex_request) ''now'' ''done'' VNull ''a'' None True ex_disk"

definition ex_restore_id :: string where
  "ex_restore_id = ''0a0b0c0d-0000-4000-8000-00000000ef01''"

definition ex_restore_run :: "(service_error + snapshot \<times> jsval) \<times> disk" where
  "ex_restore_run = restoreTicket ex_archive_service ex_restore_id ''a'' None True (snd ex_archive_run)"

definition ex_places :: "place list" where
  "ex_places = [Active, Archived, Legacy]"

text \<open>What the instance needs to know of the two runs, evaluated together.\<close>

definition ex_run_ok :: "(service_error + snapshot \<times> jsval) \<times> disk \<Rightarrow> bool" where
  "ex_run_ok r \<longleftrightarrow> \<not> isl (fst r) \<and> snd (projr (fst r)) = ex_archived
     \<and> list_all (\<lambda>p. dir_ok (dk_dir (snd r) p) \<and> list_all (\<lambda>e. \<not> ends_with (fst e) ex_restore_id) (dk_dir (snd r) p)) ex_places
     \<and> \<not> isl (fst (restoreTicket ex_archive_service ex_restore_id ''a'' None True (snd r)))"

lemma clean_names:
  assumes "list_all (\<lambda>e. \<not> ends_with (fst e) u) (dk_dir d Active)" "list_all (\<lambda>e. \<not> ends_with (fst e) u) (dk_dir d Archived)"
    "list_all (\<lambda>e. \<not> ends_with (fst e) u) (dk_dir d Legacy)"
  shows "clean u d"
  unfolding clean_def
proof (intro allI impI)
  fix x :: "place \<times> string" assume x: "ends_with (snd x) u"
  have "list_all (\<lambda>e. \<not> ends_with (fst e) u) (dk_dir d (fst x))" using assms by (cases "fst x") simp_all
  then have "snd x \<notin> fst ` set (dk_dir d (fst x))" using x by (auto simp: list_all_iff)
  then show "look d x = None" by (simp add: look_def map_of_eq_None_iff)
qed

theorem restore_undoes_archive_witness:
  "sn_tickets (fst (projr (fst ex_restore_run))) = [ex_ticket] \<and> sn_tickets (fst (projr (fst ex_archive_run))) = []"
proof -
  let ?sv = ex_archive_service
  have sha: "sha_hex (sv_cx ?sv)"
    using ex_hyps(1) by (simp add: sha_hex_def ex_archive_service_def ex_archive_codec_def ex_context_def)
  have u2: "transaction_id ex_restore_id" by code_simp
  have run: "ex_run_ok ex_archive_run" by code_simp
  have d1: "list_all (\<lambda>e. \<not> ends_with (fst e) ex_restore_id) (dk_dir (snd ex_archive_run) Active)"
    "list_all (\<lambda>e. \<not> ends_with (fst e) ex_restore_id) (dk_dir (snd ex_archive_run) Archived)"
    "list_all (\<lambda>e. \<not> ends_with (fst e) ex_restore_id) (dk_dir (snd ex_archive_run) Legacy)"
    using run by (simp_all add: ex_run_ok_def ex_places_def)
  have ok: "dir_ok (dk_dir (snd ex_archive_run) Active)" "dir_ok (dk_dir (snd ex_archive_run) Archived)"
    "dir_ok (dk_dir (snd ex_archive_run) Legacy)"
    using run by (simp_all add: ex_run_ok_def ex_places_def)
  have ok1: "disk_ok (snd ex_archive_run)" unfolding disk_ok_def
  proof
    fix p show "dir_ok (dk_dir (snd ex_archive_run) p)" using ok by (cases p) simp_all
  qed
  have "\<not> isl (load_active (sv_cx ?sv) ex_disk)" by code_simp
  then obtain active where l: "load_active (sv_cx ?sv) ex_disk = Inr active" by (metis isl_def sum.exhaust)
  have "sn_tickets (projr (load_active (sv_cx ?sv) ex_disk)) = [ex_ticket]" by code_simp
  then have ts: "sn_tickets active = [ex_ticket]" by (simp add: l)
  have "wf_js ex_ticket" "normalize ex_ticket = Inr ex_ticket" by code_simp+
  moreover have "sc_parse (cx_sc (sv_cx ?sv)) (ticket_text (sv_cx ?sv) ex_ticket) = Some (canonical_of ex_ticket)" by code_simp
  ultimately have st: "storable (sv_cx ?sv) (sn_tickets active)" by (simp add: storable_def reads_back_def ts)
  have "\<not> isl (fst ex_archive_run) \<and> snd (projr (fst ex_archive_run)) = ex_archived" using run by (simp add: ex_run_ok_def)
  then have a: "archiveTicket ?sv (rq_id ex_request) ''now'' ''done'' VNull ''a'' None True ex_disk
      = (Inr (fst (projr (fst ex_archive_run)), ex_archived), snd ex_archive_run)"
    by (simp add: ex_archive_run_def prod_eq_iff) (metis prod.collapse sum.collapse(2))
  have "sc_parse (cx_sc (sv_cx ?sv)) (ticket_text (sv_cx ?sv) ex_archived) = Some (canonical_of ex_archived)"
    "\<not> isl (normalize ex_archived)" by code_simp+
  then have rb: "reads_back (sv_cx ?sv) [ex_archived]" "\<exists>n. normalize ex_archived = Inr n"
    by (auto simp: reads_back_def isl_def) (metis sum.exhaust)
  have "\<not> isl (fst ex_restore_run)" using run by (simp add: ex_run_ok_def ex_restore_run_def)
  then have r: "restoreTicket ?sv ex_restore_id ''a'' None True (snd ex_archive_run)
      = (Inr (fst (projr (fst ex_restore_run)), snd (projr (fst ex_restore_run))), snd ex_restore_run)"
    by (simp add: ex_restore_run_def prod_eq_iff)
  have c: "sort_key ticket_id (map canonical_of [ex_ticket]) = [ex_ticket]"
    "sort_key ticket_id (map canonical_of (filter (\<lambda>t. ticket_id t \<noteq> ''a'') [ex_ticket])) = []" by code_simp+
  show ?thesis
    using restore_undoes_archive [OF sha ex_hyps(2,3,4) clean_names [OF d1] u2 ok1 l st rb a r] c unfolding ts by simp
qed

end
