(* ===== verification/LockProtocol.thy ===== *)
theory LockProtocol
  imports JsValue
begin

text \<open>
  The lock files that serialize writers: \<open>withLedgerLock\<close> of \<^verbatim>\<open>packages/core/lib/ledger.mjs\<close>, which takes
  over stale locks, \<open>withManifestLock\<close> of \<^verbatim>\<open>packages/tickets/lib/evidence.mjs\<close>, which is the same without
  takeover, and the lock directory of \<^verbatim>\<open>packages/tickets/lib/lock.mjs\<close>. Each is a step relation on the
  lock file and the phases of the processes; a step is one call of the file system.
\<close>

section \<open>The contract of a lock\<close>

locale lock_protocol =
  fixes init :: "'s \<Rightarrow> bool" and step :: "'s \<Rightarrow> 's \<Rightarrow> bool" and holds :: "'s \<Rightarrow> nat \<Rightarrow> bool" and good :: "'s \<Rightarrow> bool"
  assumes init_good: "init s \<Longrightarrow> good s \<and> \<not> holds s p"
    and step_good: "good s \<Longrightarrow> step s t \<Longrightarrow> good t"
    and step_enter: "good s \<Longrightarrow> step s t \<Longrightarrow> holds t p \<Longrightarrow> \<not> holds s p \<Longrightarrow> \<not> holds s q \<and> (holds t q \<longrightarrow> q = p)"
begin

inductive reach :: "'s \<Rightarrow> bool" where
  reach_init: "init s \<Longrightarrow> reach s"
| reach_step: "reach s \<Longrightarrow> step s t \<Longrightarrow> reach t"

lemma reach_good: "reach s \<Longrightarrow> good s"
  by (induction rule: reach.induct) (use init_good step_good in blast)+

lemma reach_steps: "step\<^sup>*\<^sup>* s t \<Longrightarrow> reach s \<Longrightarrow> reach t"
  by (induction rule: rtranclp_induct) (auto intro: reach_step)

lemma mutual_exclusion: "reach s \<Longrightarrow> holds s p \<Longrightarrow> holds s q \<Longrightarrow> p = q"
proof (induction arbitrary: p q rule: reach.induct)
  case (reach_init s)
  then show ?case using init_good by blast
next
  case (reach_step s t)
  note g = reach_good [OF reach_step.hyps(1)]
  show ?case
  proof (cases "holds s p \<and> holds s q")
    case True
    then show ?thesis using reach_step.IH by blast
  next
    case False
    then show ?thesis using step_enter [OF g reach_step.hyps(2)] reach_step.prems by metis
  qed
qed

end

section \<open>The ledger lock\<close>

text \<open>A lock file has an inode, so that the writer of the owner and the path can be told apart. It is
  blank until the owner is written. A process goes from \<open>Trying\<close> (the number of the attempt) through
  \<open>Created\<close> to \<open>Inside\<close>; \<open>Stealing\<close> and \<open>Releasing\<close> have read the file and are about to unlink it.\<close>

datatype phase = Trying nat | Stealing nat | Created nat | Inside | Releasing | Finished | TimedOut | Broken

record ledger_lock =
  ll_file :: "(nat \<times> nat option) option"
  ll_phase :: "nat \<Rightarrow> phase"
  ll_next :: nat

definition set_phase :: "nat \<Rightarrow> phase \<Rightarrow> ledger_lock \<Rightarrow> ledger_lock" where
  "set_phase p ph s = s\<lparr>ll_phase := (ll_phase s)(p := ph)\<rparr>"

text \<open>\<open>dateParse\<close> is \<open>Date.parse\<close>; its NaN is None.\<close>

definition isStaleLockOwner ::
  "(string \<Rightarrow> rat option) \<Rightarrow> string \<Rightarrow> (rat \<Rightarrow> bool) \<Rightarrow> rat \<Rightarrow> rat \<Rightarrow> jsval \<Rightarrow> bool" where
  "isStaleLockOwner dateParse host isPidAlive staleMs now current =
     (if \<not> is_plain_obj current then False
      else if js_get ''hostname'' current = VStr host
        \<and> (case js_get ''pid'' current of VNum n \<Rightarrow> \<not> isPidAlive n | _ \<Rightarrow> False) then True
      else case js_get ''startedAt'' current of
        VStr s \<Rightarrow> (case dateParse s of None \<Rightarrow> False | Some t \<Rightarrow> now - t > staleMs)
      | _ \<Rightarrow> False)"

inductive ledger_step :: "nat \<Rightarrow> (nat \<Rightarrow> bool) \<Rightarrow> ledger_lock \<Rightarrow> ledger_lock \<Rightarrow> bool" for retries stale where
  open_new: "ll_phase s p = Trying k \<Longrightarrow> k \<le> retries \<Longrightarrow> ll_file s = None \<Longrightarrow>
    ledger_step retries stale s (set_phase p (Created (ll_next s)) (s\<lparr>ll_file := Some (ll_next s, None), ll_next := ll_next s + 1\<rparr>))"
| open_held: "ll_phase s p = Trying k \<Longrightarrow> k \<le> retries \<Longrightarrow> ll_file s = Some (n, w) \<Longrightarrow> (\<forall>q. w = Some q \<longrightarrow> \<not> stale q) \<Longrightarrow>
    ledger_step retries stale s (set_phase p (Trying (k + 1)) s)"
| open_stale: "ll_phase s p = Trying k \<Longrightarrow> k \<le> retries \<Longrightarrow> ll_file s = Some (n, Some q) \<Longrightarrow> stale q \<Longrightarrow>
    ledger_step retries stale s (set_phase p (Stealing k) s)"
| steal: "ll_phase s p = Stealing k \<Longrightarrow> ledger_step retries stale s (set_phase p (Trying (k + 1)) (s\<lparr>ll_file := None\<rparr>))"
| give_up: "ll_phase s p = Trying k \<Longrightarrow> k > retries \<Longrightarrow> ledger_step retries stale s (set_phase p TimedOut s)"
| write_owner: "ll_phase s p = Created n \<Longrightarrow>
    ledger_step retries stale s (set_phase p Inside (case ll_file s of
        Some (m, w) \<Rightarrow> if m = n then s\<lparr>ll_file := Some (m, Some p)\<rparr> else s
      | None \<Rightarrow> s))"
| write_fails: "ll_phase s p = Created n \<Longrightarrow> ledger_step retries stale s (set_phase p Broken s)"
| leave_own: "ll_phase s p = Inside \<Longrightarrow> ll_file s = Some (n, Some p) \<Longrightarrow> ledger_step retries stale s (set_phase p Releasing s)"
| leave_other: "ll_phase s p = Inside \<Longrightarrow> (\<forall>n. ll_file s \<noteq> Some (n, Some p)) \<Longrightarrow>
    ledger_step retries stale s (set_phase p Finished s)"
| unlink_own: "ll_phase s p = Releasing \<Longrightarrow> ledger_step retries stale s (set_phase p Finished (s\<lparr>ll_file := None\<rparr>))"

definition ledger_init :: "ledger_lock \<Rightarrow> bool" where
  "ledger_init s \<longleftrightarrow> ll_file s = None \<and> (\<forall>p. ll_phase s p = Trying 0)"

definition inside :: "ledger_lock \<Rightarrow> nat \<Rightarrow> bool" where
  "inside s p \<longleftrightarrow> ll_phase s p = Inside"

text \<open>A process holds the lock from the creation of the file to its removal.\<close>

definition in_region :: "ledger_lock \<Rightarrow> nat \<Rightarrow> bool" where
  "in_region s p \<longleftrightarrow> (case ll_phase s p of Created _ \<Rightarrow> True | Inside \<Rightarrow> True | Releasing \<Rightarrow> True | _ \<Rightarrow> False)"

definition ledger_good :: "ledger_lock \<Rightarrow> bool" where
  "ledger_good s \<longleftrightarrow> (\<forall>p. in_region s p \<longrightarrow> ll_file s \<noteq> None) \<and> (\<forall>p k. ll_phase s p \<noteq> Stealing k)
     \<and> (\<forall>p q. in_region s p \<longrightarrow> in_region s q \<longrightarrow> p = q)"

inductive_cases ledger_stepE: "ledger_step retries stale s t"

lemma phase_set [simp]: "ll_phase (set_phase p ph s) q = (if q = p then ph else ll_phase s q)" "ll_file (set_phase p ph s) = ll_file s"
  "ll_next (set_phase p ph s) = ll_next s"
  by (simp_all add: set_phase_def)

lemma in_region_set: "in_region (set_phase p ph s) q = (if q = p then (case ph of Created _ \<Rightarrow> True | Inside \<Rightarrow> True | Releasing \<Rightarrow> True | _ \<Rightarrow> False) else in_region s q)"
  by (simp add: in_region_def)

text \<open>Without takeover, a step keeps the invariant: only an opened file lets a process in.\<close>

lemma ledger_step_good:
  assumes "ledger_good s" and "ledger_step retries (\<lambda>_. False) s t"
  shows "ledger_good t"
  using assms(2)
proof (cases rule: ledger_step.cases)
  case (open_new p k)
  have none: "\<not> in_region s q" for q using assms(1) open_new(4) by (auto simp: ledger_good_def)
  then show ?thesis using assms(1) by (auto simp: open_new(1) ledger_good_def in_region_set) (auto simp: in_region_def)
next
  case (write_owner p n)
  have p: "in_region s p" using write_owner(2) by (simp add: in_region_def)
  let ?u = "case ll_file s of Some (m, w) \<Rightarrow> if m = n then s\<lparr>ll_file := Some (m, Some p)\<rparr> else s | None \<Rightarrow> s"
  have u: "ll_phase ?u = ll_phase s" "ll_file ?u = None \<longleftrightarrow> ll_file s = None" by (auto split: option.splits prod.splits)
  have r: "in_region ?u q = in_region s q" for q by (simp add: in_region_def u(1))
  show ?thesis using assms(1) p unfolding write_owner(1) ledger_good_def
    by (auto simp: in_region_set r u)
next
  case (unlink_own p)
  have p: "in_region s p" using unlink_own(2) by (simp add: in_region_def)
  have "\<not> in_region s q" if "q \<noteq> p" for q using assms(1) p that by (auto simp: ledger_good_def)
  then show ?thesis using assms(1) by (auto simp: unlink_own(1) ledger_good_def in_region_set) (auto simp: in_region_def)
qed (use assms(1) in \<open>auto simp: ledger_good_def in_region_set in_region_def\<close>)

lemma ledger_enter:
  assumes "ledger_good s" and "ledger_step retries (\<lambda>_. False) s t" and "in_region t p" and "\<not> in_region s p"
  shows "\<not> in_region s q \<and> (in_region t q \<longrightarrow> q = p)"
  using assms(2)
proof (cases rule: ledger_step.cases)
  case (open_new p0 k)
  have none: "\<not> in_region s q" for q using assms(1) open_new(4) by (auto simp: ledger_good_def)
  have tp: "in_region t r \<longleftrightarrow> r = p0" for r using none [of r] by (auto simp: open_new(1) in_region_set) (auto simp: in_region_def)
  show ?thesis using none [of q] tp [of p] tp [of q] assms(3) by simp
next
  case (write_owner p0 n)
  let ?u = "case ll_file s of Some (m, w) \<Rightarrow> if m = n then s\<lparr>ll_file := Some (m, Some p0)\<rparr> else s | None \<Rightarrow> s"
  have "ll_phase ?u = ll_phase s" by (auto split: option.splits prod.splits)
  then have "in_region t r \<longrightarrow> in_region s r" for r
    using write_owner(2) by (auto simp: write_owner(1) in_region_set) (auto simp: in_region_def)
  then show ?thesis using assms(3,4) by blast
qed (use assms(3,4) in \<open>auto simp: in_region_set in_region_def split: if_splits\<close>)

interpretation manifest_lock: lock_protocol ledger_init "ledger_step retries (\<lambda>_. False)" in_region ledger_good
  for retries
proof
  show "ledger_good s \<and> \<not> in_region s p" if "ledger_init s" for s p
    using that by (auto simp: ledger_init_def ledger_good_def in_region_def)
qed (use ledger_step_good ledger_enter in blast)+

text \<open>C18: \<open>withManifestLock\<close>, and \<open>withLedgerLock\<close> as long as no owner is judged stale, are exclusive:
  in every state that any interleaving of any number of processes reaches, at most one process is between
  the creation of the lock file and its removal.\<close>

theorem ledger_lock_exclusive:
  assumes "ledger_init s" and "(ledger_step retries (\<lambda>_. False))\<^sup>*\<^sup>* s t" and "in_region t p" and "in_region t q"
  shows "p = q"
  by (rule manifest_lock.mutual_exclusion [OF manifest_lock.reach_steps [OF assms(2) manifest_lock.reach_init [OF assms(1)]] assms(3,4)])

definition ex_lock0 :: ledger_lock where
  "ex_lock0 = \<lparr>ll_file = None, ll_phase = (\<lambda>_. Trying 0), ll_next = 0\<rparr>"

definition ex_lock1 :: ledger_lock where
  "ex_lock1 = set_phase 7 (Created 0) (ex_lock0\<lparr>ll_file := Some (0, None), ll_next := 1\<rparr>)"

lemma ex_lock_step: "ledger_step retries stale ex_lock0 ex_lock1"
  using open_new [of ex_lock0 7 0 retries stale] by (simp add: ex_lock0_def ex_lock1_def)

theorem ledger_lock_exclusive_witness: "in_region ex_lock1 7 \<and> \<not> in_region ex_lock1 8"
proof -
  have i: "ledger_init ex_lock0" by (simp add: ledger_init_def ex_lock0_def)
  have r: "(ledger_step 400 (\<lambda>_. False))\<^sup>*\<^sup>* ex_lock0 ex_lock1" using ex_lock_step by blast
  have h: "in_region ex_lock1 7" by (simp add: in_region_def ex_lock1_def)
  have "in_region ex_lock1 8 \<Longrightarrow> (7 :: nat) = 8" by (rule ledger_lock_exclusive [OF i r h])
  then show ?thesis using h by auto
qed

section \<open>Takeover of stale ledger locks\<close>

definition ledger_run :: "nat \<Rightarrow> (nat \<Rightarrow> bool) \<Rightarrow> ledger_lock list \<Rightarrow> bool" where
  "ledger_run retries stale ss \<longleftrightarrow> (\<forall>k. Suc k < length ss \<longrightarrow> ledger_step retries stale (ss ! k) (ss ! Suc k))"

text \<open>Two processes that both read the lock of a dead owner.\<close>

definition race :: "ledger_lock list" where
  "race =
     (let s0 = ex_lock0;
          s1 = set_phase 0 (Created 0) (s0\<lparr>ll_file := Some (0, None), ll_next := 1\<rparr>);
          s2 = set_phase 0 Inside (s1\<lparr>ll_file := Some (0, Some 0)\<rparr>);
          s3 = set_phase 1 (Stealing 0) s2;
          s4 = set_phase 2 (Stealing 0) s3;
          s5 = set_phase 1 (Trying 1) (s4\<lparr>ll_file := None\<rparr>);
          s6 = set_phase 1 (Created 1) (s5\<lparr>ll_file := Some (1, None), ll_next := 2\<rparr>);
          s7 = set_phase 1 Inside (s6\<lparr>ll_file := Some (1, Some 1)\<rparr>);
          s8 = set_phase 2 (Trying 1) (s7\<lparr>ll_file := None\<rparr>);
          s9 = set_phase 2 (Created 2) (s8\<lparr>ll_file := Some (2, None), ll_next := 3\<rparr>);
          s10 = set_phase 2 Inside (s9\<lparr>ll_file := Some (2, Some 2)\<rparr>)
      in [s0, s1, s2, s3, s4, s5, s6, s7, s8, s9, s10])"

lemma ledger_run_Cons: "ledger_run retries stale (s # t # ss) \<longleftrightarrow> ledger_step retries stale s t \<and> ledger_run retries stale (t # ss)"
  unfolding ledger_run_def by (auto simp: nth_Cons split: nat.splits)

lemma ledger_run_one: "ledger_run retries stale [s]"
  by (simp add: ledger_run_def)

lemma open_newI:
  "ll_phase s p = Trying k \<Longrightarrow> k \<le> retries \<Longrightarrow> ll_file s = None \<Longrightarrow> ll_next s = n \<Longrightarrow> m = n + 1 \<Longrightarrow>
   ledger_step retries stale s (set_phase p (Created n) (s\<lparr>ll_file := Some (n, None), ll_next := m\<rparr>))"
  using open_new [of s p k retries stale] by simp

lemma write_ownerI:
  "ll_phase s p = Created n \<Longrightarrow> ll_file s = Some (n, w) \<Longrightarrow>
   ledger_step retries stale s (set_phase p Inside (s\<lparr>ll_file := Some (n, Some p)\<rparr>))"
  using write_owner [of s p n retries stale] by simp

lemma stealI:
  "ll_phase s p = Stealing k \<Longrightarrow> m = k + 1 \<Longrightarrow> ledger_step retries stale s (set_phase p (Trying m) (s\<lparr>ll_file := None\<rparr>))"
  using steal [of s p k retries stale] by simp

lemma race_run: "ledger_run 400 (\<lambda>q. q = 0) race"
  unfolding race_def Let_def ledger_run_Cons
  by (intro conjI ledger_run_one;
      (rule open_newI [where k = 0] open_newI [where k = 1] open_stale [where q = 0 and n = 0] write_ownerI stealI;
       simp add: ex_lock0_def; fail)?)

text \<open>C36: taking over a stale lock is not safe. The lock file is read and unlinked in two steps, so when
  two processes have both read the lock of a dead owner, the later unlink removes the new lock of the
  other, and both run inside. And the age of a lock alone makes its owner stale: a live process of the
  same host that holds it for longer than the bound loses it while inside.\<close>

theorem takeover_lets_two_in:
  "ledger_run 400 (\<lambda>q. q = 0) race \<and> ledger_init (race ! 0) \<and> inside (race ! 10) 1 \<and> inside (race ! 10) 2
   \<and> isStaleLockOwner dateParse host (\<lambda>_. True) 60000 now
       (VObj [(''pid'', VNum 7), (''hostname'', VStr host), (''startedAt'', VStr s)])
     = (case dateParse s of None \<Rightarrow> False | Some t \<Rightarrow> now - t > 60000)"
proof -
  have "ledger_init (race ! 0)" by (simp add: race_def Let_def ledger_init_def ex_lock0_def)
  moreover have "inside (race ! 10) 1 \<and> inside (race ! 10) 2" by (simp add: race_def Let_def inside_def)
  moreover have "isStaleLockOwner dateParse host (\<lambda>_. True) 60000 now
       (VObj [(''pid'', VNum 7), (''hostname'', VStr host), (''startedAt'', VStr s)])
     = (case dateParse s of None \<Rightarrow> False | Some t \<Rightarrow> now - t > 60000)"
    by (simp add: isStaleLockOwner_def is_plain_obj_def js_get_def)
  ultimately show ?thesis using race_run by blast
qed

section \<open>A lock without an owner\<close>

text \<open>The file of a process that was stopped, or failed to write, between opening it and writing its owner:
  nobody is about to write or unlink it.\<close>

definition abandoned :: "nat \<Rightarrow> ledger_lock \<Rightarrow> bool" where
  "abandoned n s \<longleftrightarrow> ll_file s = Some (n, None) \<and> (\<forall>p. ll_phase s p \<noteq> Created n \<and> ll_phase s p \<noteq> Releasing
     \<and> (\<forall>k. ll_phase s p \<noteq> Stealing k))"

lemma abandoned_step:
  assumes "abandoned n s" and "ledger_step retries stale s t"
  shows "abandoned n t \<and> (\<forall>p. inside t p \<longrightarrow> inside s p \<or> (\<exists>m. m \<noteq> n \<and> ll_phase s p = Created m))"
  using assms(2)
proof (cases rule: ledger_step.cases)
  case (write_owner p m)
  have m: "m \<noteq> n" using assms(1) write_owner(2) by (auto simp: abandoned_def)
  have "(case ll_file s of Some (m', w) \<Rightarrow> if m' = m then s\<lparr>ll_file := Some (m', Some p)\<rparr> else s | None \<Rightarrow> s) = s"
    using assms(1) m by (auto simp: abandoned_def)
  then have t: "t = set_phase p Inside s" using write_owner(1) by simp
  show ?thesis using assms(1) m write_owner(2) by (auto simp: t abandoned_def inside_def)
qed (use assms(1) in \<open>auto simp: abandoned_def inside_def split: if_splits\<close>)

definition no_one_created :: "ledger_lock \<Rightarrow> bool" where
  "no_one_created s \<longleftrightarrow> (\<forall>p m. ll_phase s p \<noteq> Created m)"

lemma abandoned_created:
  assumes "abandoned n s" and "no_one_created s" and "ledger_step retries stale s t"
  shows "no_one_created t"
  using assms(3)
proof (cases rule: ledger_step.cases)
  case (open_new p k)
  then show ?thesis using assms(1) by (simp add: abandoned_def)
next
  case (write_owner p m)
  then show ?thesis using assms(2) by (simp add: no_one_created_def)
next
  case (write_fails p m)
  then show ?thesis using assms(2) by (simp add: no_one_created_def)
qed (use assms(2) in \<open>auto simp: no_one_created_def\<close>)

text \<open>a ledger lock whose process stopped between creating the file and writing its owner is never
  released. The blank file is not JSON, so no owner is stale, whatever the clock and whichever processes
  are alive; from such a state no process ever gets inside, and the file stays.\<close>

theorem blank_lock_is_permanent:
  assumes "abandoned n s" and "no_one_created s" and "(ledger_step retries stale)\<^sup>*\<^sup>* s t"
  shows "ll_file t = Some (n, None) \<and> (\<forall>p. inside t p \<longrightarrow> inside s p)"
proof -
  have "abandoned n t \<and> no_one_created t \<and> (\<forall>p. inside t p \<longrightarrow> inside s p)"
    using assms(3)
  proof (induction rule: rtranclp_induct)
    case base
    then show ?case using assms by simp
  next
    case (step t u)
    then have a: "abandoned n t" "no_one_created t" by blast+
    show ?case using abandoned_step [OF a(1) step.hyps(2)] abandoned_created [OF a step.hyps(2)] step.IH a(2)
      by (auto simp: no_one_created_def)
  qed
  then show ?thesis by (simp add: abandoned_def)
qed

definition ex_blank :: ledger_lock where
  "ex_blank = set_phase 7 Broken ex_lock1"

theorem blank_lock_is_permanent_witness:
  "ll_file (set_phase 8 (Trying 1) ex_blank) = Some (0, None) \<and> \<not> inside (set_phase 8 (Trying 1) ex_blank) 8
   \<and> (ledger_step 400 (\<lambda>_. True))\<^sup>*\<^sup>* ex_lock0 ex_blank"
proof -
  have a: "abandoned 0 ex_blank" by (simp add: abandoned_def ex_blank_def ex_lock1_def ex_lock0_def)
  have c: "no_one_created ex_blank" by (auto simp: no_one_created_def ex_blank_def ex_lock1_def ex_lock0_def)
  have w: "ledger_step 400 (\<lambda>_. True) ex_lock1 ex_blank"
    unfolding ex_blank_def by (rule write_fails [of _ _ 0]) (simp add: ex_lock1_def)
  have "ledger_step 400 (\<lambda>_. True) ex_blank (set_phase 8 (Trying (0 + 1)) ex_blank)"
    by (rule open_held [of _ _ _ _ 0 None]) (simp_all add: ex_blank_def ex_lock1_def ex_lock0_def)
  then have s: "(ledger_step 400 (\<lambda>_. True))\<^sup>*\<^sup>* ex_blank (set_phase 8 (Trying 1) ex_blank)" by simp
  have r: "(ledger_step 400 (\<lambda>_. True))\<^sup>*\<^sup>* ex_lock0 ex_blank"
    using ex_lock_step w by (meson converse_rtranclp_into_rtranclp r_into_rtranclp)
  have "\<not> inside ex_blank 8" by (simp add: inside_def ex_blank_def ex_lock1_def ex_lock0_def)
  then show ?thesis using blank_lock_is_permanent [OF a c s] r by blast
qed

section \<open>The ticket lock\<close>

text \<open>The lock is a directory; its owner is a file in it. A failed write of the owner removes the
  directory again, or leaves it \<open>Stranded\<close> when that fails too.\<close>

datatype tphase = TTrying nat | TCreated | TInside | TReleasing | TReleased | TTimedOut | TFailed | TStranded | TKept

record ticket_lock =
  tl_dir :: "nat option option"
  tl_phase :: "nat \<Rightarrow> tphase"

definition set_tphase :: "nat \<Rightarrow> tphase \<Rightarrow> ticket_lock \<Rightarrow> ticket_lock" where
  "set_tphase p ph s = s\<lparr>tl_phase := (tl_phase s)(p := ph)\<rparr>"

inductive ticket_step :: "nat \<Rightarrow> ticket_lock \<Rightarrow> ticket_lock \<Rightarrow> bool" for retries where
  t_mkdir: "tl_phase s p = TTrying k \<Longrightarrow> k \<le> retries \<Longrightarrow> tl_dir s = None \<Longrightarrow>
    ticket_step retries s (set_tphase p TCreated (s\<lparr>tl_dir := Some None\<rparr>))"
| t_exists: "tl_phase s p = TTrying k \<Longrightarrow> k \<le> retries \<Longrightarrow> tl_dir s \<noteq> None \<Longrightarrow>
    ticket_step retries s (set_tphase p (TTrying (k + 1)) s)"
| t_timeout: "tl_phase s p = TTrying k \<Longrightarrow> k > retries \<Longrightarrow> ticket_step retries s (set_tphase p TTimedOut s)"
| t_owner: "tl_phase s p = TCreated \<Longrightarrow> tl_dir s = Some None \<Longrightarrow>
    ticket_step retries s (set_tphase p TInside (s\<lparr>tl_dir := Some (Some p)\<rparr>))"
| t_owner_fails: "tl_phase s p = TCreated \<Longrightarrow> ticket_step retries s (set_tphase p TFailed (s\<lparr>tl_dir := None\<rparr>))"
| t_cleanup_fails: "tl_phase s p = TCreated \<Longrightarrow> ticket_step retries s (set_tphase p TStranded s)"
| t_release: "tl_phase s p = TInside \<Longrightarrow> tl_dir s = Some (Some p) \<Longrightarrow> ticket_step retries s (set_tphase p TReleasing s)"
| t_not_ours: "tl_phase s p = TInside \<Longrightarrow> tl_dir s \<noteq> Some (Some p) \<Longrightarrow> ticket_step retries s (set_tphase p TKept s)"
| t_remove: "tl_phase s p = TReleasing \<Longrightarrow> ticket_step retries s (set_tphase p TReleased (s\<lparr>tl_dir := None\<rparr>))"
| t_remove_fails: "tl_phase s p = TReleasing \<Longrightarrow> ticket_step retries s (set_tphase p TKept s)"

definition t_region :: "ticket_lock \<Rightarrow> nat \<Rightarrow> bool" where
  "t_region s p \<longleftrightarrow> tl_phase s p \<in> {TCreated, TInside, TReleasing}"

definition t_init :: "ticket_lock \<Rightarrow> bool" where
  "t_init s \<longleftrightarrow> tl_dir s = None \<and> (\<forall>p. tl_phase s p = TTrying 0)"

text \<open>The directory names the process that is inside, and nobody else passed the creation.\<close>

definition t_good :: "nat \<Rightarrow> ticket_lock \<Rightarrow> bool" where
  "t_good retries s \<longleftrightarrow> (\<forall>p q. t_region s p \<longrightarrow> t_region s q \<longrightarrow> p = q) \<and> (\<forall>p. t_region s p \<longrightarrow> tl_dir s \<noteq> None)
     \<and> (\<forall>p. tl_phase s p = TCreated \<longrightarrow> tl_dir s = Some None)
     \<and> (\<forall>p. tl_phase s p \<in> {TInside, TReleasing} \<longrightarrow> tl_dir s = Some (Some p))
     \<and> (\<forall>p k. tl_phase s p = TTrying k \<longrightarrow> k \<le> retries + 1)
     \<and> (tl_dir s \<noteq> None \<longrightarrow> (\<exists>p. t_region s p \<or> tl_phase s p \<in> {TStranded, TKept}))"

lemma tphase_set [simp]: "tl_phase (set_tphase p ph s) q = (if q = p then ph else tl_phase s q)" "tl_dir (set_tphase p ph s) = tl_dir s"
  by (simp_all add: set_tphase_def)

lemma t_region_set: "t_region (set_tphase p ph s) q = (if q = p then ph \<in> {TCreated, TInside, TReleasing} else t_region s q)"
  by (simp add: t_region_def)

lemma t_goodD:
  assumes "t_good retries s"
  shows "t_region s p \<Longrightarrow> t_region s q \<Longrightarrow> p = q" and "t_region s p \<Longrightarrow> tl_dir s \<noteq> None"
    and "tl_phase s p = TCreated \<Longrightarrow> tl_dir s = Some None"
    and "tl_phase s p \<in> {TInside, TReleasing} \<Longrightarrow> tl_dir s = Some (Some p)"
    and "tl_phase s p = TTrying k \<Longrightarrow> k \<le> retries + 1"
    and "tl_dir s \<noteq> None \<Longrightarrow> \<exists>p. t_region s p \<or> tl_phase s p \<in> {TStranded, TKept}"
  using assms unfolding t_good_def by blast+

text \<open>The process \<open>p\<close> moves to \<open>ph\<close> and sets the directory to \<open>dr\<close>.\<close>

lemma t_good_move:
  assumes g: "t_good retries s"
    and enter: "ph \<in> {TCreated, TInside, TReleasing} \<Longrightarrow> \<forall>q. t_region s q \<longrightarrow> q = p"
    and dir: "ph \<in> {TInside, TReleasing} \<Longrightarrow> dr = Some (Some p)" "ph = TCreated \<Longrightarrow> dr = Some None"
    and keep: "(\<exists>q. q \<noteq> p \<and> t_region s q) \<Longrightarrow> dr = tl_dir s"
    and try_: "\<And>k. ph = TTrying k \<Longrightarrow> k \<le> retries + 1"
    and why: "dr \<noteq> None \<Longrightarrow> ph \<in> {TCreated, TInside, TReleasing, TStranded, TKept}
       \<or> dr = tl_dir s \<and> tl_phase s p \<notin> {TCreated, TInside, TReleasing, TStranded, TKept}"
  shows "t_good retries (set_tphase p ph (s\<lparr>tl_dir := dr\<rparr>))"
proof -
  let ?t = "set_tphase p ph (s\<lparr>tl_dir := dr\<rparr>)"
  have ph: "tl_phase ?t q = (if q = p then ph else tl_phase s q)" "tl_dir ?t = dr" for q by simp_all
  have rg: "t_region ?t q \<longleftrightarrow> (if q = p then ph \<in> {TCreated, TInside, TReleasing} else t_region s q)" for q
    by (simp add: t_region_def)
  have other: "tl_dir s = dr" if "q \<noteq> p" "t_region s q" for q using keep that by blast
  show ?thesis unfolding t_good_def
  proof (intro conjI allI impI)
    fix a b assume "t_region ?t a" "t_region ?t b"
    then show "a = b" using enter t_goodD(1) [OF g] unfolding rg by (metis (full_types))
  next
    fix a assume a: "t_region ?t a"
    show "tl_dir ?t \<noteq> None"
    proof (cases "a = p")
      case True
      then show ?thesis using a dir unfolding rg ph by auto
    next
      case False
      then have "t_region s a" using a by (simp add: rg)
      then show ?thesis using other [OF False] t_goodD(2) [OF g] unfolding ph by metis
    qed
  next
    fix a assume a: "tl_phase ?t a = TCreated"
    show "tl_dir ?t = Some None"
    proof (cases "a = p")
      case True
      then show ?thesis using a dir(2) unfolding ph by simp
    next
      case False
      then have "tl_phase s a = TCreated" using a by simp
      then show ?thesis using other [OF False] t_goodD(3) [OF g] unfolding ph t_region_def by simp
    qed
  next
    fix a assume a: "tl_phase ?t a \<in> {TInside, TReleasing}"
    show "tl_dir ?t = Some (Some a)"
    proof (cases "a = p")
      case True
      then show ?thesis using a dir(1) unfolding ph by simp
    next
      case False
      then have h: "tl_phase s a \<in> {TInside, TReleasing}" using a by simp
      then have "tl_dir s = dr" using other [OF False] by (auto simp: t_region_def)
      then show ?thesis using t_goodD(4) [OF g h] unfolding ph by simp
    qed
  next
    fix a k assume "tl_phase ?t a = TTrying k"
    then show "k \<le> retries + 1" using try_ t_goodD(5) [OF g] by (auto split: if_splits)
  next
    assume d: "tl_dir ?t \<noteq> None"
    show "\<exists>q. t_region ?t q \<or> tl_phase ?t q \<in> {TStranded, TKept}"
    proof (cases "ph \<in> {TCreated, TInside, TReleasing, TStranded, TKept}")
      case True
      then have "t_region ?t p \<or> tl_phase ?t p \<in> {TStranded, TKept}" unfolding rg ph by auto
      then show ?thesis by blast
    next
      case False
      then have w: "dr = tl_dir s" "tl_phase s p \<notin> {TCreated, TInside, TReleasing, TStranded, TKept}"
        using why d unfolding ph by blast+
      have "tl_dir s \<noteq> None" using d w(1) by simp
      from t_goodD(6) [OF g this] obtain q where q: "t_region s q \<or> tl_phase s q \<in> {TStranded, TKept}" by blast
      then have "q \<noteq> p" using w(2) by (auto simp: t_region_def)
      then have "t_region ?t q \<or> tl_phase ?t q \<in> {TStranded, TKept}" using q by (simp add: rg)
      then show ?thesis by blast
    qed
  qed
qed

lemma same_dir: "set_tphase p ph s = set_tphase p ph (s\<lparr>tl_dir := tl_dir s\<rparr>)"
  by simp

lemma ticket_step_good:
  assumes g: "t_good retries s" and "ticket_step retries s t"
  shows "t_good retries t"
proof -
  have only: "t_region s q \<longrightarrow> q = p" if "tl_phase s p \<in> {TCreated, TInside, TReleasing}" for p q
    using t_goodD(1) [OF g, of q p] that by (simp add: t_region_def)
  have none: "\<not> t_region s q" if "tl_dir s = None" for q using t_goodD(2) [OF g] that by blast
  from assms(2) show ?thesis
  proof (cases rule: ticket_step.cases)
    case (t_mkdir p k)
    show ?thesis unfolding t_mkdir(1) by (rule t_good_move [OF g]) (use none t_mkdir in auto)
  next
    case (t_exists p k)
    show ?thesis unfolding t_exists(1) by (subst same_dir, rule t_good_move [OF g]) (use t_exists in auto)
  next
    case (t_timeout p k)
    show ?thesis unfolding t_timeout(1) by (subst same_dir, rule t_good_move [OF g]) (use t_timeout in auto)
  next
    case (t_owner p)
    have o1: "t_region s q \<longrightarrow> q = p" for q using only [of p q] t_owner(2) by simp
    show ?thesis unfolding t_owner(1) by (rule t_good_move [OF g]) (use o1 in auto)
  next
    case (t_owner_fails p)
    have o1: "t_region s q \<longrightarrow> q = p" for q using only [of p q] t_owner_fails(2) by simp
    show ?thesis unfolding t_owner_fails(1) by (rule t_good_move [OF g]) (use o1 in auto)
  next
    case (t_cleanup_fails p)
    show ?thesis unfolding t_cleanup_fails(1) by (subst same_dir, rule t_good_move [OF g]) auto
  next
    case (t_release p)
    have o1: "t_region s q \<longrightarrow> q = p" for q using only [of p q] t_release(2) by simp
    show ?thesis unfolding t_release(1) by (subst same_dir, rule t_good_move [OF g]) (use o1 t_release in auto)
  next
    case (t_not_ours p)
    show ?thesis unfolding t_not_ours(1) by (subst same_dir, rule t_good_move [OF g]) auto
  next
    case (t_remove p)
    have o1: "t_region s q \<longrightarrow> q = p" for q using only [of p q] t_remove(2) by simp
    show ?thesis unfolding t_remove(1) by (rule t_good_move [OF g]) (use o1 in auto)
  next
    case (t_remove_fails p)
    show ?thesis unfolding t_remove_fails(1) by (subst same_dir, rule t_good_move [OF g]) auto
  qed
qed

lemma ticket_enter:
  assumes g: "t_good retries s" and "ticket_step retries s t" and "t_region t p" and "\<not> t_region s p"
  shows "\<not> t_region s q \<and> (t_region t q \<longrightarrow> q = p)"
  using assms(2)
proof (cases rule: ticket_step.cases)
  case (t_mkdir p0 k)
  have none: "\<not> t_region s r" for r using t_goodD(2) [OF g] t_mkdir(4) by blast
  have tp: "t_region t r \<longleftrightarrow> r = p0" for r using none [of r] by (auto simp: t_mkdir(1) t_region_def)
  show ?thesis using none [of q] tp [of p] tp [of q] assms(3) by simp
qed (use assms(3,4) in \<open>auto simp: t_region_def split: if_splits\<close>)

interpretation tl: lock_protocol t_init "ticket_step retries" t_region "t_good retries"
  for retries
proof
  show "t_good retries s \<and> \<not> t_region s p" if "t_init s" for s p
    using that by (auto simp: t_init_def t_good_def t_region_def)
qed (use ticket_step_good ticket_enter in blast)+

text \<open>C19: the ticket lock is exclusive, is waited for a bounded number of times, and is only left behind by
  a process that reports it: in every reachable state at most one process is between the creation and the
  removal of the directory, every process has tried at most one time more than \<open>retries\<close> allows, and when
  the directory exists a process is in that region, or has ended with \<open>LOCK_STRANDED\<close> or with a lock that
  it could not release.\<close>

theorem ticket_lock_safe:
  assumes "t_init s" and "(ticket_step retries)\<^sup>*\<^sup>* s t"
  shows "(t_region t p \<longrightarrow> t_region t q \<longrightarrow> p = q) \<and> (tl_phase t p = TTrying k \<longrightarrow> k \<le> retries + 1)
     \<and> (tl_dir t \<noteq> None \<longrightarrow> (\<exists>r. t_region t r \<or> tl_phase t r \<in> {TStranded, TKept}))"
proof -
  have r: "tl.reach retries t" by (rule tl.reach_steps [OF assms(2) tl.reach_init [OF assms(1)]])
  note g = tl.reach_good [OF r]
  show ?thesis using t_goodD(1,5,6) [OF g] by blast
qed

definition ex_tlock :: ticket_lock where
  "ex_tlock = \<lparr>tl_dir = None, tl_phase = (\<lambda>_. TTrying 0)\<rparr>"

theorem ticket_lock_safe_witness:
  "tl_dir (set_tphase 7 TCreated (ex_tlock\<lparr>tl_dir := Some None\<rparr>)) \<noteq> None
   \<and> (\<exists>r. t_region (set_tphase 7 TCreated (ex_tlock\<lparr>tl_dir := Some None\<rparr>)) r
      \<or> tl_phase (set_tphase 7 TCreated (ex_tlock\<lparr>tl_dir := Some None\<rparr>)) r \<in> {TStranded, TKept})"
proof -
  have i: "t_init ex_tlock" by (simp add: t_init_def ex_tlock_def)
  have "ticket_step 50 ex_tlock (set_tphase 7 TCreated (ex_tlock\<lparr>tl_dir := Some None\<rparr>))"
    by (rule t_mkdir [of _ _ 0]) (simp_all add: ex_tlock_def)
  then have r: "(ticket_step 50)\<^sup>*\<^sup>* ex_tlock (set_tphase 7 TCreated (ex_tlock\<lparr>tl_dir := Some None\<rparr>))" by blast
  have d: "tl_dir (set_tphase 7 TCreated (ex_tlock\<lparr>tl_dir := Some None\<rparr>)) \<noteq> None" by simp
  show ?thesis using ticket_lock_safe [OF i r] d by blast
qed

end
