(* ===== verification/RailDiff.thy ===== *)
theory RailDiff
  imports JsString
begin

text \<open>
  The reader of unified diffs of rails-guard: \<open>parseAddedLines\<close> of
  \<^verbatim>\<open>packages/rails-guard/lib/suppressions.mjs\<close>, which decides which added line belongs to which file.
  A line that a change adds can look like a header of the diff (\<open>++ x;\<close> becomes \<open>+++ x;\<close>), so the reader
  counts the lines of each hunk. The diff format of git is given as a printer, with its spelling of file
  names (quoted when they hold special characters, followed by a tab when they hold a space), and the
  reader is proved to invert it for every content of the lines, up to the spelling of the names.
\<close>

section \<open>Decimal numbers\<close>

definition digit_value :: "char \<Rightarrow> nat" where
  "digit_value c = code c - 48"

text \<open>\<open>parseInt(s, 10)\<close> of a run of digits.\<close>

definition parse_nat :: "string \<Rightarrow> nat" where
  "parse_nat s = foldl (\<lambda>n c. n * 10 + digit_value c) 0 s"

fun show_nat :: "nat \<Rightarrow> string" where
  "show_nat n = (if n < 10 then [''0123456789'' ! n] else show_nat (n div 10) @ [''0123456789'' ! (n mod 10)])"

declare show_nat.simps [simp del]

lemma digit_char:
  assumes "n < 10"
  shows "is_digit (''0123456789'' ! n) \<and> digit_value (''0123456789'' ! n) = n"
proof -
  have "n \<in> {0, 1, 2, 3, 4, 5, 6, 7, 8, 9}" using assms by auto
  then show ?thesis by (elim insertE emptyE) (simp_all add: is_digit_def digit_value_def code_def)
qed

lemma show_nat_digits: "show_nat n \<noteq> [] \<and> list_all is_digit (show_nat n) \<and> parse_nat (show_nat n) = n"
proof (induction n rule: show_nat.induct)
  case (1 n)
  show ?case
  proof (cases "n < 10")
    case True
    then show ?thesis using digit_char [OF True] by (simp add: show_nat.simps [of n] parse_nat_def)
  next
    case False
    have m: "n mod 10 < 10" by simp
    show ?thesis using False 1 digit_char [OF m] by (simp add: show_nat.simps [of n] parse_nat_def)
  qed
qed

section \<open>Reading a diff\<close>

text \<open>The range of a hunk header, \<open>/@@ -\d+(?:,(\d+))? \+(\d+)(?:,(\d+))? @@/\<close>: an optional count, which
  counts 1 when it is omitted.\<close>

definition strip_prefix :: "string \<Rightarrow> string \<Rightarrow> string option" where
  "strip_prefix p s = (if starts_with s p then Some (drop (length p) s) else None)"

definition read_digits :: "string \<Rightarrow> (nat \<times> string) option" where
  "read_digits s = (let ds = takeWhile is_digit s in if ds = [] then None else Some (parse_nat ds, dropWhile is_digit s))"

definition read_count :: "string \<Rightarrow> (nat \<times> string)" where
  "read_count s = (case strip_prefix '','' s of
      None \<Rightarrow> (1, s)
    | Some r \<Rightarrow> (case read_digits r of None \<Rightarrow> (1, s) | Some (n, r2) \<Rightarrow> (n, r2)))"

definition hunk_at :: "string \<Rightarrow> (nat \<times> nat \<times> nat) option" where
  "hunk_at s = Option.bind (strip_prefix ''@@ -'' s) (\<lambda>s1.
     Option.bind (read_digits s1) (\<lambda>(_, s2).
       let (old, s3) = read_count s2 in
       Option.bind (strip_prefix '' +'' s3) (\<lambda>s4.
         Option.bind (read_digits s4) (\<lambda>(start, s5).
           let (new, s6) = read_count s5 in
           Option.bind (strip_prefix '' @@'' s6) (\<lambda>_. Some (old, start, new))))))"

text \<open>\<open>raw.match\<close> finds the first place where the expression matches.\<close>

fun hunk_header :: "string \<Rightarrow> (nat \<times> nat \<times> nat) option" where
  "hunk_header [] = None"
| "hunk_header (c # s) = (case hunk_at (c # s) of Some h \<Rightarrow> Some h | None \<Rightarrow> hunk_header s)"

text \<open>The name in a \<open>+++\<close> header, \<open>/^\+\+\+ (?:b\/)?(.+)$/\<close>: \<open>.\<close> matches no line terminator.\<close>

definition dots :: "string \<Rightarrow> bool" where
  "dots s \<longleftrightarrow> s \<noteq> [] \<and> CHR 0x0D \<notin> set s \<and> newline \<notin> set s"

definition target_name :: "string \<Rightarrow> string option" where
  "target_name s = (case strip_prefix ''b/'' s of
      Some r \<Rightarrow> if dots r then Some r else if dots s then Some s else None
    | None \<Rightarrow> if dots s then Some s else None)"

record added_line =
  al_file :: string
  al_lineNo :: int
  al_content :: string

text \<open>The counters are \<open>undefined\<close>, and stay \<open>NaN\<close>, until a header with a range sets them.\<close>

record diff_state =
  ds_file :: "string option"
  ds_lineNo :: int
  ds_inHunk :: bool
  ds_old :: "int option"
  ds_new :: "int option"
  ds_out :: "added_line list"

definition diff_start :: diff_state where
  "diff_start = \<lparr>ds_file = None, ds_lineNo = 0, ds_inHunk = False, ds_old = None, ds_new = None, ds_out = []\<rparr>"

definition dec :: "int option \<Rightarrow> int option" where
  "dec n = map_option (\<lambda>k. k - 1) n"

definition close_hunk :: "diff_state \<Rightarrow> diff_state" where
  "close_hunk st = (if ds_inHunk st \<and> ds_old st = Some 0 \<and> ds_new st = Some 0 then st\<lparr>ds_inHunk := False\<rparr> else st)"

definition open_hunk :: "string \<Rightarrow> diff_state \<Rightarrow> diff_state" where
  "open_hunk raw st = (case hunk_header raw of
      Some (old, start, new) \<Rightarrow>
        st\<lparr>ds_old := Some (int old), ds_lineNo := int start - 1, ds_new := Some (int new), ds_inHunk := True\<rparr>
    | None \<Rightarrow> st\<lparr>ds_inHunk := True\<rparr>)"

definition add_line :: "string \<Rightarrow> diff_state \<Rightarrow> diff_state" where
  "add_line content st =
     (let n = ds_lineNo st + 1 in
      st\<lparr>ds_lineNo := n, ds_new := dec (ds_new st),
        ds_out := (case ds_file st of None \<Rightarrow> ds_out st
          | Some f \<Rightarrow> ds_out st @ [\<lparr>al_file = f, al_lineNo = n, al_content = content\<rparr>])\<rparr>)"

definition diff_line :: "string \<Rightarrow> diff_state \<Rightarrow> diff_state" where
  "diff_line raw st0 =
     (if starts_with raw ''diff --git '' then st0\<lparr>ds_inHunk := False\<rparr>
      else let st = close_hunk st0 in
        if \<not> ds_inHunk st \<and> starts_with raw ''+++ '' then st\<lparr>ds_file := target_name (drop 4 raw), ds_lineNo := 0\<rparr>
        else if starts_with raw ''@@'' then open_hunk raw st
        else if \<not> ds_inHunk st then st
        else if starts_with raw '' '' then
          st\<lparr>ds_lineNo := ds_lineNo st + 1, ds_old := dec (ds_old st), ds_new := dec (ds_new st)\<rparr>
        else if starts_with raw ''-'' then st\<lparr>ds_old := dec (ds_old st)\<rparr>
        else if starts_with raw ''+'' then add_line (drop 1 raw) st
        else st)"

definition parseAddedLines :: "string \<Rightarrow> added_line list" where
  "parseAddedLines diffText = ds_out (fold diff_line (split_on newline diffText) diff_start)"

section \<open>The format\<close>

text \<open>A diff as \<open>git -c core.quotepath=false diff\<close> (\<^verbatim>\<open>packages/core/lib/git.mjs\<close>, \<open>gitDiff\<close>) prints it with
  the default prefixes: per file some header lines, the line of the new side's name when the file has
  hunks (\<^verbatim>\<open>/dev/null\<close> for a deleted file), and hunks whose header declares the lines of each side that
  follow.\<close>

datatype body_line = Ctx string | Del string | Add string | NoNewline

record hunk =
  hk_oldStart :: nat
  hk_newStart :: nat
  hk_section :: string
  hk_body :: "body_line list"

record file_diff =
  fd_header :: "string list"
  fd_name :: string
  fd_hunks :: "hunk list"
  fd_deleted :: bool

fun old_size :: "body_line list \<Rightarrow> nat" where
  "old_size [] = 0"
| "old_size (b # bs) = (case b of Ctx _ \<Rightarrow> 1 | Del _ \<Rightarrow> 1 | _ \<Rightarrow> 0) + old_size bs"

fun new_size :: "body_line list \<Rightarrow> nat" where
  "new_size [] = 0"
| "new_size (b # bs) = (case b of Ctx _ \<Rightarrow> 1 | Add _ \<Rightarrow> 1 | _ \<Rightarrow> 0) + new_size bs"

fun body_text :: "body_line \<Rightarrow> string" where
  "body_text (Ctx s) = CHR '' '' # s"
| "body_text (Del s) = CHR ''-'' # s"
| "body_text (Add s) = CHR ''+'' # s"
| "body_text NoNewline = CHR 0x5C # '' No newline at end of file''"

definition count_text :: "nat \<Rightarrow> string" where
  "count_text n = (if n = 1 then [] else CHR '','' # show_nat n)"

definition hunk_text :: "hunk \<Rightarrow> string" where
  "hunk_text h = ''@@ -'' @ show_nat (hk_oldStart h) @ count_text (old_size (hk_body h)) @ '' +''
     @ show_nat (hk_newStart h) @ count_text (new_size (hk_body h)) @ '' @@'' @ hk_section h"

text \<open>The spelling of a name. A name with a control character, a double quote or a backslash is quoted
  as in C; a tab follows a spelling that holds a space.\<close>

definition tab :: char where
  "tab = CHR 0x09"

definition quoted_char :: "char \<Rightarrow> bool" where
  "quoted_char c \<longleftrightarrow> c = CHR 0x22 \<or> c = CHR 0x5C \<or> code c < 32 \<or> code c = 127"

definition escape_letters :: "(char \<times> char) list" where
  "escape_letters = [(CHR 0x07, CHR ''a''), (CHR 0x08, CHR ''b''), (CHR 0x09, CHR ''t''), (CHR 0x0A, CHR ''n''),
     (CHR 0x0B, CHR ''v''), (CHR 0x0C, CHR ''f''), (CHR 0x0D, CHR ''r''), (CHR 0x22, CHR 0x22), (CHR 0x5C, CHR 0x5C)]"

definition octal :: "nat \<Rightarrow> string" where
  "octal n = map (\<lambda>d. ''01234567'' ! (d mod 8)) [n div 64, n div 8, n]"

definition escape_char :: "char \<Rightarrow> string" where
  "escape_char c = (if \<not> quoted_char c then [c]
     else case map_of escape_letters c of Some l \<Rightarrow> [CHR 0x5C, l] | None \<Rightarrow> CHR 0x5C # octal (code c))"

definition quoted_name :: "string \<Rightarrow> bool" where
  "quoted_name name \<longleftrightarrow> list_ex quoted_char name"

definition name_label :: "file_diff \<Rightarrow> string" where
  "name_label f =
     (if fd_deleted f then ''/dev/null''
      else if quoted_name (fd_name f) then CHR 0x22 # ''b/'' @ concat (map escape_char (fd_name f)) @ [CHR 0x22]
      else ''b/'' @ fd_name f)"

definition name_tab :: "file_diff \<Rightarrow> string" where
  "name_tab f = (if CHR '' '' \<in> set (name_label f) then [tab] else [])"

definition file_lines :: "file_diff \<Rightarrow> string list" where
  "file_lines f = fd_header f
     @ (if fd_hunks f = [] then [] else [''+++ '' @ name_label f @ name_tab f])
     @ concat (map (\<lambda>h. hunk_text h # map body_text (hk_body h)) (fd_hunks f))"

definition diff_text :: "file_diff list \<Rightarrow> string" where
  "diff_text fs = concat (map (\<lambda>l. l @ [newline]) (concat (map file_lines fs)))"

text \<open>What the diff adds: the lines of the new side, numbered from the start of their hunk.\<close>

fun body_added :: "string \<Rightarrow> int \<Rightarrow> body_line list \<Rightarrow> added_line list" where
  "body_added f n [] = []"
| "body_added f n (Ctx s # bs) = body_added f (n + 1) bs"
| "body_added f n (Add s # bs) = \<lparr>al_file = f, al_lineNo = n, al_content = s\<rparr> # body_added f (n + 1) bs"
| "body_added f n (Del s # bs) = body_added f n bs"
| "body_added f n (NoNewline # bs) = body_added f n bs"

text \<open>The name as the reader has it: it takes the prefix off a plain spelling, and nothing else.\<close>

definition read_name :: "file_diff \<Rightarrow> string" where
  "read_name f =
     (if fd_deleted f \<or> quoted_name (fd_name f) then name_label f else fd_name f) @ name_tab f"

definition plain_name :: "string \<Rightarrow> bool" where
  "plain_name name \<longleftrightarrow> CHR '' '' \<notin> set name \<and> \<not> quoted_name name"

definition added_of :: "file_diff list \<Rightarrow> added_line list" where
  "added_of fs = concat (map (\<lambda>f. concat (map (\<lambda>h. body_added (read_name f) (int (hk_newStart h)) (hk_body h)) (fd_hunks f))) fs)"

text \<open>The lines hold no line feed, a header line is not the start of a hunk or of a name, a file has a name,
  and a deleted file has no lines on the new side: all of which git's output has. The content of the
  body lines is arbitrary, and so are the characters of the name.\<close>

definition body_content :: "body_line \<Rightarrow> string" where
  "body_content b = tl (body_text b)"

definition header_line :: "string \<Rightarrow> bool" where
  "header_line l \<longleftrightarrow> newline \<notin> set l \<and> \<not> starts_with l ''+++ '' \<and> \<not> starts_with l ''@@''"

definition wf_file_diff :: "file_diff \<Rightarrow> bool" where
  "wf_file_diff f \<longleftrightarrow> list_all header_line (fd_header f) \<and> fd_name f \<noteq> []
     \<and> (fd_deleted f \<longrightarrow> list_all (\<lambda>h. new_size (hk_body h) = 0) (fd_hunks f))
     \<and> list_all (\<lambda>h. newline \<notin> set (hk_section h) \<and> list_all (\<lambda>b. newline \<notin> set (body_content b)) (hk_body h)) (fd_hunks f)"

section \<open>The reader inverts the format\<close>

lemma strip_prefix_append [simp]: "strip_prefix p (p @ s) = Some s"
  by (simp add: strip_prefix_def)

lemma read_digits_show:
  assumes "s = [] \<or> \<not> is_digit (hd s)"
  shows "read_digits (show_nat n @ s) = Some (n, s)"
proof -
  have a: "takeWhile is_digit (show_nat n @ s) = show_nat n" "dropWhile is_digit (show_nat n @ s) = s"
    using show_nat_digits [of n] assms by (cases s; simp add: list_all_iff takeWhile_append2 dropWhile_append2)+
  show ?thesis using show_nat_digits [of n] by (simp add: read_digits_def a Let_def)
qed

lemma read_count_text:
  assumes "starts_with s '' ''"
  shows "read_count (count_text n @ s) = (n, s)"
proof -
  obtain r where s: "s = CHR '' '' # r" using assms by (auto simp: starts_with_iff)
  have d: "read_digits (show_nat n @ s) = Some (n, s)" by (rule read_digits_show) (simp add: s is_digit_def)
  show ?thesis
  proof (cases "n = 1")
    case True
    then show ?thesis by (simp add: count_text_def read_count_def strip_prefix_def starts_with_def s)
  next
    case False
    have "strip_prefix '','' (CHR '','' # show_nat n @ s) = Some (show_nat n @ s)"
      using strip_prefix_append [of "'','' " "show_nat n @ s"] by (simp add: strip_prefix_def starts_with_def)
    with False d show ?thesis by (simp add: count_text_def read_count_def)
  qed
qed

lemma starts_with_simps [simp]:
  "starts_with w []" "\<not> starts_with [] (d # p)" "starts_with (c # w) (d # p) \<longleftrightarrow> c = d \<and> starts_with w p"
  by (simp_all add: starts_with_def)

lemma count_text_hd: "count_text n @ CHR '' '' # r \<noteq> [] \<and> \<not> is_digit (hd (count_text n @ CHR '' '' # r))"
  by (simp add: count_text_def is_digit_def)

lemma hunk_at_text: "hunk_at (hunk_text h) = Some (old_size (hk_body h), hk_newStart h, new_size (hk_body h))"
proof -
  let ?tail = "'' @@'' @ hk_section h"
  let ?c2 = "count_text (new_size (hk_body h)) @ ?tail"
  let ?c1 = "count_text (old_size (hk_body h)) @ '' +'' @ show_nat (hk_newStart h) @ ?c2"
  have "hunk_text h = ''@@ -'' @ show_nat (hk_oldStart h) @ ?c1" by (simp add: hunk_text_def)
  moreover have "strip_prefix ''@@ -'' (''@@ -'' @ show_nat (hk_oldStart h) @ ?c1) = Some (show_nat (hk_oldStart h) @ ?c1)"
    by (rule strip_prefix_append)
  moreover have "read_digits (show_nat (hk_oldStart h) @ ?c1) = Some (hk_oldStart h, ?c1)"
    by (rule read_digits_show) (use count_text_hd in simp)
  moreover have "read_count ?c1 = (old_size (hk_body h), '' +'' @ show_nat (hk_newStart h) @ ?c2)"
    by (rule read_count_text) simp
  moreover have "strip_prefix '' +'' ('' +'' @ show_nat (hk_newStart h) @ ?c2) = Some (show_nat (hk_newStart h) @ ?c2)"
    by (rule strip_prefix_append)
  moreover have "read_digits (show_nat (hk_newStart h) @ ?c2) = Some (hk_newStart h, ?c2)"
    by (rule read_digits_show) (use count_text_hd in simp)
  moreover have "read_count ?c2 = (new_size (hk_body h), ?tail)"
    by (rule read_count_text) simp
  moreover have "strip_prefix '' @@'' ?tail = Some (hk_section h)" by (rule strip_prefix_append)
  ultimately show ?thesis by (simp only: hunk_at_def bind.simps Let_def split_beta fst_conv snd_conv)
qed

lemma hunk_header_text: "hunk_header (hunk_text h) = Some (old_size (hk_body h), hk_newStart h, new_size (hk_body h))"
proof -
  obtain c s where t: "hunk_text h = c # s" by (simp add: hunk_text_def)
  show ?thesis using hunk_at_text [of h] by (simp add: t)
qed

text \<open>Between hunks the reader is outside, or inside a hunk whose lines are all read.\<close>

definition between_hunks :: "diff_state \<Rightarrow> bool" where
  "between_hunks st \<longleftrightarrow> (ds_inHunk st \<longrightarrow> ds_old st = Some 0 \<and> ds_new st = Some 0)"

lemma close_between: "between_hunks st \<Longrightarrow> close_hunk st = st\<lparr>ds_inHunk := False\<rparr>"
  by (cases st) (auto simp: between_hunks_def close_hunk_def)

lemma dec_int [simp]: "dec (Some (1 + int k)) = Some (int k)"
  by (simp add: dec_def)

definition in_body :: "string \<Rightarrow> int \<Rightarrow> body_line list \<Rightarrow> diff_state \<Rightarrow> bool" where
  "in_body f n bs st \<longleftrightarrow> ds_file st = Some f \<and> ds_lineNo st = n - 1 \<and> ds_old st = Some (int (old_size bs))
     \<and> ds_new st = Some (int (new_size bs)) \<and> (ds_inHunk st \<or> old_size bs = 0 \<and> new_size bs = 0)"

lemma close_in_body: "in_body f n bs st \<Longrightarrow> 0 < old_size bs \<or> 0 < new_size bs \<Longrightarrow> close_hunk st = st \<and> ds_inHunk st"
  by (auto simp: in_body_def close_hunk_def)

lemma body_line_step:
  assumes i: "in_body f n (b # bs) st"
  shows "ds_out (diff_line (body_text b) st) = ds_out st @ body_added f n [b]
    \<and> in_body f (n + (case b of Ctx _ \<Rightarrow> 1 | Add _ \<Rightarrow> 1 | _ \<Rightarrow> 0)) bs (diff_line (body_text b) st)"
proof (cases b)
  case (Ctx s)
  with close_in_body [OF i] have c: "close_hunk st = st" "ds_inHunk st" by auto
  from i show ?thesis unfolding Ctx by (simp add: diff_line_def c Let_def in_body_def)
next
  case (Del s)
  with close_in_body [OF i] have c: "close_hunk st = st" "ds_inHunk st" by auto
  from i show ?thesis unfolding Del by (simp add: diff_line_def c Let_def in_body_def)
next
  case (Add s)
  with close_in_body [OF i] have c: "close_hunk st = st" "ds_inHunk st" by auto
  from i show ?thesis unfolding Add by (simp add: diff_line_def c Let_def in_body_def add_line_def)
next
  case NoNewline
  from i show ?thesis unfolding NoNewline by (auto simp: diff_line_def Let_def in_body_def close_hunk_def)
qed

lemma body_lines:
  "in_body f n bs st \<Longrightarrow>
    ds_out (fold diff_line (map body_text bs) st) = ds_out st @ body_added f n bs
    \<and> ds_file (fold diff_line (map body_text bs) st) = Some f \<and> between_hunks (fold diff_line (map body_text bs) st)"
proof (induction bs arbitrary: n st)
  case Nil
  then show ?case by (simp add: in_body_def between_hunks_def)
next
  case (Cons b bs)
  let ?n = "n + (case b of Ctx _ \<Rightarrow> 1 | Add _ \<Rightarrow> 1 | _ \<Rightarrow> 0)"
  from body_line_step [OF Cons.prems] have o: "ds_out (diff_line (body_text b) st) = ds_out st @ body_added f n [b]"
    and i: "in_body f ?n bs (diff_line (body_text b) st)" by auto
  have "body_added f n (b # bs) = body_added f n [b] @ body_added f ?n bs" by (cases b) simp_all
  with Cons.IH [OF i] o show ?case by simp
qed

lemma hunk_line:
  assumes "between_hunks st" and "ds_file st = Some f"
  shows "in_body f (int (hk_newStart h)) (hk_body h) (diff_line (hunk_text h) st) \<and> ds_out (diff_line (hunk_text h) st) = ds_out st"
proof -
  have s: "\<not> starts_with (hunk_text h) ''diff --git ''" "\<not> starts_with (hunk_text h) ''+++ ''" "starts_with (hunk_text h) ''@@''"
    by (simp_all add: hunk_text_def)
  show ?thesis using assms
    by (simp add: diff_line_def s close_between open_hunk_def hunk_header_text in_body_def Let_def)
qed

lemma hunks_lines:
  "between_hunks st \<Longrightarrow> ds_file st = Some f \<Longrightarrow>
    ds_out (fold diff_line (concat (map (\<lambda>h. hunk_text h # map body_text (hk_body h)) hs)) st)
      = ds_out st @ concat (map (\<lambda>h. body_added f (int (hk_newStart h)) (hk_body h)) hs)
    \<and> between_hunks (fold diff_line (concat (map (\<lambda>h. hunk_text h # map body_text (hk_body h)) hs)) st)"
proof (induction hs arbitrary: st)
  case (Cons h hs)
  let ?u = "diff_line (hunk_text h) st"
  from hunk_line [OF Cons.prems, of h] have "in_body f (int (hk_newStart h)) (hk_body h) ?u" and o: "ds_out ?u = ds_out st"
    by auto
  from body_lines [OF this(1)] o Cons.IH show ?case by simp
qed simp

lemma header_lines:
  "list_all header_line ls \<Longrightarrow> between_hunks st \<Longrightarrow>
    ds_out (fold diff_line ls st) = ds_out st \<and> between_hunks (fold diff_line ls st)"
proof (induction ls arbitrary: st)
  case (Cons l ls)
  have "ds_out (diff_line l st) = ds_out st \<and> between_hunks (diff_line l st)"
    using Cons.prems by (simp add: header_line_def diff_line_def close_between Let_def between_hunks_def)
  with Cons show ?case by simp
qed simp

text \<open>The spelling holds no line terminator, and no character is lost by it.\<close>

lemma octal_chars: "set (octal n) \<subseteq> set ''01234567''"
proof -
  have "''01234567'' ! (d mod 8) \<in> set ''01234567''" for d :: nat
    by (rule nth_mem) simp
  then show ?thesis unfolding octal_def set_map by (intro image_subsetI)
qed

lemma unquoted_clean: "\<not> quoted_char c \<Longrightarrow> c \<noteq> newline \<and> c \<noteq> CHR 0x0D"
  by (auto simp: quoted_char_def newline_def code_def)

lemma escape_char_clean: "newline \<notin> set (escape_char c) \<and> CHR 0x0D \<notin> set (escape_char c)"
proof (cases "quoted_char c")
  case True
  show ?thesis
  proof (cases "map_of escape_letters c")
    case None
    then show ?thesis using True octal_chars [of "code c"] by (auto simp: escape_char_def newline_def)
  next
    case (Some l)
    then have "(c, l) \<in> set escape_letters" by (rule map_of_SomeD)
    then have "l \<noteq> newline \<and> l \<noteq> CHR 0x0D" by (auto simp: escape_letters_def newline_def)
    then show ?thesis using True Some by (auto simp: escape_char_def newline_def)
  qed
next
  case False
  with unquoted_clean [OF False] show ?thesis by (auto simp: escape_char_def)
qed

lemma label_clean: "newline \<notin> set (name_label f @ name_tab f) \<and> CHR 0x0D \<notin> set (name_label f @ name_tab f)"
proof -
  have t: "newline \<notin> set (name_tab f) \<and> CHR 0x0D \<notin> set (name_tab f)"
    by (simp add: name_tab_def tab_def newline_def)
  consider "fd_deleted f" | "\<not> fd_deleted f" "quoted_name (fd_name f)" | "\<not> fd_deleted f" "\<not> quoted_name (fd_name f)" by blast
  then have "newline \<notin> set (name_label f) \<and> CHR 0x0D \<notin> set (name_label f)"
  proof cases
    case 1
    then show ?thesis by (simp add: name_label_def newline_def)
  next
    case 2
    have "newline \<notin> set (concat (map escape_char (fd_name f))) \<and> CHR 0x0D \<notin> set (concat (map escape_char (fd_name f)))"
      by (simp add: escape_char_clean)
    moreover have "newline \<noteq> CHR 0x22" "newline \<noteq> CHR ''b''" "newline \<noteq> CHR ''/''" by (simp_all add: newline_def)
    ultimately show ?thesis using 2 by (simp add: name_label_def del: set_concat)
  next
    case 3
    then have "\<not> quoted_char c" if "c \<in> set (fd_name f)" for c
      using that by (simp add: quoted_name_def list_ex_iff)
    then have "newline \<notin> set (fd_name f)" "CHR 0x0D \<notin> set (fd_name f)" using unquoted_clean by blast+
    moreover have "newline \<noteq> CHR ''b''" "newline \<noteq> CHR ''/''" by (simp_all add: newline_def)
    ultimately show ?thesis using 3 by (simp add: name_label_def)
  qed
  with t show ?thesis by simp
qed

lemma escape_length: "length name \<le> length (concat (map escape_char name))"
proof (induction name)
  case (Cons c name)
  have "1 \<le> length (escape_char c)" by (simp add: escape_char_def octal_def split: option.split)
  with Cons show ?case by simp
qed simp

lemma read_name_plain:
  assumes "\<not> fd_deleted f"
  shows "read_name f = fd_name f \<longleftrightarrow> plain_name (fd_name f)"
proof (cases "quoted_name (fd_name f)")
  case True
  have "length (fd_name f) < length (read_name f)"
    using True assms escape_length [of "fd_name f"] by (simp add: read_name_def name_label_def)
  then show ?thesis using True by (auto simp: plain_name_def)
next
  case False
  then show ?thesis using assms by (simp add: read_name_def name_tab_def name_label_def plain_name_def)
qed

lemma name_line:
  assumes "fd_name f \<noteq> []" and "between_hunks st"
  shows "ds_out (diff_line (''+++ '' @ name_label f @ name_tab f) st) = ds_out st
    \<and> between_hunks (diff_line (''+++ '' @ name_label f @ name_tab f) st)
    \<and> ds_file (diff_line (''+++ '' @ name_label f @ name_tab f) st) = Some (read_name f)"
proof -
  have d: "dots (name_label f @ name_tab f)"
    using label_clean [of f] by (simp add: dots_def name_label_def)
  have "target_name (name_label f @ name_tab f) = Some (read_name f)"
  proof (cases "fd_deleted f \<or> quoted_name (fd_name f)")
    case True
    then have "strip_prefix ''b/'' (name_label f @ name_tab f) = None"
      by (auto simp: name_label_def strip_prefix_def)
    then show ?thesis using True d by (simp add: target_name_def read_name_def)
  next
    case False
    then have l: "name_label f @ name_tab f = ''b/'' @ read_name f" by (simp add: name_label_def read_name_def)
    have "dots (read_name f)"
      using False assms(1) label_clean [of f] unfolding l by (simp add: dots_def read_name_def)
    then show ?thesis unfolding l by (simp only: target_name_def strip_prefix_append option.case if_True)
  qed
  with assms(2) show ?thesis by (simp add: diff_line_def close_between Let_def between_hunks_def)
qed

lemma file_step:
  assumes "wf_file_diff f" and "between_hunks st"
  shows "ds_out (fold diff_line (file_lines f) st)
      = ds_out st @ concat (map (\<lambda>h. body_added (read_name f) (int (hk_newStart h)) (hk_body h)) (fd_hunks f))
    \<and> between_hunks (fold diff_line (file_lines f) st)"
proof -
  let ?u = "fold diff_line (fd_header f) st"
  have u: "ds_out ?u = ds_out st" "between_hunks ?u"
    using header_lines [of "fd_header f" st] assms by (simp_all add: wf_file_diff_def)
  show ?thesis
  proof (cases "fd_hunks f = []")
    case True
    with u show ?thesis by (simp add: file_lines_def)
  next
    case False
    have "fd_name f \<noteq> []" using assms(1) by (simp add: wf_file_diff_def)
    from name_line [OF this u(2)] hunks_lines u(1) False show ?thesis by (simp add: file_lines_def)
  qed
qed

lemma files_step:
  "list_all wf_file_diff fs \<Longrightarrow> between_hunks st \<Longrightarrow>
    ds_out (fold diff_line (concat (map file_lines fs)) st) = ds_out st @ added_of fs
    \<and> between_hunks (fold diff_line (concat (map file_lines fs)) st)"
proof (induction fs arbitrary: st)
  case (Cons f fs)
  with file_step [of f st] show ?case by (simp add: added_of_def)
qed (simp add: added_of_def)

lemma split_lines:
  "\<forall>l\<in>set ls. newline \<notin> set l \<Longrightarrow> split_on newline (concat (map (\<lambda>l. l @ [newline]) ls)) = ls @ [[]]"
  by (induction ls) (simp_all add: split_on_append)

lemma digits_no_newline: "newline \<notin> set (show_nat n)" "newline \<notin> set (count_text n)"
proof -
  have "\<not> is_digit newline" by (simp add: is_digit_def newline_def)
  then show "newline \<notin> set (show_nat n)" using show_nat_digits [of n] by (auto simp: list_all_iff)
  then show "newline \<notin> set (count_text n)" by (simp add: count_text_def newline_def)
qed

lemma body_text_split: "body_text b = hd (body_text b) # body_content b" "hd (body_text b) \<noteq> newline"
  by (cases b; simp add: body_content_def newline_def)+

lemma file_no_newline:
  assumes "wf_file_diff f" and "l \<in> set (file_lines f)"
  shows "newline \<notin> set l"
proof -
  have h: "newline \<notin> set (hunk_text h)" if "newline \<notin> set (hk_section h)" for h
    using that digits_no_newline by (simp add: hunk_text_def) (simp add: newline_def)
  have b: "newline \<notin> set (body_text b)" if "newline \<notin> set (body_content b)" for b
    using that body_text_split [of b] by (metis set_ConsD)
  have n: "newline \<notin> set (''+++ '' @ name_label f @ name_tab f)"
    using label_clean [of f] by simp (simp add: newline_def)
  from assms(2) consider "l \<in> set (fd_header f)" | "l = ''+++ '' @ name_label f @ name_tab f"
    | hk where "hk \<in> set (fd_hunks f)" "l = hunk_text hk"
    | hk bl where "hk \<in> set (fd_hunks f)" "bl \<in> set (hk_body hk)" "l = body_text bl"
    unfolding file_lines_def by (auto simp del: append.simps split: if_splits)
  then show ?thesis
  proof cases
    case 1
    with assms(1) show ?thesis by (auto simp: wf_file_diff_def header_line_def list_all_iff)
  next
    case 2
    with n show ?thesis by simp
  next
    case 3
    with assms(1) h show ?thesis by (auto simp: wf_file_diff_def list_all_iff)
  next
    case 4
    with assms(1) b show ?thesis by (auto simp: wf_file_diff_def list_all_iff)
  qed
qed

lemma parse_diff:
  assumes "list_all wf_file_diff fs"
  shows "parseAddedLines (diff_text fs) = added_of fs"
proof -
  have nl: "\<forall>l\<in>set (concat (map file_lines fs)). newline \<notin> set l"
    using assms file_no_newline by (auto simp: list_all_iff)
  have o: "ds_out (diff_line [] st) = ds_out st" for st
    by (simp add: diff_line_def close_hunk_def Let_def)
  have "between_hunks diff_start" by (simp add: between_hunks_def diff_start_def)
  from files_step [OF assms this] have "ds_out (fold diff_line (concat (map file_lines fs)) diff_start) = added_of fs"
    by (simp add: diff_start_def)
  then show ?thesis unfolding parseAddedLines_def diff_text_def split_lines [OF nl] by (simp add: o)
qed

text \<open>C24: the reader attributes added lines exactly. On every diff in the format of git (deleted files,
  quoted names and names with spaces included), whatever the added, removed and context lines contain, it
  returns the added lines with the line number of the new side and the name of their file as the diff
  spells it, in order, and nothing else. Lines such as \<open>++ x;\<close> or \<open>-- x\<close>, which look like a header once they
  are prefixed, change nothing, and neither does a missing \<open>diff --git\<close> line between two files. The spelling
  is the name itself exactly for the files whose name holds no space and no character that git quotes:
  the reader keeps the tab git writes after a name with a space, and it does not unquote.\<close>

theorem parseAddedLines_roundtrip:
  assumes "list_all wf_file_diff fs"
  shows "parseAddedLines (diff_text fs) = added_of fs
    \<and> (\<forall>f\<in>set fs. \<not> fd_deleted f \<longrightarrow> (read_name f = fd_name f \<longleftrightarrow> plain_name (fd_name f)))"
  using parse_diff [OF assms] read_name_plain by blast

definition ex_diff :: "file_diff list" where
  "ex_diff = [\<lparr>fd_header = [''diff --git a/x.js b/x.js'', ''--- a/x.js''], fd_name = ''x.js'',
       fd_hunks = [\<lparr>hk_oldStart = 3, hk_newStart = 3, hk_section = '' f()'',
         hk_body = [Ctx ''a'', Del ''- old'', Add ''++ evil;'', Add ''it.skip(1)'', NoNewline]\<rparr>], fd_deleted = False\<rparr>,
     \<lparr>fd_header = [''--- a/old.js''], fd_name = ''old.js'',
       fd_hunks = [\<lparr>hk_oldStart = 1, hk_newStart = 0, hk_section = [], hk_body = [Del ''gone'']\<rparr>], fd_deleted = True\<rparr>,
     \<lparr>fd_header = [], fd_name = ''my y.md'',
       fd_hunks = [\<lparr>hk_oldStart = 1, hk_newStart = 1, hk_section = [], hk_body = [Add ''.skip('']\<rparr>], fd_deleted = False\<rparr>]"

lemma ex_diff_wf: "list_all wf_file_diff ex_diff"
  by (simp add: ex_diff_def wf_file_diff_def header_line_def body_content_def newline_def)

lemma ex_diff_added:
  "added_of ex_diff =
     [\<lparr>al_file = ''x.js'', al_lineNo = 4, al_content = ''++ evil;''\<rparr>,
      \<lparr>al_file = ''x.js'', al_lineNo = 5, al_content = ''it.skip(1)''\<rparr>,
      \<lparr>al_file = ''my y.md'' @ [tab], al_lineNo = 1, al_content = ''.skip(''\<rparr>]"
  by code_simp

theorem parseAddedLines_roundtrip_witness:
  "parseAddedLines (diff_text ex_diff) =
     [\<lparr>al_file = ''x.js'', al_lineNo = 4, al_content = ''++ evil;''\<rparr>,
      \<lparr>al_file = ''x.js'', al_lineNo = 5, al_content = ''it.skip(1)''\<rparr>,
      \<lparr>al_file = ''my y.md'' @ [tab], al_lineNo = 1, al_content = ''.skip(''\<rparr>]"
  using parseAddedLines_roundtrip [OF ex_diff_wf] by (simp add: ex_diff_added)

end
