(* ===== verification/RailVersion.thy ===== *)
theory RailVersion
  imports RailDiff JsValue
begin

text \<open>
  The version-only exemption of rails-guard (\<^verbatim>\<open>packages/rails-guard/lib/version-only.mjs\<close>): a release
  rewrites the version of every manifest, and such an edit of a frozen manifest is no rail edit.
  \<open>isVersionOnlyChange\<close> decides it on the two texts of the manifest. \<open>JSON.parse\<close>,
  \<open>JSON.stringify(v, null, 2)\<close> and the UTF-8 round trip of a text are the fields of a codec. The keys of the
  code's path maps are pairs of a letter and the JSON text of a path, and their values JSON texts of key lists
  or of atoms; here they are the path, the key list and the atom themselves, which their JSON texts determine.
\<close>

record text_codec =
  tc_parse :: "string \<Rightarrow> jsval option"
  tc_pretty :: "jsval \<Rightarrow> string"
  tc_utf8 :: "string \<Rightarrow> string"

section \<open>Versions and ranges\<close>

definition is_num :: "string \<Rightarrow> bool" where
  "is_num s \<longleftrightarrow> s = ''0'' \<or> s \<noteq> [] \<and> list_all is_digit s \<and> hd s \<noteq> CHR ''0''"

definition is_letter :: "char \<Rightarrow> bool" where
  "is_letter c \<longleftrightarrow> (65 \<le> code c \<and> code c \<le> 90) \<or> (97 \<le> code c \<and> code c \<le> 122)"

definition id_char :: "char \<Rightarrow> bool" where
  "id_char c \<longleftrightarrow> is_digit c \<or> is_letter c \<or> c = CHR ''-''"

definition is_pre_id :: "string \<Rightarrow> bool" where
  "is_pre_id s \<longleftrightarrow> is_num s \<or> list_all id_char s \<and> list_ex (\<lambda>c. \<not> is_digit c) s"

definition is_build :: "string \<Rightarrow> bool" where
  "is_build s \<longleftrightarrow> list_all (\<lambda>p. p \<noteq> [] \<and> list_all id_char p) (split_on CHR ''.'' s)"

definition version_core :: "string \<Rightarrow> string" where
  "version_core s = takeWhile (\<lambda>c. c \<noteq> CHR ''-'' \<and> c \<noteq> CHR ''+'') s"

text \<open>\<open>VERSION_RE\<close>. The core holds no \<open>-\<close> and no \<open>+\<close>, and a pre-release holds no \<open>+\<close>.\<close>

definition is_semver :: "string \<Rightarrow> bool" where
  "is_semver s \<longleftrightarrow>
     (let parts = split_on CHR ''.'' (version_core s); rest = drop (length (version_core s)) s in
      length parts = 3 \<and> list_all is_num parts \<and>
      (case rest of
         [] \<Rightarrow> True
       | c # r \<Rightarrow>
           if c = CHR ''+'' then is_build r
           else let pre = takeWhile (\<lambda>c. c \<noteq> CHR ''+'') r; build = drop (length pre) r in
             list_all is_pre_id (split_on CHR ''.'' pre) \<and> (build = [] \<or> is_build (tl build))))"

definition isVersion :: "jsval \<Rightarrow> bool" where
  "isVersion v = (case v of
      VStr s \<Rightarrow> length s \<le> 256 \<and> is_semver s
        \<and> list_all (\<lambda>p. length p \<le> 16 \<and> int (parse_nat p) \<le> 9007199254740991) (split_on CHR ''.'' (version_core s))
    | _ \<Rightarrow> False)"

definition range_operator :: "string \<Rightarrow> string" where
  "range_operator s = (case s of c # _ \<Rightarrow> if c = CHR ''^'' \<or> c = CHR ''~'' then [c] else [] | [] \<Rightarrow> [])"

definition splitRange :: "jsval \<Rightarrow> (string \<times> string) option" where
  "splitRange v = (case v of
      VStr s \<Rightarrow>
        (let r = range_operator s; version = drop (length r) s
         in if is_semver version \<and> isVersion (VStr version) then Some (r, version) else None)
    | _ \<Rightarrow> None)"

section \<open>Paths\<close>

definition MANIFEST_BASENAMES :: "string list" where
  "MANIFEST_BASENAMES = [''package.json'', ''plugin.json'', ''marketplace.json'']"

definition DEP_FIELDS :: "string list" where
  "DEP_FIELDS = [''dependencies'', ''devDependencies'', ''peerDependencies'', ''optionalDependencies'']"

definition base_name :: "string \<Rightarrow> string" where
  "base_name file = last (split_on CHR ''/'' file)"

definition isManifestFile :: "string \<Rightarrow> bool" where
  "isManifestFile file \<longleftrightarrow> file \<noteq> [] \<and> base_name file \<in> set MANIFEST_BASENAMES"

definition manifestKind :: "string \<Rightarrow> string option" where
  "manifestKind file = (if base_name file \<in> set MANIFEST_BASENAMES then Some (base_name file) else None)"

definition pkg_start :: "char \<Rightarrow> bool" where
  "pkg_start c \<longleftrightarrow> is_digit c \<or> 97 \<le> code c \<and> code c \<le> 122"

definition is_adlc_pkg :: "string \<Rightarrow> bool" where
  "is_adlc_pkg s \<longleftrightarrow> (case strip_prefix ''@adlc/'' s of
      None \<Rightarrow> False
    | Some r \<Rightarrow> r \<noteq> [] \<and> pkg_start (hd r) \<and> list_all (\<lambda>c. pkg_start c \<or> c \<in> set ''._-'') (tl r))"

text \<open>The own property \<open>k\<close> of a container.\<close>

definition child :: "jsval \<Rightarrow> string \<Rightarrow> jsval option" where
  "child v k = (case v of
      VObj kvs \<Rightarrow> map_of kvs k
    | VArr xs \<Rightarrow> map_of (map (\<lambda>(i, x). (show_nat i, x)) (enumerate 0 xs)) k
    | _ \<Rightarrow> None)"

fun valueAt :: "jsval \<Rightarrow> string list \<Rightarrow> jsval" where
  "valueAt v [] = v"
| "valueAt v (k # p) = (case child v k of None \<Rightarrow> VUndefined | Some w \<Rightarrow> valueAt w p)"

datatype walk_key = KKey "string list" | VKey "string list"

datatype walk_val = Shape bool "string list" | Leaf jsval

text \<open>The text of an atom: infinite numbers are written \<open>null\<close>.\<close>

definition atom :: "jsval \<Rightarrow> jsval" where
  "atom v = (if v = VNonFinite then VNull else v)"

fun walk :: "jsval \<Rightarrow> string list \<Rightarrow> (walk_key \<times> walk_val) list"
  and walk_items :: "nat \<Rightarrow> jsval list \<Rightarrow> string list \<Rightarrow> (walk_key \<times> walk_val) list"
  and walk_fields :: "(string \<times> jsval) list \<Rightarrow> string list \<Rightarrow> (walk_key \<times> walk_val) list" where
  "walk (VArr xs) path = (KKey path, Shape True (map show_nat [0..<length xs])) # walk_items 0 xs path"
| "walk (VObj kvs) path = (KKey path, Shape False (map fst kvs)) # walk_fields kvs path"
| "walk v path = [(VKey path, Leaf (atom v))]"
| "walk_items i [] path = []"
| "walk_items i (x # xs) path = walk x (path @ [show_nat i]) @ walk_items (Suc i) xs path"
| "walk_fields [] path = []"
| "walk_fields (kv # kvs) path = walk (snd kv) (path @ [fst kv]) @ walk_fields kvs path"

definition is_arr :: "jsval \<Rightarrow> bool" where
  "is_arr v = (case v of VArr _ \<Rightarrow> True | _ \<Rightarrow> False)"

definition isMarketplaceVersionPath :: "string list \<Rightarrow> jsval \<Rightarrow> jsval \<Rightarrow> bool" where
  "isMarketplaceVersionPath path old new \<longleftrightarrow>
     path = [''metadata'', ''version'']
     \<or> (length path = 3 \<and> path ! 0 = ''plugins'' \<and> path ! 2 = ''version'' \<and> path ! 1 \<noteq> [] \<and> list_all is_digit (path ! 1)
        \<and> is_arr (js_get ''plugins'' old) \<and> is_arr (js_get ''plugins'' new))"

definition isAdlcRangePath :: "string list \<Rightarrow> bool" where
  "isAdlcRangePath path \<longleftrightarrow> length path = 2 \<and> path ! 0 \<in> set DEP_FIELDS \<and> is_adlc_pkg (path ! 1)"

definition version_path :: "string \<Rightarrow> jsval \<Rightarrow> jsval \<Rightarrow> string list \<Rightarrow> bool" where
  "version_path kind old new path \<longleftrightarrow>
     path = [''version''] \<or> kind = ''marketplace.json'' \<and> isMarketplaceVersionPath path old new"

section \<open>The decision\<close>

definition parseCanonical :: "text_codec \<Rightarrow> string \<Rightarrow> jsval option" where
  "parseCanonical tc text =
     (if tc_utf8 tc text \<noteq> text then None
      else case tc_parse tc text of
        None \<Rightarrow> None
      | Some v \<Rightarrow>
          if \<not> is_plain_obj v then None
          else if tc_pretty tc v @ [newline] \<noteq> text then None
          else Some v)"

type_synonym repin = "(string \<times> string) \<times> (string \<times> string)"

text \<open>The loop over the keys of both maps; \<open>None\<close> is an early \<open>return false\<close>.\<close>

fun diff_keys ::
  "string \<Rightarrow> jsval \<Rightarrow> jsval \<Rightarrow> (walk_key \<times> walk_val) list \<Rightarrow> (walk_key \<times> walk_val) list \<Rightarrow> walk_key list
    \<Rightarrow> bool \<times> repin list \<Rightarrow> (bool \<times> repin list) option" where
  "diff_keys kind old new bm am [] acc = Some acc"
| "diff_keys kind old new bm am (key # keys) acc =
     (if map_of bm key = map_of am key then diff_keys kind old new bm am keys acc
      else case key of
        KKey _ \<Rightarrow> None
      | VKey path \<Rightarrow>
          let from = valueAt old path; to = valueAt new path in
          if version_path kind old new path then
            (if \<not> isVersion from \<or> \<not> isVersion to then None
             else diff_keys kind old new bm am keys (if path = [''version''] then (True, snd acc) else acc))
          else if isAdlcRangePath path then
            (case (splitRange from, splitRange to) of
               (Some rFrom, Some rTo) \<Rightarrow>
                 if fst rFrom \<noteq> fst rTo then None
                 else diff_keys kind old new bm am keys (fst acc, snd acc @ [(rFrom, rTo)])
             | _ \<Rightarrow> None)
          else None)"

definition deps_locked :: "jsval \<Rightarrow> jsval \<Rightarrow> bool" where
  "deps_locked doc expected \<longleftrightarrow> list_all (\<lambda>field. case js_get field doc of
       VUndefined \<Rightarrow> True
     | VObj deps \<Rightarrow> list_all (\<lambda>(name, range). is_adlc_pkg name \<longrightarrow>
         (case splitRange range of None \<Rightarrow> False | Some r \<Rightarrow> VStr (snd r) = expected)) deps
     | _ \<Rightarrow> False) DEP_FIELDS"

definition lockstep :: "jsval \<Rightarrow> jsval \<Rightarrow> bool \<times> repin list \<Rightarrow> bool" where
  "lockstep old new acc \<longleftrightarrow>
     (let versionChanged = fst acc; repins = snd acc; oldVersion = js_get ''version'' old; newVersion = js_get ''version'' new in
      (versionChanged \<longrightarrow> isVersion oldVersion \<and> isVersion newVersion \<and> deps_locked old oldVersion \<and> deps_locked new newVersion)
      \<and> (repins \<noteq> [] \<longrightarrow> isVersion oldVersion \<and> isVersion newVersion \<and> versionChanged \<and> oldVersion \<noteq> newVersion
           \<and> list_all (\<lambda>(from, to). VStr (snd from) = oldVersion \<and> VStr (snd to) = newVersion) repins))"

definition isVersionOnlyChange :: "text_codec \<Rightarrow> string \<Rightarrow> string \<Rightarrow> string \<Rightarrow> bool" where
  "isVersionOnlyChange tc beforeText afterText file = (case manifestKind file of
      None \<Rightarrow> False
    | Some kind \<Rightarrow>
        (case (parseCanonical tc beforeText, parseCanonical tc afterText) of
           (Some old, Some new) \<Rightarrow>
             let bm = walk old []; am = walk new [] in
             (case diff_keys kind old new bm am (remdups (map fst bm @ map fst am)) (False, []) of
                None \<Rightarrow> False
              | Some acc \<Rightarrow> lockstep old new acc)
         | _ \<Rightarrow> False))"

section \<open>What the exemption allows\<close>

text \<open>The specification navigates the two documents: at each path stands a container with its keys, an
  atom, or nothing.\<close>

fun descend :: "jsval \<Rightarrow> string list \<Rightarrow> jsval option" where
  "descend v [] = Some v"
| "descend v (k # p) = Option.bind (child v k) (\<lambda>w. descend w p)"

definition summary :: "jsval \<Rightarrow> walk_val" where
  "summary v = (case v of
      VArr xs \<Rightarrow> Shape True (map show_nat [0..<length xs])
    | VObj kvs \<Rightarrow> Shape False (map fst kvs)
    | _ \<Rightarrow> Leaf (atom v))"

definition node_at :: "jsval \<Rightarrow> string list \<Rightarrow> walk_val option" where
  "node_at v p = map_option summary (descend v p)"

definition walk_key_of :: "walk_val \<Rightarrow> string list \<Rightarrow> walk_key" where
  "walk_key_of s p = (case s of Shape _ _ \<Rightarrow> KKey p | Leaf _ \<Rightarrow> VKey p)"

lemma valueAt_descend: "valueAt v p = (case descend v p of None \<Rightarrow> VUndefined | Some w \<Rightarrow> w)"
  by (induction v p rule: valueAt.induct) (simp_all split: option.splits)

lemma show_nat_inj [simp]: "show_nat i = show_nat j \<longleftrightarrow> i = j"
  by (metis show_nat_digits)

lemma child_arr: "child (VArr xs) k = Some w \<longleftrightarrow> (\<exists>i<length xs. k = show_nat i \<and> w = xs ! i)"
proof -
  let ?m = "map (\<lambda>(i, x). (show_nat i, x)) (enumerate 0 xs)"
  have d: "distinct (map fst ?m)"
    by (auto simp: distinct_conv_nth nth_enumerate_eq)
  have "child (VArr xs) k = Some w \<longleftrightarrow> (k, w) \<in> set ?m"
    unfolding child_def by (simp add: map_of_eq_Some_iff [OF d])
  also have "\<dots> \<longleftrightarrow> (\<exists>i<length xs. k = show_nat i \<and> w = xs ! i)"
    by (auto simp: in_set_enumerate_eq image_iff) (rule_tac x = "(i, xs ! i)" in bexI; simp add: in_set_enumerate_eq)
  finally show ?thesis .
qed

lemma child_obj: "wf_js (VObj kvs) \<Longrightarrow> child (VObj kvs) k = Some w \<longleftrightarrow> (k, w) \<in> set kvs"
  by (simp add: child_def map_of_eq_Some_iff)

lemma descend_Cons: "(\<exists>p w. descend v p = Some w \<and> Q p w) \<longleftrightarrow> Q [] v \<or> (\<exists>k u p w. child v k = Some u \<and> descend u p = Some w \<and> Q (k # p) w)"
  (is "?l \<longleftrightarrow> ?r")
proof
  assume ?l
  then obtain p w where "descend v p = Some w" "Q p w" by blast
  then show ?r by (cases p) (auto simp: bind_eq_Some_conv)
next
  assume ?r
  then show ?l
  proof (elim disjE exE conjE)
    assume "Q [] v"
    then show ?l by (intro exI [of _ "[]"]) simp
  next
    fix k u p w assume "child v k = Some u" "descend u p = Some w" "Q (k # p) w"
    then show ?l by (intro exI [of _ "k # p"]) simp
  qed
qed

definition walk_spec :: "jsval \<Rightarrow> string list \<Rightarrow> walk_key \<times> walk_val \<Rightarrow> bool" where
  "walk_spec v path kx \<longleftrightarrow> (\<exists>p w. descend v p = Some w \<and> kx = (walk_key_of (summary w) (path @ p), summary w))"

lemma walk_spec_step:
  "walk_spec v path kx \<longleftrightarrow> kx = (walk_key_of (summary v) path, summary v) \<or> (\<exists>k u. child v k = Some u \<and> walk_spec u (path @ [k]) kx)"
  unfolding walk_spec_def
  by (subst descend_Cons [where Q = "\<lambda>p w. kx = (walk_key_of (summary w) (path @ p), summary w)"]) (auto; blast)

lemma walk_mem:
  "wf_js v \<Longrightarrow> kx \<in> set (walk v path) \<longleftrightarrow> walk_spec v path kx"
  "list_all wf_js xs \<Longrightarrow> kx \<in> set (walk_items i xs path)
     \<longleftrightarrow> (\<exists>j<length xs. walk_spec (xs ! j) (path @ [show_nat (i + j)]) kx)"
  "list_all (\<lambda>kv. wf_js (snd kv)) kvs \<Longrightarrow> kx \<in> set (walk_fields kvs path)
     \<longleftrightarrow> (\<exists>k u. (k, u) \<in> set kvs \<and> walk_spec u (path @ [k]) kx)"
proof (induction v path and i xs path and kvs path rule: walk_walk_items_walk_fields.induct)
  case (1 xs path)
  then have "kx \<in> set (walk_items 0 xs path) \<longleftrightarrow> (\<exists>j<length xs. walk_spec (xs ! j) (path @ [show_nat j]) kx)"
    by (simp add: list_all_iff)
  then show ?case unfolding walk_spec_step [of "VArr xs"]
    by (auto simp: child_arr summary_def walk_key_of_def)
next
  case (2 kvs path)
  then have "kx \<in> set (walk_fields kvs path) \<longleftrightarrow> (\<exists>k u. (k, u) \<in> set kvs \<and> walk_spec u (path @ [k]) kx)"
    by (simp add: list_all_iff)
  then show ?case unfolding walk_spec_step [of "VObj kvs"]
    by (simp add: child_obj [OF 2(2)] summary_def walk_key_of_def)
next
  case (5 i x xs path)
  have "(\<exists>j<length (x # xs). P ((x # xs) ! j) (i + j)) \<longleftrightarrow> P x i \<or> (\<exists>j<length xs. P (xs ! j) (Suc i + j))" for P
    by (auto simp: less_Suc_eq_0_disj)
  note e = this [of "\<lambda>u j. walk_spec u (path @ [show_nat j]) kx"]
  show ?case using 5 unfolding e by simp
next
  case (7 kv kvs path)
  then show ?case by (cases kv) auto
qed (simp_all add: walk_spec_step [where v = "VUndefined"] walk_spec_step [where v = VNull] walk_spec_step [where v = "VBool _"]
  walk_spec_step [where v = "VNum _"] walk_spec_step [where v = VNonFinite] walk_spec_step [where v = "VStr _"]
  walk_spec_step [where v = "VOther _"] child_def summary_def walk_key_of_def)

lemma walk_lookup:
  assumes "wf_js v"
  shows "map_of (walk v []) key = Some x \<longleftrightarrow> (\<exists>p. node_at v p = Some x \<and> key = walk_key_of x p)"
proof -
  have spec: "(key, x) \<in> set (walk v []) \<longleftrightarrow> (\<exists>p. node_at v p = Some x \<and> key = walk_key_of x p)" for key x
    by (auto simp: walk_mem(1) [OF assms] walk_spec_def node_at_def)
  have fn: "(key, x) \<in> set (walk v []) \<Longrightarrow> (key, y) \<in> set (walk v []) \<Longrightarrow> x = y" for key x y
    unfolding spec by (cases x; cases y) (auto simp: walk_key_of_def)
  show ?thesis unfolding spec [symmetric]
    by (metis fn map_of_SomeD weak_map_of_SomeI)
qed

lemma splitRange_Some:
  assumes "splitRange v = Some (r, version)"
  shows "v = VStr (r @ version) \<and> r \<in> {[], ''^'', ''~''} \<and> isVersion (VStr version)"
proof -
  obtain s where v: "v = VStr s" using assms by (cases v) (simp_all add: splitRange_def)
  have r: "r = range_operator s" "version = drop (length r) s" "isVersion (VStr version)"
    using assms by (auto simp: splitRange_def v Let_def split: if_splits)
  have "s = range_operator s @ drop (length (range_operator s)) s \<and> range_operator s \<in> {[], ''^'', ''~''}"
    by (cases s) (simp_all add: range_operator_def)
  with v r show ?thesis by metis
qed

definition key_change :: "string \<Rightarrow> jsval \<Rightarrow> jsval \<Rightarrow> bool \<times> repin list \<Rightarrow> walk_key \<Rightarrow> bool" where
  "key_change kind old new acc key \<longleftrightarrow> (\<exists>path. key = VKey path \<and>
     (version_path kind old new path \<and> isVersion (valueAt old path) \<and> isVersion (valueAt new path) \<and> (path = [''version''] \<longrightarrow> fst acc)
      \<or> isAdlcRangePath path \<and> (\<exists>rf rt. splitRange (valueAt old path) = Some rf \<and> splitRange (valueAt new path) = Some rt
           \<and> fst rf = fst rt \<and> (rf, rt) \<in> set (snd acc))))"

lemma key_change_mono:
  "key_change kind old new acc key \<Longrightarrow> (fst acc \<longrightarrow> fst acc') \<Longrightarrow> set (snd acc) \<subseteq> set (snd acc') \<Longrightarrow>
    key_change kind old new acc' key"
  unfolding key_change_def by blast

lemma diff_keys_spec:
  "diff_keys kind old new bm am keys acc = Some acc' \<Longrightarrow>
    (fst acc \<longrightarrow> fst acc') \<and> set (snd acc) \<subseteq> set (snd acc')
    \<and> (\<forall>key\<in>set keys. map_of bm key = map_of am key \<or> key_change kind old new acc' key)"
proof (induction kind old new bm am keys acc rule: diff_keys.induct)
  case (2 kind old new bm am key keys acc)
  show ?case
  proof (cases "map_of bm key = map_of am key")
    case True
    with 2 show ?thesis by simp
  next
    case False
    with 2(4) obtain path where k: "key = VKey path" by (cases key) simp_all
    let ?from = "valueAt old path" and ?to = "valueAt new path"
    show ?thesis
    proof (cases "version_path kind old new path")
      case True
      let ?acc = "if path = [''version''] then (True, snd acc) else acc"
      have v: "isVersion ?from" "isVersion ?to" and rest: "diff_keys kind old new bm am keys ?acc = Some acc'"
        using 2(4) False True by (auto simp: k Let_def split: if_splits)
      from 2(2) [OF False k refl refl True _ rest] v
      have IH: "(fst ?acc \<longrightarrow> fst acc') \<and> set (snd ?acc) \<subseteq> set (snd acc')
        \<and> (\<forall>key\<in>set keys. map_of bm key = map_of am key \<or> key_change kind old new acc' key)" by simp
      moreover have "key_change kind old new acc' key"
        using IH True v by (auto simp: key_change_def k)
      ultimately show ?thesis by (auto split: if_splits)
    next
      case nv: False
      have ra: "isAdlcRangePath path" using 2(4) False nv by (simp add: k Let_def split: if_splits)
      obtain rf rt where r: "splitRange ?from = Some rf" "splitRange ?to = Some rt"
        using 2(4) False nv ra by (auto simp: k Let_def split: option.splits)
      have f: "fst rf = fst rt" and rest: "diff_keys kind old new bm am keys (fst acc, snd acc @ [(rf, rt)]) = Some acc'"
        using 2(4) False nv ra r by (auto simp: k Let_def split: if_splits)
      have IH: "(fst acc \<longrightarrow> fst acc') \<and> insert (rf, rt) (set (snd acc)) \<subseteq> set (snd acc')
        \<and> (\<forall>key\<in>set keys. map_of bm key = map_of am key \<or> key_change kind old new acc' key)"
        using 2(3) [OF False k refl refl nv ra refl r _ rest] f by simp
      have m: "(rf, rt) \<in> set (snd acc')" using IH by simp
      have "key_change kind old new acc' key"
        unfolding key_change_def k using ra r f m by blast
      then show ?thesis using IH by simp
    qed
  qed
qed simp

text \<open>The changes of a release: a version field, or an internal range that moves with the version of the
  manifest and keeps its operator.\<close>

definition release_change :: "string \<Rightarrow> jsval \<Rightarrow> jsval \<Rightarrow> string list \<Rightarrow> bool" where
  "release_change file old new p \<longleftrightarrow>
     version_path (base_name file) old new p \<and> isVersion (valueAt old p) \<and> isVersion (valueAt new p)
     \<or> isAdlcRangePath p \<and> (\<exists>r ov nv. r \<in> {[], ''^'', ''~''} \<and> valueAt old p = VStr (r @ ov) \<and> valueAt new p = VStr (r @ nv)
          \<and> js_get ''version'' old = VStr ov \<and> js_get ''version'' new = VStr nv \<and> isVersion (VStr ov) \<and> isVersion (VStr nv) \<and> ov \<noteq> nv)"

lemma node_differs:
  assumes w: "wf_js old" "wf_js new" and d: "node_at old p \<noteq> node_at new p"
  shows "\<exists>key\<in>set (map fst (walk old []) @ map fst (walk new [])). map_of (walk old []) key \<noteq> map_of (walk new []) key
     \<and> (\<forall>q. key = VKey q \<longrightarrow> q = p)"
proof -
  have k: "walk_key_of y q = walk_key_of x p \<Longrightarrow> q = p" for x y q by (auto simp: walk_key_of_def split: walk_val.splits)
  have half: "\<exists>key. key \<in> fst ` set (walk u []) \<and> map_of (walk u []) key \<noteq> map_of (walk v []) key \<and> (\<forall>q. key = VKey q \<longrightarrow> q = p)"
    if wu: "wf_js u" and wv: "wf_js v" and nu: "node_at u p = Some x" and nv: "node_at v p \<noteq> Some x" for u v x
  proof -
    let ?key = "walk_key_of x p"
    have u: "map_of (walk u []) ?key = Some x" unfolding walk_lookup [OF wu] using nu by blast
    have v: "map_of (walk v []) ?key \<noteq> Some x"
    proof
      assume "map_of (walk v []) ?key = Some x"
      then obtain q where q: "node_at v q = Some x" "?key = walk_key_of x q" unfolding walk_lookup [OF wv] by blast
      from k [OF q(2) [symmetric]] q(1) nv show False by simp
    qed
    have "?key \<in> fst ` set (walk u [])" using map_of_SomeD [OF u] by force
    moreover have "\<forall>q. ?key = VKey q \<longrightarrow> q = p" by (simp add: walk_key_of_def split: walk_val.splits)
    moreover have "map_of (walk u []) ?key \<noteq> map_of (walk v []) ?key" using u v by simp
    ultimately show ?thesis by blast
  qed
  show ?thesis
  proof (cases "node_at old p")
    case (Some x)
    then have "node_at new p \<noteq> Some x" using d by simp
    from half [OF w Some this] obtain key where "key \<in> fst ` set (walk old [])" "map_of (walk old []) key \<noteq> map_of (walk new []) key"
      "\<forall>q. key = VKey q \<longrightarrow> q = p" by blast
    then show ?thesis by (intro bexI [of _ key]) simp_all
  next
    case None
    then obtain x where x: "node_at new p = Some x" using d by (cases "node_at new p") auto
    have "node_at old p \<noteq> Some x" using None by simp
    from half [OF w(2,1) x this] obtain key where "key \<in> fst ` set (walk new [])" "map_of (walk new []) key \<noteq> map_of (walk old []) key"
      "\<forall>q. key = VKey q \<longrightarrow> q = p" by blast
    then show ?thesis by (intro bexI [of _ key]) simp_all
  qed
qed

lemma parseCanonical_Some:
  "parseCanonical tc text = Some v \<Longrightarrow> tc_parse tc text = Some v \<and> is_plain_obj v \<and> text = tc_pretty tc v @ [newline]"
  by (auto simp: parseCanonical_def split: if_splits option.splits)

definition release_only :: "text_codec \<Rightarrow> string \<Rightarrow> string \<Rightarrow> string \<Rightarrow> bool" where
  "release_only tc beforeText afterText file \<longleftrightarrow> (\<exists>old new.
     beforeText = tc_pretty tc old @ [newline] \<and> afterText = tc_pretty tc new @ [newline]
     \<and> (\<forall>p. node_at old p = node_at new p \<or> release_change file old new p)
     \<and> (node_at old [''version''] = node_at new [''version''] \<or> deps_locked new (js_get ''version'' new)))"

lemma release_only_holds:
  assumes wf: "\<forall>t v. tc_parse tc t = Some v \<longrightarrow> wf_js v" and ok: "isVersionOnlyChange tc beforeText afterText file"
  shows "release_only tc beforeText afterText file"
proof -
  obtain old new kind acc where kind: "manifestKind file = Some kind"
    and p: "parseCanonical tc beforeText = Some old" "parseCanonical tc afterText = Some new"
    and dk: "diff_keys kind old new (walk old []) (walk new []) (remdups (map fst (walk old []) @ map fst (walk new []))) (False, []) = Some acc"
    and ls: "lockstep old new acc"
    using ok by (auto simp: isVersionOnlyChange_def Let_def split: option.splits)
  have w: "wf_js old" "wf_js new" using p wf parseCanonical_Some by blast+
  have kd: "kind = base_name file" using kind by (simp add: manifestKind_def split: if_splits)
  note spec = diff_keys_spec [OF dk]
  have change: "key_change kind old new acc (VKey q)" if "node_at old q \<noteq> node_at new q" for q
  proof -
    from node_differs [OF w that] obtain key where key: "key \<in> set (map fst (walk old []) @ map fst (walk new []))"
      "map_of (walk old []) key \<noteq> map_of (walk new []) key" "\<forall>r. key = VKey r \<longrightarrow> r = q" by blast
    then have kc: "key_change kind old new acc key" using spec by auto
    then obtain r where "key = VKey r" by (auto simp: key_change_def)
    with key(3) kc show ?thesis by simp
  qed
  have "release_change file old new q" if "node_at old q \<noteq> node_at new q" for q
  proof -
    from change [OF that] consider
      "version_path kind old new q" "isVersion (valueAt old q)" "isVersion (valueAt new q)"
      | rf rt where "isAdlcRangePath q" "splitRange (valueAt old q) = Some rf" "splitRange (valueAt new q) = Some rt"
          "fst rf = fst rt" "(rf, rt) \<in> set (snd acc)"
      by (auto simp: key_change_def)
    then show ?thesis
    proof cases
      case 1
      then show ?thesis by (simp add: release_change_def kd)
    next
      case 2
      obtain r ov where rf: "rf = (r, ov)" by (cases rf)
      obtain r2 nv where rt: "rt = (r2, nv)" by (cases rt)
      from 2(5) ls have l: "VStr ov = js_get ''version'' old" "VStr nv = js_get ''version'' new" "js_get ''version'' old \<noteq> js_get ''version'' new"
        by (auto simp: lockstep_def Let_def list_all_iff rf rt)
      have rr: "r2 = r" using 2(4) by (simp add: rf rt)
      from l have "ov \<noteq> nv" by metis
      with splitRange_Some [OF 2(2) [unfolded rf]] splitRange_Some [OF 2(3) [unfolded rt]] l 2(1)
      have "r \<in> {[], ''^'', ''~''} \<and> valueAt old q = VStr (r @ ov) \<and> valueAt new q = VStr (r @ nv) \<and> js_get ''version'' old = VStr ov
        \<and> js_get ''version'' new = VStr nv \<and> isVersion (VStr ov) \<and> isVersion (VStr nv) \<and> ov \<noteq> nv" unfolding rr by metis
      then show ?thesis unfolding release_change_def using 2(1) by blast
    qed
  qed
  moreover have "node_at old [''version''] = node_at new [''version''] \<or> deps_locked new (js_get ''version'' new)"
  proof (cases "node_at old [''version''] = node_at new [''version'']")
    case False
    have "fst acc"
    proof (rule ccontr)
      assume "\<not> fst acc"
      with change [OF False] have "isAdlcRangePath [''version'']" by (auto simp: key_change_def)
      then show False by (simp add: isAdlcRangePath_def)
    qed
    with ls show ?thesis by (simp add: lockstep_def Let_def)
  qed simp
  ultimately show ?thesis unfolding release_only_def using parseCanonical_Some [OF p(1)] parseCanonical_Some [OF p(2)] by blast
qed

lemma release_change_field:
  "release_change file old new p \<Longrightarrow> p \<noteq> [] \<and> hd p \<in> {''version'', ''metadata'', ''plugins''} \<union> set DEP_FIELDS"
  by (cases p) (auto simp: release_change_def version_path_def isMarketplaceVersionPath_def isAdlcRangePath_def)

text \<open>C21: the exemption lets only releases through. When an edit of a manifest counts as version-only, both
  texts are the canonical texts of two documents that have the same containers, with the same keys in the
  same order, and the same atoms at every path, except version fields, which hold a valid version on both
  sides, and ranges of internal packages, which keep their operator and move from the old version of the
  manifest to the new one. When the version moves, every internal range of the new document follows it. In
  particular nothing below any other field, such as \<open>scripts\<close>, differs.\<close>

theorem version_only_sound:
  assumes "\<forall>t v. tc_parse tc t = Some v \<longrightarrow> wf_js v" and "isVersionOnlyChange tc beforeText afterText file"
  shows "\<exists>old new. beforeText = tc_pretty tc old @ [newline] \<and> afterText = tc_pretty tc new @ [newline]
     \<and> (\<forall>p. node_at old p = node_at new p \<or> release_change file old new p)
     \<and> (node_at old [''version''] = node_at new [''version''] \<or> deps_locked new (js_get ''version'' new))
     \<and> (\<forall>field p. field \<notin> {''version'', ''metadata'', ''plugins''} \<union> set DEP_FIELDS \<longrightarrow>
          node_at old (field # p) = node_at new (field # p))"
proof -
  from release_only_holds [OF assms] obtain old new where
    e: "beforeText = tc_pretty tc old @ [newline]" "afterText = tc_pretty tc new @ [newline]"
      "node_at old [''version''] = node_at new [''version''] \<or> deps_locked new (js_get ''version'' new)"
    and c: "\<forall>p. node_at old p = node_at new p \<or> release_change file old new p"
    unfolding release_only_def by blast
  have "\<forall>field p. field \<notin> {''version'', ''metadata'', ''plugins''} \<union> set DEP_FIELDS \<longrightarrow>
      node_at old (field # p) = node_at new (field # p)"
    using c release_change_field by fastforce
  with e c show ?thesis by blast
qed

definition ex_manifest :: "string \<Rightarrow> jsval" where
  "ex_manifest v = VObj [(''name'', VStr ''@adlc/cli''), (''version'', VStr v), (''scripts'', VObj [(''test'', VStr ''node'')]),
     (''dependencies'', VObj [(''@adlc/core'', VStr (CHR ''^'' # v)), (''left-pad'', VStr ''1.0.0'')])]"

definition ex_codec :: text_codec where
  "ex_codec = \<lparr>tc_parse = (\<lambda>t. if t = ''old'' @ [newline] then Some (ex_manifest ''1.4.9'')
        else if t = ''new'' @ [newline] then Some (ex_manifest ''1.5.0-rc.1'') else None),
     tc_pretty = (\<lambda>v. if v = ex_manifest ''1.4.9'' then ''old'' else ''new''), tc_utf8 = (\<lambda>t. t)\<rparr>"

lemma ex_parsed:
  "manifestKind ''packages/cli/package.json'' = Some ''package.json''"
  "parseCanonical ex_codec (''old'' @ [newline]) = Some (ex_manifest ''1.4.9'')"
  "parseCanonical ex_codec (''new'' @ [newline]) = Some (ex_manifest ''1.5.0-rc.1'')"
  by code_simp+

lemma ex_release: "isVersionOnlyChange ex_codec (''old'' @ [newline]) (''new'' @ [newline]) ''packages/cli/package.json''"
proof -
  let ?old = "ex_manifest ''1.4.9''" and ?new = "ex_manifest ''1.5.0-rc.1''"
  let ?r = "((''^'', ''1.4.9''), (''^'', ''1.5.0-rc.1''))"
  have "diff_keys ''package.json'' ?old ?new (walk ?old []) (walk ?new [])
      (remdups (map fst (walk ?old []) @ map fst (walk ?new []))) (False, []) = Some (True, [?r])" by code_simp
  moreover have "lockstep ?old ?new (True, [?r])" by code_simp
  ultimately show ?thesis by (simp only: isVersionOnlyChange_def ex_parsed Let_def option.case prod.case)
qed

theorem version_only_sound_witness:
  "\<exists>old new. tc_pretty ex_codec old = ''old'' \<and> tc_pretty ex_codec new = ''new''
     \<and> node_at old [''scripts'', ''test''] = node_at new [''scripts'', ''test'']"
proof -
  have "\<forall>t v. tc_parse ex_codec t = Some v \<longrightarrow> wf_js v" by (simp add: ex_codec_def ex_manifest_def)
  from version_only_sound [OF this ex_release] show ?thesis
  proof (elim exE conjE)
    fix old new
    assume t: "''old'' @ [newline] = tc_pretty ex_codec old @ [newline]" "''new'' @ [newline] = tc_pretty ex_codec new @ [newline]"
      and f: "\<forall>field p. field \<notin> {''version'', ''metadata'', ''plugins''} \<union> set DEP_FIELDS \<longrightarrow>
        node_at old (field # p) = node_at new (field # p)"
    have "node_at old [''scripts'', ''test''] = node_at new [''scripts'', ''test'']"
      by (rule f [rule_format]) (simp add: DEP_FIELDS_def)
    moreover have "tc_pretty ex_codec old = ''old''" "tc_pretty ex_codec new = ''new''" using t by simp_all
    ultimately show ?thesis by (intro exI [of _ old] exI [of _ new] conjI)
  qed
qed

end
