(* ===== verification/RailGuard.thy ===== *)
theory RailGuard
  imports RailVersion TicketModel
begin

text \<open>
  The gate of rails-guard (\<^verbatim>\<open>packages/rails-guard/lib/rails.mjs\<close>, \<^verbatim>\<open>suppressions.mjs\<close> and
  \<^verbatim>\<open>check.mjs\<close>): the set of frozen rails, the changed files that match a rail, the suppression markers in
  the added lines of a diff, and \<open>runChecks\<close>, which reports the violations of both. The diff, the
  changed files, the two texts of a manifest and the fenced lines of a document come from git and are
  arguments.
\<close>

section \<open>Rails (rails.mjs)\<close>

record rail =
  rl_glob :: string
  rl_owner :: "string option"

definition rail_key :: "rail \<Rightarrow> string" where
  "rail_key r = (case rl_owner r of None \<Rightarrow> [] | Some i \<Rightarrow> i) @ CHR 0x00 # rl_glob r"

fun dedupe_from :: "string list \<Rightarrow> rail list \<Rightarrow> rail list" where
  "dedupe_from seen [] = []"
| "dedupe_from seen (r # rs) =
     (if rail_key r \<in> set seen then dedupe_from seen rs else r # dedupe_from (rail_key r # seen) rs)"

definition dedupeRails :: "rail list \<Rightarrow> rail list" where
  "dedupeRails rs = dedupe_from [] rs"

definition declared_rails :: "ticket list \<Rightarrow> rail list" where
  "declared_rails tickets = concat (map (\<lambda>t. if t_completed t then [] else
     map (\<lambda>g. \<lparr>rl_glob = g, rl_owner = Some (t_id t)\<rparr>) (t_rails t)) tickets)"

text \<open>The second component tells whether \<open>NO_RAILS_ERROR\<close> is reported.\<close>

definition resolveRailSet :: "string list \<Rightarrow> ticket list \<Rightarrow> rail list \<times> bool" where
  "resolveRailSet cliRails tickets =
     (if cliRails \<noteq> [] then (dedupeRails (map (\<lambda>g. \<lparr>rl_glob = g, rl_owner = None\<rparr>) cliRails), False)
      else let rails = dedupeRails (declared_rails tickets) in (rails, rails = []))"

definition railOwners :: "rail list \<Rightarrow> (string \<times> string option) list" where
  "railOwners rails = fold (\<lambda>r owners.
     case map_of owners (rl_glob r) of
       None \<Rightarrow> AList.update (rl_glob r) (rl_owner r) owners
     | Some old \<Rightarrow> if old = None \<and> rl_owner r \<noteq> None then AList.update (rl_glob r) (rl_owner r) owners else owners) rails []"

fun ownerOf :: "string list \<Rightarrow> (string \<times> string option) list \<Rightarrow> string option" where
  "ownerOf [] owners = None"
| "ownerOf (g # gs) owners = (case map_of owners g of Some (Some i) \<Rightarrow> Some i | _ \<Rightarrow> ownerOf gs owners)"

datatype violation =
    RailEdit string "string list" "string option"
  | Suppression string string int string

text \<open>A resolver that throws gives \<open>None\<close>.\<close>

definition isVersionOnlyEdit :: "text_codec \<Rightarrow> (string \<Rightarrow> (string \<times> string) option) \<Rightarrow> string \<Rightarrow> bool" where
  "isVersionOnlyEdit tc resolve file = (case resolve file of
      None \<Rightarrow> False
    | Some (old, new) \<Rightarrow> isVersionOnlyChange tc old new file)"

fun checkRailEdits ::
  "text_codec \<Rightarrow> (string \<Rightarrow> (string \<times> string) option) option \<Rightarrow> string set \<Rightarrow> (string \<times> string option) list \<Rightarrow> string list
    \<Rightarrow> string list \<Rightarrow> violation list \<times> (string \<times> string list) list" where
  "checkRailEdits tc resolve sanctioned owners railGlobs [] = ([], [])"
| "checkRailEdits tc resolve sanctioned owners railGlobs (file # files) =
     (let (vs, ss) = checkRailEdits tc resolve sanctioned owners railGlobs files;
          matched = filter (\<lambda>g. globMatch g file) railGlobs
      in if matched = [] then (vs, ss)
         else if file \<in> sanctioned then (vs, (file, matched) # ss)
         else if (case resolve of None \<Rightarrow> False | Some f \<Rightarrow> isManifestFile file \<and> isVersionOnlyEdit tc f file) then (vs, ss)
         else (RailEdit file matched (ownerOf matched owners) # vs, ss))"

section \<open>Suppression markers (suppressions.mjs)\<close>

definition SUPPRESSION_MARKERS :: "string list" where
  "SUPPRESSION_MARKERS = [''.skip('', ''.only('', ''xfail'', ''@ts-ignore'', ''@ts-expect-error'', ''eslint-disable'',
     ''# noqa'', ''#[ignore]'']"

definition DOC_EXTENSIONS :: "string list" where
  "DOC_EXTENSIONS = [''.md'', ''.markdown'', ''.diff'', ''.patch'']"

text \<open>What follows the last \<open>c\<close>, or all of \<open>s\<close>.\<close>

definition after_last :: "char \<Rightarrow> string \<Rightarrow> string" where
  "after_last c s = rev (takeWhile (\<lambda>x. x \<noteq> c) (rev s))"

text \<open>The extension of the last part of a path, unless it has none or starts with its only dot.\<close>

definition final_extension :: "string \<Rightarrow> string option" where
  "final_extension file = (let base = after_last CHR ''/'' file in
     if CHR ''.'' \<in> set (tl base) then Some (to_lower (CHR ''.'' # after_last CHR ''.'' base)) else None)"

definition isDocFile :: "string \<Rightarrow> bool" where
  "isDocFile file = (case final_extension file of None \<Rightarrow> False | Some e \<Rightarrow> e \<in> set DOC_EXTENSIONS)"

definition isMdxFile :: "string \<Rightarrow> bool" where
  "isMdxFile file \<longleftrightarrow> final_extension file = Some ''.mdx''"

function stripInlineCode :: "string \<Rightarrow> string" where
  "stripInlineCode [] = []"
| "stripInlineCode (c # r) =
     (if c \<noteq> CHR 0x60 then c # stripInlineCode r
      else let inner = takeWhile (\<lambda>x. x \<noteq> CHR 0x60) r in
        case dropWhile (\<lambda>x. x \<noteq> CHR 0x60) r of
          [] \<Rightarrow> c # stripInlineCode r
        | q # rest \<Rightarrow>
            (if str_includes (c # inner @ [q]) ''${'' then c # inner @ [q] else []) @ stripInlineCode rest)"
  by pat_completeness auto

termination
proof (relation "measure length", goal_cases)
  case (4 c r inner q rest)
  have "length (dropWhile (\<lambda>x. x \<noteq> CHR 0x60) r) \<le> length r" by (rule length_dropWhile_le)
  with 4 show ?case by simp
qed simp_all

definition scan_text :: "(string \<Rightarrow> int \<Rightarrow> bool) \<Rightarrow> added_line \<Rightarrow> string option" where
  "scan_text isFenced l =
     (if isDocFile (al_file l) then None
      else if isMdxFile (al_file l) then
        (if isFenced (al_file l) (al_lineNo l) then None else Some (stripInlineCode (al_content l)))
      else Some (al_content l))"

definition first_marker :: "string \<Rightarrow> string option" where
  "first_marker s = find (\<lambda>m. str_includes s m) SUPPRESSION_MARKERS"

definition findSuppressions :: "(string \<Rightarrow> int \<Rightarrow> bool) \<Rightarrow> added_line list \<Rightarrow> (added_line \<times> string) list" where
  "findSuppressions isFenced ls = concat (map (\<lambda>l.
     case Option.bind (scan_text isFenced l) first_marker of None \<Rightarrow> [] | Some m \<Rightarrow> [(l, m)]) ls)"

definition isMarkerAllowed :: "string \<Rightarrow> string \<Rightarrow> bool" where
  "isMarkerAllowed marker ticketBody \<longleftrightarrow> ticketBody \<noteq> [] \<and> str_includes ticketBody (''allow-suppression: '' @ marker)"

section \<open>The gate (check.mjs)\<close>

record check_input =
  ci_changedFiles :: "string list"
  ci_diffText :: string
  ci_cliRails :: "string list"
  ci_tickets :: "ticket list"
  ci_ticketBody :: "string option"
  ci_isFenced :: "string \<Rightarrow> int \<Rightarrow> bool"
  ci_resolve :: "(string \<Rightarrow> (string \<times> string) option) option"
  ci_sanctioned :: "string set"

record check_result =
  cr_railGlobs :: "string list"
  cr_railSources :: "rail list"
  cr_railGlobError :: bool
  cr_violations :: "violation list"
  cr_railsDiffEmpty :: bool
  cr_suppressionsClean :: bool
  cr_sanctioned :: "string list"

definition is_rail_edit :: "violation \<Rightarrow> bool" where
  "is_rail_edit v = (case v of RailEdit _ _ _ \<Rightarrow> True | _ \<Rightarrow> False)"

text \<open>\<open>[...new Set(xs)]\<close> keeps the first occurrence of each element.\<close>

definition unique :: "'a list \<Rightarrow> 'a list" where
  "unique xs = rev (remdups (rev xs))"

definition suppression_violations :: "(string \<Rightarrow> int \<Rightarrow> bool) \<Rightarrow> string option \<Rightarrow> string \<Rightarrow> violation list" where
  "suppression_violations isFenced ticketBody diffText =
     map (\<lambda>(l, m). Suppression (al_file l) m (al_lineNo l) (al_content l))
       (filter (\<lambda>(l, m). \<not> isMarkerAllowed m (case ticketBody of None \<Rightarrow> [] | Some b \<Rightarrow> b))
         (findSuppressions isFenced (parseAddedLines diffText)))"

definition runChecks :: "text_codec \<Rightarrow> check_input \<Rightarrow> check_result" where
  "runChecks tc ci =
     (let (railSources, railGlobError) = resolveRailSet (ci_cliRails ci) (ci_tickets ci);
          railGlobs = unique (map rl_glob railSources);
          (railEdits, sanctioned) = (if railGlobs \<noteq> []
            then checkRailEdits tc (ci_resolve ci) (ci_sanctioned ci) (railOwners railSources) railGlobs (ci_changedFiles ci)
            else ([], []));
          violations = railEdits @ suppression_violations (ci_isFenced ci) (ci_ticketBody ci) (ci_diffText ci)
      in \<lparr>cr_railGlobs = railGlobs, cr_railSources = railSources, cr_railGlobError = railGlobError,
          cr_violations = violations,
          cr_railsDiffEmpty = (filter is_rail_edit railEdits = []),
          cr_suppressionsClean = (filter (\<lambda>v. \<not> is_rail_edit v) violations = []),
          cr_sanctioned = sort (remdups (map fst sanctioned))\<rparr>)"

section \<open>The frozen set\<close>

text \<open>A path is frozen when a glob of the command line, or else of a ticket that is not completed, matches it.\<close>

definition frozen_by :: "check_input \<Rightarrow> string \<Rightarrow> string \<Rightarrow> bool" where
  "frozen_by ci g f \<longleftrightarrow> globMatch g f \<and>
     (if ci_cliRails ci \<noteq> [] then g \<in> set (ci_cliRails ci)
      else \<exists>t\<in>set (ci_tickets ci). \<not> t_completed t \<and> g \<in> set (t_rails t))"

definition version_exempt :: "text_codec \<Rightarrow> check_input \<Rightarrow> string \<Rightarrow> bool" where
  "version_exempt tc ci f \<longleftrightarrow> (\<exists>r. ci_resolve ci = Some r \<and> isManifestFile f \<and> isVersionOnlyEdit tc r f)"

lemma dedupe_from_subset: "set (dedupe_from seen rs) \<subseteq> set rs"
  by (induction seen rs rule: dedupe_from.induct) auto

lemma dedupe_from_keys:
  "r \<in> set rs \<Longrightarrow> rail_key r \<notin> set seen \<Longrightarrow> \<exists>r'\<in>set (dedupe_from seen rs). rail_key r' = rail_key r"
proof (induction seen rs rule: dedupe_from.induct)
  case (2 seen q rs)
  show ?case
  proof (cases "rail_key q \<in> set seen")
    case True
    then have "r \<in> set rs" using 2 by auto
    with 2 True show ?thesis by simp
  next
    case False
    show ?thesis
    proof (cases "rail_key r = rail_key q")
      case True
      with False show ?thesis by (auto intro!: bexI [of _ q])
    next
      case d: False
      with 2(2) False 2(3,4) show ?thesis by auto
    qed
  qed
qed simp

lemma nul_split: "CHR 0x00 \<notin> set a \<Longrightarrow> CHR 0x00 \<notin> set b \<Longrightarrow> a @ CHR 0x00 # x = b @ CHR 0x00 # y \<Longrightarrow> x = y"
  by (induction a arbitrary: b) (auto simp: Cons_eq_append_conv append_eq_Cons_conv)

definition owner_ok :: "rail \<Rightarrow> bool" where
  "owner_ok r \<longleftrightarrow> (case rl_owner r of None \<Rightarrow> True | Some i \<Rightarrow> CHR 0x00 \<notin> set i)"

lemma rail_key_glob: "owner_ok r \<Longrightarrow> owner_ok r' \<Longrightarrow> rail_key r' = rail_key r \<Longrightarrow> rl_glob r' = rl_glob r"
  unfolding rail_key_def owner_ok_def by (auto split: option.splits dest: nul_split nul_split [of "[]", simplified] nul_split [of _ "[]", simplified])

lemma dedupeRails_globs:
  assumes "list_all owner_ok rs"
  shows "rl_glob ` set (dedupeRails rs) = rl_glob ` set rs" and "set (dedupeRails rs) \<subseteq> set rs"
proof -
  show s: "set (dedupeRails rs) \<subseteq> set rs" using dedupe_from_subset by (simp add: dedupeRails_def)
  have "rl_glob r \<in> rl_glob ` set (dedupeRails rs)" if "r \<in> set rs" for r
  proof -
    obtain r' where r': "r' \<in> set (dedupeRails rs)" "rail_key r' = rail_key r"
      using dedupe_from_keys [of r rs "[]"] \<open>r \<in> set rs\<close> by (auto simp: dedupeRails_def)
    have "owner_ok r" "owner_ok r'" using assms that r'(1) s by (auto simp: list_all_iff)
    from rail_key_glob [OF this r'(2)] r'(1) show ?thesis by (metis imageI)
  qed
  with s show "rl_glob ` set (dedupeRails rs) = rl_glob ` set rs" by blast
qed

definition no_nul_ids :: "ticket list \<Rightarrow> bool" where
  "no_nul_ids tickets \<longleftrightarrow> (\<forall>t\<in>set tickets. CHR 0x00 \<notin> set (t_id t))"

lemma resolve_sources:
  assumes "no_nul_ids (ci_tickets ci)"
  shows "rl_glob ` set (fst (resolveRailSet (ci_cliRails ci) (ci_tickets ci)))
      = (if ci_cliRails ci \<noteq> [] then set (ci_cliRails ci) else {g. \<exists>t\<in>set (ci_tickets ci). \<not> t_completed t \<and> g \<in> set (t_rails t)})"
    and "r \<in> set (fst (resolveRailSet (ci_cliRails ci) (ci_tickets ci))) \<Longrightarrow> rl_owner r = Some i \<Longrightarrow>
      \<exists>t\<in>set (ci_tickets ci). t_id t = i \<and> \<not> t_completed t \<and> rl_glob r \<in> set (t_rails t)"
proof -
  have cli: "list_all owner_ok (map (\<lambda>g. \<lparr>rl_glob = g, rl_owner = None\<rparr>) gs)" for gs
    by (simp add: list_all_iff owner_ok_def)
  have dec: "list_all owner_ok (declared_rails (ci_tickets ci))"
    using assms by (auto simp: list_all_iff owner_ok_def declared_rails_def no_nul_ids_def split: if_splits)
  have set: "set (declared_rails (ci_tickets ci))
      = {\<lparr>rl_glob = g, rl_owner = Some (t_id t)\<rparr> |g t. t \<in> set (ci_tickets ci) \<and> \<not> t_completed t \<and> g \<in> set (t_rails t)}"
    by (auto simp: declared_rails_def split: if_splits)
  have globs: "rl_glob ` set (declared_rails (ci_tickets ci)) = {g. \<exists>t\<in>set (ci_tickets ci). \<not> t_completed t \<and> g \<in> set (t_rails t)}"
    unfolding set by force
  show "rl_glob ` set (fst (resolveRailSet (ci_cliRails ci) (ci_tickets ci)))
      = (if ci_cliRails ci \<noteq> [] then set (ci_cliRails ci) else {g. \<exists>t\<in>set (ci_tickets ci). \<not> t_completed t \<and> g \<in> set (t_rails t)})"
    by (simp add: resolveRailSet_def Let_def dedupeRails_globs(1) [OF cli] dedupeRails_globs(1) [OF dec] image_image globs)
  show "\<exists>t\<in>set (ci_tickets ci). t_id t = i \<and> \<not> t_completed t \<and> rl_glob r \<in> set (t_rails t)"
    if "r \<in> set (fst (resolveRailSet (ci_cliRails ci) (ci_tickets ci)))" "rl_owner r = Some i"
  proof (cases "ci_cliRails ci = []")
    case True
    with that(1) dedupeRails_globs(2) [OF dec] have "r \<in> set (declared_rails (ci_tickets ci))"
      by (auto simp: resolveRailSet_def Let_def)
    with that(2) show ?thesis unfolding set by auto
  next
    case False
    with that(1) dedupeRails_globs(2) [OF cli] have "r \<in> set (map (\<lambda>g. \<lparr>rl_glob = g, rl_owner = None\<rparr>) (ci_cliRails ci))"
      by (auto simp: resolveRailSet_def simp del: set_map)
    with that(2) show ?thesis by auto
  qed
qed

lemma railOwners_owner:
  assumes "map_of (railOwners rails) g = Some (Some i)"
  shows "\<exists>r\<in>set rails. rl_glob r = g \<and> rl_owner r = Some i"
proof -
  let ?step = "\<lambda>r owners. case map_of owners (rl_glob r) of
       None \<Rightarrow> AList.update (rl_glob r) (rl_owner r) owners
     | Some old \<Rightarrow> if old = None \<and> rl_owner r \<noteq> None then AList.update (rl_glob r) (rl_owner r) owners else owners"
  have "\<forall>g i. map_of (fold ?step rails' acc) g = Some (Some i) \<longrightarrow> (\<exists>r\<in>R. rl_glob r = g \<and> rl_owner r = Some i)"
    if "set rails' \<subseteq> R" "\<forall>g i. map_of acc g = Some (Some i) \<longrightarrow> (\<exists>r\<in>R. rl_glob r = g \<and> rl_owner r = Some i)" for rails' acc R
    using that
  proof (induction rails' arbitrary: acc)
    case (Cons r rs)
    have "\<forall>g i. map_of (?step r acc) g = Some (Some i) \<longrightarrow> (\<exists>r\<in>R. rl_glob r = g \<and> rl_owner r = Some i)"
      using Cons.prems by (auto split: option.splits if_splits)
    with Cons show ?case by simp
  qed simp
  from this [of rails "set rails" "[]"] assms show ?thesis by (simp add: railOwners_def)
qed

lemma ownerOf_Some: "ownerOf gs owners = Some i \<Longrightarrow> \<exists>g\<in>set gs. map_of owners g = Some (Some i)"
  by (induction gs) (auto split: option.splits)

lemma rail_edit_iff:
  "RailEdit f gs r \<in> set (fst (checkRailEdits tc resolve sanctioned owners globs files)) \<longleftrightarrow>
     f \<in> set files \<and> gs = filter (\<lambda>g. globMatch g f) globs \<and> gs \<noteq> [] \<and> f \<notin> sanctioned
     \<and> \<not> (\<exists>h. resolve = Some h \<and> isManifestFile f \<and> isVersionOnlyEdit tc h f) \<and> r = ownerOf gs owners"
  by (induction files) (auto simp: Let_def split_beta split: option.splits)

lemma rail_edits_only: "v \<in> set (fst (checkRailEdits tc resolve sanctioned owners globs files)) \<Longrightarrow> \<exists>f gs r. v = RailEdit f gs r"
  by (induction files) (auto simp: Let_def split_beta split: option.splits if_splits)

lemma suppressions_only: "v \<in> set (suppression_violations isFenced body diff) \<Longrightarrow> \<not> is_rail_edit v"
  by (auto simp: suppression_violations_def is_rail_edit_def)

lemma unique_set [simp]: "set (unique xs) = set xs"
  by (simp add: unique_def)

definition gate_rail_edits :: "text_codec \<Rightarrow> check_input \<Rightarrow> violation list" where
  "gate_rail_edits tc ci =
     (let rails = fst (resolveRailSet (ci_cliRails ci) (ci_tickets ci)) in
      fst (checkRailEdits tc (ci_resolve ci) (ci_sanctioned ci) (railOwners rails) (unique (map rl_glob rails)) (ci_changedFiles ci)))"

lemma no_globs: "fst (checkRailEdits tc resolve sanctioned owners [] files) = []"
  by (induction files) (simp_all add: Let_def split_beta)

lemma runChecks_violations:
  "cr_violations (runChecks tc ci) = gate_rail_edits tc ci @ suppression_violations (ci_isFenced ci) (ci_ticketBody ci) (ci_diffText ci)"
  "cr_railsDiffEmpty (runChecks tc ci) \<longleftrightarrow> gate_rail_edits tc ci = []"
  "cr_suppressionsClean (runChecks tc ci) \<longleftrightarrow> suppression_violations (ci_isFenced ci) (ci_ticketBody ci) (ci_diffText ci) = []"
proof -
  let ?re = "gate_rail_edits tc ci"
  have e: "cr_violations (runChecks tc ci) = ?re @ suppression_violations (ci_isFenced ci) (ci_ticketBody ci) (ci_diffText ci)
      \<and> cr_railsDiffEmpty (runChecks tc ci) = (filter is_rail_edit ?re = [])
      \<and> cr_suppressionsClean (runChecks tc ci) = (filter (\<lambda>v. \<not> is_rail_edit v) (cr_violations (runChecks tc ci)) = [])"
    by (simp add: runChecks_def gate_rail_edits_def Let_def split_beta no_globs)
  then show v: "cr_violations (runChecks tc ci) = ?re @ suppression_violations (ci_isFenced ci) (ci_ticketBody ci) (ci_diffText ci)" by simp
  have r: "is_rail_edit v" if "v \<in> set ?re" for v
    using that rail_edits_only by (fastforce simp: gate_rail_edits_def Let_def is_rail_edit_def)
  then have "filter is_rail_edit ?re = ?re" by (simp add: filter_id_conv)
  with e show "cr_railsDiffEmpty (runChecks tc ci) \<longleftrightarrow> ?re = []" by simp
  have "filter (\<lambda>v. \<not> is_rail_edit v) ?re = []" using r by (simp add: filter_empty_conv)
  moreover have "filter (\<lambda>v. \<not> is_rail_edit v) (suppression_violations (ci_isFenced ci) (ci_ticketBody ci) (ci_diffText ci))
      = suppression_violations (ci_isFenced ci) (ci_ticketBody ci) (ci_diffText ci)"
    using suppressions_only by (simp add: filter_id_conv)
  ultimately show "cr_suppressionsClean (runChecks tc ci) \<longleftrightarrow> suppression_violations (ci_isFenced ci) (ci_ticketBody ci) (ci_diffText ci) = []"
    using e by simp
qed

lemma gate_rail_edits_iff:
  assumes "no_nul_ids (ci_tickets ci)"
  shows "(\<exists>gs r. RailEdit f gs r \<in> set (gate_rail_edits tc ci)) \<longleftrightarrow>
      f \<in> set (ci_changedFiles ci) \<and> (\<exists>g. frozen_by ci g f) \<and> f \<notin> ci_sanctioned ci \<and> \<not> version_exempt tc ci f"
    and "RailEdit f gs (Some i) \<in> set (gate_rail_edits tc ci) \<Longrightarrow>
      \<exists>t\<in>set (ci_tickets ci). t_id t = i \<and> \<not> t_completed t \<and> (\<exists>g\<in>set (t_rails t). globMatch g f)"
proof -
  let ?rails = "fst (resolveRailSet (ci_cliRails ci) (ci_tickets ci))"
  let ?globs = "unique (map rl_glob ?rails)"
  let ?S = "if ci_cliRails ci \<noteq> [] then set (ci_cliRails ci) else {g. \<exists>t\<in>set (ci_tickets ci). \<not> t_completed t \<and> g \<in> set (t_rails t)}"
  have "set ?globs = ?S" using resolve_sources(1) [OF assms] by simp
  moreover have "frozen_by ci g f \<longleftrightarrow> g \<in> ?S \<and> globMatch g f" for g by (auto simp: frozen_by_def)
  ultimately have globs: "filter (\<lambda>g. globMatch g f) ?globs \<noteq> [] \<longleftrightarrow> (\<exists>g. frozen_by ci g f)"
    unfolding filter_empty_conv by blast
  show "(\<exists>gs r. RailEdit f gs r \<in> set (gate_rail_edits tc ci)) \<longleftrightarrow>
      f \<in> set (ci_changedFiles ci) \<and> (\<exists>g. frozen_by ci g f) \<and> f \<notin> ci_sanctioned ci \<and> \<not> version_exempt tc ci f"
    unfolding gate_rail_edits_def Let_def rail_edit_iff globs [symmetric] version_exempt_def by blast
  assume "RailEdit f gs (Some i) \<in> set (gate_rail_edits tc ci)"
  then have gs: "gs = filter (\<lambda>g. globMatch g f) ?globs" and o: "ownerOf gs (railOwners ?rails) = Some i"
    unfolding gate_rail_edits_def Let_def rail_edit_iff by simp_all
  from ownerOf_Some [OF o] obtain g where g: "g \<in> set gs" "map_of (railOwners ?rails) g = Some (Some i)" by blast
  from railOwners_owner [OF g(2)] obtain r where r: "r \<in> set ?rails" "rl_glob r = g" "rl_owner r = Some i" by blast
  from resolve_sources(2) [OF assms r(1,3)] g(1) gs r(2)
  show "\<exists>t\<in>set (ci_tickets ci). t_id t = i \<and> \<not> t_completed t \<and> (\<exists>g\<in>set (t_rails t). globMatch g f)" by auto
qed

lemma gate_rail_edits_empty:
  "gate_rail_edits tc ci = [] \<longleftrightarrow> (\<forall>f. \<not> (\<exists>gs r. RailEdit f gs r \<in> set (gate_rail_edits tc ci)))"
proof (cases "gate_rail_edits tc ci")
  case (Cons v vs)
  then have "v \<in> set (gate_rail_edits tc ci)" by simp
  moreover from this obtain f gs r where "v = RailEdit f gs r"
    unfolding gate_rail_edits_def Let_def using rail_edits_only by blast
  ultimately have "\<exists>f gs r. RailEdit f gs r \<in> set (gate_rail_edits tc ci)" by blast
  moreover have "gate_rail_edits tc ci \<noteq> []" using Cons by simp
  ultimately show ?thesis by simp
qed simp

text \<open>C20: rails are frozen for every change. The gate reports an empty rail diff exactly when every changed
  file that a rail of the command line, or else of any ticket that is not completed, matches was a sanctioned
  addition or a version-only edit; a version-only edit changes the manifest as a release does and nothing
  else; and a violation names as owner a ticket in flight that declares a matching rail.\<close>

theorem gate_blocks_rail_edits:
  assumes "\<forall>t v. tc_parse tc t = Some v \<longrightarrow> wf_js v" and "\<forall>t\<in>set (ci_tickets ci). CHR 0x00 \<notin> set (t_id t)"
  shows "(cr_railsDiffEmpty (runChecks tc ci) \<longleftrightarrow> (\<forall>f\<in>set (ci_changedFiles ci). \<forall>g. frozen_by ci g f \<longrightarrow>
        f \<in> ci_sanctioned ci \<or> version_exempt tc ci f))
     \<and> (\<forall>f. version_exempt tc ci f \<longrightarrow> (\<exists>r old new. ci_resolve ci = Some r \<and> r f = Some (old, new) \<and> release_only tc old new f))
     \<and> (\<forall>f gs i. RailEdit f gs (Some i) \<in> set (cr_violations (runChecks tc ci)) \<longrightarrow>
          (\<exists>t\<in>set (ci_tickets ci). t_id t = i \<and> \<not> t_completed t \<and> (\<exists>g\<in>set (t_rails t). globMatch g f)))"
proof (intro conjI allI impI)
  have n: "no_nul_ids (ci_tickets ci)" using assms(2) by (simp add: no_nul_ids_def)
  show "cr_railsDiffEmpty (runChecks tc ci) \<longleftrightarrow> (\<forall>f\<in>set (ci_changedFiles ci). \<forall>g. frozen_by ci g f \<longrightarrow>
        f \<in> ci_sanctioned ci \<or> version_exempt tc ci f)"
    unfolding runChecks_violations(2) gate_rail_edits_empty gate_rail_edits_iff(1) [OF n] by blast
next
  fix f assume "version_exempt tc ci f"
  then show "\<exists>r old new. ci_resolve ci = Some r \<and> r f = Some (old, new) \<and> release_only tc old new f"
    using release_only_holds [OF assms(1)] by (auto simp: version_exempt_def isVersionOnlyEdit_def split: option.splits)
next
  have n: "no_nul_ids (ci_tickets ci)" using assms(2) by (simp add: no_nul_ids_def)
  fix f gs i assume "RailEdit f gs (Some i) \<in> set (cr_violations (runChecks tc ci))"
  then have "RailEdit f gs (Some i) \<in> set (gate_rail_edits tc ci)"
    unfolding runChecks_violations(1) by (auto dest: suppressions_only simp: is_rail_edit_def)
  from gate_rail_edits_iff(2) [OF n this]
  show "\<exists>t\<in>set (ci_tickets ci). t_id t = i \<and> \<not> t_completed t \<and> (\<exists>g\<in>set (t_rails t). globMatch g f)" .
qed

definition ex_rail_ticket :: ticket where
  "ex_rail_ticket = \<lparr>t_id = ''T1'', t_scope = [], t_rails = [''packages/**''], t_edges = [], t_duration = None,
     t_category = None, t_budget = None, t_completed = False\<rparr>"

definition ex_check :: "file_diff list \<Rightarrow> string option \<Rightarrow> check_input" where
  "ex_check fs body = \<lparr>ci_changedFiles = [''packages/cli/package.json'', ''packages/cli/lib/a.js'', ''README.md''],
     ci_diffText = diff_text fs, ci_cliRails = [], ci_tickets = [ex_rail_ticket, ex_rail_ticket\<lparr>t_id := ''T0'', t_rails := [''**''], t_completed := True\<rparr>],
     ci_ticketBody = body, ci_isFenced = (\<lambda>_ _. False), ci_resolve = Some (\<lambda>f. Some (''old'' @ [newline], ''new'' @ [newline])),
     ci_sanctioned = {}\<rparr>"

theorem gate_blocks_rail_edits_witness:
  "\<not> cr_railsDiffEmpty (runChecks ex_codec (ex_check [] None))"
proof -
  have "\<forall>t v. tc_parse ex_codec t = Some v \<longrightarrow> wf_js v" by (simp add: ex_codec_def ex_manifest_def)
  moreover have "\<forall>t\<in>set (ci_tickets (ex_check [] None)). CHR 0x00 \<notin> set (t_id t)"
    by (simp add: ex_check_def ex_rail_ticket_def)
  moreover have "globMatch ''packages/**'' ''packages/cli/lib/a.js''" by code_simp
  then have "frozen_by (ex_check [] None) ''packages/**'' ''packages/cli/lib/a.js''"
    by (simp add: frozen_by_def ex_check_def ex_rail_ticket_def)
  moreover have "\<not> isManifestFile ''packages/cli/lib/a.js''" by code_simp
  then have "\<not> version_exempt ex_codec (ex_check [] None) ''packages/cli/lib/a.js''" by (simp add: version_exempt_def)
  moreover have "''packages/cli/lib/a.js'' \<in> set (ci_changedFiles (ex_check [] None)) \<and> ci_sanctioned (ex_check [] None) = {}"
    by (simp add: ex_check_def)
  ultimately show ?thesis using gate_blocks_rail_edits [of ex_codec "ex_check [] None"] by auto
qed

section \<open>Suppressions\<close>

definition ticket_body :: "check_input \<Rightarrow> string" where
  "ticket_body ci = (case ci_ticketBody ci of None \<Rightarrow> [] | Some b \<Rightarrow> b)"

lemma findSuppressions_iff:
  "(l, m) \<in> set (findSuppressions isFenced ls) \<longleftrightarrow>
     l \<in> set ls \<and> (\<exists>s. scan_text isFenced l = Some s \<and> first_marker s = Some m)"
proof (induction ls)
  case (Cons x ls)
  have "findSuppressions isFenced (x # ls) = (case Option.bind (scan_text isFenced x) first_marker of None \<Rightarrow> [] | Some m \<Rightarrow> [(x, m)])
      @ findSuppressions isFenced ls" by (simp add: findSuppressions_def)
  with Cons show ?case
    by (cases "Option.bind (scan_text isFenced x) first_marker") (auto simp: bind_eq_Some_conv bind_eq_None_conv)
qed (simp add: findSuppressions_def)

lemma suppression_violations_iff:
  "Suppression f m n c \<in> set (suppression_violations isFenced body diffText) \<longleftrightarrow>
     (\<exists>l s. l \<in> set (parseAddedLines diffText) \<and> f = al_file l \<and> n = al_lineNo l \<and> c = al_content l
        \<and> scan_text isFenced l = Some s \<and> first_marker s = Some m
        \<and> \<not> isMarkerAllowed m (case body of None \<Rightarrow> [] | Some b \<Rightarrow> b))"
proof -
  have "Suppression f m n c \<in> set (suppression_violations isFenced body diffText) \<longleftrightarrow>
     (\<exists>l. (l, m) \<in> set (findSuppressions isFenced (parseAddedLines diffText)) \<and> f = al_file l \<and> n = al_lineNo l \<and> c = al_content l
        \<and> \<not> isMarkerAllowed m (case body of None \<Rightarrow> [] | Some b \<Rightarrow> b))"
    unfolding suppression_violations_def by (force simp: image_iff)
  then show ?thesis unfolding findSuppressions_iff by blast
qed

lemma suppression_violations_empty:
  "suppression_violations isFenced body diffText = [] \<longleftrightarrow>
     (\<forall>l\<in>set (parseAddedLines diffText). \<forall>s m. scan_text isFenced l = Some s \<and> first_marker s = Some m \<longrightarrow>
        isMarkerAllowed m (case body of None \<Rightarrow> [] | Some b \<Rightarrow> b))"
proof -
  have "suppression_violations isFenced body diffText = [] \<longleftrightarrow>
      (\<forall>f m n c. Suppression f m n c \<notin> set (suppression_violations isFenced body diffText))"
    by (cases "suppression_violations isFenced body diffText") (auto simp: suppression_violations_def Cons_eq_map_conv)
  then show ?thesis unfolding suppression_violations_iff by blast
qed

lemma first_marker_None: "first_marker s = None \<longleftrightarrow> (\<forall>m\<in>set SUPPRESSION_MARKERS. \<not> str_includes s m)"
  by (auto simp: first_marker_def find_None_iff)

lemma first_marker_Some: "first_marker s = Some m \<Longrightarrow> m \<in> set SUPPRESSION_MARKERS \<and> str_includes s m"
  by (auto simp: first_marker_def find_Some_iff)

text \<open>What the gate scans of an added line of a file of the diff, by the real name of the file: the
  exemptions of documents and of MDX need a name that the diff spells plainly, and every added line of a
  file with any other name is scanned in full.\<close>

definition scan_added :: "(string \<Rightarrow> int \<Rightarrow> bool) \<Rightarrow> file_diff \<Rightarrow> added_line \<Rightarrow> string option" where
  "scan_added isFenced f l =
     (if plain_name (fd_name f) then scan_text isFenced (l\<lparr>al_file := fd_name f\<rparr>) else Some (al_content l))"

lemma after_last_snoc: "d \<noteq> c \<Longrightarrow> after_last c (s @ [d]) = after_last c s @ [d]"
  by (simp add: after_last_def)

lemma odd_spelling_extension:
  assumes "x = tab \<or> x = CHR 0x22"
  shows "\<not> isDocFile (s @ [x]) \<and> \<not> isMdxFile (s @ [x])"
proof -
  have n: "x \<noteq> CHR ''/''" "x \<noteq> CHR ''.''" using assms by (auto simp: tab_def)
  have last: "last (to_lower (CHR ''.'' # after_last CHR ''.'' (b @ [x]))) \<in> {tab, CHR 0x22}" for b
    using assms unfolding after_last_snoc [OF n(2)] to_lower_def by (auto simp: tab_def lower_def code_def)
  have "e = to_lower (CHR ''.'' # after_last CHR ''.'' (after_last CHR ''/'' s @ [x]))"
    if "final_extension (s @ [x]) = Some e" for e
    using that by (simp add: final_extension_def after_last_snoc [OF n(1)] Let_def split: if_splits)
  then have "last e \<in> {tab, CHR 0x22}" if "final_extension (s @ [x]) = Some e" for e
    using that last by blast
  moreover have "last e \<notin> {tab, CHR 0x22}" if "e \<in> set DOC_EXTENSIONS \<or> e = ''.mdx''" for e
    using that by (auto simp: DOC_EXTENSIONS_def tab_def)
  ultimately show ?thesis unfolding isDocFile_def isMdxFile_def by (fastforce split: option.splits)
qed

lemma read_name_odd:
  assumes "\<not> fd_deleted f" and "\<not> plain_name (fd_name f)"
  shows "\<not> isDocFile (read_name f) \<and> \<not> isMdxFile (read_name f)"
proof -
  obtain s x where "read_name f = s @ [x]" "x = tab \<or> x = CHR 0x22"
  proof (cases "name_tab f = []")
    case True
    then have "CHR '' '' \<notin> set (name_label f)" by (simp add: name_tab_def split: if_splits)
    then have "CHR '' '' \<notin> set (fd_name f)" if "\<not> quoted_name (fd_name f)"
      using that assms(1) by (simp add: name_label_def)
    then have q: "quoted_name (fd_name f)" using assms(2) by (auto simp: plain_name_def)
    have "name_label f = (CHR 0x22 # ''b/'' @ concat (map escape_char (fd_name f))) @ [CHR 0x22]"
      unfolding name_label_def using assms(1) q by (simp only: if_True if_False append_Cons append_assoc simp_thms)
    then have "read_name f = (CHR 0x22 # ''b/'' @ concat (map escape_char (fd_name f))) @ [CHR 0x22]"
      unfolding read_name_def True using q by (simp only: simp_thms if_True append_Nil2)
    then show thesis using that by blast
  next
    case False
    then have "name_tab f = [tab]" by (simp add: name_tab_def split: if_splits)
    then have "read_name f = (if fd_deleted f \<or> quoted_name (fd_name f) then name_label f else fd_name f) @ [tab]"
      by (simp only: read_name_def)
    then show thesis using that by blast
  qed
  then show ?thesis using odd_spelling_extension [of x s] by (simp only: simp_thms)
qed

lemma body_added_file: "l \<in> set (body_added f n bs) \<Longrightarrow> al_file l = f"
  by (induction f n bs rule: body_added.induct) auto

lemma body_added_none: "new_size bs = 0 \<Longrightarrow> body_added f n bs = []"
  by (induction f n bs rule: body_added.induct) auto

lemma added_of_file: "l \<in> set (added_of [f]) \<Longrightarrow> al_file l = read_name f"
  by (auto simp: added_of_def dest: body_added_file)

lemma added_of_deleted: "wf_file_diff f \<Longrightarrow> fd_deleted f \<Longrightarrow> added_of [f] = []"
  by (auto simp: added_of_def wf_file_diff_def list_all_iff body_added_none)

lemma set_added_of: "set (added_of fs) = (\<Union>f\<in>set fs. set (added_of [f]))"
  by (auto simp: added_of_def)

lemma scan_added_eq:
  assumes "wf_file_diff f" and "l \<in> set (added_of [f])"
  shows "scan_text isFenced l = scan_added isFenced f l"
proof -
  have d: "\<not> fd_deleted f" using assms added_of_deleted by fastforce
  show ?thesis
  proof (cases "plain_name (fd_name f)")
    case True
    then have "l\<lparr>al_file := fd_name f\<rparr> = l" using added_of_file [OF assms(2)] read_name_plain [OF d] by simp
    then show ?thesis using True by (simp add: scan_added_def)
  next
    case False
    then show ?thesis
      using read_name_odd [OF d] added_of_file [OF assms(2)] by (simp add: scan_added_def scan_text_def)
  qed
qed

text \<open>C25: on a diff in the format of git, the gate reports a suppression for exactly the added lines that
  it scans, at their line numbers and under the name of their file as the diff spells it, whose first marker
  the body of the ticket does not allow. It scans every added line, except those of documents, and those
  parts of MDX files that are in fences or code spans; both exemptions hold only for a file whose name has
  no space and no character that git quotes, so that no name hides a line, but the lines of a document such
  as \<open>my notes.md\<close> are scanned. When the body allows no marker, the gate is clean exactly when no scanned
  line that the diff adds holds a marker.\<close>

theorem suppressions_reported:
  assumes "list_all wf_file_diff fs" and "ci_diffText ci = diff_text fs"
  shows "(Suppression r m n c \<in> set (cr_violations (runChecks tc ci)) \<longleftrightarrow>
       (\<exists>f\<in>set fs. \<exists>l\<in>set (added_of [f]). r = read_name f \<and> al_lineNo l = n \<and> al_content l = c
          \<and> \<not> isMarkerAllowed m (ticket_body ci)
          \<and> (\<exists>s. scan_added (ci_isFenced ci) f l = Some s \<and> first_marker s = Some m)))
     \<and> ((\<forall>m\<in>set SUPPRESSION_MARKERS. \<not> isMarkerAllowed m (ticket_body ci)) \<longrightarrow>
        (cr_suppressionsClean (runChecks tc ci) \<longleftrightarrow>
          (\<forall>f\<in>set fs. \<forall>l\<in>set (added_of [f]). \<forall>s. scan_added (ci_isFenced ci) f l = Some s \<longrightarrow>
             (\<forall>m\<in>set SUPPRESSION_MARKERS. \<not> str_includes s m))))"
proof (intro conjI impI)
  have p: "set (parseAddedLines (ci_diffText ci)) = (\<Union>f\<in>set fs. set (added_of [f]))"
    unfolding assms(2) parse_diff [OF assms(1)] by (rule set_added_of)
  have sc: "scan_text (ci_isFenced ci) l = scan_added (ci_isFenced ci) f l" "al_file l = read_name f"
    if "f \<in> set fs" "l \<in> set (added_of [f])" for f l
    using that assms(1) scan_added_eq [of f l] added_of_file [of l f] by (auto simp: list_all_iff)
  have "Suppression r m n c \<notin> set (gate_rail_edits tc ci)"
    by (auto simp: gate_rail_edits_def Let_def dest: rail_edits_only)
  then have "Suppression r m n c \<in> set (cr_violations (runChecks tc ci)) \<longleftrightarrow>
      Suppression r m n c \<in> set (suppression_violations (ci_isFenced ci) (ci_ticketBody ci) (ci_diffText ci))"
    unfolding runChecks_violations(1) by simp
  also have "\<dots> \<longleftrightarrow> (\<exists>f\<in>set fs. \<exists>l\<in>set (added_of [f]). r = al_file l \<and> n = al_lineNo l \<and> c = al_content l
      \<and> (\<exists>s. scan_text (ci_isFenced ci) l = Some s \<and> first_marker s = Some m \<and> \<not> isMarkerAllowed m (ticket_body ci)))"
    unfolding suppression_violations_iff p ticket_body_def by blast
  also have "\<dots> \<longleftrightarrow> (\<exists>f\<in>set fs. \<exists>l\<in>set (added_of [f]). r = read_name f \<and> al_lineNo l = n \<and> al_content l = c
      \<and> \<not> isMarkerAllowed m (ticket_body ci)
      \<and> (\<exists>s. scan_added (ci_isFenced ci) f l = Some s \<and> first_marker s = Some m))"
    by (intro bex_cong refl) (auto simp: sc)
  finally show "Suppression r m n c \<in> set (cr_violations (runChecks tc ci)) \<longleftrightarrow>
       (\<exists>f\<in>set fs. \<exists>l\<in>set (added_of [f]). r = read_name f \<and> al_lineNo l = n \<and> al_content l = c
          \<and> \<not> isMarkerAllowed m (ticket_body ci)
          \<and> (\<exists>s. scan_added (ci_isFenced ci) f l = Some s \<and> first_marker s = Some m))" .
  assume none: "\<forall>m\<in>set SUPPRESSION_MARKERS. \<not> isMarkerAllowed m (ticket_body ci)"
  have "cr_suppressionsClean (runChecks tc ci) \<longleftrightarrow>
      (\<forall>l\<in>(\<Union>f\<in>set fs. set (added_of [f])). \<forall>s. scan_text (ci_isFenced ci) l = Some s \<longrightarrow> first_marker s = None)"
    unfolding runChecks_violations(3) suppression_violations_empty p ticket_body_def [symmetric]
    using none first_marker_Some by (metis not_Some_eq)
  also have "\<dots> \<longleftrightarrow> (\<forall>f\<in>set fs. \<forall>l\<in>set (added_of [f]). \<forall>s. scan_added (ci_isFenced ci) f l = Some s \<longrightarrow> first_marker s = None)"
    using sc by auto
  finally show "cr_suppressionsClean (runChecks tc ci) \<longleftrightarrow>
          (\<forall>f\<in>set fs. \<forall>l\<in>set (added_of [f]). \<forall>s. scan_added (ci_isFenced ci) f l = Some s \<longrightarrow>
             (\<forall>m\<in>set SUPPRESSION_MARKERS. \<not> str_includes s m))"
    unfolding first_marker_None .
qed

theorem suppressions_reported_witness:
  "Suppression ''x.js'' ''.skip('' 5 ''it.skip(1)'' \<in> set (cr_violations (runChecks ex_codec (ex_check ex_diff None)))
   \<and> Suppression (''my y.md'' @ [tab]) ''.skip('' 1 ''.skip('' \<in> set (cr_violations (runChecks ex_codec (ex_check ex_diff None)))"
proof -
  have d: "ci_diffText (ex_check ex_diff None) = diff_text ex_diff" by (simp add: ex_check_def)
  let ?l = "\<lparr>al_file = ''x.js'', al_lineNo = 5, al_content = ''it.skip(1)''\<rparr>"
  let ?k = "\<lparr>al_file = ''my y.md'' @ [tab], al_lineNo = 1, al_content = ''.skip(''\<rparr>"
  have f: "ex_diff ! 0 \<in> set ex_diff" "ex_diff ! 2 \<in> set ex_diff" by (rule nth_mem, simp add: ex_diff_def)+
  have l: "?l \<in> set (added_of [ex_diff ! 0])" "?k \<in> set (added_of [ex_diff ! 2])" by code_simp+
  have r: "''x.js'' = read_name (ex_diff ! 0)" "''my y.md'' @ [tab] = read_name (ex_diff ! 2)" by code_simp+
  have a: "\<not> isMarkerAllowed ''.skip('' (ticket_body (ex_check ex_diff None))"
    by (simp add: ticket_body_def ex_check_def isMarkerAllowed_def)
  have s: "scan_added (ci_isFenced (ex_check ex_diff None)) (ex_diff ! 0) ?l = Some ''it.skip(1)''"
    "scan_added (ci_isFenced (ex_check ex_diff None)) (ex_diff ! 2) ?k = Some ''.skip(''" by code_simp+
  have m: "first_marker ''it.skip(1)'' = Some ''.skip(''" "first_marker ''.skip('' = Some ''.skip(''" by code_simp+
  note iff = suppressions_reported [OF ex_diff_wf d, THEN conjunct1, THEN iffD2]
  have "al_lineNo ?l = 5" "al_content ?l = ''it.skip(1)''" "al_lineNo ?k = 1" "al_content ?k = ''.skip(''" by simp_all
  then show ?thesis
    by (intro conjI iff) (use f l r a s m in blast)+
qed

text \<open>C37: only the first marker of a line is looked up in the ticket body, although the report stops there
  because one violation per line is enough. A ticket that allows \<open>.skip(\<close> and nothing else lets an added line
  that also switches off the linter pass.\<close>

theorem second_marker_hidden:
  "cr_suppressionsClean (runChecks tc (ex_check
       [\<lparr>fd_header = [], fd_name = ''x.js'', fd_hunks = [\<lparr>hk_oldStart = 1, hk_newStart = 1, hk_section = [],
          hk_body = [Add (''it.skip(); // eslint-disable-line '' @ replicate n CHR ''x'')]\<rparr>], fd_deleted = False\<rparr>] (Some ''allow-suppression: .skip('')))
   \<and> str_includes (''it.skip(); // eslint-disable-line '' @ replicate n CHR ''x'') ''eslint-disable''
   \<and> \<not> isMarkerAllowed ''eslint-disable'' ''allow-suppression: .skip(''"
proof -
  let ?c = "''it.skip(); // eslint-disable-line '' @ replicate n CHR ''x''"
  let ?fs = "[\<lparr>fd_header = [], fd_name = ''x.js'', fd_hunks = [\<lparr>hk_oldStart = 1, hk_newStart = 1, hk_section = [], hk_body = [Add ?c]\<rparr>], fd_deleted = False\<rparr>]"
  have "wf_file_diff (?fs ! 0)" by (simp add: wf_file_diff_def body_content_def newline_def)
  then have wf: "list_all wf_file_diff ?fs" by simp
  have p: "parseAddedLines (diff_text ?fs) = [\<lparr>al_file = ''x.js'', al_lineNo = 1, al_content = ?c\<rparr>]"
  proof -
    have "plain_name ''x.js''" by code_simp
    then have "read_name (?fs ! 0) = ''x.js''" using read_name_plain [of "?fs ! 0"] by simp
    then show ?thesis using parse_diff [OF wf] by (simp add: added_of_def)
  qed
  have doc: "\<not> isDocFile ''x.js''" "\<not> isMdxFile ''x.js''" by code_simp+
  have m: "first_marker ?c = Some ''.skip(''" by (simp add: first_marker_def SUPPRESSION_MARKERS_def)
  have a: "isMarkerAllowed ''.skip('' ''allow-suppression: .skip(''" "\<not> isMarkerAllowed ''eslint-disable'' ''allow-suppression: .skip(''"
    by code_simp+
  have "cr_suppressionsClean (runChecks tc (ex_check ?fs (Some ''allow-suppression: .skip('')))"
    unfolding runChecks_violations(3) suppression_violations_empty
    by (simp only: ex_check_def check_input.simps p) (simp add: scan_text_def doc m a del: append.simps)
  moreover have "str_includes ?c ''eslint-disable''" by simp
  ultimately show ?thesis using a(2) by blast
qed

end
