(* ===== verification/CodeOwners.thy ===== *)
theory CodeOwners
  imports RailVersion
begin

text \<open>
  Who may approve a change of a trust root (\<^verbatim>\<open>packages/rails-guard/lib/trust-root-authorization.mjs\<close> and
  \<^verbatim>\<open>packages/rails-guard/lib/ci/codeowners.mjs\<close>): the pattern matcher and the reader of CODEOWNERS, the
  owners of a set of paths, and the decision of the ceremony on the labels and reviews of a pull request. A
  pattern is compiled to a regular expression as in the code, piece by piece, and the matcher is proved to
  read patterns and paths segment by segment. \<open>git show <base>:<file>\<close> is a map from file names to texts;
  the logins, states and labels that GitHub reports are strings or null.
\<close>

section \<open>The matcher\<close>

text \<open>The pieces of the regular expressions the code builds, and matching from \<^verbatim>\<open>^\<close> to \<^verbatim>\<open>$\<close>.\<close>

datatype rx = RChar char | ROne | RMany | RDirs | RRest

definition line_end :: "char \<Rightarrow> bool" where
  "line_end c \<longleftrightarrow> c = newline \<or> c = CHR 0x0D"

definition until_slash :: "string \<Rightarrow> string" where
  "until_slash w = takeWhile (\<lambda>c. c \<noteq> CHR ''/'') w"

definition from_slash :: "string \<Rightarrow> string" where
  "from_slash w = dropWhile (\<lambda>c. c \<noteq> CHR ''/'') w"

lemma until_from [simp]: "until_slash w @ from_slash w = w"
  by (simp add: until_slash_def from_slash_def)

lemma from_slash_length: "from_slash w \<noteq> [] \<Longrightarrow> length (tl (from_slash w)) < length w"
  using length_dropWhile_le [of "\<lambda>c. c \<noteq> CHR ''/''" w] unfolding from_slash_def
  by (cases "dropWhile (\<lambda>c. c \<noteq> CHR ''/'') w") auto

function rx_match :: "rx list \<Rightarrow> string \<Rightarrow> bool" where
  "rx_match [] w = (w = [])"
| "rx_match (RChar c # r) [] = False"
| "rx_match (RChar c # r) (x # w) = (if x = c then rx_match r w else False)"
| "rx_match (ROne # r) [] = False"
| "rx_match (ROne # r) (x # w) = (if x \<noteq> CHR ''/'' then rx_match r w else False)"
| "rx_match (RMany # r) [] = rx_match r []"
| "rx_match (RMany # r) (x # w) = (rx_match r (x # w) \<or> (if x \<noteq> CHR ''/'' then rx_match (RMany # r) w else False))"
| "rx_match (RDirs # r) w =
     (rx_match r w \<or> (if until_slash w \<noteq> [] \<and> from_slash w \<noteq> [] then rx_match (RDirs # r) (tl (from_slash w)) else False))"
| "rx_match (RRest # r) [] = rx_match r []"
| "rx_match (RRest # r) (x # w) = (rx_match r (x # w) \<or> (if \<not> line_end x then rx_match (RRest # r) w else False))"
  by pat_completeness auto

termination
  by (relation "measures [\<lambda>(r, w). length r, \<lambda>(r, w). length w]") (auto dest: from_slash_length)

text \<open>\<open>segmentToRegex\<close>: the escapes of the first \<open>replace\<close> make every other character stand for itself.\<close>

function seg_rx :: "string \<Rightarrow> rx list" where
  "seg_rx [] = []"
| "seg_rx (c # s) =
     (if c = CHR ''*'' then RMany # seg_rx (dropWhile (\<lambda>x. x = CHR ''*'') s)
      else if c = CHR ''?'' then ROne # seg_rx s
      else RChar c # seg_rx s)"
  by pat_completeness auto

termination
  by (relation "measure length") (auto simp: le_imp_less_Suc length_dropWhile_le)

fun path_rx :: "string list \<Rightarrow> rx list" where
  "path_rx [] = []"
| "path_rx [s] = (if s = ''**'' then [RRest] else seg_rx s)"
| "path_rx (s # t # ss) =
     (if s = ''**'' then RDirs # path_rx (t # ss) else seg_rx s @ RChar CHR ''/'' # path_rx (t # ss))"

definition codeownersMatch :: "string \<Rightarrow> string \<Rightarrow> bool" where
  "codeownersMatch pattern path =
     (let anchored = starts_with pattern ''/''; p1 = (if anchored then drop 1 pattern else pattern);
          dir = ends_with p1 ''/''; p = (if dir then butlast p1 else p1);
          re = path_rx (split_on CHR ''/'' p) @ (if dir then [RChar CHR ''/'', RRest] else [])
      in rx_match re path \<or> \<not> anchored \<and> rx_match re (base_name path))"

section \<open>CODEOWNERS\<close>






definition drop_at :: "string \<Rightarrow> string" where
  "drop_at s = (if starts_with s ''@'' then drop 1 s else s)"










section \<open>The ceremony\<close>

definition normalizeLogin :: "string option \<Rightarrow> string" where
  "normalizeLogin v = to_lower (drop_at (trim (case v of None \<Rightarrow> [] | Some s \<Rightarrow> s)))"

definition isTeamOwner :: "string \<Rightarrow> bool" where
  "isTeamOwner owner \<longleftrightarrow> str_includes (normalizeLogin (Some owner)) ''/''"

definition lookupTeamMembers :: "(string \<Rightarrow> string list option) \<Rightarrow> string \<Rightarrow> string list option" where
  "lookupTeamMembers members team = (case members team of Some m \<Rightarrow> Some m | None \<Rightarrow> members (CHR ''@'' # team))"

text \<open>\<open>toUpperCase\<close> on code points below 256: the sharp s becomes two letters.\<close>

definition upper :: "char \<Rightarrow> string" where
  "upper c = (if code c = 223 then ''SS''
     else if 97 \<le> code c \<and> code c \<le> 122 \<or> 224 \<le> code c \<and> code c \<le> 254 \<and> code c \<noteq> 247 then [char_of (code c - 32)] else [c])"

definition to_upper :: "string \<Rightarrow> string" where
  "to_upper s = concat (map upper s)"

record review =
  rv_user :: "string option"
  rv_state :: "string option"

definition STATE_CHANGING :: "string list" where
  "STATE_CHANGING = [''APPROVED'', ''CHANGES_REQUESTED'', ''DISMISSED'']"

definition review_state :: "review \<Rightarrow> string" where
  "review_state r = to_upper (case rv_state r of None \<Rightarrow> [] | Some s \<Rightarrow> s)"

definition latestEffectiveStates :: "review list \<Rightarrow> (string \<times> (string option \<times> string)) list" where
  "latestEffectiveStates reviews = fold (\<lambda>r byUser.
     if review_state r \<notin> set STATE_CHANGING then byUser
     else AList.update (normalizeLogin (rv_user r)) (rv_user r, review_state r) byUser) reviews []"

datatype auth_reason = MissingLabel | NoOwners | ApprovedBy | TeamsOnly "string list" | NoApproval

record auth_decision =
  ad_authorized :: bool
  ad_approver :: "string option"
  ad_reason :: auth_reason

definition owner_logins :: "(string \<Rightarrow> string list option) \<Rightarrow> string list \<Rightarrow> string set \<times> string list" where
  "owner_logins members owners = fold (\<lambda>entry (owned, teams).
     if isTeamOwner entry then
       (case lookupTeamMembers members entry of
          Some ms \<Rightarrow> (owned \<union> (set (map (\<lambda>m. normalizeLogin (Some m)) ms) - {[]}), teams)
        | None \<Rightarrow> (owned, if CHR ''@'' # entry \<in> set teams then teams else teams @ [CHR ''@'' # entry]))
     else (insert entry owned, teams)) owners ({}, [])"

definition classifyTrustRootAuthorization ::
  "(string \<Rightarrow> string list option) \<Rightarrow> string \<Rightarrow> string option list \<Rightarrow> review list \<Rightarrow> string option \<Rightarrow> string list \<Rightarrow> auth_decision" where
  "classifyTrustRootAuthorization members requiredLabel labels reviews author owners =
     (if normalizeLogin (Some requiredLabel) \<notin> set (map normalizeLogin labels)
      then \<lparr>ad_authorized = False, ad_approver = None, ad_reason = MissingLabel\<rparr>
      else let normalizedOwners = filter (\<lambda>l. l \<noteq> []) (map (\<lambda>l. normalizeLogin (Some l)) owners) in
        if normalizedOwners = [] then \<lparr>ad_authorized = False, ad_approver = None, ad_reason = NoOwners\<rparr>
        else let (ownerSet, teams) = owner_logins members normalizedOwners in
          case find (\<lambda>(login, user, state). state = ''APPROVED'' \<and> login \<noteq> normalizeLogin author \<and> login \<in> ownerSet)
              (latestEffectiveStates reviews) of
            Some (login, user, state) \<Rightarrow> \<lparr>ad_authorized = True, ad_approver = user, ad_reason = ApprovedBy\<rparr>
          | None \<Rightarrow> \<lparr>ad_authorized = False, ad_approver = None,
              ad_reason = (if teams \<noteq> [] then TeamsOnly teams else NoApproval)\<rparr>)"

section \<open>The matcher reads segments\<close>

inductive dirs :: "string \<Rightarrow> bool" where
  dirs_nil: "dirs []"
| dirs_cons: "d \<noteq> [] \<Longrightarrow> CHR ''/'' \<notin> set d \<Longrightarrow> dirs w \<Longrightarrow> dirs (d @ CHR ''/'' # w)"

fun rx_atom :: "rx \<Rightarrow> string \<Rightarrow> bool" where
  "rx_atom (RChar c) w \<longleftrightarrow> w = [c]"
| "rx_atom ROne w \<longleftrightarrow> (\<exists>x. w = [x] \<and> x \<noteq> CHR ''/'')"
| "rx_atom RMany w \<longleftrightarrow> CHR ''/'' \<notin> set w"
| "rx_atom RDirs w \<longleftrightarrow> dirs w"
| "rx_atom RRest w \<longleftrightarrow> list_all (\<lambda>c. \<not> line_end c) w"

fun rx_lang :: "rx list \<Rightarrow> string \<Rightarrow> bool" where
  "rx_lang [] w \<longleftrightarrow> w = []"
| "rx_lang (a # r) w \<longleftrightarrow> (\<exists>u v. w = u @ v \<and> rx_atom a u \<and> rx_lang r v)"

lemma until_slash_split:
  assumes "CHR ''/'' \<notin> set d"
  shows "until_slash (d @ CHR ''/'' # w) = d" "from_slash (d @ CHR ''/'' # w) = CHR ''/'' # w"
  using assms unfolding until_slash_def from_slash_def by (induction d) auto

lemma from_slash_split: "from_slash w \<noteq> [] \<Longrightarrow> w = until_slash w @ CHR ''/'' # tl (from_slash w)"
proof -
  assume f: "from_slash w \<noteq> []"
  then have "hd (from_slash w) = CHR ''/''" unfolding from_slash_def using hd_dropWhile by fast
  with f show ?thesis by (metis until_from list.collapse)
qed

lemma until_slash_clean: "CHR ''/'' \<notin> set (until_slash w)"
  unfolding until_slash_def by (induction w) auto

lemma class_star:
  "(\<exists>u v. x # w = u @ v \<and> list_all P u \<and> L v) \<longleftrightarrow> L (x # w) \<or> P x \<and> (\<exists>u v. w = u @ v \<and> list_all P u \<and> L v)"
  (is "?l \<longleftrightarrow> ?r")
proof
  assume ?l
  then obtain u v where uv: "x # w = u @ v" "list_all P u" "L v" by blast
  show ?r
  proof (cases u)
    case Nil
    with uv show ?thesis by simp
  next
    case (Cons y u2)
    with uv have "P x" "w = u2 @ v" "list_all P u2" by simp_all
    with uv(3) show ?thesis by blast
  qed
next
  assume ?r
  then show ?l
  proof
    assume "L (x # w)"
    then have "x # w = [] @ (x # w) \<and> list_all P [] \<and> L (x # w)" by simp
    then show ?l by blast
  next
    assume "P x \<and> (\<exists>u v. w = u @ v \<and> list_all P u \<and> L v)"
    then obtain u v where "P x" "w = u @ v" "list_all P u" "L v" by blast
    then have "x # w = (x # u) @ v \<and> list_all P (x # u) \<and> L v" by simp
    then show ?l by blast
  qed
qed

lemma no_slash_all: "CHR ''/'' \<notin> set u \<longleftrightarrow> list_all (\<lambda>c. c \<noteq> CHR ''/'') u"
  by (induction u) auto

lemma rx_lang_many:
  "rx_lang (RMany # r) (x # w) \<longleftrightarrow> rx_lang r (x # w) \<or> x \<noteq> CHR ''/'' \<and> rx_lang (RMany # r) w"
  by (simp only: rx_lang.simps rx_atom.simps no_slash_all class_star)

lemma rx_lang_rest:
  "rx_lang (RRest # r) (x # w) \<longleftrightarrow> rx_lang r (x # w) \<or> \<not> line_end x \<and> rx_lang (RRest # r) w"
  by (simp only: rx_lang.simps rx_atom.simps class_star)

lemma rx_lang_dirs:
  "rx_lang (RDirs # r) w \<longleftrightarrow>
     rx_lang r w \<or> until_slash w \<noteq> [] \<and> from_slash w \<noteq> [] \<and> rx_lang (RDirs # r) (tl (from_slash w))"
proof
  assume "rx_lang (RDirs # r) w"
  then obtain u v where w: "w = u @ v" "dirs u" "rx_lang r v" by auto
  from w(2) show "rx_lang r w \<or> until_slash w \<noteq> [] \<and> from_slash w \<noteq> [] \<and> rx_lang (RDirs # r) (tl (from_slash w))"
  proof cases
    case dirs_nil
    with w show ?thesis by simp
  next
    case (dirs_cons d u2)
    then show ?thesis using w by (auto simp: until_slash_split)
  qed
next
  assume "rx_lang r w \<or> until_slash w \<noteq> [] \<and> from_slash w \<noteq> [] \<and> rx_lang (RDirs # r) (tl (from_slash w))"
  then show "rx_lang (RDirs # r) w"
  proof
    assume "rx_lang r w"
    then have "w = [] @ w \<and> rx_atom RDirs [] \<and> rx_lang r w" by (simp add: dirs_nil)
    then show ?thesis unfolding rx_lang.simps by blast
  next
    assume a: "until_slash w \<noteq> [] \<and> from_slash w \<noteq> [] \<and> rx_lang (RDirs # r) (tl (from_slash w))"
    then obtain u v where uv: "tl (from_slash w) = u @ v" "dirs u" "rx_lang r v" by auto
    from a from_slash_split [of w] have "w = (until_slash w @ CHR ''/'' # u) @ v" using uv(1) by simp
    moreover have "dirs (until_slash w @ CHR ''/'' # u)" using a uv(2) until_slash_clean by (blast intro: dirs_cons)
    ultimately show ?thesis using uv(3) unfolding rx_lang.simps rx_atom.simps by blast
  qed
qed

lemma rx_lang_char:
  "\<not> rx_lang (RChar c # r) []" "rx_lang (RChar c # r) (x # w) \<longleftrightarrow> x = c \<and> rx_lang r w"
  by auto

lemma one_step: "(\<exists>u v. x # w = u @ v \<and> (\<exists>y. u = [y] \<and> Q y) \<and> L v) \<longleftrightarrow> Q x \<and> L w"
proof
  assume "Q x \<and> L w"
  then have "x # w = [x] @ w \<and> (\<exists>y. [x] = [y] \<and> Q y) \<and> L w" by simp
  then show "\<exists>u v. x # w = u @ v \<and> (\<exists>y. u = [y] \<and> Q y) \<and> L v" by blast
qed auto

lemma rx_lang_one:
  "\<not> rx_lang (ROne # r) []" "rx_lang (ROne # r) (x # w) \<longleftrightarrow> x \<noteq> CHR ''/'' \<and> rx_lang r w"
  by (simp, simp only: rx_lang.simps rx_atom.simps one_step)

lemma rx_lang_star_nil: "rx_lang (RMany # r) [] \<longleftrightarrow> rx_lang r []" "rx_lang (RRest # r) [] \<longleftrightarrow> rx_lang r []"
  by simp_all

lemmas rx_lang_steps = rx_lang_char rx_lang_one rx_lang_star_nil rx_lang_many rx_lang_rest

declare rx_lang.simps(2) [simp del]

lemma rx_match_lang: "rx_match rs w \<longleftrightarrow> rx_lang rs w"
proof (induction rs w rule: rx_match.induct)
  case (8 r w)
  show ?case
  proof (cases "until_slash w \<noteq> [] \<and> from_slash w \<noteq> []")
    case True
    show ?thesis by (simp only: rx_match.simps(8) [of r w] rx_lang_dirs [of r w] 8(1) 8(2) [OF True] if_P [OF True]) (use True in blast)
  next
    case False
    show ?thesis by (simp only: rx_match.simps(8) [of r w] rx_lang_dirs [of r w] 8(1) if_not_P [OF False]) (use False in blast)
  qed
qed (simp_all add: rx_lang_steps)

lemma rx_lang_append: "rx_lang (r @ s) w \<longleftrightarrow> (\<exists>u v. w = u @ v \<and> rx_lang r u \<and> rx_lang s v)"
proof (induction r arbitrary: w)
  case (Cons a r)
  show ?case
  proof
    assume "rx_lang ((a # r) @ s) w"
    then obtain u v x y where "w = u @ v" "rx_atom a u" "v = x @ y" "rx_lang r x" "rx_lang s y"
      using Cons by (auto simp: rx_lang.simps)
    then have "w = (u @ x) @ y" "rx_lang (a # r) (u @ x)" "rx_lang s y" by (auto simp: rx_lang.simps)
    then show "\<exists>u v. w = u @ v \<and> rx_lang (a # r) u \<and> rx_lang s v" by blast
  next
    assume "\<exists>u v. w = u @ v \<and> rx_lang (a # r) u \<and> rx_lang s v"
    then obtain u v x y where "w = (x @ y) @ v" "rx_atom a x" "rx_lang r y" "rx_lang s v"
      by (auto simp: rx_lang.simps)
    then have "w = x @ (y @ v)" "rx_atom a x" "rx_lang (r @ s) (y @ v)" using Cons by auto
    then show "rx_lang ((a # r) @ s) w" by (auto simp: rx_lang.simps)
  qed
qed simp

text \<open>What a segment of a pattern stands for, and what a list of them does.\<close>

fun wild :: "string \<Rightarrow> string \<Rightarrow> bool" where
  "wild [] w \<longleftrightarrow> w = []"
| "wild (c # s) w \<longleftrightarrow>
     (if c = CHR ''*'' then \<exists>u v. w = u @ v \<and> CHR ''/'' \<notin> set u \<and> wild s v
      else \<exists>x v. w = x # v \<and> (if c = CHR ''?'' then x \<noteq> CHR ''/'' else x = c) \<and> wild s v)"

fun segs_match :: "string list \<Rightarrow> string list \<Rightarrow> bool" where
  "segs_match [] ts \<longleftrightarrow> ts = []"
| "segs_match [s] ts \<longleftrightarrow> (if s = ''**'' then ts \<noteq> [] else \<exists>t. ts = [t] \<and> wild s t)"
| "segs_match (s # s2 # ss) ts \<longleftrightarrow>
     (if s = ''**'' then \<exists>ds rest. ts = ds @ rest \<and> [] \<notin> set ds \<and> segs_match (s2 # ss) rest
      else \<exists>t rest. ts = t # rest \<and> wild s t \<and> segs_match (s2 # ss) rest)"

lemma wild_no_slash: "wild s w \<Longrightarrow> CHR ''/'' \<notin> set s \<Longrightarrow> CHR ''/'' \<notin> set w"
  by (induction s arbitrary: w) (auto split: if_splits)

lemma wild_stars:
  "(\<exists>u v. w = u @ v \<and> CHR ''/'' \<notin> set u \<and> wild (dropWhile (\<lambda>x. x = CHR ''*'') s) v)
    \<longleftrightarrow> (\<exists>u v. w = u @ v \<and> CHR ''/'' \<notin> set u \<and> wild s v)"
proof (induction s arbitrary: w)
  case (Cons c s)
  show ?case
  proof (cases "c = CHR ''*''")
    case True
    have "(\<exists>u v. w = u @ v \<and> CHR ''/'' \<notin> set u \<and> wild s v)
      \<longleftrightarrow> (\<exists>u v. w = u @ v \<and> CHR ''/'' \<notin> set u \<and> (\<exists>u2 v2. v = u2 @ v2 \<and> CHR ''/'' \<notin> set u2 \<and> wild s v2))"
      (is "?l \<longleftrightarrow> ?r")
    proof
      assume ?l
      then obtain u v where "w = u @ v \<and> CHR ''/'' \<notin> set u \<and> v = [] @ v \<and> CHR ''/'' \<notin> set [] \<and> wild s v" by auto
      then show ?r by blast
    next
      assume ?r
      then obtain u u2 v2 where "w = (u @ u2) @ v2 \<and> CHR ''/'' \<notin> set (u @ u2) \<and> wild s v2" by auto
      then show ?l by blast
    qed
    with Cons True show ?thesis by simp
  qed simp
qed simp

lemma seg_rx_wild: "rx_lang (seg_rx s) w \<longleftrightarrow> wild s w"
proof (induction s arbitrary: w rule: seg_rx.induct)
  case (2 c s)
  consider "c = CHR ''*''" | "c = CHR ''?''" | "c \<noteq> CHR ''*''" "c \<noteq> CHR ''?''" by blast
  then show ?case
  proof cases
    case 1
    then show ?thesis using 2(1) by (simp add: rx_lang.simps wild_stars del: dropWhile_eq_Nil_conv)
  next
    case 2
    then show ?thesis using "2.IH"(2) by (cases w) (simp_all add: rx_lang_one)
  next
    case 3
    then show ?thesis using "2.IH"(3) by (cases w) (auto simp: rx_lang_char)
  qed
qed simp

lemma split_on_slash: "split_on c (u @ c # v) = split_on c u @ split_on c v"
  by (induction u) (auto split: list.splits)

lemma split_on_cut:
  assumes "split_on c w = us @ vs" and "us \<noteq> []" and "vs \<noteq> []"
  obtains u v where "w = u @ c # v" "split_on c u = us" "split_on c v = vs"
proof -
  have clean: "\<forall>p\<in>set (us @ vs). c \<notin> set p" using split_on_parts assms(1) by metis
  have "join_with [c] (us @ vs) = join_with [c] us @ c # join_with [c] vs"
    using assms(2,3) by (induction "[c]" us rule: join_with.induct) (cases vs; simp)+
  with join_split [of c w] assms(1) have "w = join_with [c] us @ c # join_with [c] vs" by simp
  with clean that assms(2,3) show ?thesis by (simp add: split_join)
qed

lemma dirs_split: "dirs u \<Longrightarrow> \<exists>ds. [] \<notin> set ds \<and> split_on CHR ''/'' (u @ v) = ds @ split_on CHR ''/'' v"
proof (induction rule: dirs.induct)
  case (dirs_cons d w)
  then obtain ds where "[] \<notin> set ds" "split_on CHR ''/'' (w @ v) = ds @ split_on CHR ''/'' v" by blast
  with dirs_cons(1,2) have "[] \<notin> set (d # ds) \<and> split_on CHR ''/'' ((d @ CHR ''/'' # w) @ v) = (d # ds) @ split_on CHR ''/'' v"
    by (simp add: split_on_append)
  then show ?case by blast
qed (auto intro: exI [of _ "[]"])

lemma split_dirs:
  "split_on CHR ''/'' w = ds @ rest \<Longrightarrow> [] \<notin> set ds \<Longrightarrow> rest \<noteq> [] \<Longrightarrow>
     \<exists>u v. w = u @ v \<and> dirs u \<and> split_on CHR ''/'' v = rest"
proof (induction ds arbitrary: w)
  case Nil
  then have "w = [] @ w \<and> dirs [] \<and> split_on CHR ''/'' w = rest" by (simp add: dirs_nil)
  then show ?case by blast
next
  case (Cons d ds)
  obtain u v where w: "w = u @ CHR ''/'' # v" "split_on CHR ''/'' u = [d]" "split_on CHR ''/'' v = ds @ rest"
    using split_on_cut [of "CHR ''/''" w "[d]" "ds @ rest"] Cons.prems by auto
  have u: "u = d" using join_split [of "CHR ''/''" u] w(2) by simp
  have d: "CHR ''/'' \<notin> set d" using split_on_parts [of d "CHR ''/''" u] w(2) by simp
  from Cons.IH [OF w(3)] Cons.prems obtain x y where xy: "v = x @ y" "dirs x" "split_on CHR ''/'' y = rest" by auto
  have "w = (d @ CHR ''/'' # x) @ y \<and> dirs (d @ CHR ''/'' # x) \<and> split_on CHR ''/'' y = rest"
    using w(1) u d xy Cons.prems(2) by (auto intro: dirs_cons)
  then show ?case by blast
qed

lemma segs_match_nonempty: "segs_match (s # ss) ts \<Longrightarrow> ts \<noteq> []"
  by (induction "s # ss" ts arbitrary: s ss rule: segs_match.induct) (auto split: if_splits)

lemma path_rx_segs:
  "ss \<noteq> [] \<Longrightarrow> \<forall>s\<in>set ss. CHR ''/'' \<notin> set s \<Longrightarrow> list_all (\<lambda>c. \<not> line_end c) w \<Longrightarrow>
     rx_lang (path_rx ss) w \<longleftrightarrow> segs_match ss (split_on CHR ''/'' w)"
proof (induction ss arbitrary: w rule: path_rx.induct)
  case (2 s)
  show ?case
  proof (cases "s = ''**''")
    case True
    with 2 show ?thesis by (simp add: rx_lang.simps)
  next
    case False
    have "wild s w \<longleftrightarrow> (\<exists>t. split_on CHR ''/'' w = [t] \<and> wild s t)"
    proof
      assume a: "wild s w"
      then have "CHR ''/'' \<notin> set w" using wild_no_slash 2(2) by simp
      with a show "\<exists>t. split_on CHR ''/'' w = [t] \<and> wild s t" by (simp add: split_on_no_sep)
    next
      assume "\<exists>t. split_on CHR ''/'' w = [t] \<and> wild s t"
      then show "wild s w" using join_split [of "CHR ''/''" w] by auto
    qed
    with False show ?thesis by (simp add: seg_rx_wild)
  qed
next
  case (3 s t ss)
  show ?case
  proof (cases "s = ''**''")
    case True
    have "(\<exists>u v. w = u @ v \<and> dirs u \<and> rx_lang (path_rx (t # ss)) v)
      \<longleftrightarrow> (\<exists>ds rest. split_on CHR ''/'' w = ds @ rest \<and> [] \<notin> set ds \<and> segs_match (t # ss) rest)" (is "?l \<longleftrightarrow> ?r")
    proof
      assume ?l
      then obtain u v where uv: "w = u @ v" "dirs u" "rx_lang (path_rx (t # ss)) v" by blast
      then have "segs_match (t # ss) (split_on CHR ''/'' v)" using "3.IH"(1) [OF True, of v] "3.prems" by simp
      with dirs_split [OF uv(2), of v] uv(1) show ?r by blast
    next
      assume ?r
      then obtain ds rest where r: "split_on CHR ''/'' w = ds @ rest" "[] \<notin> set ds" "segs_match (t # ss) rest" by blast
      from split_dirs [OF r(1,2) segs_match_nonempty [OF r(3)]] obtain u v
        where uv: "w = u @ v" "dirs u" "split_on CHR ''/'' v = rest" by blast
      then have "rx_lang (path_rx (t # ss)) v" using "3.IH"(1) [OF True, of v] "3.prems" r(3) by simp
      with uv show ?l by blast
    qed
    with True show ?thesis by (simp add: rx_lang.simps)
  next
    case False
    have "(\<exists>u v. w = u @ CHR ''/'' # v \<and> wild s u \<and> rx_lang (path_rx (t # ss)) v)
      \<longleftrightarrow> (\<exists>x rest. split_on CHR ''/'' w = x # rest \<and> wild s x \<and> segs_match (t # ss) rest)" (is "?l \<longleftrightarrow> ?r")
    proof
      assume ?l
      then obtain u v where uv: "w = u @ CHR ''/'' # v" "wild s u" "rx_lang (path_rx (t # ss)) v" by blast
      then have "segs_match (t # ss) (split_on CHR ''/'' v)" using "3.IH"(2) [OF False, of v] "3.prems" by simp
      moreover have "split_on CHR ''/'' w = u # split_on CHR ''/'' v"
        using uv(1) wild_no_slash [OF uv(2)] "3.prems"(2) by (simp add: split_on_append)
      ultimately show ?r using uv(2) by blast
    next
      assume ?r
      then obtain x rest where r: "split_on CHR ''/'' w = [x] @ rest" "wild s x" "segs_match (t # ss) rest" by auto
      obtain u v where uv: "w = u @ CHR ''/'' # v" "split_on CHR ''/'' u = [x]" "split_on CHR ''/'' v = rest"
        using split_on_cut [OF r(1)] segs_match_nonempty [OF r(3)] by auto
      have "u = x" using join_split [of "CHR ''/''" u] uv(2) by simp
      moreover have "rx_lang (path_rx (t # ss)) v" using "3.IH"(2) [OF False, of v] "3.prems" r(3) uv(1,3) by simp
      ultimately show ?l using uv(1) r(2) by blast
    qed
    moreover have "rx_lang (seg_rx s @ RChar CHR ''/'' # path_rx (t # ss)) w
        \<longleftrightarrow> (\<exists>u v. w = u @ CHR ''/'' # v \<and> wild s u \<and> rx_lang (path_rx (t # ss)) v)"
      by (auto simp: rx_lang_append seg_rx_wild rx_lang.simps)
    ultimately show ?thesis using False by simp
  qed
qed simp

lemma path_rx_dir:
  assumes "ss \<noteq> []" and "\<forall>s\<in>set ss. CHR ''/'' \<notin> set s" and w: "list_all (\<lambda>c. \<not> line_end c) w"
  shows "rx_lang (path_rx ss @ [RChar CHR ''/'', RRest]) w
    \<longleftrightarrow> (\<exists>us vs. split_on CHR ''/'' w = us @ vs \<and> us \<noteq> [] \<and> vs \<noteq> [] \<and> segs_match ss us)" (is "?l \<longleftrightarrow> ?r")
proof
  assume ?l
  then obtain u v where uv: "w = u @ CHR ''/'' # v" "rx_lang (path_rx ss) u" by (auto simp: rx_lang_append rx_lang.simps)
  have "list_all (\<lambda>c. \<not> line_end c) u" using w unfolding uv(1) by simp
  with path_rx_segs [OF assms(1,2)] uv(2) have "segs_match ss (split_on CHR ''/'' u)" by blast
  moreover have "split_on CHR ''/'' w = split_on CHR ''/'' u @ split_on CHR ''/'' v" unfolding uv(1) by (rule split_on_slash)
  ultimately show ?r using split_on_nonempty by blast
next
  assume ?r
  then obtain us vs where s: "split_on CHR ''/'' w = us @ vs" "us \<noteq> []" "vs \<noteq> []" "segs_match ss us" by blast
  obtain u v where uv: "w = u @ CHR ''/'' # v" "split_on CHR ''/'' u = us" using split_on_cut [OF s(1-3)] by metis
  have "list_all (\<lambda>c. \<not> line_end c) u" "list_all (\<lambda>c. \<not> line_end c) v" using w unfolding uv(1) by simp_all
  then have "rx_lang (path_rx ss) u" "rx_lang [RChar CHR ''/'', RRest] (CHR ''/'' # v)"
    using path_rx_segs [OF assms(1,2)] uv(2) s(4) by (auto simp: rx_lang_char rx_lang.simps)
  then show ?l unfolding rx_lang_append uv(1) by blast
qed

text \<open>A pattern as its segments: the flags of a leading and of a trailing slash, and what lies between.\<close>

definition anchored :: "string \<Rightarrow> bool" where
  "anchored pattern \<longleftrightarrow> starts_with pattern ''/''"

definition names_dir :: "string \<Rightarrow> bool" where
  "names_dir pattern \<longleftrightarrow> ends_with (if anchored pattern then drop 1 pattern else pattern) ''/''"

definition pattern_segs :: "string \<Rightarrow> string list" where
  "pattern_segs pattern = (let p = (if anchored pattern then drop 1 pattern else pattern) in
     split_on CHR ''/'' (if names_dir pattern then butlast p else p))"

definition segs_cover :: "string \<Rightarrow> string list \<Rightarrow> bool" where
  "segs_cover pattern ts \<longleftrightarrow>
     (if names_dir pattern then \<exists>us vs. ts = us @ vs \<and> us \<noteq> [] \<and> vs \<noteq> [] \<and> segs_match (pattern_segs pattern) us
      else segs_match (pattern_segs pattern) ts)"

lemma pattern_segs_clean: "pattern_segs p \<noteq> []" "\<forall>s\<in>set (pattern_segs p). CHR ''/'' \<notin> set s"
  using split_on_parts by (auto simp: pattern_segs_def Let_def)

lemma segs_match_cover:
  assumes "list_all (\<lambda>c. \<not> line_end c) w"
  shows "rx_match (path_rx (pattern_segs pattern) @ (if names_dir pattern then [RChar CHR ''/'', RRest] else [])) w
    \<longleftrightarrow> segs_cover pattern (split_on CHR ''/'' w)"
  using path_rx_dir [OF pattern_segs_clean assms] path_rx_segs [OF pattern_segs_clean assms]
  by (simp add: rx_match_lang segs_cover_def)

lemma base_name_line_end: "list_all (\<lambda>c. \<not> line_end c) w \<Longrightarrow> list_all (\<lambda>c. \<not> line_end c) (base_name w)"
proof (induction w)
  case (Cons c w)
  show ?case
  proof (cases "c = CHR ''/''")
    case True
    then have "base_name (c # w) = base_name w" by (simp add: base_name_def)
    with Cons show ?thesis by simp
  next
    case False
    obtain p ps where s: "split_on CHR ''/'' w = p # ps" by (metis neq_Nil_conv split_on_nonempty)
    have "base_name (c # w) = (if ps = [] then c # p else base_name w)" "ps = [] \<Longrightarrow> base_name w = p"
      using False s by (auto simp: base_name_def)
    with Cons show ?thesis by (auto split: if_splits)
  qed
qed (simp add: base_name_def)

lemma codeownersMatch_segs:
  assumes "list_all (\<lambda>c. \<not> line_end c) path"
  shows "codeownersMatch pattern path \<longleftrightarrow>
     segs_cover pattern (split_on CHR ''/'' path)
     \<or> \<not> anchored pattern \<and> \<not> names_dir pattern \<and> segs_cover pattern [base_name path]"
proof -
  have b: "split_on CHR ''/'' (base_name path) = [base_name path]"
    using split_on_parts [of "base_name path" "CHR ''/''" path] unfolding base_name_def
    by (simp add: split_on_no_sep)
  have "segs_cover pattern [base_name path] \<Longrightarrow> \<not> names_dir pattern"
    by (auto simp: segs_cover_def Cons_eq_append_conv)
  then show ?thesis
    using segs_match_cover [OF assms, of pattern] segs_match_cover [OF base_name_line_end [OF assms], of pattern] b
    unfolding codeownersMatch_def Let_def pattern_segs_def names_dir_def anchored_def by metis
qed

text \<open>C23: the matcher of CODEOWNERS reads patterns and paths segment by segment. A path without a line break
  matches when its segments do, with \<open>?\<close> for one character and \<open>*\<close> for any within a segment, \<open>**\<close> as a segment
  of its own for any number of directories, or for everything when it is the last, and a trailing slash for
  the paths below; or when the pattern has no leading and no trailing slash and the name of the file matches.\<close>

theorem codeownersMatch_correct:
  assumes "newline \<notin> set path" and "CHR 0x0D \<notin> set path"
  shows "codeownersMatch pattern path \<longleftrightarrow>
     segs_cover pattern (split_on CHR ''/'' path)
     \<or> \<not> anchored pattern \<and> \<not> names_dir pattern \<and> segs_cover pattern [last (split_on CHR ''/'' path)]"
proof -
  have "list_all (\<lambda>c. \<not> line_end c) path" using assms by (auto simp: list_all_iff line_end_def)
  from codeownersMatch_segs [OF this] show ?thesis by (simp add: base_name_def)
qed

theorem codeownersMatch_correct_witness:
  "codeownersMatch ''/packages/**/lib/*.mjs'' ''packages/rails-guard/lib/rails.mjs''
   \<and> \<not> segs_cover ''/packages/**/lib/*.mjs'' [''packages'', ''rails-guard'', ''lib'', ''ci'', ''git.mjs'']"
proof -
  have m: "codeownersMatch ''/packages/**/lib/*.mjs'' ''packages/rails-guard/lib/rails.mjs''" by code_simp
  have "\<not> codeownersMatch ''/packages/**/lib/*.mjs'' ''packages/rails-guard/lib/ci/git.mjs''" by code_simp
  moreover have "split_on CHR ''/'' ''packages/rails-guard/lib/ci/git.mjs'' = [''packages'', ''rails-guard'', ''lib'', ''ci'', ''git.mjs'']"
    by code_simp
  moreover have "newline \<notin> set ''packages/rails-guard/lib/ci/git.mjs''" "CHR 0x0D \<notin> set ''packages/rails-guard/lib/ci/git.mjs''" by code_simp+
  ultimately show ?thesis using m codeownersMatch_correct [of "''packages/rails-guard/lib/ci/git.mjs''" "''/packages/**/lib/*.mjs''"] by metis
qed

section \<open>Whom the ceremony accepts\<close>

definition standing_approval :: "review list \<Rightarrow> string \<Rightarrow> bool" where
  "standing_approval reviews login \<longleftrightarrow> (\<exists>earlier r later. reviews = earlier @ r # later
     \<and> normalizeLogin (rv_user r) = login \<and> review_state r = ''APPROVED''
     \<and> (\<forall>q\<in>set later. normalizeLogin (rv_user q) = login \<longrightarrow> review_state q \<notin> set STATE_CHANGING))"

definition owns_as :: "(string \<Rightarrow> string list option) \<Rightarrow> string \<Rightarrow> string \<Rightarrow> bool" where
  "owns_as members entry login \<longleftrightarrow>
     (if isTeamOwner entry then \<exists>ms m. lookupTeamMembers members entry = Some ms \<and> m \<in> set ms \<and> normalizeLogin (Some m) = login
      else entry = login)"

definition is_owner :: "(string \<Rightarrow> string list option) \<Rightarrow> string list \<Rightarrow> string \<Rightarrow> bool" where
  "is_owner members owners login \<longleftrightarrow> login \<noteq> [] \<and> (\<exists>w\<in>set owners. normalizeLogin (Some w) \<noteq> [] \<and> owns_as members (normalizeLogin (Some w)) login)"

lemma owner_logins_set:
  "[] \<notin> set es \<Longrightarrow> fst (fold (\<lambda>entry (owned, teams).
     if isTeamOwner entry then
       (case lookupTeamMembers members entry of
          Some ms \<Rightarrow> (owned \<union> (set (map (\<lambda>m. normalizeLogin (Some m)) ms) - {[]}), teams)
        | None \<Rightarrow> (owned, if CHR ''@'' # entry \<in> set teams then teams else teams @ [CHR ''@'' # entry]))
     else (insert entry owned, teams)) es (owned0, teams0))
   = owned0 \<union> {l. l \<noteq> [] \<and> (\<exists>e\<in>set es. owns_as members e l)}"
proof (induction es arbitrary: owned0 teams0)
  case (Cons e es)
  then have ih: "[] \<notin> set es" and e: "e \<noteq> []" by auto
  show ?case
    by (cases "isTeamOwner e"; cases "lookupTeamMembers members e") (use e in \<open>auto simp: Cons.IH [OF ih] owns_as_def\<close>)
qed simp

lemma owner_logins_is_owner:
  "l \<in> fst (owner_logins members (filter (\<lambda>l. l \<noteq> []) (map (\<lambda>w. normalizeLogin (Some w)) owners))) \<longleftrightarrow> is_owner members owners l"
  unfolding owner_logins_def by (subst owner_logins_set) (auto simp: is_owner_def)

lemma standing_approval_snoc:
  "standing_approval (rs @ [r]) l \<longleftrightarrow>
     (if normalizeLogin (rv_user r) = l \<and> review_state r \<in> set STATE_CHANGING then review_state r = ''APPROVED''
      else standing_approval rs l)" (is "?s \<longleftrightarrow> ?t")
proof (cases "normalizeLogin (rv_user r) = l \<and> review_state r \<in> set STATE_CHANGING")
  case True
  have "?s \<longleftrightarrow> review_state r = ''APPROVED''"
  proof
    assume ?s
    then obtain a q b where q: "rs @ [r] = a @ q # b" "review_state q = ''APPROVED''"
      "\<forall>q\<in>set b. normalizeLogin (rv_user q) = l \<longrightarrow> review_state q \<notin> set STATE_CHANGING" unfolding standing_approval_def by blast
    then show "review_state r = ''APPROVED''" using True by (cases b rule: rev_cases) auto
  next
    assume "review_state r = ''APPROVED''"
    then show ?s unfolding standing_approval_def using True by (intro exI [of _ rs] exI [of _ r] exI [of _ "[]"]) simp
  qed
  with True show ?thesis by simp
next
  case False
  have "?s \<longleftrightarrow> standing_approval rs l"
  proof
    assume ?s
    then obtain a q b where q: "rs @ [r] = a @ q # b" "normalizeLogin (rv_user q) = l" "review_state q = ''APPROVED''"
      "\<forall>q\<in>set b. normalizeLogin (rv_user q) = l \<longrightarrow> review_state q \<notin> set STATE_CHANGING" unfolding standing_approval_def by blast
    have "b \<noteq> []"
    proof
      assume "b = []"
      with q(1) have "q = r" by simp
      with False q(2,3) show False by (simp add: STATE_CHANGING_def)
    qed
    then obtain b2 where "b = b2 @ [r]" using q(1) by (cases b rule: rev_cases) auto
    with q show "standing_approval rs l" unfolding standing_approval_def
      by (intro exI [of _ a] exI [of _ q] exI [of _ b2]) simp
  next
    assume "standing_approval rs l"
    then obtain a q b where q: "rs = a @ q # b" "normalizeLogin (rv_user q) = l" "review_state q = ''APPROVED''"
      "\<forall>q\<in>set b. normalizeLogin (rv_user q) = l \<longrightarrow> review_state q \<notin> set STATE_CHANGING" unfolding standing_approval_def by blast
    with False show ?s unfolding standing_approval_def by (intro exI [of _ a] exI [of _ q] exI [of _ "b @ [r]"]) auto
  qed
  with False show ?thesis by auto
qed

lemma latest_snoc:
  "latestEffectiveStates (rs @ [r]) =
     (if review_state r \<notin> set STATE_CHANGING then latestEffectiveStates rs
      else AList.update (normalizeLogin (rv_user r)) (rv_user r, review_state r) (latestEffectiveStates rs))"
  by (simp add: latestEffectiveStates_def)

lemma latest_distinct: "distinct (map fst (latestEffectiveStates rs))"
  by (induction rs rule: rev_induct) (simp_all add: latest_snoc distinct_update, simp add: latestEffectiveStates_def)

lemma latest_approved:
  "(\<exists>u. map_of (latestEffectiveStates rs) l = Some (u, ''APPROVED'')) \<longleftrightarrow> standing_approval rs l"
proof (induction rs rule: rev_induct)
  case Nil
  show ?case by (simp add: latestEffectiveStates_def standing_approval_def)
next
  case (snoc r rs)
  then show ?case by (auto simp: latest_snoc standing_approval_snoc update_conv)
qed

lemma latest_user: "map_of (latestEffectiveStates rs) l = Some (u, s) \<Longrightarrow> normalizeLogin u = l"
proof (induction rs rule: rev_induct)
  case Nil
  then show ?case by (simp add: latestEffectiveStates_def)
next
  case (snoc r rs)
  then show ?case by (auto simp: latest_snoc update_conv split: if_splits)
qed

text \<open>C22: who can authorize a change of a trust root. The ceremony succeeds exactly when the pull request
  carries the label and someone other than its author, who is named among the owners of the changed paths or
  is a listed member of a team that is, has approved it and has not since asked for changes or been
  dismissed; the approver that is reported is such a person.\<close>

theorem authorization_correct:
  "(ad_authorized (classifyTrustRootAuthorization members requiredLabel labels reviews author owners) \<longleftrightarrow>
      (\<exists>label\<in>set labels. normalizeLogin label = normalizeLogin (Some requiredLabel))
      \<and> (\<exists>login. login \<noteq> normalizeLogin author \<and> is_owner members owners login \<and> standing_approval reviews login))
   \<and> (ad_authorized (classifyTrustRootAuthorization members requiredLabel labels reviews author owners) \<longrightarrow>
      (let login = normalizeLogin (ad_approver (classifyTrustRootAuthorization members requiredLabel labels reviews author owners))
       in login \<noteq> normalizeLogin author \<and> is_owner members owners login \<and> standing_approval reviews login))"
proof -
  let ?c = "classifyTrustRootAuthorization members requiredLabel labels reviews author owners"
  let ?es = "filter (\<lambda>l. l \<noteq> []) (map (\<lambda>w. normalizeLogin (Some w)) owners)"
  let ?P = "\<lambda>(login, user, state). state = ''APPROVED'' \<and> login \<noteq> normalizeLogin author \<and> login \<in> fst (owner_logins members ?es)"
  have mem: "(l, u, s) \<in> set (latestEffectiveStates reviews) \<longleftrightarrow> map_of (latestEffectiveStates reviews) l = Some (u, s)" for l u s
    using map_of_eq_Some_iff [OF latest_distinct] by fastforce
  have good: "?P x \<Longrightarrow> x \<in> set (latestEffectiveStates reviews) \<Longrightarrow> fst x = normalizeLogin (fst (snd x))
      \<and> fst x \<noteq> normalizeLogin author \<and> is_owner members owners (fst x) \<and> standing_approval reviews (fst x)" for x
    using latest_user [of reviews] latest_approved [of reviews] mem owner_logins_is_owner [of _ members owners] by (cases x) fastforce
  have ex: "(\<exists>login. login \<noteq> normalizeLogin author \<and> is_owner members owners login \<and> standing_approval reviews login)
      \<longleftrightarrow> find ?P (latestEffectiveStates reviews) \<noteq> None" (is "?l \<longleftrightarrow> ?r")
  proof
    assume ?l
    then obtain l u where "l \<noteq> normalizeLogin author" "is_owner members owners l" "map_of (latestEffectiveStates reviews) l = Some (u, ''APPROVED'')"
      using latest_approved by metis
    then have "(l, u, ''APPROVED'') \<in> set (latestEffectiveStates reviews) \<and> ?P (l, u, ''APPROVED'')"
      using mem owner_logins_is_owner by simp
    then show ?r unfolding find_None_iff by blast
  next
    assume ?r
    then obtain x where "x \<in> set (latestEffectiveStates reviews)" "?P x" unfolding find_None_iff by blast
    with good show ?l by blast
  qed
  have none: "?es = [] \<Longrightarrow> \<not> is_owner members owners l" for l
    using owner_logins_is_owner [of l members owners] by (simp add: owner_logins_def)
  have lab: "normalizeLogin (Some requiredLabel) \<in> set (map normalizeLogin labels)
      \<longleftrightarrow> (\<exists>label\<in>set labels. normalizeLogin label = normalizeLogin (Some requiredLabel))"
    unfolding set_map image_iff by metis
  show ?thesis
  proof (cases "normalizeLogin (Some requiredLabel) \<in> set (map normalizeLogin labels) \<and> ?es \<noteq> []")
    case False
    then have "\<not> ad_authorized ?c" unfolding classifyTrustRootAuthorization_def Let_def by auto
    with False none lab show ?thesis by metis
  next
    case True
    then have c: "?c = (case find ?P (latestEffectiveStates reviews) of
          Some (login, user, state) \<Rightarrow> \<lparr>ad_authorized = True, ad_approver = user, ad_reason = ApprovedBy\<rparr>
        | None \<Rightarrow> \<lparr>ad_authorized = False, ad_approver = None,
            ad_reason = (if snd (owner_logins members ?es) \<noteq> [] then TeamsOnly (snd (owner_logins members ?es)) else NoApproval)\<rparr>)"
      unfolding classifyTrustRootAuthorization_def Let_def by (simp add: split_def)
    show ?thesis
    proof (cases "find ?P (latestEffectiveStates reviews)")
      case None
      then have "\<not> ad_authorized ?c" unfolding c by simp
      with ex None show ?thesis by simp
    next
      case (Some x)
      from find_Some_iff [THEN iffD1, OF Some] have x: "?P x" "x \<in> set (latestEffectiveStates reviews)" by (metis nth_mem)+
      have a: "ad_authorized ?c" "ad_approver ?c = fst (snd x)" unfolding c Some by (simp_all add: split_def)
      from good [OF x] a True lab show ?thesis unfolding Let_def by metis
    qed
  qed
qed

definition ex_reviews :: "review list" where
  "ex_reviews = [\<lparr>rv_user = Some ''Ann'', rv_state = Some ''approved''\<rparr>, \<lparr>rv_user = Some ''bob'', rv_state = Some ''APPROVED''\<rparr>,
     \<lparr>rv_user = Some ''bob'', rv_state = Some ''DISMISSED''\<rparr>, \<lparr>rv_user = Some ''Cy'', rv_state = Some ''APPROVED''\<rparr>,
     \<lparr>rv_user = Some ''cy'', rv_state = Some ''COMMENTED''\<rparr>, \<lparr>rv_user = Some ''eve'', rv_state = Some ''APPROVED''\<rparr>]"

theorem authorization_correct_witness:
  "\<exists>login. login \<noteq> ''ann'' \<and> is_owner Map.empty [''ann'', ''@Bob'', ''CY''] login \<and> standing_approval ex_reviews login"
proof -
  have a: "ad_authorized (classifyTrustRootAuthorization Map.empty ''trust-root-change'' [Some ''Trust-Root-Change''] ex_reviews
      (Some ''ann'') [''ann'', ''@Bob'', ''CY''])" by code_simp
  have n: "normalizeLogin (Some ''ann'') = ''ann''" by code_simp
  from authorization_correct [where members = Map.empty and requiredLabel = "''trust-root-change''" and labels = "[Some ''Trust-Root-Change'']"
      and reviews = ex_reviews and author = "Some ''ann''" and owners = "[''ann'', ''@Bob'', ''CY'']"] a
  show ?thesis unfolding n by blast
qed







end
