(* ===== verification/GateRepair.thy ===== *)
theory GateRepair
  imports GateRecord
begin

text \<open>
  The repair of a broken root ledger: \<open>repairChain\<close> of \<^verbatim>\<open>packages/gate-manifest/lib/repair.mjs\<close>. It
  rebuilds the chain over the payloads of the old entries, adds an entry that says so, keeps the old text in
  a backup, and replaces the ledger under its lock. The disk is the forest with the backup files; what other
  writers made of the ledger and the backups before the lock was taken is the disk the commit sees.
\<close>

datatype repair_error =
    ForestRefused | RepairKey | ReasonTooShort | NoManifest | Malformed nat | AlreadyValid | NotAnEntry nat
  | NeedsKey | KeyMissing | BadSignature nat | UnsignedEntries nat | RepairNotJson canonical_error
  | ChangedSincePlan | BackupDiffers

record repair_disk =
  rd_forest :: forest
  rd_exists :: bool
  rd_backups :: "string \<rightharpoonup> string"

record repair_result =
  rr_write :: bool
  rr_backup :: string
  rr_originalHash :: string
  rr_originalEntries :: nat
  rr_repairedEntries :: nat
  rr_newlySigned :: "nat list"

section \<open>Rebuilding the chain\<close>

definition RESERVED :: "string list" where
  "RESERVED = [''seq'', ''prev'', ''sig'', ''sigVersion'']"

definition payloadFrom :: "jsval \<Rightarrow> jsval" where
  "payloadFrom e = without_keys RESERVED e"

fun chain_from ::
  "codec \<Rightarrow> (nat \<Rightarrow> string) \<Rightarrow> string option \<Rightarrow> nat \<Rightarrow> string option \<Rightarrow> jsval list \<Rightarrow> record_error + jsval list" where
  "chain_from cd clock key i previousRaw [] = Inr []"
| "chain_from cd clock key i previousRaw (p # ps) =
     bind_res (sign_chained cd key True (chained_entry cd (clock i) p (int i + 1) previousRaw)) (\<lambda>e.
       bind_res (chain_from cd clock key (Suc i) (Some (stringifyJson cd e)) ps) (\<lambda>es. Inr (e # es)))"

definition chainPayloads :: "codec \<Rightarrow> (nat \<Rightarrow> string) \<Rightarrow> string option \<Rightarrow> jsval list \<Rightarrow> record_error + jsval list" where
  "chainPayloads cd clock key payloads = chain_from cd clock key 0 None payloads"

definition repair_text :: "codec \<Rightarrow> jsval list \<Rightarrow> string" where
  "repair_text cd es = join_with [newline] (map (stringifyJson cd) es) @ [newline]"

section \<open>The plan\<close>

definition signed_entry :: "jsval \<Rightarrow> bool" where
  "signed_entry e \<longleftrightarrow> is_str (js_get ''sig'' e)"

definition unsigned_lines :: "(jsval \<times> nat) list \<Rightarrow> nat list" where
  "unsigned_lines es = map snd (filter (\<lambda>e. \<not> signed_entry (fst e)) es)"

text \<open>Every entry that carries a signature must verify under the key.\<close>

fun first_bad_signature :: "codec \<Rightarrow> string \<Rightarrow> nat \<Rightarrow> jsval list \<Rightarrow> canonical_error + nat option" where
  "first_bad_signature cd k i [] = Inr None"
| "first_bad_signature cd k i (e # es) =
     (if signed_entry e
      then bind_res (verifyEntrySig cd k e) (\<lambda>ok. if ok then first_bad_signature cd k (Suc i) es else Inr (Some i))
      else first_bad_signature cd k (Suc i) es)"

definition signature_checks :: "codec \<Rightarrow> string option \<Rightarrow> bool \<Rightarrow> (jsval \<times> nat) list \<Rightarrow> repair_error + unit" where
  "signature_checks cd key attestUnsigned es =
     (if attestUnsigned \<and> key = None then Inl NeedsKey
      else case key of
        None \<Rightarrow> if list_ex (\<lambda>e. signed_entry (fst e)) es then Inl KeyMissing else Inr ()
      | Some k \<Rightarrow> (case first_bad_signature cd k 0 (map fst es) of
            Inl e \<Rightarrow> Inl (RepairNotJson e)
          | Inr (Some i) \<Rightarrow> Inl (BadSignature (i + 1))
          | Inr None \<Rightarrow>
              if unsigned_lines es \<noteq> [] \<and> \<not> attestUnsigned then Inl (UnsignedEntries (length (unsigned_lines es)))
              else Inr ()))"

fun parse_entries :: "codec \<Rightarrow> (string \<times> nat) list \<Rightarrow> repair_error + (jsval \<times> nat) list" where
  "parse_entries cd [] = Inr []"
| "parse_entries cd ((l, n) # ls) = (case parseJson cd l of
      None \<Rightarrow> Inl (Malformed n)
    | Some e \<Rightarrow> bind_res (parse_entries cd ls) (\<lambda>es. Inr ((e, n) # es)))"

definition backup_path :: "string \<Rightarrow> string \<Rightarrow> string" where
  "backup_path path originalHash = path @ ''.pre-repair-'' @ take 16 originalHash @ ''.bak''"

definition repair_payload ::
  "string \<Rightarrow> string \<Rightarrow> string \<Rightarrow> nat \<Rightarrow> string \<Rightarrow> nat list \<Rightarrow> jsval" where
  "repair_payload now reason originalHash originalEntries backup newly =
     VObj [(''type'', VStr ''manifest-chain-repair''), (''ts'', VStr now), (''reason'', VStr (trim reason)),
       (''originalHash'', VStr originalHash), (''originalEntries'', VNum (of_nat originalEntries)), (''backup'', VStr backup),
       (''newlySignedEntries'', VNum (of_nat (length newly))), (''newlySignedLines'', VArr (map (\<lambda>n. VNum (of_nat n)) newly))]"

text \<open>The entries of the ledger as they are read for the repair.\<close>

definition repair_entries ::
  "codec \<Rightarrow> jsval \<Rightarrow> jsval \<Rightarrow> jsval \<Rightarrow> bool \<Rightarrow> repair_disk \<Rightarrow> repair_error + (string option \<times> string \<times> (jsval \<times> nat) list)" where
  "repair_entries cd marker key reason attestUnsigned d =
     (if isSegmentedRepo cd marker (rd_forest d) then Inl ForestRefused
      else case validateKeyParam key of
        Inl _ \<Rightarrow> Inl RepairKey
      | Inr k \<Rightarrow> (case reason of
            VStr r \<Rightarrow>
              if length (trim r) < 8 then Inl ReasonTooShort
              else if \<not> rd_exists d then Inl NoManifest
              else bind_res (parse_entries cd (readRawLines (fo_root (rd_forest d)))) (\<lambda>es.
                case verify cd k True False (rd_forest d) of
                  Inl e \<Rightarrow> Inl (RepairNotJson e)
                | Inr v \<Rightarrow>
                    if fr_valid v then Inl AlreadyValid
                    else case find (\<lambda>e. \<not> is_plain_obj (fst e)) es of
                      Some e \<Rightarrow> Inl (NotAnEntry (snd e))
                    | None \<Rightarrow> bind_res (signature_checks cd k attestUnsigned es) (\<lambda>_. Inr (k, r, es)))
          | _ \<Rightarrow> Inl ReasonTooShort))"

definition plan_repair ::
  "codec \<Rightarrow> (nat \<Rightarrow> string) \<Rightarrow> string \<Rightarrow> jsval \<Rightarrow> jsval \<Rightarrow> jsval \<Rightarrow> bool \<Rightarrow> bool \<Rightarrow> repair_disk
    \<Rightarrow> repair_error + (repair_result \<times> jsval list)" where
  "plan_repair cd clock path marker key reason attestUnsigned write d =
     bind_res (repair_entries cd marker key reason attestUnsigned d) (\<lambda>(k, r, es).
       let originalHash = sha256 cd (fo_root (rd_forest d));
           backup = backup_path path originalHash;
           newly = (if k = None then [] else unsigned_lines es);
           n = length es;
           payload = repair_payload (clock n) r originalHash n backup newly
       in case chainPayloads cd clock k (map (\<lambda>e. payloadFrom (fst e)) es @ [payload]) of
            Inl (NotJson e) \<Rightarrow> Inl (RepairNotJson e)
          | Inl _ \<Rightarrow> Inl (RepairNotJson NonJsonValue)
          | Inr repaired \<Rightarrow>
              Inr (\<lparr>rr_write = write, rr_backup = backup, rr_originalHash = originalHash, rr_originalEntries = n,
                    rr_repairedEntries = length repaired, rr_newlySigned = newly\<rparr>, repaired))"

section \<open>The commit\<close>

text \<open>Under the lock the ledger must still have the hash of the plan; the backup is written first.\<close>

definition commit_repair ::
  "codec \<Rightarrow> string \<Rightarrow> repair_result \<Rightarrow> jsval list \<Rightarrow> repair_disk \<Rightarrow> repair_error + repair_disk" where
  "commit_repair cd original res repaired d =
     (if sha256 cd (fo_root (rd_forest d)) \<noteq> rr_originalHash res then Inl ChangedSincePlan
      else case rd_backups d (rr_backup res) of
        Some b \<Rightarrow> if b \<noteq> original then Inl BackupDiffers
            else Inr (d\<lparr>rd_forest := (rd_forest d)\<lparr>fo_root := repair_text cd repaired\<rparr>\<rparr>)
      | None \<Rightarrow> Inr (d\<lparr>rd_forest := (rd_forest d)\<lparr>fo_root := repair_text cd repaired\<rparr>,
                       rd_backups := (rd_backups d)(rr_backup res \<mapsto> original)\<rparr>))"

text \<open>\<open>d\<close> is the disk the plan reads, and \<open>locked\<close> the disk once the lock is held.\<close>

definition repairChain ::
  "codec \<Rightarrow> (nat \<Rightarrow> string) \<Rightarrow> string \<Rightarrow> jsval \<Rightarrow> jsval \<Rightarrow> jsval \<Rightarrow> bool \<Rightarrow> bool \<Rightarrow> repair_disk \<Rightarrow> repair_disk
    \<Rightarrow> repair_error + (repair_result \<times> repair_disk)" where
  "repairChain cd clock path marker key reason attestUnsigned write d locked =
     bind_res (plan_repair cd clock path marker key reason attestUnsigned write d) (\<lambda>(res, repaired).
       if \<not> write then Inr (res, locked)
       else bind_res (commit_repair cd (fo_root (rd_forest d)) res repaired locked) (\<lambda>d2. Inr (res, d2)))"

section \<open>The rebuilt chain\<close>

definition unchained :: "jsval \<Rightarrow> bool" where
  "unchained p \<longleftrightarrow> is_plain_obj p \<and> wf_js p \<and> js_keys p \<inter> set RESERVED = {}"

definition defaulted :: "string list" where
  "defaulted = [''gate'', ''ts'', ''files'']"

lemma spread_get_extra:
  assumes "distinct (map fst kvs)" and "k \<in> fst ` set kvs"
  shows "js_get k (js_spread base (VObj kvs)) = js_get k (VObj kvs)"
proof -
  have "map_of (fold (\<lambda>kv. AList.update (fst kv) (snd kv)) kvs base) k = map_of kvs k"
    using assms
  proof (induction kvs arbitrary: base)
    case (Cons kv kvs)
    show ?case
    proof (cases "k \<in> fst ` set kvs")
      case True
      have "fst kv \<notin> fst ` set kvs" using Cons.prems(1) by simp
      then have "k \<noteq> fst kv" using True by metis
      with True Cons.prems(1) Cons.IH show ?thesis by (cases kv) simp
    next
      case False
      with Cons.prems have "k = fst kv" by auto
      have "map_of (fold (\<lambda>kv. AList.update (fst kv) (snd kv)) kvs (AList.update (fst kv) (snd kv) base)) k
          = map_of (AList.update (fst kv) (snd kv) base) k" by (rule fold_update_get [OF False])
      then show ?thesis using \<open>k = fst kv\<close> by (cases kv) simp
    qed
  qed simp
  then show ?thesis by (simp add: js_spread_def js_get_def)
qed

lemma js_put_distinct:
  assumes "is_plain_obj p" and "wf_js p"
  shows "\<exists>kvs. normalized_payload now p = VObj kvs \<and> distinct (map fst kvs)"
proof -
  have put: "\<exists>kvs. js_put k v e = VObj kvs \<and> distinct (map fst kvs)" if "\<exists>kvs. e = VObj kvs \<and> distinct (map fst kvs)" for k v e
    using that by (auto simp: js_put_def distinct_update)
  have "\<exists>kvs. p = VObj kvs \<and> distinct (map fst kvs)" using assms by (cases p) (auto simp: is_plain_obj_def)
  then show ?thesis unfolding normalized_payload_def by (intro put)
qed

lemma rebuilt_entry:
  assumes u: "unchained p" and s: "sign_chained cd key True (chained_entry cd now p n prev) = Inr e"
    and h: "\<And>k b. hmac cd k b \<noteq> []"
  shows "is_plain_obj e" and "js_get ''seq'' e = VNum (of_int n)" and "js_get ''prev'' e = prev_link cd prev"
    and "js_has_own ''anchor'' e \<longleftrightarrow> js_has_own ''anchor'' p"
    and "sig_ok cd key (key \<noteq> None) es e"
    and "f \<notin> set (RESERVED @ defaulted) \<Longrightarrow> js_get f e = js_get f p"
    and "f \<in> set defaulted \<Longrightarrow> \<not> nullish (js_get f p) \<Longrightarrow> js_get f e = js_get f p"
proof -
  let ?n = "normalized_payload now p" and ?c = "chained_entry cd now p n prev"
  have p: "is_plain_obj p" "wf_js p" "js_keys p \<inter> set RESERVED = {}" using u by (simp_all add: unchained_def)
  obtain kvs where kvs: "?n = VObj kvs" "distinct (map fst kvs)" using js_put_distinct [OF p(1,2)] by blast
  have nk: "js_keys ?n = js_keys p \<union> {''gate'', ''ts'', ''files''}" by (rule normalized_keys [OF p(1)])
  have plain: "is_plain_obj ?c" by (simp add: chained_entry_def)
  have nn: "f \<notin> js_keys ?n" if "f \<in> set RESERVED" for f
    using that p(3) unfolding nk by (auto simp: RESERVED_def)
  have cseq: "js_get ''seq'' ?c = VNum (of_int n)" using nn [of "''seq''"]
    by (simp add: chained_entry_def spread_get RESERVED_def) (simp add: js_get_def)
  have csig: "js_get ''sig'' ?c = VUndefined" using nn [of "''sig''"]
    by (simp add: chained_entry_def spread_get RESERVED_def) (simp add: js_get_def)
  have cprev: "js_get ''prev'' ?c = prev_link cd prev" by (simp add: chained_entry_def)
  have canchor: "js_has_own ''anchor'' ?c \<longleftrightarrow> js_has_own ''anchor'' p"
    using nk by (simp add: chained_entry_def js_has_own_keys)
  have put: "js_get f ?c = js_get f (js_spread [(''seq'', VNum (of_int n))] ?n)" if "f \<noteq> ''prev''" for f
    unfolding chained_entry_def using that by simp
  have base: "js_get f (VObj [(''seq'', VNum (of_int n))]) = VUndefined" if "f \<noteq> ''seq''" for f
    using that by (simp add: js_get_def)
  have cget: "js_get f ?c = js_get f ?n" if f: "f \<noteq> ''prev''" "f \<noteq> ''seq''" for f
  proof (cases "f \<in> js_keys ?n")
    case True
    then have "f \<in> fst ` set kvs" by (simp add: kvs(1) js_keys_def)
    from spread_get_extra [OF kvs(2) this] show ?thesis unfolding put [OF f(1)] kvs(1) .
  next
    case False
    then have "js_get f ?n = VUndefined" unfolding kvs(1) by (simp add: js_get_def js_keys_def map_of_eq_None_iff [THEN iffD2])
    then show ?thesis unfolding put [OF f(1)] spread_get [OF False] base [OF f(2)] by simp
  qed
  obtain k where k: "key = None \<or> key = Some k" by (cases key) auto
  note so = sign_chained_ok [OF s plain h csig k]
  show "is_plain_obj e" "sig_ok cd key (key \<noteq> None) es e" by (rule so(1), rule so(6))
  show "js_get ''seq'' e = VNum (of_int n)" "js_get ''prev'' e = prev_link cd prev" "js_has_own ''anchor'' e \<longleftrightarrow> js_has_own ''anchor'' p"
    using so cseq cprev canchor by simp_all
  have "e = ?c \<or> (\<exists>v. e = js_put ''sig'' v (js_put ''sigVersion'' (VNum 2) ?c))"
    using s by (cases key) (auto simp: sign_chained_def Let_def bind_res_eq_Inr)
  then have eget: "js_get f e = js_get f ?c" if "f \<noteq> ''sig''" "f \<noteq> ''sigVersion''" for f
    using that plain by (elim disjE exE) simp_all
  have nget: "js_get f ?n = js_get f p" if "f \<notin> set defaulted" for f
    using that p(1) by (simp add: normalized_payload_def defaulted_def)
  have nget2: "js_get f ?n = js_get f p" if "\<not> nullish (js_get f p)" for f
    using that p(1) by (auto simp: normalized_payload_def or_else_def)
  show "js_get f e = js_get f p" if f: "f \<notin> set (RESERVED @ defaulted)"
  proof -
    have "f \<noteq> ''sig''" "f \<noteq> ''sigVersion''" "f \<noteq> ''seq''" "f \<noteq> ''prev''" "f \<notin> set defaulted" using f by (simp_all add: RESERVED_def)
    then show ?thesis by (simp only: eget cget nget simp_thms not_False_eq_True)
  qed
  show "js_get f e = js_get f p" if f: "f \<in> set defaulted" and nn: "\<not> nullish (js_get f p)"
  proof -
    have "f \<noteq> ''sig''" "f \<noteq> ''sigVersion''" "f \<noteq> ''seq''" "f \<noteq> ''prev''" using f by (auto simp: defaulted_def)
    then show ?thesis by (simp only: eget cget nget2 [OF nn] simp_thms not_False_eq_True)
  qed
qed

definition rebuilt :: "codec \<Rightarrow> string option \<Rightarrow> jsval \<Rightarrow> jsval \<Rightarrow> bool" where
  "rebuilt cd key p e \<longleftrightarrow> is_plain_obj e \<and> (js_has_own ''anchor'' e \<longleftrightarrow> js_has_own ''anchor'' p)
     \<and> (\<forall>es. sig_ok cd key (key \<noteq> None) es e)
     \<and> (\<forall>f. f \<notin> set (RESERVED @ defaulted) \<or> f \<in> set defaulted \<and> \<not> nullish (js_get f p) \<longrightarrow> js_get f e = js_get f p)"

lemma chain_from_ok:
  assumes "chain_from cd clock key i prev ps = Inr es" and "list_all unchained ps" and h: "\<And>k b. hmac cd k b \<noteq> []"
  shows "list_all2 (rebuilt cd key) ps es
    \<and> (\<forall>j<length es. js_get ''seq'' (es ! j) = VNum (of_nat (Suc (i + j)))
         \<and> js_get ''prev'' (es ! j) = (if j = 0 then prev_link cd prev else VStr (sha256 cd (stringifyJson cd (es ! (j - 1))))))"
  using assms(1,2)
proof (induction ps arbitrary: i prev es)
  case (Cons p ps)
  from Cons.prems(1) obtain e es' where s: "sign_chained cd key True (chained_entry cd (clock i) p (int i + 1) prev) = Inr e"
    and r: "chain_from cd clock key (Suc i) (Some (stringifyJson cd e)) ps = Inr es'" and es: "es = e # es'"
    by (auto simp: bind_res_eq_Inr)
  have u: "unchained p" using Cons.prems(2) by simp
  note re = rebuilt_entry [OF u s h]
  have "rebuilt cd key p e" unfolding rebuilt_def using re(1,4,5,6,7) by blast
  moreover from Cons.IH [OF r] Cons.prems(2) have IH: "list_all2 (rebuilt cd key) ps es'"
    "\<forall>j<length es'. js_get ''seq'' (es' ! j) = VNum (of_nat (Suc (Suc i + j)))
         \<and> js_get ''prev'' (es' ! j) = (if j = 0 then prev_link cd (Some (stringifyJson cd e)) else VStr (sha256 cd (stringifyJson cd (es' ! (j - 1)))))"
    by simp_all
  moreover have "js_get ''seq'' (es ! j) = VNum (of_nat (Suc (i + j)))
         \<and> js_get ''prev'' (es ! j) = (if j = 0 then prev_link cd prev else VStr (sha256 cd (stringifyJson cd (es ! (j - 1)))))"
    if "j < length es" for j
  proof (cases j)
    case 0
    then show ?thesis using re(2,3) by (simp add: es)
  next
    case (Suc m)
    then have m: "m < length es'" using that es by simp
    have "js_get ''prev'' (es' ! m) = VStr (sha256 cd (stringifyJson cd (es ! m)))"
      using IH(2) m by (cases m) (simp_all add: es prev_link_def)
    then show ?thesis using IH(2) m by (simp add: es Suc)
  qed
  ultimately show ?case by (simp add: es)
qed simp

lemma without_keys_unchained:
  assumes "is_plain_obj e" and "wf_js e"
  shows "unchained (payloadFrom e)" and "f \<notin> set RESERVED \<Longrightarrow> js_get f (payloadFrom e) = js_get f e"
    and "js_has_own ''anchor'' (payloadFrom e) \<longleftrightarrow> js_has_own ''anchor'' e"
proof -
  obtain kvs where e: "e = VObj kvs" using assms(1) by (cases e) (auto simp: is_plain_obj_def)
  have g: "map_of (filter (\<lambda>kv. fst kv \<notin> K) kvs) f = map_of kvs f" if "f \<notin> K" for K f
    using that by (induction kvs) auto
  show "unchained (payloadFrom e)"
    using assms(2) by (auto simp: e unchained_def payloadFrom_def without_keys_def is_plain_obj_def js_keys_def distinct_map_filter)
  show "js_get f (payloadFrom e) = js_get f e" if "f \<notin> set RESERVED"
    using g [of f "set RESERVED"] that by (simp add: e payloadFrom_def without_keys_def js_get_def)
  show "js_has_own ''anchor'' (payloadFrom e) \<longleftrightarrow> js_has_own ''anchor'' e"
  proof -
    have "k \<in> fst ` set (filter (\<lambda>kv. fst kv \<notin> K) kvs) \<longleftrightarrow> k \<in> fst ` set kvs" if "k \<notin> K" for k K
      using that by (induction kvs) auto
    from this [of "''anchor''" "set RESERVED"] show ?thesis
      by (simp add: e payloadFrom_def without_keys_def js_has_own_def RESERVED_def)
  qed
qed

lemma repair_payload_unchained: "unchained (repair_payload now r h n b newly)" "\<not> js_has_own ''anchor'' (repair_payload now r h n b newly)"
proof -
  have "\<forall>x\<in>set (map (\<lambda>n. VNum (of_nat n)) newly). wf_js x" by simp
  then show "unchained (repair_payload now r h n b newly)"
    by (simp add: repair_payload_def unchained_def is_plain_obj_def js_keys_def RESERVED_def)
  show "\<not> js_has_own ''anchor'' (repair_payload now r h n b newly)"
    by (simp add: repair_payload_def js_has_own_def)
qed

lemma raw_lines_repair_text:
  assumes "list_all (reads_back cd) es"
  shows "raw_lines (repair_text cd es) = map (stringifyJson cd) es"
proof (cases "es = []")
  case True
  then show ?thesis by (simp add: repair_text_def raw_lines_def trim_Nil)
next
  case False
  have "split_on newline (join_with [newline] ls @ [newline]) = ls @ [[]]" if "ls \<noteq> []" "\<forall>l\<in>set ls. newline \<notin> set l" for ls
    using split_on_sep [of newline "join_with [newline] ls" "[]"] split_join [OF that] by simp
  moreover have "\<forall>l\<in>set (map (stringifyJson cd) es). newline \<notin> set l \<and> trim l \<noteq> []"
    using assms by (simp add: list_all_iff reads_back_def clean_line_def)
  ultimately show ?thesis using False by (simp add: repair_text_def raw_lines_def trim_Nil filter_id_conv)
qed

lemma chain_entries_texts:
  "list_all (reads_back cd) es \<Longrightarrow> chain_entries cd (map (stringifyJson cd) es) = Some es"
  unfolding chain_entries_Some by (induction es) (simp_all add: reads_back_def)

lemma rebuilt_chain_ok:
  assumes r: "chainPayloads cd clock key ps = Inr es" and u: "list_all unchained ps" and h: "\<And>k b. hmac cd k b \<noteq> []"
    and rb: "list_all (reads_back cd) es"
  shows "chain_ok cd key (key \<noteq> None) False (map (stringifyJson cd) es) \<longleftrightarrow> (\<forall>p\<in>set ps. \<not> js_has_own ''anchor'' p)"
proof -
  from chain_from_ok [OF r [unfolded chainPayloads_def] u h] have a2: "list_all2 (rebuilt cd key) ps es"
    and link: "\<And>j. j < length es \<Longrightarrow> js_get ''seq'' (es ! j) = VNum (of_nat (Suc j))
      \<and> js_get ''prev'' (es ! j) = (if j = 0 then VNull else VStr (sha256 cd (stringifyJson cd (es ! (j - 1)))))"
    by (auto simp: prev_link_def)
  have len: "length es = length ps" using a2 by (simp add: list_all2_lengthD)
  have e: "is_plain_obj (es ! j)" "js_has_own ''anchor'' (es ! j) \<longleftrightarrow> js_has_own ''anchor'' (ps ! j)"
    "\<forall>us. sig_ok cd key (key \<noteq> None) us (es ! j)" if "j < length es" for j
    using list_all2_nthD [OF a2, of j] that len by (simp_all add: rebuilt_def)
  have "link_ok cd False (map (stringifyJson cd) es) j (es ! j) \<and> sig_ok cd key (key \<noteq> None) (take j es) (es ! j)
      \<longleftrightarrow> \<not> js_has_own ''anchor'' (ps ! j)" if "j < length es" for j
    using e [OF that] link [OF that] that by (auto simp: link_ok_def)
  then have "chain_ok cd key (key \<noteq> None) False (map (stringifyJson cd) es) \<longleftrightarrow> (\<forall>j<length es. \<not> js_has_own ''anchor'' (ps ! j))"
    unfolding chain_ok_def chain_entries_texts [OF rb] by simp
  then show ?thesis unfolding len by (simp add: all_set_conv_all_nth)
qed

lemma parse_entries_Inr:
  "parse_entries cd ls = Inr es \<Longrightarrow> list_all2 (\<lambda>l e. parseJson cd l = Some e) (map fst ls) (map fst es)"
  by (induction cd ls arbitrary: es rule: parse_entries.induct) (auto simp: bind_res_eq_Inr split: option.splits)

lemma repair_entries_Inr:
  assumes "repair_entries cd marker key reason attest d = Inr (k, r, es)"
  shows "validateKeyParam key = Inr k" and "chain_entries cd (raw_lines (fo_root (rd_forest d))) = Some (map fst es)"
    and "\<forall>e\<in>set es. is_plain_obj (fst e)" and "\<not> isSegmentedRepo cd marker (rd_forest d)"
proof -
  from assms have seg: "\<not> isSegmentedRepo cd marker (rd_forest d)" by (auto simp: repair_entries_def split: if_splits)
  then obtain k' where k': "validateKeyParam key = Inr k'" using assms by (auto simp: repair_entries_def split: sum.splits)
  obtain r' where r': "reason = VStr r'" using assms seg k' by (cases reason) (simp_all add: repair_entries_def)
  note eq0 = assms [unfolded repair_entries_def, simplified seg k' r' if_False sum.case jsval.case]
  obtain es' where es': "parse_entries cd (readRawLines (fo_root (rd_forest d))) = Inr es'"
    using eq0 by (cases "parse_entries cd (readRawLines (fo_root (rd_forest d)))") (simp_all split: if_splits)
  obtain v where v: "verify cd k' True False (rd_forest d) = Inr v"
    using eq0 es' by (cases "verify cd k' True False (rd_forest d)") (simp_all split: if_splits)
  have f: "find (\<lambda>e. \<not> is_plain_obj (fst e)) es' = None"
    using eq0 es' v by (cases "find (\<lambda>e. \<not> is_plain_obj (fst e)) es'") (simp_all split: if_splits)
  have eq: "k = k'" "es = es'"
    using eq0 es' v f by (auto simp: bind_res_eq_Inr split: if_splits)
  show "validateKeyParam key = Inr k" "\<not> isSegmentedRepo cd marker (rd_forest d)" using k' eq seg by simp_all
  show "chain_entries cd (raw_lines (fo_root (rd_forest d))) = Some (map fst es)"
    using parse_entries_Inr [OF es'] unfolding chain_entries_Some readRawLines_fst eq by simp
  show "\<forall>e\<in>set es. is_plain_obj (fst e)" using f unfolding eq by (auto simp: find_None_iff)
qed

text \<open>C27: what a repair gives. When the repair of a ledger is planned and committed, the new ledger holds
  one entry for each old one and the entry that records the repair; each keeps all fields of the old entry
  other than the chain fields, and its gate, time and files when it had them; the old text is in the backup,
  or the same text was there; and the new ledger is a valid chain, signed throughout when there is a key,
  exactly when no old entry carries an anchor. So a root that is broken by a misplaced anchor is reported as
  repaired and is still not valid.\<close>

theorem repair_restores_chain:
  assumes plan: "plan_repair cd clock path marker key reason attest w d = Inr (res, repaired)"
    and commit: "commit_repair cd (fo_root (rd_forest d)) res repaired locked = Inr d2"
    and wf: "\<forall>t v. parseJson cd t = Some v \<longrightarrow> wf_js v" and h: "\<forall>k b. hmac cd k b \<noteq> []"
    and rb: "list_all (reads_back cd) repaired"
  shows "\<exists>k es. validateKeyParam key = Inr k \<and> chain_entries cd (raw_lines (fo_root (rd_forest d))) = Some es
     \<and> chain_entries cd (raw_lines (fo_root (rd_forest d2))) = Some repaired \<and> length repaired = Suc (length es)
     \<and> (\<forall>i<length es. \<forall>f. f \<notin> set (RESERVED @ defaulted) \<or> f \<in> set defaulted \<and> \<not> nullish (js_get f (es ! i)) \<longrightarrow>
          js_get f (repaired ! i) = js_get f (es ! i))
     \<and> (chain_ok cd k (k \<noteq> None) False (raw_lines (fo_root (rd_forest d2))) \<longleftrightarrow> (\<forall>e\<in>set es. \<not> js_has_own ''anchor'' e))
     \<and> rd_backups d2 (rr_backup res) = Some (fo_root (rd_forest d))"
proof -
  from plan obtain k r xs where re: "repair_entries cd marker key reason attest d = Inr (k, r, xs)"
    unfolding plan_repair_def by (auto simp: bind_res_eq_Inr)
  let ?es = "map fst xs"
  obtain pl where cp: "chainPayloads cd clock k (map (\<lambda>e. payloadFrom (fst e)) xs @ [pl]) = Inr repaired"
    and pl: "unchained pl" "\<not> js_has_own ''anchor'' pl"
    using plan re repair_payload_unchained unfolding plan_repair_def
    by (auto simp: Let_def split: sum.splits record_error.splits)
  note ri = repair_entries_Inr [OF re]
  have wfe: "is_plain_obj e \<and> wf_js e" if "e \<in> set ?es" for e
    using that ri(2,3) wf unfolding chain_entries_Some by (auto dest!: list_all2_in_set2 [where y = e] simp del: set_map) (auto)
  have un: "list_all unchained (map (\<lambda>e. payloadFrom (fst e)) xs @ [pl])"
    using wfe without_keys_unchained(1) pl(1) by (auto simp: list_all_iff)
  from chain_from_ok [OF cp [unfolded chainPayloads_def] un] h
  have a2: "list_all2 (rebuilt cd k) (map (\<lambda>e. payloadFrom (fst e)) xs @ [pl]) repaired" by blast
  have len: "length repaired = Suc (length ?es)" using a2 by (auto dest: list_all2_lengthD)
  have keep: "js_get f (repaired ! i) = js_get f (?es ! i)"
    if i: "i < length ?es" and f: "f \<notin> set (RESERVED @ defaulted) \<or> f \<in> set defaulted \<and> \<not> nullish (js_get f (?es ! i))" for i f
  proof -
    have e: "is_plain_obj (?es ! i) \<and> wf_js (?es ! i)" using wfe i by (metis nth_mem)
    have "f \<notin> set RESERVED" using f by (auto simp: RESERVED_def defaulted_def)
    then have p: "js_get f (payloadFrom (?es ! i)) = js_get f (?es ! i)" using without_keys_unchained(2) e by blast
    have "rebuilt cd k (payloadFrom (?es ! i)) (repaired ! i)"
      using list_all2_nthD [OF a2, of i] i by (simp add: nth_append)
    with f show ?thesis unfolding rebuilt_def by (metis p)
  qed
  have root: "fo_root (rd_forest d2) = repair_text cd repaired" and bk: "rd_backups d2 (rr_backup res) = Some (fo_root (rd_forest d))"
    using commit by (auto simp: commit_repair_def split: if_splits option.splits)
  have lines: "raw_lines (fo_root (rd_forest d2)) = map (stringifyJson cd) repaired"
    unfolding root by (rule raw_lines_repair_text [OF rb])
  have "chain_ok cd k (k \<noteq> None) False (raw_lines (fo_root (rd_forest d2))) \<longleftrightarrow> (\<forall>e\<in>set ?es. \<not> js_has_own ''anchor'' e)"
    unfolding lines using rebuilt_chain_ok [OF cp un _ rb] h wfe pl(2) without_keys_unchained(3) by auto
  moreover have "chain_entries cd (raw_lines (fo_root (rd_forest d2))) = Some repaired"
    unfolding lines by (rule chain_entries_texts [OF rb])
  ultimately show ?thesis using ri(1,2) len keep bk by blast
qed

definition ex_old_entry :: jsval where
  "ex_old_entry = VObj [(''seq'', VNum 7), (''gate'', VStr ''g''), (''ts'', VStr ''t''), (''files'', VObj []), (''data'', VBool True)]"

definition ex_new_entry :: jsval where
  "ex_new_entry = VObj [(''seq'', VNum 1), (''gate'', VStr ''g''), (''ts'', VStr ''t''), (''files'', VObj []), (''data'', VBool True), (''prev'', VNull)]"

definition ex_note :: jsval where
  "ex_note = VObj [(''seq'', VNum 2), (''type'', VStr ''manifest-chain-repair''), (''ts'', VStr ''now''), (''reason'', VStr ''lost line''),
     (''originalHash'', VStr (''ha'' @ [newline])), (''originalEntries'', VNum 1), (''backup'', VStr (''m.pre-repair-ha'' @ newline # ''.bak'')),
     (''newlySignedEntries'', VNum 0), (''newlySignedLines'', VArr []), (''gate'', VStr ''manifest-chain-repair''), (''files'', VObj []),
     (''prev'', VStr ''hb'')]"

definition ex_repair_codec :: codec where
  "ex_repair_codec = \<lparr>parseJson = (\<lambda>t. if t = ''a'' then Some ex_old_entry else if t = ''b'' then Some ex_new_entry
        else if t = ''c'' then Some ex_note else None),
     stringifyJson = (\<lambda>v. if js_get ''seq'' v = VNum 1 then ''b'' else ''c''), sha256 = (\<lambda>t. CHR ''h'' # t), hmac = (\<lambda>k b. ''m'')\<rparr>"

definition ex_repair_disk :: repair_disk where
  "ex_repair_disk = \<lparr>rd_forest = \<lparr>fo_root = ''a'' @ [newline], fo_objects = [], fo_content = (\<lambda>_. [])\<rparr>, rd_exists = True, rd_backups = Map.empty\<rparr>"

definition ex_repair_result :: repair_result where
  "ex_repair_result = \<lparr>rr_write = True, rr_backup = ''m.pre-repair-ha'' @ newline # ''.bak'', rr_originalHash = ''ha'' @ [newline],
     rr_originalEntries = 1, rr_repairedEntries = 2, rr_newlySigned = []\<rparr>"

lemma ex_repair_plan:
  "plan_repair ex_repair_codec (\<lambda>_. ''now'') ''m'' VNull VNull (VStr ''lost line'') False True ex_repair_disk
     = Inr (ex_repair_result, [ex_new_entry, ex_note])"
  by code_simp

definition ex_repaired_disk :: repair_disk where
  "ex_repaired_disk = ex_repair_disk\<lparr>rd_forest := (rd_forest ex_repair_disk)\<lparr>fo_root := ''b'' @ newline # ''c'' @ [newline]\<rparr>,
     rd_backups := [''m.pre-repair-ha'' @ newline # ''.bak'' \<mapsto> ''a'' @ [newline]]\<rparr>"

theorem repair_restores_chain_witness:
  "chain_ok ex_repair_codec None False False (raw_lines (fo_root (rd_forest ex_repaired_disk)))"
proof -
  have tx: "repair_text ex_repair_codec [ex_new_entry, ex_note] = ''b'' @ newline # ''c'' @ [newline]" by code_simp
  have commit: "commit_repair ex_repair_codec (fo_root (rd_forest ex_repair_disk)) ex_repair_result [ex_new_entry, ex_note] ex_repair_disk
      = Inr ex_repaired_disk"
  proof -
    have "sha256 ex_repair_codec (fo_root (rd_forest ex_repair_disk)) = rr_originalHash ex_repair_result"
      by (simp add: ex_repair_result_def ex_repair_disk_def ex_repair_codec_def)
    moreover have "rd_backups ex_repair_disk (rr_backup ex_repair_result) = None" by (simp add: ex_repair_disk_def)
    ultimately show ?thesis
      by (simp add: commit_repair_def tx ex_repaired_disk_def) (simp add: ex_repair_disk_def ex_repair_result_def)
  qed
  have wf: "\<forall>t v. parseJson ex_repair_codec t = Some v \<longrightarrow> wf_js v"
    by (simp add: ex_repair_codec_def ex_old_entry_def ex_new_entry_def ex_note_def)
  have h: "\<forall>k b. hmac ex_repair_codec k b \<noteq> []" by (simp add: ex_repair_codec_def)
  have rb: "list_all (reads_back ex_repair_codec) [ex_new_entry, ex_note]" by code_simp
  have key: "validateKeyParam VNull = Inr None" by (simp add: validateKeyParam_def)
  have es: "chain_entries ex_repair_codec (raw_lines (fo_root (rd_forest ex_repair_disk))) = Some [ex_old_entry]" by code_simp
  have anchor: "\<not> js_has_own ''anchor'' ex_old_entry" by (simp add: js_has_own_def ex_old_entry_def)
  from repair_restores_chain [OF ex_repair_plan commit wf h rb] show ?thesis unfolding key es using anchor by auto
qed

end
