(* ===== verification/AttemptLedger.thy ===== *)
theory AttemptLedger
  imports RailDiff GateRecord "HOL-Library.Sublist" "HOL-Library.Countable"
begin

text \<open>
  The attempt ledger of the autopilot (\<^verbatim>\<open>packages/autopilot/lib/attempts.mjs\<close>): the attempts of one issue
  in a JSON file, and \<open>reset --attempts\<close>, which moves them to an archive of framed lines through a journal, so
  that a process can stop between any two writes, or within the append of a line. Every operation first
  completes a pending reset. The mutation seams of the code, which only its tests switch on, are off. JSON,
  SHA-256, the calendar and the ids are parameters; the content of the journal is never read.
\<close>

record attempt_env =
  ae_cd :: codec
  ae_pretty :: "jsval \<Rightarrow> string"
  ae_date :: "jsval \<Rightarrow> int option"
  ae_iso :: "int \<Rightarrow> string"

datatype attempts_error = AttemptsCorrupt | BadKind | BadOutcome | AttemptMissing | LockRequired | ArchiveNotJson canonical_error

section \<open>Framed lines\<close>

definition sortKeys :: "jsval \<Rightarrow> jsval" where
  "sortKeys v = (case v of VObj kvs \<Rightarrow> VObj (sort_key fst kvs) | _ \<Rightarrow> v)"

definition framed :: "codec \<Rightarrow> jsval \<Rightarrow> jsval" where
  "framed cd r = (case r of
      VObj kvs \<Rightarrow> VObj (AList.update ''sha256'' (VStr (sha256 cd (stringifyJson cd r))) kvs)
    | _ \<Rightarrow> r)"

definition archive_record :: "jsval \<Rightarrow> string \<Rightarrow> jsval" where
  "archive_record e stamp = without_keys [''sha256''] (sortKeys (js_put ''archivedAt'' (VStr stamp) e))"

definition archiveLine :: "codec \<Rightarrow> jsval \<Rightarrow> string \<Rightarrow> string" where
  "archiveLine cd e stamp = stringifyJson cd (framed cd (archive_record e stamp)) @ [newline]"

datatype line_fault = LineNotJson | NotARecord | ChecksumMismatch

definition verifyArchiveLine :: "codec \<Rightarrow> string \<Rightarrow> line_fault + jsval" where
  "verifyArchiveLine cd line = (case parseJson cd line of
      None \<Rightarrow> Inl LineNotJson
    | Some r \<Rightarrow>
        if \<not> is_plain_obj r \<or> \<not> is_str (js_get ''id'' r) then Inl NotARecord
        else if js_get ''sha256'' r \<noteq> VStr (sha256 cd (stringifyJson cd (sortKeys (without_keys [''sha256''] r))))
        then Inl ChecksumMismatch
        else Inr r)"

record archive_state =
  as_records :: "jsval list"
  as_validLines :: "string list"
  as_corrupt :: "nat list"
  as_truncatedTail :: bool

definition parseArchiveText :: "codec \<Rightarrow> string \<Rightarrow> archive_state" where
  "parseArchiveText cd text =
     (let ls = split_on newline text; complete = butlast ls;
          checked = map (\<lambda>(i, l). (i, l, verifyArchiveLine cd l)) (enumerate 1 complete)
      in \<lparr>as_records = List.map_filter (\<lambda>(i, l, v). case v of Inr r \<Rightarrow> Some r | Inl _ \<Rightarrow> None) checked,
          as_validLines = List.map_filter (\<lambda>(i, l, v). case v of Inr r \<Rightarrow> Some (l @ [newline]) | Inl _ \<Rightarrow> None) checked,
          as_corrupt = List.map_filter (\<lambda>(i, l, v). case v of Inr r \<Rightarrow> None | Inl _ \<Rightarrow> Some i) checked,
          as_truncatedTail = (last ls \<noteq> [])\<rparr>)"

section \<open>The files of one issue\<close>

record attempt_files =
  af_ledger :: "string option"
  af_archive :: "string option"
  af_journal :: bool
  af_quarantined :: "string list"

text \<open>One file operation each; a rename replaces a file at once, an append may stop after any character.\<close>

datatype file_act =
    WriteJournal | DropJournal | WriteLedger string | WriteArchive string | AppendArchive string | QuarantineArchive

definition append_archive :: "string \<Rightarrow> attempt_files \<Rightarrow> attempt_files" where
  "append_archive s d = d\<lparr>af_archive := Some ((case af_archive d of None \<Rightarrow> [] | Some t \<Rightarrow> t) @ s)\<rparr>"

fun act :: "file_act \<Rightarrow> attempt_files \<Rightarrow> attempt_files" where
  "act WriteJournal d = d\<lparr>af_journal := True\<rparr>"
| "act DropJournal d = d\<lparr>af_journal := False\<rparr>"
| "act (WriteLedger s) d = d\<lparr>af_ledger := Some s\<rparr>"
| "act (WriteArchive s) d = d\<lparr>af_archive := Some s\<rparr>"
| "act (AppendArchive s) d = append_archive s d"
| "act QuarantineArchive d = d\<lparr>af_archive := None,
     af_quarantined := (case af_archive d of None \<Rightarrow> [] | Some t \<Rightarrow> [t]) @ af_quarantined d\<rparr>"

definition acts :: "file_act list \<Rightarrow> attempt_files \<Rightarrow> attempt_files" where
  "acts as d = fold act as d"

section \<open>The operations\<close>

definition attempt_value :: "jsval \<Rightarrow> bool" where
  "attempt_value e \<longleftrightarrow> is_plain_obj e \<and> is_str (js_get ''id'' e)"

definition readRaw :: "attempt_env \<Rightarrow> attempt_files \<Rightarrow> attempts_error + jsval list" where
  "readRaw env d = (case af_ledger d of
      None \<Rightarrow> Inr []
    | Some t \<Rightarrow> (case parseJson (ae_cd env) t of
        Some (VArr es) \<Rightarrow> if list_all attempt_value es then Inr es else Inl AttemptsCorrupt
      | _ \<Rightarrow> Inl AttemptsCorrupt))"

definition ledger_text :: "attempt_env \<Rightarrow> jsval list \<Rightarrow> string" where
  "ledger_text env es = ae_pretty env (VArr es) @ [newline]"

definition attempt_id :: "jsval \<Rightarrow> string" where
  "attempt_id e = (case js_get ''id'' e of VStr i \<Rightarrow> i | _ \<Rightarrow> [])"

text \<open>\<open>readArchive\<close>: the records, and the operations that quarantine a corrupt archive or trim its tail.\<close>

definition readArchive :: "attempt_env \<Rightarrow> attempt_files \<Rightarrow> jsval list \<times> file_act list" where
  "readArchive env d = (case af_archive d of
      None \<Rightarrow> ([], [])
    | Some t \<Rightarrow>
        let p = parseArchiveText (ae_cd env) t; valid = concat (as_validLines p)
        in (as_records p,
            if as_corrupt p \<noteq> [] then [QuarantineArchive, WriteArchive valid]
            else if as_truncatedTail p then [WriteArchive valid] else []))"

text \<open>The entries whose id is not archived yet, each id once.\<close>

fun pending_entries :: "string set \<Rightarrow> jsval list \<Rightarrow> jsval list" where
  "pending_entries seen [] = []"
| "pending_entries seen (e # es) =
     (if attempt_id e \<in> seen then pending_entries seen es else e # pending_entries (insert (attempt_id e) seen) es)"

definition replay_acts :: "attempt_env \<Rightarrow> int \<Rightarrow> attempt_files \<Rightarrow> jsval list \<Rightarrow> file_act list" where
  "replay_acts env now d entries =
     (let (records, fix_acts) = readArchive env d;
          pending = pending_entries (set (map attempt_id records)) entries
      in fix_acts @ map (\<lambda>e. AppendArchive (archiveLine (ae_cd env) e (ae_iso env now))) pending
         @ [WriteLedger (ledger_text env []), DropJournal])"

definition recover_acts :: "attempt_env \<Rightarrow> int \<Rightarrow> attempt_files \<Rightarrow> attempts_error + file_act list" where
  "recover_acts env now d =
     (if \<not> af_journal d then Inr [] else bind_res (readRaw env d) (\<lambda>es. Inr (replay_acts env now d es)))"

definition recoverAttempts :: "attempt_env \<Rightarrow> int \<Rightarrow> attempt_files \<Rightarrow> attempts_error + attempt_files" where
  "recoverAttempts env now d = bind_res (recover_acts env now d) (\<lambda>as. Inr (acts as d))"

definition recent :: "attempt_env \<Rightarrow> int \<Rightarrow> int \<Rightarrow> jsval \<Rightarrow> bool" where
  "recent env window now e = (case ae_date env (js_get ''ts'' e) of None \<Rightarrow> False | Some t \<Rightarrow> now - window \<le> t)"

definition RETENTION_MS :: int where "RETENTION_MS = 604800000"
definition WINDOW_MS :: int where "WINDOW_MS = 86400000"
definition MAX_FAILED_ATTEMPTS :: nat where "MAX_FAILED_ATTEMPTS = 3"

definition readAttempts :: "attempt_env \<Rightarrow> int \<Rightarrow> attempt_files \<Rightarrow> attempts_error + (jsval list \<times> attempt_files)" where
  "readAttempts env now d = bind_res (recoverAttempts env now d) (\<lambda>d1.
     bind_res (readRaw env d1) (\<lambda>es. Inr (filter (recent env RETENTION_MS now) es, d1)))"

definition new_attempt :: "attempt_env \<Rightarrow> int \<Rightarrow> string \<Rightarrow> string \<Rightarrow> jsval" where
  "new_attempt env now ulid kind =
     VObj [(''id'', VStr ulid), (''ts'', VStr (ae_iso env now)), (''kind'', VStr kind), (''outcome'', VStr ''started'')]"

definition begin_act :: "attempt_env \<Rightarrow> int \<Rightarrow> string \<Rightarrow> string \<Rightarrow> attempt_files \<Rightarrow> attempts_error + file_act" where
  "begin_act env now ulid kind d = bind_res (readRaw env d) (\<lambda>es.
     Inr (WriteLedger (ledger_text env (es @ [new_attempt env now ulid kind]))))"

definition beginAttempt ::
  "attempt_env \<Rightarrow> int \<Rightarrow> string \<Rightarrow> string \<Rightarrow> attempt_files \<Rightarrow> attempts_error + (jsval \<times> attempt_files)" where
  "beginAttempt env now ulid kind d =
     (if kind \<notin> {''shaping'', ''coldstart''} then Inl BadKind
      else bind_res (recoverAttempts env now d) (\<lambda>d1.
        bind_res (begin_act env now ulid kind d1) (\<lambda>a. Inr (new_attempt env now ulid kind, act a d1))))"

definition finished :: "attempt_env \<Rightarrow> int \<Rightarrow> string \<Rightarrow> jsval \<Rightarrow> jsval" where
  "finished env now outcome e = js_put ''finishedAt'' (VStr (ae_iso env now)) (js_put ''outcome'' (VStr outcome) e)"

fun update_first :: "(jsval \<Rightarrow> bool) \<Rightarrow> (jsval \<Rightarrow> jsval) \<Rightarrow> jsval list \<Rightarrow> jsval list option" where
  "update_first P f [] = None"
| "update_first P f (e # es) = (if P e then Some (f e # es) else map_option ((#) e) (update_first P f es))"

definition finish_act :: "attempt_env \<Rightarrow> int \<Rightarrow> string \<Rightarrow> string \<Rightarrow> attempt_files \<Rightarrow> attempts_error + file_act" where
  "finish_act env now i outcome d = bind_res (readRaw env d) (\<lambda>es.
     case update_first (\<lambda>e. attempt_id e = i) (finished env now outcome) es of
       None \<Rightarrow> Inl AttemptMissing
     | Some es' \<Rightarrow> Inr (WriteLedger (ledger_text env es')))"

definition finishAttempt ::
  "attempt_env \<Rightarrow> int \<Rightarrow> string \<Rightarrow> string \<Rightarrow> attempt_files \<Rightarrow> attempts_error + attempt_files" where
  "finishAttempt env now i outcome d =
     (if outcome \<notin> {''ok'', ''failed''} then Inl BadOutcome
      else bind_res (recoverAttempts env now d) (\<lambda>d1. bind_res (finish_act env now i outcome d1) (\<lambda>a. Inr (act a d1))))"

definition counts_as_failed :: "jsval \<Rightarrow> bool" where
  "counts_as_failed e \<longleftrightarrow> js_get ''outcome'' e = VStr ''failed'' \<or> js_get ''outcome'' e = VStr ''started''"

definition failedWithin24h :: "attempt_env \<Rightarrow> int \<Rightarrow> string \<Rightarrow> attempt_files \<Rightarrow> attempts_error + (nat \<times> attempt_files)" where
  "failedWithin24h env now kind d = bind_res (readAttempts env now d) (\<lambda>(es, d1).
     Inr (length (filter counts_as_failed (filter (\<lambda>e. js_get ''kind'' e = VStr kind \<and> recent env WINDOW_MS now e) es)), d1))"

definition shapingExcluded :: "attempt_env \<Rightarrow> int \<Rightarrow> attempt_files \<Rightarrow> attempts_error + (bool \<times> attempt_files)" where
  "shapingExcluded env now d = bind_res (failedWithin24h env now ''shaping'' d) (\<lambda>(n, d1). Inr (MAX_FAILED_ATTEMPTS \<le> n, d1))"

definition reset_acts :: "attempt_env \<Rightarrow> int \<Rightarrow> attempt_files \<Rightarrow> attempts_error + file_act list" where
  "reset_acts env now d = bind_res (readRaw env d) (\<lambda>es. Inr (WriteJournal # replay_acts env now d es))"

definition resetAttempts :: "attempt_env \<Rightarrow> int \<Rightarrow> bool \<Rightarrow> attempt_files \<Rightarrow> attempts_error + (nat \<times> attempt_files)" where
  "resetAttempts env now lockHeld d =
     (if \<not> lockHeld then Inl LockRequired
      else bind_res (recoverAttempts env now d) (\<lambda>d1.
        bind_res (readRaw env d1) (\<lambda>es.
          bind_res (reset_acts env now d1) (\<lambda>as. Inr (length es, acts as d1)))))"

section \<open>Steps that may be cut short\<close>

text \<open>A process performs its operations in order and may stop before any of them, or within an append.\<close>

inductive interrupted :: "file_act list \<Rightarrow> attempt_files \<Rightarrow> attempt_files \<Rightarrow> bool" where
  int_stop: "interrupted as d d"
| int_torn: "prefix p s \<Longrightarrow> interrupted (AppendArchive s # as) d (append_archive p d)"
| int_act: "interrupted as (act a d) d' \<Longrightarrow> interrupted (a # as) d d'"

inductive_cases interrupted_NilE: "interrupted [] d d'"
inductive_cases interrupted_ConsE: "interrupted (a # as) d d'"

text \<open>The steps of all processes on the files of one issue, under the lock of the autopilot, with the latest
  entry of every attempt as a ghost. An id is used once.\<close>

type_synonym history = "attempt_files \<times> (string \<rightharpoonup> jsval)"

inductive attempt_step :: "attempt_env \<Rightarrow> history \<Rightarrow> history \<Rightarrow> bool" for env where
  at_begin: "\<not> af_journal d \<Longrightarrow> ulid \<notin> dom S \<Longrightarrow> begin_act env now ulid kind d = Inr a \<Longrightarrow>
    attempt_step env (d, S) (act a d, S(ulid \<mapsto> new_attempt env now ulid kind))"
| at_finish: "\<not> af_journal d \<Longrightarrow> finish_act env now i outcome d = Inr a \<Longrightarrow> S i = Some e \<Longrightarrow>
    attempt_step env (d, S) (act a d, S(i \<mapsto> finished env now outcome e))"
| at_reset: "\<not> af_journal d \<Longrightarrow> reset_acts env now d = Inr as \<Longrightarrow> interrupted as d d' \<Longrightarrow> attempt_step env (d, S) (d', S)"
| at_recover: "recover_acts env now d = Inr as \<Longrightarrow> interrupted as d d' \<Longrightarrow> attempt_step env (d, S) (d', S)"

definition no_files :: attempt_files where
  "no_files = \<lparr>af_ledger = None, af_archive = None, af_journal = False, af_quarantined = []\<rparr>"

section \<open>JSON\<close>

fun json_value :: "jsval \<Rightarrow> bool" where
  "json_value (VArr xs) \<longleftrightarrow> (\<forall>x\<in>set xs. json_value x)"
| "json_value (VObj kvs) \<longleftrightarrow> distinct (map fst kvs) \<and> (\<forall>kv\<in>set kvs. json_value (snd kv))"
| "json_value VUndefined \<longleftrightarrow> False"
| "json_value VNonFinite \<longleftrightarrow> False"
| "json_value (VOther t) \<longleftrightarrow> False"
| "json_value v \<longleftrightarrow> True"

text \<open>A JSON value reads back from its text, which is one line unless it is indented.\<close>

definition json_laws :: "attempt_env \<Rightarrow> bool" where
  "json_laws env \<longleftrightarrow> (\<forall>v. json_value v \<longrightarrow>
     parseJson (ae_cd env) (stringifyJson (ae_cd env) v) = Some v \<and> newline \<notin> set (stringifyJson (ae_cd env) v)
     \<and> parseJson (ae_cd env) (ae_pretty env v @ [newline]) = Some v)"

definition entry_ok :: "jsval \<Rightarrow> bool" where
  "entry_ok e \<longleftrightarrow> attempt_value e \<and> json_value e"

lemma entry_obj:
  assumes "entry_ok e"
  obtains kvs where "e = VObj kvs" "distinct (map fst kvs)" "\<forall>kv\<in>set kvs. json_value (snd kv)" "is_str (js_get ''id'' (VObj kvs))"
  using assms by (cases e) (auto simp: entry_ok_def attempt_value_def is_plain_obj_def)

lemma map_of_sort:
  fixes kvs :: "(string \<times> jsval) list"
  assumes "distinct (map fst kvs)"
  shows "map_of (sort_key fst kvs) = map_of kvs" and "distinct (map fst (sort_key fst kvs))"
proof -
  have "inj_on fst (set kvs)" "distinct kvs" using assms by (simp_all add: distinct_map)
  then show d: "distinct (map fst (sort_key fst kvs))" by (simp add: distinct_map)
  have iff: "map_of (sort_key fst kvs) k = Some v \<longleftrightarrow> map_of kvs k = Some v" for k v
    unfolding map_of_eq_Some_iff [OF d] map_of_eq_Some_iff [OF assms] by simp
  show "map_of (sort_key fst kvs) = map_of kvs"
  proof
    fix k
    show "map_of (sort_key fst kvs) k = map_of kvs k"
    proof (cases "map_of kvs k")
      case None
      show ?thesis
      proof (cases "map_of (sort_key fst kvs) k")
        case (Some v)
        then have "map_of kvs k = Some v" using iff by simp
        with None show ?thesis by simp
      qed (simp add: None)
    next
      case (Some v)
      with iff [of k v] show ?thesis by simp
    qed
  qed
qed

lemma archived_record:
  assumes e: "entry_ok e"
  shows "\<exists>kvs. archive_record e stamp = VObj kvs \<and> distinct (map fst kvs) \<and> sorted (map fst kvs) \<and> ''sha256'' \<notin> fst ` set kvs
     \<and> (\<forall>kv\<in>set kvs. json_value (snd kv)) \<and> map_of kvs ''id'' = Some (js_get ''id'' e)"
proof -
  obtain kvs where kvs: "e = VObj kvs" "distinct (map fst kvs)" "\<forall>kv\<in>set kvs. json_value (snd kv)" "is_str (js_get ''id'' (VObj kvs))"
    using e by (rule entry_obj)
  let ?u = "AList.update ''archivedAt'' (VStr stamp) kvs"
  let ?f = "filter (\<lambda>kv. fst kv \<notin> set [''sha256'']) (sort_key fst ?u)"
  have du: "distinct (map fst ?u)" using kvs(2) by (rule distinct_update)
  have r: "archive_record e stamp = VObj ?f"
    by (simp add: archive_record_def kvs(1) js_put_def sortKeys_def without_keys_def)
  have "distinct (map fst ?f)" using map_of_sort(2) [OF du] by (rule distinct_map_filter)
  moreover have "sorted (map fst ?f)" by (rule sorted_filter) simp
  moreover have "\<forall>kv\<in>set ?f. json_value (snd kv)"
  proof -
    have "set (AList.update k v xs) \<subseteq> insert (k, v) (set xs)" for k v and xs :: "(string \<times> jsval) list"
      by (induction xs) auto
    from this [of "''archivedAt''" "VStr stamp" kvs] have "set ?u \<subseteq> insert (''archivedAt'', VStr stamp) (set kvs)" .
    moreover have "\<forall>kv\<in>insert (''archivedAt'', VStr stamp) (set kvs). json_value (snd kv)" using kvs(3) by simp
    ultimately have "\<forall>kv\<in>set ?u. json_value (snd kv)" by blast
    then show ?thesis by simp
  qed
  moreover have "map_of ?f ''id'' = Some (js_get ''id'' e)"
  proof -
    obtain v where v: "map_of kvs ''id'' = Some v" using kvs(4) by (cases "map_of kvs ''id''") (auto simp: js_get_def is_str_def)
    have "map_of ?f ''id'' = map_of (sort_key fst ?u) ''id''"
    proof -
      have "map_of (filter (\<lambda>kv. fst kv \<notin> K) xs) k = map_of xs k" if "k \<notin> K" for K k and xs :: "(string \<times> jsval) list"
        using that by (induction xs) auto
      from this [of "''id''" "set [''sha256'']"] show ?thesis by simp
    qed
    also have "\<dots> = map_of kvs ''id''" using map_of_sort(1) [OF du] by simp
    finally show ?thesis by (simp add: v kvs(1) js_get_def)
  qed
  ultimately show ?thesis unfolding r by (intro exI [of _ ?f]) auto
qed

text \<open>A framed record is a JSON value with the id of its entry, and its line verifies.\<close>

lemma framed_record:
  fixes stamp :: string
  assumes e: "entry_ok e" and law: "json_laws env" and r_def: "r = framed (ae_cd env) (archive_record e stamp)"
  shows "json_value r" and "attempt_id r = attempt_id e" and "verifyArchiveLine (ae_cd env) (stringifyJson (ae_cd env) r) = Inr r"
    and "newline \<notin> set (stringifyJson (ae_cd env) r)"
proof -
  let ?cd = "ae_cd env"
  obtain kvs where k: "archive_record e stamp = VObj kvs" "distinct (map fst kvs)" "sorted (map fst kvs)" "''sha256'' \<notin> fst ` set kvs"
    "\<forall>kv\<in>set kvs. json_value (snd kv)" "map_of kvs ''id'' = Some (js_get ''id'' e)"
    using archived_record [OF e] by blast
  let ?h = "sha256 ?cd (stringifyJson ?cd (VObj kvs))"
  have r: "r = VObj (kvs @ [(''sha256'', VStr ?h)])"
    unfolding r_def k(1) by (simp add: framed_def update_fresh [OF k(4)])
  show j: "json_value r" using k(2,4,5) unfolding r by auto
  have i: "js_get ''id'' r = js_get ''id'' e" unfolding r by (simp add: js_get_def k(6) map_of_append)
  then show "attempt_id r = attempt_id e" by (simp add: attempt_id_def)
  have "is_str (js_get ''id'' r)" using e i by (simp add: entry_ok_def attempt_value_def)
  moreover have "js_get ''sha256'' r = VStr ?h"
  proof -
    have "map_of kvs ''sha256'' = None" using k(4) by (simp add: map_of_eq_None_iff)
    then show ?thesis unfolding r by (simp add: js_get_def map_add_def)
  qed
  moreover have "sortKeys (without_keys [''sha256''] r) = VObj kvs"
  proof -
    have "fst kv \<noteq> ''sha256''" if "kv \<in> set kvs" for kv using k(4) imageI [OF that, of fst] by metis
    then have "filter (\<lambda>kv. fst kv \<notin> set [''sha256'']) kvs = kvs" unfolding filter_id_conv by simp
    then show ?thesis unfolding r using k(3) by (simp add: without_keys_def sortKeys_def sort_key_id_if_sorted)
  qed
  moreover have "parseJson ?cd (stringifyJson ?cd r) = Some r" using law j by (simp add: json_laws_def)
  moreover have "is_plain_obj r" unfolding r by (simp add: is_plain_obj_def)
  ultimately show "verifyArchiveLine ?cd (stringifyJson ?cd r) = Inr r" by (simp add: verifyArchiveLine_def)
  show "newline \<notin> set (stringifyJson ?cd r)" using law j by (simp add: json_laws_def)
qed

definition archived_as :: "codec \<Rightarrow> jsval \<Rightarrow> jsval \<Rightarrow> bool" where
  "archived_as cd e r \<longleftrightarrow> (\<exists>stamp. r = framed cd (archive_record e stamp))"

definition lines_of :: "codec \<Rightarrow> jsval list \<Rightarrow> string" where
  "lines_of cd rs = concat (map (\<lambda>r. stringifyJson cd r @ [newline]) rs)"

definition record_ok :: "codec \<Rightarrow> jsval \<Rightarrow> bool" where
  "record_ok cd r \<longleftrightarrow> (\<exists>e. entry_ok e \<and> archived_as cd e r)"

lemma parse_lines:
  assumes law: "json_laws env" and rs: "list_all (record_ok (ae_cd env)) rs" and tail: "newline \<notin> set tail"
  shows "parseArchiveText (ae_cd env) (lines_of (ae_cd env) rs @ tail) =
     \<lparr>as_records = rs, as_validLines = map (\<lambda>r. stringifyJson (ae_cd env) r @ [newline]) rs, as_corrupt = [], as_truncatedTail = (tail \<noteq> [])\<rparr>"
proof -
  let ?cd = "ae_cd env"
  have ok: "verifyArchiveLine ?cd (stringifyJson ?cd r) = Inr r \<and> newline \<notin> set (stringifyJson ?cd r)" if "r \<in> set rs" for r
  proof -
    from that rs obtain e stamp where e: "entry_ok e" and r: "r = framed ?cd (archive_record e stamp)"
      unfolding list_all_iff record_ok_def archived_as_def by blast
    from framed_record(3,4) [OF e law r] show ?thesis by simp
  qed
  have "split_on newline (lines_of ?cd rs @ tail) = map (stringifyJson ?cd) rs @ [tail]"
    using ok by (induction rs) (simp_all add: lines_of_def split_on_append split_on_no_sep [OF tail])
  moreover have "List.map_filter (\<lambda>(i, l, v). case v of Inr r \<Rightarrow> Some r | Inl _ \<Rightarrow> None)
        (map (\<lambda>(i, l). (i, l, verifyArchiveLine ?cd l)) (enumerate n (map (stringifyJson ?cd) rs))) = rs
      \<and> List.map_filter (\<lambda>(i, l, v). case v of Inr r \<Rightarrow> Some (l @ [newline]) | Inl _ \<Rightarrow> None)
        (map (\<lambda>(i, l). (i, l, verifyArchiveLine ?cd l)) (enumerate n (map (stringifyJson ?cd) rs))) = map (\<lambda>r. stringifyJson ?cd r @ [newline]) rs
      \<and> List.map_filter (\<lambda>(i, l, v). case v of Inr r \<Rightarrow> None | Inl _ \<Rightarrow> Some i)
        (map (\<lambda>(i, l). (i, l, verifyArchiveLine ?cd l)) (enumerate n (map (stringifyJson ?cd) rs))) = []" for n
    using ok by (induction rs arbitrary: n) (simp_all add: map_filter_simps)
  ultimately show ?thesis by (simp add: parseArchiveText_def Let_def)
qed

section \<open>The invariant\<close>

definition ledger_is :: "attempt_env \<Rightarrow> attempt_files \<Rightarrow> jsval list \<Rightarrow> bool" where
  "ledger_is env d es \<longleftrightarrow> (af_ledger d = Some (ledger_text env es) \<or> af_ledger d = None \<and> es = []) \<and> list_all entry_ok es"

definition archive_is :: "attempt_env \<Rightarrow> attempt_files \<Rightarrow> jsval list \<Rightarrow> string \<Rightarrow> bool" where
  "archive_is env d rs tail \<longleftrightarrow> (af_archive d = Some (lines_of (ae_cd env) rs @ tail) \<or> af_archive d = None \<and> rs = [] \<and> tail = [])
     \<and> list_all (record_ok (ae_cd env)) rs \<and> newline \<notin> set tail \<and> af_quarantined d = []"

definition is_archived :: "attempt_env \<Rightarrow> jsval list \<Rightarrow> jsval \<Rightarrow> bool" where
  "is_archived env rs e \<longleftrightarrow> (\<exists>r\<in>set rs. archived_as (ae_cd env) e r)"

text \<open>What the contents say of the history: every attempt is in the ledger or archived as it is, no id twice.\<close>

definition accounted :: "attempt_env \<Rightarrow> (string \<rightharpoonup> jsval) \<Rightarrow> jsval list \<Rightarrow> jsval list \<Rightarrow> bool" where
  "accounted env S es rs \<longleftrightarrow>
     (\<forall>i e. S i = Some e \<longrightarrow> attempt_id e = i \<and> entry_ok e \<and> (e \<in> set es \<or> is_archived env rs e))
     \<and> (\<forall>e\<in>set es. S (attempt_id e) = Some e) \<and> (\<forall>r\<in>set rs. \<exists>e. S (attempt_id r) = Some e \<and> archived_as (ae_cd env) e r)
     \<and> distinct (map attempt_id es) \<and> distinct (map attempt_id rs)"

definition apart :: "jsval list \<Rightarrow> jsval list \<Rightarrow> bool" where
  "apart es rs \<longleftrightarrow> attempt_id ` set es \<inter> attempt_id ` set rs = {}"

definition holds :: "attempt_env \<Rightarrow> (string \<rightharpoonup> jsval) \<Rightarrow> attempt_files \<Rightarrow> jsval list \<Rightarrow> jsval list \<Rightarrow> string \<Rightarrow> bool" where
  "holds env S d es rs tail \<longleftrightarrow> ledger_is env d es \<and> archive_is env d rs tail \<and> accounted env S es rs
     \<and> (af_journal d \<or> apart es rs)"

lemma readRaw_ledger:
  assumes "json_laws env" and "ledger_is env d es"
  shows "readRaw env d = Inr es"
proof -
  have "json_value (VArr es)" using assms(2) by (auto simp: ledger_is_def list_all_iff entry_ok_def)
  then have "parseJson (ae_cd env) (ledger_text env es) = Some (VArr es)" using assms(1) by (simp add: json_laws_def ledger_text_def)
  moreover have "list_all attempt_value es" using assms(2) by (auto simp: ledger_is_def list_all_iff entry_ok_def)
  ultimately show ?thesis using assms(2) by (auto simp: ledger_is_def readRaw_def)
qed

lemma readArchive_lines:
  assumes "json_laws env" and "archive_is env d rs tail"
  shows "readArchive env d = (rs, if tail \<noteq> [] then [WriteArchive (lines_of (ae_cd env) rs)] else [])"
proof (cases "af_archive d")
  case None
  then show ?thesis using assms(2) by (simp add: archive_is_def readArchive_def)
next
  case (Some t)
  with assms(2) have t: "t = lines_of (ae_cd env) rs @ tail" "list_all (record_ok (ae_cd env)) rs" "newline \<notin> set tail"
    by (auto simp: archive_is_def)
  have "concat (map (\<lambda>r. stringifyJson (ae_cd env) r @ [newline]) rs) = lines_of (ae_cd env) rs" by (simp add: lines_of_def)
  with parse_lines [OF assms(1) t(2,3)] show ?thesis by (simp add: readArchive_def Some t(1) Let_def)
qed

lemma archived_id: "json_laws env \<Longrightarrow> entry_ok e \<Longrightarrow> archived_as (ae_cd env) e r \<Longrightarrow> attempt_id r = attempt_id e"
  unfolding archived_as_def using framed_record(2) by blast

lemma pending_spec:
  "set (pending_entries seen es) \<subseteq> set es"
  "e \<in> set (pending_entries seen es) \<Longrightarrow> attempt_id e \<notin> seen"
  "distinct (map attempt_id (pending_entries seen es))"
  "e \<in> set es \<Longrightarrow> attempt_id e \<in> seen \<or> attempt_id e \<in> attempt_id ` set (pending_entries seen es)"
proof -
  show s: "set (pending_entries seen es) \<subseteq> set es" by (induction seen es rule: pending_entries.induct) auto
  show n: "e \<in> set (pending_entries seen es) \<Longrightarrow> attempt_id e \<notin> seen" for e seen es
    by (induction seen es rule: pending_entries.induct) (auto split: if_splits)
  show "distinct (map attempt_id (pending_entries seen es))"
  proof (induction seen es rule: pending_entries.induct)
    case (2 seen e es)
    have "attempt_id e \<notin> attempt_id ` set (pending_entries (insert (attempt_id e) seen) es)"
      using n by (metis imageE insertI1)
    with 2 show ?case by simp
  qed simp
  show "e \<in> set es \<Longrightarrow> attempt_id e \<in> seen \<or> attempt_id e \<in> attempt_id ` set (pending_entries seen es)"
    by (induction seen es rule: pending_entries.induct) auto
qed

lemma acts_Nil [simp]: "acts [] d = d" and acts_Cons [simp]: "acts (a # as) d = acts as (act a d)"
  by (simp_all add: acts_def)

text \<open>The append of one line, whole or torn.\<close>

definition line_act :: "attempt_env \<Rightarrow> int \<Rightarrow> jsval \<Rightarrow> file_act" where
  "line_act env now e = AppendArchive (archiveLine (ae_cd env) e (ae_iso env now))"

lemma append_line:
  assumes law: "json_laws env" and h: "holds env S d es rs []" and j: "af_journal d"
    and e: "e \<in> set es" "attempt_id e \<notin> attempt_id ` set rs"
  shows "holds env S (act (line_act env now e) d) es (rs @ [framed (ae_cd env) (archive_record e (ae_iso env now))]) []
    \<and> af_journal (act (line_act env now e) d)"
    and "prefix p (archiveLine (ae_cd env) e (ae_iso env now)) \<Longrightarrow>
      \<exists>rs tail. holds env S (append_archive p d) es rs tail \<and> af_journal (append_archive p d)"
proof -
  let ?cd = "ae_cd env" and ?r = "framed (ae_cd env) (archive_record e (ae_iso env now))"
  have ok: "entry_ok e" using h e(1) by (auto simp: holds_def ledger_is_def list_all_iff)
  note fr = framed_record [OF ok law refl, of "ae_iso env now"]
  have as: "archived_as ?cd e ?r" by (auto simp: archived_as_def)
  have line: "archiveLine ?cd e (ae_iso env now) = stringifyJson ?cd ?r @ [newline]" by (simp add: archiveLine_def)
  have h1: "ledger_is env d es" and h2: "archive_is env d rs []" and h3: "accounted env S es rs" using h by (simp_all add: holds_def)
  have arch: "(case af_archive d of None \<Rightarrow> [] | Some t \<Rightarrow> t) = lines_of ?cd rs"
    using h2 by (auto simp: archive_is_def lines_of_def)
  have S: "S (attempt_id e) = Some e" using h3 e(1) by (simp add: accounted_def)
  have whole: "holds env S (append_archive (stringifyJson ?cd ?r @ [newline]) d) es (rs @ [?r]) []"
  proof -
    have "record_ok ?cd ?r" using ok as by (auto simp: record_ok_def)
    then have "archive_is env (append_archive (stringifyJson ?cd ?r @ [newline]) d) (rs @ [?r]) []"
      using h2 by (simp add: archive_is_def append_archive_def arch lines_of_def)
    moreover have "accounted env S es (rs @ [?r])"
    proof -
      have "\<exists>e. S (attempt_id ?r) = Some e \<and> archived_as ?cd e ?r" using S as fr(2) by auto
      then show ?thesis using h3 e(2) fr(2) unfolding accounted_def is_archived_def by simp blast
    qed
    moreover have "ledger_is env (append_archive (stringifyJson ?cd ?r @ [newline]) d) es"
      using h1 by (simp add: ledger_is_def append_archive_def)
    ultimately show ?thesis using j by (simp add: holds_def append_archive_def)
  qed
  then show "holds env S (act (line_act env now e) d) es (rs @ [?r]) [] \<and> af_journal (act (line_act env now e) d)"
    using j by (simp add: line_act_def line append_archive_def)
  assume p: "prefix p (archiveLine ?cd e (ae_iso env now))"
  then consider "p = stringifyJson ?cd ?r @ [newline]" | "prefix p (stringifyJson ?cd ?r)"
    unfolding line by (auto simp: prefix_snoc)
  then show "\<exists>rs tail. holds env S (append_archive p d) es rs tail \<and> af_journal (append_archive p d)"
  proof cases
    case 1
    with whole j show ?thesis by (auto simp: append_archive_def)
  next
    case 2
    then have n: "newline \<notin> set p" using fr(4) by (auto dest: set_mono_prefix)
    have "archive_is env (append_archive p d) rs p"
      using h2 n by (simp add: archive_is_def append_archive_def arch)
    moreover have "ledger_is env (append_archive p d) es" using h1 by (simp add: ledger_is_def append_archive_def)
    ultimately have "holds env S (append_archive p d) es rs p"
      using h3 j by (simp add: holds_def append_archive_def)
    with j show ?thesis by (auto simp: append_archive_def)
  qed
qed

definition sound :: "attempt_env \<Rightarrow> (string \<rightharpoonup> jsval) \<Rightarrow> attempt_files \<Rightarrow> bool" where
  "sound env S d \<longleftrightarrow> (\<exists>es rs tail. holds env S d es rs tail)"

lemma lines_phase:
  assumes law: "json_laws env"
  shows "holds env S d es rs [] \<Longrightarrow> af_journal d \<Longrightarrow> set ps \<subseteq> set es \<Longrightarrow> distinct (map attempt_id ps) \<Longrightarrow>
    attempt_id ` set ps \<inter> attempt_id ` set rs = {} \<Longrightarrow>
    (interrupted (map (line_act env now) ps @ rest) d d' \<longrightarrow>
       sound env S d' \<or> interrupted rest (acts (map (line_act env now) ps) d) d')
    \<and> (\<exists>rs'. holds env S (acts (map (line_act env now) ps) d) es rs' [] \<and> af_journal (acts (map (line_act env now) ps) d)
         \<and> attempt_id ` set rs' = attempt_id ` set rs \<union> attempt_id ` set ps)"
proof (induction ps arbitrary: d rs)
  case Nil
  then show ?case by auto
next
  case (Cons p ps)
  let ?r = "framed (ae_cd env) (archive_record p (ae_iso env now))" and ?d = "act (line_act env now p) d"
  have p: "p \<in> set es" "attempt_id p \<notin> attempt_id ` set rs" using Cons.prems(3,5) by auto
  note al = append_line [OF law Cons.prems(1,2) p, where now = now]
  have "entry_ok p" using Cons.prems(1) p(1) by (auto simp: holds_def ledger_is_def list_all_iff)
  then have id: "attempt_id ?r = attempt_id p" by (rule framed_record(2) [OF _ law refl])
  have d: "set ps \<subseteq> set es" "distinct (map attempt_id ps)" "attempt_id ` set ps \<inter> attempt_id ` set (rs @ [?r]) = {}"
    using Cons.prems(3,4,5) by (auto simp: id)
  note IH = Cons.IH [OF conjunct1 [OF al(1)] conjunct2 [OF al(1)] d]
  have "sound env S d' \<or> interrupted rest (acts (map (line_act env now) (p # ps)) d) d'"
    if i: "interrupted (line_act env now p # (map (line_act env now) ps @ rest)) d d'"
    using i
  proof (cases rule: interrupted.cases)
    case int_stop
    then show ?thesis using Cons.prems(1) by (auto simp: sound_def)
  next
    case (int_torn q s)
    then have "prefix q (archiveLine (ae_cd env) p (ae_iso env now))" by (simp add: line_act_def)
    from al(2) [OF this] have "sound env S (append_archive q d)" unfolding sound_def by blast
    with int_torn show ?thesis by simp
  next
    case int_act
    then show ?thesis using IH by simp
  qed
  moreover have "\<exists>rs'. holds env S (acts (map (line_act env now) (p # ps)) d) es rs' [] \<and> af_journal (acts (map (line_act env now) (p # ps)) d)
         \<and> attempt_id ` set rs' = attempt_id ` set rs \<union> attempt_id ` set (p # ps)"
    using IH by (simp add: id insert_commute Un_commute)
  ultimately show ?case by simp
qed

lemma emptied:
  assumes law: "json_laws env" and h: "holds env S d es rs []" and all: "attempt_id ` set es \<subseteq> attempt_id ` set rs"
  shows "holds env S (act (WriteLedger (ledger_text env [])) d) [] rs []"
    and "holds env S (act DropJournal (act (WriteLedger (ledger_text env [])) d)) [] rs []"
proof -
  have h2: "archive_is env d rs []" and h3: "accounted env S es rs" using h by (simp_all add: holds_def)
  have "is_archived env rs e" if e: "S i = Some e" for i e
  proof -
    have i: "attempt_id e = i" "e \<in> set es \<or> is_archived env rs e" using h3 e by (auto simp: accounted_def)
    show ?thesis
    proof (cases "e \<in> set es")
      case True
      then obtain r where r: "r \<in> set rs" "attempt_id r = i" using all i(1) by (metis imageE imageI subsetD)
      with h3 e have "archived_as (ae_cd env) e r" by (auto simp: accounted_def)
      with r(1) show ?thesis by (auto simp: is_archived_def)
    qed (use i in simp)
  qed
  then have a: "accounted env S [] rs" using h3 unfolding accounted_def by simp
  have "archive_is env (act (WriteLedger t) d) rs []" "archive_is env (act DropJournal (act (WriteLedger t) d)) rs []" for t
    using h2 by (simp_all add: archive_is_def)
  with a show "holds env S (act (WriteLedger (ledger_text env [])) d) [] rs []"
    "holds env S (act DropJournal (act (WriteLedger (ledger_text env [])) d)) [] rs []"
    by (simp_all add: holds_def ledger_is_def apart_def)
qed

lemma interrupted_last:
  "interrupted [WriteLedger t, DropJournal] d d' \<Longrightarrow>
     d' = d \<or> d' = act (WriteLedger t) d \<or> d' = act DropJournal (act (WriteLedger t) d)"
  by (elim interrupted_ConsE interrupted_NilE) simp_all

lemma interrupted_write: "interrupted (WriteArchive t # as) d d' \<Longrightarrow> d' = d \<or> interrupted as (act (WriteArchive t) d) d'"
  by (elim interrupted_ConsE) simp_all

lemma replay_sound:
  assumes law: "json_laws env" and h: "holds env S d es rs tail" and j: "af_journal d" and a: "af_archive d0 = af_archive d"
  shows "(interrupted (replay_acts env now d0 es) d d' \<longrightarrow> sound env S d')
    \<and> (\<exists>rs'. holds env S (acts (replay_acts env now d0 es) d) [] rs' [] \<and> \<not> af_journal (acts (replay_acts env now d0 es) d))"
proof -
  have h1: "ledger_is env d es" and h2: "archive_is env d rs tail" and h3: "accounted env S es rs" using h by (simp_all add: holds_def)
  have ra: "readArchive env d0 = (rs, if tail \<noteq> [] then [WriteArchive (lines_of (ae_cd env) rs)] else [])"
    using readArchive_lines [OF law h2] a by (simp add: readArchive_def)
  define trims where "trims = (if tail \<noteq> [] then [WriteArchive (lines_of (ae_cd env) rs)] else [])"
  define ps where "ps = pending_entries (set (map attempt_id rs)) es"
  define d1 where "d1 = acts trims d"
  define d2 where "d2 = acts (map (line_act env now) ps) d1"
  let ?rest = "[WriteLedger (ledger_text env []), DropJournal]"
  have r: "replay_acts env now d0 es = trims @ map (line_act env now) ps @ ?rest"
    unfolding replay_acts_def ra Let_def split_conv trims_def [symmetric] ps_def [symmetric] by (simp add: line_act_def)
  have "ledger_is env d1 es" "archive_is env d1 rs []" "af_journal d1"
    using h1 h2 j by (cases "tail = []"; simp add: d1_def trims_def ledger_is_def archive_is_def)+
  with h3 have h_d1: "holds env S d1 es rs []" "af_journal d1" by (simp_all add: holds_def)
  have ps1: "set ps \<subseteq> set es" "distinct (map attempt_id ps)" unfolding ps_def by (rule pending_spec(1), rule pending_spec(3))
  have ps2: "\<And>e. e \<in> set ps \<Longrightarrow> attempt_id e \<notin> attempt_id ` set rs"
    and ps4: "\<And>e. e \<in> set es \<Longrightarrow> attempt_id e \<in> attempt_id ` set rs \<or> attempt_id e \<in> attempt_id ` set ps"
    using pending_spec(2,4) [where seen = "set (map attempt_id rs)" and es = es] unfolding ps_def by auto
  have ps3: "attempt_id ` set ps \<inter> attempt_id ` set rs = {}" using ps2 by blast
  note lp = lines_phase [OF law h_d1 ps1 ps3, of now ?rest d', folded d2_def]
  from conjunct2 [OF lp] obtain rs' where d2: "holds env S d2 es rs' []" "af_journal d2"
    and ids: "attempt_id ` set rs' = attempt_id ` set rs \<union> attempt_id ` set ps" by blast
  have all: "attempt_id ` set es \<subseteq> attempt_id ` set rs'" unfolding ids using ps4 by blast
  note em = emptied [OF law d2(1) all]
  have h0: "sound env S d" "sound env S d2" using h d2(1) unfolding sound_def by blast+
  have e1: "sound env S (act (WriteLedger (ledger_text env [])) d2)" "sound env S (act DropJournal (act (WriteLedger (ledger_text env [])) d2))"
    using em unfolding sound_def by blast+
  have fin: "sound env S d'" if "interrupted ?rest d2 d'"
    using interrupted_last [OF that] h0(2) e1 by (elim disjE) simp_all
  have fx: "sound env S d' \<or> interrupted as d1 d'" if "interrupted (trims @ as) d d'" for as
  proof (cases "tail = []")
    case False
    with that have "interrupted (WriteArchive (lines_of (ae_cd env) rs) # as) d d'" by (simp add: trims_def)
    from interrupted_write [OF this] h0(1) False show ?thesis by (auto simp: d1_def trims_def)
  qed (use that in \<open>simp add: d1_def trims_def\<close>)
  have "interrupted (replay_acts env now d0 es) d d' \<longrightarrow> sound env S d'"
    unfolding r using fx [of "map (line_act env now) ps @ ?rest"] conjunct1 [OF lp] fin by blast
  moreover have "acts (replay_acts env now d0 es) d = act DropJournal (act (WriteLedger (ledger_text env [])) d2)"
    unfolding r d2_def d1_def by (simp add: acts_def)
  moreover have "\<not> af_journal (act DropJournal (act (WriteLedger (ledger_text env [])) d2))" by simp
  ultimately show ?thesis using em(2) by metis
qed

lemma update_first_split:
  "update_first P f es = Some es' \<Longrightarrow> \<exists>us e vs. es = us @ e # vs \<and> P e \<and> es' = us @ f e # vs"
proof (induction es arbitrary: es')
  case (Cons x es)
  show ?case
  proof (cases "P x")
    case True
    with Cons.prems show ?thesis by (intro exI [of _ "[]"] exI [of _ x] exI [of _ es]) simp
  next
    case False
    with Cons.prems obtain es2 where e2: "update_first P f es = Some es2" "es' = x # es2" by auto
    from Cons.IH [OF e2(1)] obtain us e vs where "es = us @ e # vs" "P e" "es2 = us @ f e # vs" by blast
    with e2(2) show ?thesis by (intro exI [of _ "x # us"] exI [of _ e] exI [of _ vs]) simp
  qed
qed simp

lemma new_attempt_ok: "entry_ok (new_attempt env now ulid kind)" "attempt_id (new_attempt env now ulid kind) = ulid"
  by (simp_all add: new_attempt_def entry_ok_def attempt_value_def is_plain_obj_def js_get_def is_str_def attempt_id_def)

lemma json_put: "json_value e \<Longrightarrow> json_value v \<Longrightarrow> json_value (js_put k v e)"
proof (cases e)
  case (VObj kvs)
  assume e: "json_value e" and v: "json_value v"
  have "set (AList.update k v kvs) \<subseteq> insert (k, v) (set kvs)" by (induction kvs) auto
  moreover have "\<forall>kv\<in>insert (k, v) (set kvs). json_value (snd kv)" using e v VObj by simp
  ultimately have "\<forall>kv\<in>set (AList.update k v kvs). json_value (snd kv)" by blast
  moreover have "distinct (map fst (AList.update k v kvs))" using e VObj by (simp add: distinct_update)
  ultimately show ?thesis by (simp add: js_put_def VObj)
qed (simp_all add: js_put_def)

lemma finished_ok:
  assumes "entry_ok e"
  shows "entry_ok (finished env now outcome e)" and "attempt_id (finished env now outcome e) = attempt_id e"
proof -
  have p: "is_plain_obj e" "json_value e" "is_str (js_get ''id'' e)" using assms by (simp_all add: entry_ok_def attempt_value_def)
  have i: "js_get ''id'' (finished env now outcome e) = js_get ''id'' e" using p(1) by (simp add: finished_def)
  then show "attempt_id (finished env now outcome e) = attempt_id e" by (simp add: attempt_id_def)
  have "json_value (finished env now outcome e)" unfolding finished_def by (intro json_put p(2)) simp_all
  with i p(1,3) show "entry_ok (finished env now outcome e)" by (simp add: entry_ok_def attempt_value_def finished_def)
qed

lemma begin_sound:
  assumes law: "json_laws env" and h: "holds env S d es rs tail" and j: "\<not> af_journal d" and u: "ulid \<notin> dom S"
  shows "holds env (S(ulid \<mapsto> new_attempt env now ulid kind))
    (act (WriteLedger (ledger_text env (es @ [new_attempt env now ulid kind]))) d) (es @ [new_attempt env now ulid kind]) rs tail"
proof -
  let ?e = "new_attempt env now ulid kind"
  have h1: "ledger_is env d es" and h2: "archive_is env d rs tail" and h3: "accounted env S es rs" and h4: "apart es rs"
    using h j by (simp_all add: holds_def)
  have S0: "S ulid = None" using u by (cases "S ulid") auto
  have es: "attempt_id e \<noteq> ulid" if "e \<in> set es" for e
  proof -
    have "S (attempt_id e) = Some e" using h3 that unfolding accounted_def by blast
    with S0 show ?thesis by auto
  qed
  have rs: "attempt_id r \<noteq> ulid" if "r \<in> set rs" for r
  proof -
    have "S (attempt_id r) \<noteq> None" using h3 that unfolding accounted_def by (metis option.distinct(1))
    with S0 show ?thesis by metis
  qed
  have "ledger_is env (act (WriteLedger (ledger_text env (es @ [?e]))) d) (es @ [?e])"
    using h1 new_attempt_ok(1) by (simp add: ledger_is_def)
  moreover have "archive_is env (act (WriteLedger (ledger_text env (es @ [?e]))) d) rs tail"
    using h2 by (simp add: archive_is_def)
  moreover have "accounted env (S(ulid \<mapsto> ?e)) (es @ [?e]) rs"
    unfolding accounted_def
  proof (intro conjI allI impI ballI)
    fix i e assume x: "(S(ulid \<mapsto> ?e)) i = Some e"
    have "attempt_id e = i \<and> entry_ok e \<and> (e \<in> set (es @ [?e]) \<or> is_archived env rs e)"
    proof (cases "i = ulid")
      case True
      with x new_attempt_ok show ?thesis by auto
    next
      case False
      with x have "S i = Some e" by simp
      then have "attempt_id e = i" "entry_ok e" "e \<in> set es \<or> is_archived env rs e" using h3 unfolding accounted_def by blast+
      then show ?thesis by auto
    qed
    then show "attempt_id e = i" "entry_ok e" "e \<in> set (es @ [?e]) \<or> is_archived env rs e" by blast+
  next
    fix e assume "e \<in> set (es @ [?e])"
    then consider "e = ?e" | "e \<in> set es" by auto
    then show "(S(ulid \<mapsto> ?e)) (attempt_id e) = Some e"
    proof cases
      case 2
      then have "S (attempt_id e) = Some e" using h3 unfolding accounted_def by blast
      with es [OF 2] show ?thesis by simp
    qed (simp add: new_attempt_ok(2))
  next
    fix r assume "r \<in> set rs"
    then show "\<exists>e. (S(ulid \<mapsto> ?e)) (attempt_id r) = Some e \<and> archived_as (ae_cd env) e r" using h3 rs by (simp add: accounted_def)
  next
    have "ulid \<notin> attempt_id ` set es" using es by blast
    then show "distinct (map attempt_id (es @ [?e]))" "distinct (map attempt_id rs)"
      using h3 new_attempt_ok(2) by (simp_all add: accounted_def)
  qed
  moreover have "ulid \<notin> attempt_id ` set rs" using rs by blast
  then have "apart (es @ [?e]) rs" using h4 new_attempt_ok(2) by (simp add: apart_def)
  ultimately show ?thesis by (simp add: holds_def)
qed

lemma finish_sound:
  assumes law: "json_laws env" and h: "holds env S d (us @ e # vs) rs tail" and j: "\<not> af_journal d" and i: "attempt_id e = i"
  shows "S i = Some e" and "holds env (S(i \<mapsto> finished env now outcome e))
    (act (WriteLedger (ledger_text env (us @ finished env now outcome e # vs))) d) (us @ finished env now outcome e # vs) rs tail"
proof -
  let ?f = "finished env now outcome e" and ?es = "us @ e # vs" and ?es' = "us @ finished env now outcome e # vs"
  have h1: "ledger_is env d ?es" and h2: "archive_is env d rs tail" and h3: "accounted env S ?es rs" and h4: "apart ?es rs"
    using h j by (simp_all add: holds_def)
  show S: "S i = Some e" using h3 i by (simp add: accounted_def)
  have ok: "entry_ok e" using h1 by (simp add: ledger_is_def)
  note f = finished_ok [OF ok, of env now outcome]
  have d: "distinct (map attempt_id ?es)" using h3 by (simp add: accounted_def)
  have rs: "attempt_id r \<noteq> i" if "r \<in> set rs" for r
  proof -
    have "i \<notin> attempt_id ` set rs" using h4 i by (simp add: apart_def)
    then show ?thesis using imageI [OF that, of attempt_id] by metis
  qed
  have "ledger_is env (act (WriteLedger (ledger_text env ?es')) d) ?es'" using h1 f(1) by (simp add: ledger_is_def)
  moreover have "archive_is env (act (WriteLedger (ledger_text env ?es')) d) rs tail" using h2 by (simp add: archive_is_def)
  moreover have "accounted env (S(i \<mapsto> ?f)) ?es' rs"
    unfolding accounted_def
  proof (intro conjI allI impI ballI)
    fix k x assume x: "(S(i \<mapsto> ?f)) k = Some x"
    show "attempt_id x = k" "entry_ok x" "x \<in> set ?es' \<or> is_archived env rs x"
    proof -
      have "(k = i \<and> x = ?f) \<or> (k \<noteq> i \<and> S k = Some x)" using x by (simp split: if_splits)
      then have "attempt_id x = k \<and> entry_ok x \<and> (x \<in> set ?es' \<or> is_archived env rs x)"
      proof (elim disjE conjE)
        assume "k \<noteq> i" and s: "S k = Some x"
        then have a: "attempt_id x = k" "entry_ok x" "x \<in> set ?es \<or> is_archived env rs x" using h3 unfolding accounted_def by blast+
        then have "x \<noteq> e" using i \<open>k \<noteq> i\<close> by auto
        with a show ?thesis by auto
      qed (use f i in simp)
      then show "attempt_id x = k" "entry_ok x" "x \<in> set ?es' \<or> is_archived env rs x" by blast+
    qed
  next
    fix x assume "x \<in> set ?es'"
    then consider "x = ?f" | "x \<in> set us \<union> set vs" by auto
    then show "(S(i \<mapsto> ?f)) (attempt_id x) = Some x"
    proof cases
      case 2
      then have "attempt_id x \<in> attempt_id ` set us \<union> attempt_id ` set vs" by blast
      moreover have "i \<notin> attempt_id ` set us \<union> attempt_id ` set vs" using d i by auto
      ultimately have "attempt_id x \<noteq> i" by metis
      moreover have "S (attempt_id x) = Some x" using h3 2 by (auto simp: accounted_def)
      ultimately show ?thesis by simp
    qed (use f(2) i in simp)
  next
    fix r assume "r \<in> set rs"
    then show "\<exists>x. (S(i \<mapsto> ?f)) (attempt_id r) = Some x \<and> archived_as (ae_cd env) x r" using h3 rs by (auto simp: accounted_def)
  next
    show "distinct (map attempt_id ?es')" "distinct (map attempt_id rs)" using h3 f(2) by (simp_all add: accounted_def)
  qed
  moreover have "apart ?es' rs" using h4 f(2) by (simp add: apart_def)
  ultimately show "holds env (S(i \<mapsto> ?f)) (act (WriteLedger (ledger_text env ?es')) d) ?es' rs tail" by (simp add: holds_def)
qed

lemma step_sound:
  assumes law: "json_laws env" and st: "attempt_step env (d, S) (d', S')" and s: "sound env S d"
  shows "sound env S' d'"
proof -
  from s obtain es rs tail where h: "holds env S d es rs tail" unfolding sound_def by blast
  have rr: "readRaw env d = Inr es" using h by (intro readRaw_ledger [OF law]) (simp add: holds_def)
  from st show ?thesis
  proof (cases rule: attempt_step.cases)
    case (at_begin ulid now kind a)
    have a: "a = WriteLedger (ledger_text env (es @ [new_attempt env now ulid kind]))" using at_begin rr by (simp add: begin_act_def)
    from begin_sound [OF law h at_begin(3,4), of now kind] show ?thesis unfolding at_begin a sound_def by blast
  next
    case (at_finish now i outcome a e)
    then obtain es' where u: "update_first (\<lambda>e. attempt_id e = i) (finished env now outcome) es = Some es'"
      and a: "a = WriteLedger (ledger_text env es')" using rr by (auto simp: finish_act_def split: option.splits)
    from update_first_split [OF u] obtain us x vs where x: "es = us @ x # vs" "attempt_id x = i" "es' = us @ finished env now outcome x # vs" by blast
    have "x = e" using finish_sound(1) [OF law h [unfolded x(1)] at_finish(3) x(2)] at_finish by simp
    with finish_sound(2) [OF law h [unfolded x(1)] at_finish(3) x(2), of now outcome] show ?thesis unfolding at_finish a x(3) sound_def by blast
  next
    case (at_reset now as)
    have as: "as = WriteJournal # replay_acts env now d es" using at_reset rr by (simp add: reset_acts_def)
    let ?d = "act WriteJournal d"
    have h': "holds env S ?d es rs tail" using h by (simp add: holds_def ledger_is_def archive_is_def)
    have "d' = d \<or> interrupted (replay_acts env now d es) ?d d'" using at_reset(4) unfolding as by (elim interrupted_ConsE) simp_all
    moreover have "interrupted (replay_acts env now d es) ?d d' \<Longrightarrow> sound env S d'"
      using replay_sound [OF law h', where ?d0.0 = d] by simp
    ultimately show ?thesis using s at_reset by auto
  next
    case (at_recover now as)
    show ?thesis
    proof (cases "af_journal d")
      case True
      then have "as = replay_acts env now d es" using at_recover rr by (simp add: recover_acts_def)
      with replay_sound [OF law h True refl] at_recover show ?thesis by simp
    next
      case False
      then have "as = []" using at_recover by (simp add: recover_acts_def)
      with at_recover s show ?thesis by (auto elim: interrupted_NilE)
    qed
  qed
qed

lemma history_sound:
  assumes "json_laws env" and "(attempt_step env)\<^sup>*\<^sup>* (no_files, Map.empty) (d, S)"
  shows "sound env S d"
proof -
  have "sound env Map.empty no_files"
    unfolding sound_def
    by (intro exI [of _ "[]"] exI [of _ "[]"])
       (simp add: holds_def ledger_is_def archive_is_def accounted_def apart_def no_files_def)
  moreover have "(case u of (d, S) \<Rightarrow> sound env S d) \<Longrightarrow> attempt_step env u v \<Longrightarrow> (case v of (d, S) \<Rightarrow> sound env S d)" for u v
    by (cases u; cases v) (simp add: step_sound [OF assms(1)])
  ultimately have "case (d, S) of (d, S) \<Rightarrow> sound env S d"
    using rtranclp_induct [OF assms(2), of "\<lambda>u. case u of (d, S) \<Rightarrow> sound env S d"] by simp
  then show ?thesis by simp
qed

text \<open>C26: no attempt is lost and none is counted twice, wherever processes stop. After any history of
  attempts that begin and finish, of resets, and of recoveries, each of which may stop before any of its file
  operations or within the append of an archive line, the next operation can complete the pending reset; then
  every attempt that was begun is either in the ledger as it was last written or in the archive as a framed
  record of it, not in both, with no id twice in either; and when a reset was pending, the ledger is empty.\<close>

theorem attempts_survive_crashes:
  assumes "json_laws env" and "(attempt_step env)\<^sup>*\<^sup>* (no_files, Map.empty) (d, S)"
  shows "\<exists>d1 es rs. recoverAttempts env now d = Inr d1 \<and> \<not> af_journal d1 \<and> readRaw env d1 = Inr es \<and> fst (readArchive env d1) = rs
     \<and> (\<forall>i e. S i = Some e \<longrightarrow> attempt_id e = i \<and> (e \<in> set es \<longleftrightarrow> \<not> (\<exists>r\<in>set rs. archived_as (ae_cd env) e r)))
     \<and> distinct (map attempt_id es) \<and> distinct (map attempt_id rs) \<and> (af_journal d \<longrightarrow> es = [])"
proof -
  from history_sound [OF assms] obtain es rs tail where h: "holds env S d es rs tail" unfolding sound_def by blast
  have rr: "readRaw env d = Inr es" using h by (intro readRaw_ledger [OF assms(1)]) (simp add: holds_def)
  have read: "readRaw env d1 = Inr es1 \<and> fst (readArchive env d1) = rs1
      \<and> (\<forall>i e. S i = Some e \<longrightarrow> attempt_id e = i \<and> (e \<in> set es1 \<longleftrightarrow> \<not> (\<exists>r\<in>set rs1. archived_as (ae_cd env) e r)))
      \<and> distinct (map attempt_id es1) \<and> distinct (map attempt_id rs1)"
    if h1: "holds env S d1 es1 rs1 tail1" and j1: "\<not> af_journal d1" for d1 es1 rs1 tail1
  proof -
    have l: "ledger_is env d1 es1" "archive_is env d1 rs1 tail1" and a: "accounted env S es1 rs1" and ap: "apart es1 rs1"
      using h1 j1 by (simp_all add: holds_def)
    have "e \<in> set es1 \<longleftrightarrow> \<not> (\<exists>r\<in>set rs1. archived_as (ae_cd env) e r)" if e: "S i = Some e" for i e
    proof -
      have ok: "entry_ok e" and in1: "e \<in> set es1 \<or> is_archived env rs1 e" using a e unfolding accounted_def by blast+
      have "e \<notin> set es1" if r: "r \<in> set rs1" "archived_as (ae_cd env) e r" for r
      proof
        assume "e \<in> set es1"
        then have "attempt_id e \<in> attempt_id ` set es1" by simp
        moreover have "attempt_id e \<in> attempt_id ` set rs1" using archived_id [OF assms(1) ok r(2)] r(1) by (metis imageI)
        ultimately show False using ap unfolding apart_def by blast
      qed
      with in1 show ?thesis unfolding is_archived_def by blast
    qed
    moreover have "attempt_id e = i" if "S i = Some e" for i e using a that unfolding accounted_def by blast
    ultimately show ?thesis
      using readRaw_ledger [OF assms(1) l(1)] readArchive_lines [OF assms(1) l(2)] a by (simp add: accounted_def)
  qed
  show ?thesis
  proof (cases "af_journal d")
    case True
    let ?d1 = "acts (replay_acts env now d es) d"
    from replay_sound [OF assms(1) h True refl] obtain rs' where h1: "holds env S ?d1 [] rs' []" and j1: "\<not> af_journal ?d1" by blast
    have "recoverAttempts env now d = Inr ?d1" using True rr by (simp add: recoverAttempts_def recover_acts_def)
    with read [OF h1 j1] j1 show ?thesis by blast
  next
    case False
    then have "recoverAttempts env now d = Inr d" by (simp add: recoverAttempts_def recover_acts_def)
    with read [OF h False] False show ?thesis by blast
  qed
qed

text \<open>An example: values are numbered, and the text of a value is its number.\<close>

instance jsval :: countable
  by countable_datatype

definition ex_env :: attempt_env where
  "ex_env = \<lparr>ae_cd = \<lparr>parseJson = (\<lambda>t. Some (from_nat (parse_nat (takeWhile is_digit t)))), stringifyJson = (\<lambda>v. show_nat (to_nat v)),
       sha256 = (\<lambda>t. t), hmac = (\<lambda>k b. b)\<rparr>,
     ae_pretty = (\<lambda>v. show_nat (to_nat v)), ae_date = (\<lambda>v. Some 0), ae_iso = (\<lambda>t. ''t'')\<rparr>"

lemma ex_laws: "json_laws ex_env"
proof -
  have d: "\<forall>c\<in>set (show_nat n). is_digit c" and p: "parse_nat (show_nat n) = n" for n
    using show_nat_digits [of n] by (simp_all add: list_all_iff)
  have nl: "\<not> is_digit newline" by (simp add: is_digit_def newline_def)
  have t1: "takeWhile is_digit (show_nat n) = show_nat n" for n using d by (simp add: takeWhile_eq_all_conv)
  have t2: "takeWhile is_digit (show_nat n @ [newline]) = show_nat n" for n using d [of n] nl by (simp add: takeWhile_append2)
  have t3: "newline \<notin> set (show_nat n)" for n using d nl by blast
  show ?thesis by (simp add: json_laws_def ex_env_def t1 t2 t3 p)
qed

definition ex_attempt :: jsval where
  "ex_attempt = new_attempt ex_env 0 ''u1'' ''shaping''"

definition ex_stopped :: attempt_files where
  "ex_stopped = act WriteJournal (act (WriteLedger (ledger_text ex_env [ex_attempt])) no_files)"

theorem attempts_survive_crashes_witness:
  "\<exists>d1 r. recoverAttempts ex_env 7 ex_stopped = Inr d1 \<and> readRaw ex_env d1 = Inr []
     \<and> r \<in> set (fst (readArchive ex_env d1)) \<and> archived_as (ae_cd ex_env) ex_attempt r"
proof -
  let ?f1 = "act (WriteLedger (ledger_text ex_env [ex_attempt])) no_files" and ?S = "[''u1'' \<mapsto> ex_attempt]"
  have r0: "readRaw ex_env no_files = Inr []" by (simp add: readRaw_def no_files_def)
  have "attempt_step ex_env (no_files, Map.empty) (?f1, Map.empty(''u1'' \<mapsto> new_attempt ex_env 0 ''u1'' ''shaping''))"
    by (rule at_begin) (simp_all add: no_files_def begin_act_def r0 [unfolded no_files_def] ex_attempt_def)
  moreover have "holds ex_env ?S ?f1 ([] @ [ex_attempt]) [] []"
    unfolding ex_attempt_def
    using begin_sound [OF ex_laws, where S = Map.empty and d = no_files and es = "[]" and rs = "[]" and tail = "[]" and ulid = "''u1''" and now = 0 and kind = "''shaping''"]
    by (simp add: holds_def ledger_is_def archive_is_def accounted_def apart_def no_files_def)
  then have "readRaw ex_env ?f1 = Inr [ex_attempt]" by (intro readRaw_ledger [OF ex_laws]) (simp add: holds_def)
  then have ra: "reset_acts ex_env 0 ?f1 = Inr (WriteJournal # replay_acts ex_env 0 ?f1 [ex_attempt])" by (simp add: reset_acts_def)
  have "attempt_step ex_env (?f1, ?S) (ex_stopped, ?S)"
    unfolding ex_stopped_def by (rule at_reset [OF _ ra int_act [OF int_stop]]) (simp add: no_files_def)
  ultimately have "(attempt_step ex_env)\<^sup>*\<^sup>* (no_files, Map.empty) (ex_stopped, ?S)"
    by (simp add: ex_attempt_def converse_rtranclp_into_rtranclp)
  from attempts_survive_crashes [OF ex_laws this, of 7] obtain d1 es rs where
    d1: "recoverAttempts ex_env 7 ex_stopped = Inr d1" "readRaw ex_env d1 = Inr es" "fst (readArchive ex_env d1) = rs"
    and S: "\<forall>i e. ?S i = Some e \<longrightarrow> attempt_id e = i \<and> (e \<in> set es \<longleftrightarrow> \<not> (\<exists>r\<in>set rs. archived_as (ae_cd ex_env) e r))"
    and e: "af_journal ex_stopped \<longrightarrow> es = []" by blast
  have "es = []" using e by (simp add: ex_stopped_def)
  moreover from this S have "\<exists>r\<in>set rs. archived_as (ae_cd ex_env) ex_attempt r" by auto
  ultimately show ?thesis using d1 by blast
qed

end
