(* ===== verification/Spec2Isabelle.thy ===== *)
theory Spec2Isabelle
  imports Reachability Forecast ModelRouter FleetRun GateSegment TicketArchive LockProtocol RailGuard CodeOwners GateRepair AttemptLedger
begin

text \<open>
  This library models the planning and execution core of the ADLC toolkit, a JavaScript monorepo that
  takes a store of work tickets, plans how they can be built in parallel by coding agents, routes each
  to a model tier, builds, gates and reviews them, and merges them on an integration branch.

  The parts, in the order of the data flow, and the theory of each:

  \<^item> \<open>Prelude\<close>, \<open>JsString\<close>: results as sums, folds that can fail, maxima of lists, the string methods
    the code uses.
  \<^item> \<open>Glob\<close> (\<^verbatim>\<open>packages/core/lib/glob.mjs\<close>): the matcher as the code runs it, one pass over the path
    for each token, refined to the language of the pattern.
  \<^item> \<open>JsValue\<close> (\<^verbatim>\<open>packages/tickets/lib/canonical.mjs\<close>): JavaScript values, the canonical form and
    the hashes of tickets and stores.
  \<^item> \<open>TicketSchema\<close> (\<^verbatim>\<open>packages/tickets/lib/schema.mjs\<close>): validation of a store, with the depth-first
    search for cycles.
  \<^item> \<open>TicketModel\<close>, \<open>TicketDag\<close>, \<open>TicketFloat\<close> (\<^verbatim>\<open>packages/core/lib/tickets.mjs\<close>): validated
    tickets, Kahn's \<open>topoSort\<close>, and the critical path of \<open>computeFloat\<close>.
  \<^item> \<open>Reachability\<close>, \<open>Forecast\<close> (\<^verbatim>\<open>packages/merge-forecast/lib\<close>): the waves, the pairs that may run
    in parallel, the conflict signals and the forecast with its gate.
  \<^item> \<open>ModelRouter\<close> (\<^verbatim>\<open>packages/model-router/lib\<close>): rail density, records of past builds, and the tier
    and budget of each ticket.
  \<^item> \<open>FleetPlan\<close>, \<open>FleetTicket\<close>, \<open>FleetMerge\<close>, \<open>FleetRun\<close> (\<^verbatim>\<open>packages/fleet/lib\<close>: \<^verbatim>\<open>plan.mjs\<close>,
    \<^verbatim>\<open>status.mjs\<close>, \<^verbatim>\<open>scheduler.mjs\<close>, \<^verbatim>\<open>run.mjs\<close>): a planning round, the strikes of one ticket with
    every effect (build, gate, review, merge) as a parameter, the merge effect with its quarantine,
    and the pool of tickets in flight as a step relation. A ticket whose result is recorded stays in
    flight until its cleanup is over, and leaves in a step of its own.
  \<^item> \<open>GateChain\<close>, \<open>GateForest\<close>, \<open>GateRecord\<close>, \<open>GateSegment\<close> (\<^verbatim>\<open>packages/gate-manifest/lib\<close>,
    \<^verbatim>\<open>packages/tickets/lib/manifest-primitives.mjs\<close>, \<^verbatim>\<open>packages/core/lib/ledger.mjs\<close>): the ledger of
    evidence: the verification of a chain of entries and of the forest of segments, and the append of
    an entry to the root or to the segment of a branch.

  \<^item> \<open>TicketStore\<close>, \<open>TicketTx\<close>, \<open>TicketRecovery\<close>, \<open>TicketCrash\<close> (\<^verbatim>\<open>packages/tickets/lib\<close>:
    \<^verbatim>\<open>stores\<close>, \<^verbatim>\<open>transaction.mjs\<close>, \<^verbatim>\<open>trust-root.mjs\<close>, \<^verbatim>\<open>evidence.mjs\<close>): the ticket store on disk, the
    transaction on it as a list of steps on the disk, the audit it owes when tickets declare rails, and
    its recovery after a crash. What the append of evidence finds in the manifest files is a field of the
    disk, \<open>manifest_state\<close>, so that every refusal of \<^verbatim>\<open>evidence.mjs\<close> is a branch.
  \<^item> \<open>TicketCommit\<close>, \<open>TicketService\<close>, \<open>TicketArchive\<close> (\<^verbatim>\<open>packages/tickets/lib\<close>: \<^verbatim>\<open>transaction.mjs\<close>,
    \<^verbatim>\<open>service.mjs\<close>, \<^verbatim>\<open>archive.mjs\<close>): a transaction that succeeds as an assignment to the set of tickets;
    the plans of the service (create, update, discard, complete, reassign, reconcile) and their
    application; archiving a ticket and restoring it.
  \<^item> \<open>LockProtocol\<close> (\<^verbatim>\<open>packages/core/lib/ledger.mjs\<close>, \<^verbatim>\<open>packages/tickets/lib/lock.mjs\<close>): the lock of the
    ledgers and the lock of the ticket store, as steps of any number of processes on one lock file.

  \<^item> \<open>GateRepair\<close> (\<^verbatim>\<open>packages/gate-manifest/lib/repair.mjs\<close>): the ceremony that rebuilds a broken root
    ledger.
  \<^item> \<open>RailDiff\<close>, \<open>RailVersion\<close>, \<open>RailGuard\<close> (\<^verbatim>\<open>packages/rails-guard/lib\<close>: \<^verbatim>\<open>suppressions.mjs\<close>,
    \<^verbatim>\<open>version-only.mjs\<close>, \<^verbatim>\<open>rails.mjs\<close>, \<^verbatim>\<open>check.mjs\<close>): the gate on a change: the reader of the added lines of
    a diff against a printer that spells names as git does (a TAB after a blank, quotes, deleted files),
    the exemption of version bumps, the frozen rails, and the
    suppressions.
  \<^item> \<open>CodeOwners\<close> (\<^verbatim>\<open>packages/rails-guard/lib/trust-root-authorization.mjs\<close>,
    \<^verbatim>\<open>packages/rails-guard/lib/ci/codeowners.mjs\<close>): the patterns of CODEOWNERS as the regular expressions the
    code builds, the owners of a set of paths, and who may authorize a change of a trust root.
  \<^item> \<open>AttemptLedger\<close> (\<^verbatim>\<open>packages/autopilot/lib/attempts.mjs\<close>): the attempts of an issue in a ledger, an
    archive and a journal, each operation as a list of file operations that may stop anywhere.

  How they interact. \<open>validateTickets\<close> accepts JSON values, \<open>as_ticket\<close> reads the fields the planning
  code uses, and \<open>wf_tickets\<close> is what validation guarantees. Every later theory works from
  \<open>wf_tickets\<close>. The locale \<open>schedule\<close> is the interface between an order of the tickets and its
  clients: \<open>topo_order\<close> and \<open>mergeOrder\<close> are its two interpretations, and the two passes of
  \<open>computeFloat\<close> are solved inside it. The pool of \<open>FleetRun\<close> calls \<open>planRound\<close> of \<open>FleetPlan\<close> and
  takes the outcomes of \<open>advanceTicket\<close> of \<open>FleetTicket\<close>. The locale \<open>append_log\<close> is the contract of a
  writer of evidence (a step keeps the log acceptable and only adds lines); it is interpreted on the
  root ledger and on every chain of the forest. The plans of \<open>TicketService\<close> are applied by the
  transaction of \<open>TicketTx\<close>, whose effect \<open>TicketCommit\<close> gives as one fact, so that the properties of the
  service and of the archive speak of what the store loads. The locale \<open>lock_protocol\<close> is what a lock
  promises its callers (one process in the region); both locks are interpretations of it. The gate of
  \<open>RailGuard\<close> reads the tickets of \<open>TicketModel\<close> and matches with \<open>globMatch\<close>; \<open>GateRepair\<close> chains with
  the entry builder of \<open>GateRecord\<close> and is judged by \<open>verify\<close> of \<open>GateForest\<close>.

  Loops that stop because a worklist empties are functions with a measure (the queue plus the number of
  tickets with a positive indegree); the search of \<open>validateTickets\<close> takes fuel, one more than the
  number of ids, and \<open>validateTickets_terminates\<close> proves it never runs out.

  Conventions. Numbers are rationals, so the rounding of floating point is not modelled; characters are
  code points below 256; identifiers such as \<open>__proto__\<close>, which a JavaScript object treats specially,
  are ordinary keys. The text of \<open>JSON.stringify\<close>, SHA-256, file contents, git history and clocks are
  parameters. Error values keep the cases of the code's errors, not their wording.

  Not modelled: running git, child processes, sandboxes and network requests, prompts and the models
  behind them, and the command line front ends and reports; their results enter as parameters. Of the
  packages around the core (context handoff, prosecution, the rest of the autopilot, triage and
  ticket pruning, the analysis tools) nothing is modelled: they drive other programs or print text.
\<close>

section \<open>From the store file to the schedule and the routes\<close>

lemma accepted_wf:
  assumes "validateTickets False True (VArr js) = Inr ts"
  shows "wf_tickets (map as_ticket ts)"
proof -
  have "ts = js \<and> valid_store js" using assms by (rule validate_Inr_iff [THEN iffD1])
  then show ?thesis using valid_store_wf by simp
qed

lemma schedule_wf:
  assumes w: "wf_tickets ts"
  shows "\<exists>order. topoSort ts = (order, None) \<and> mergeOrder ts = order
    \<and> set order = set (ids ts) \<and> distinct order \<and> (\<forall>(a, b)\<in>dep ts. before a b order)
    \<and> (\<exists>r. computeFloat ts = Inr r \<and> map fst (floats r) = order)"
proof -
  have p: "\<forall>(a, b)\<in>dep ts. before a b (topo_order ts)" using kahn.prerequisites_first [OF w] by blast
  have r: "\<exists>r. computeFloat ts = Inr r \<and> map fst (floats r) = topo_order ts"
    unfolding computeFloat_eq [OF w] by (simp add: comp_def)
  show ?thesis
    using topo_order_wf [OF w] topoWaves_spec(2) [OF wf_tickets_graph [OF w]] p r by blast
qed

lemma routes_wf:
  assumes w: "wf_tickets all" and q: "0 < q" "q \<le> 1"
  shows "\<exists>as p3. runRouter stringify (Some q) (Inr all) entries None = Inr (as, p3)
    \<and> map a_id as = ids (activeTickets all) \<and> set p3 \<subseteq> set as"
proof -
  obtain as where r: "runRouter stringify (Some q) (Inr all) entries None
        = Inr (as, filter (p3_finding (activeTickets all) q) as)"
    and l: "list_all2 (\<lambda>t a. \<exists>c. computeFloat (activeTickets all) = Inr c \<and>
          assignTicket t (float_for c (t_id t)) (buildPriors stringify entries) (Some q) = Inr a) (activeTickets all) as"
    using runRouter_all [OF w q] by blast
  have ids: "a_id a = t_id t" if "\<exists>c. computeFloat (activeTickets all) = Inr c \<and>
          assignTicket t (float_for c (t_id t)) (buildPriors stringify entries) (Some q) = Inr a" for t a
    using that assignTicket_total [OF q] by (metis Inr_inject)
  from l have "list_all2 (\<lambda>t a. a_id a = t_id t) (activeTickets all) as"
    by (rule list_all2_mono) (rule ids)
  then have "map a_id as = map t_id (activeTickets all)"
    by (induction rule: list_all2_induct) simp_all
  with r show ?thesis by (auto simp: ids_def)
qed

text \<open>C1: A store that \<open>validateTickets\<close> accepts can be scheduled: on its open tickets \<open>topoSort\<close>
  finds no cycle, \<open>computeFloat\<close> returns a result with a float for every one of them, and the merge
  order is a permutation of them that has every prerequisite first.\<close>

theorem validated_store_schedules:
  assumes "validateTickets False True (VArr js) = Inr ts"
  shows "\<exists>order. topoSort (activeTickets (map as_ticket ts)) = (order, None)
    \<and> mergeOrder (activeTickets (map as_ticket ts)) = order
    \<and> set order = set (ids (activeTickets (map as_ticket ts))) \<and> distinct order
    \<and> (\<forall>(a, b)\<in>dep (activeTickets (map as_ticket ts)). before a b order)
    \<and> (\<exists>r. computeFloat (activeTickets (map as_ticket ts)) = Inr r \<and> map fst (floats r) = order)"
  by (rule schedule_wf [OF activeTickets_wf [OF accepted_wf [OF assms]]])

definition demo_store :: "jsval list" where
  "demo_store =
     [VObj [(''id'', VStr ''A''), (''title'', VStr ''first''), (''edges'', VArr [VObj [(''to'', VStr ''B'')]])],
      VObj [(''id'', VStr ''B''), (''title'', VStr ''second''), (''completed'', VBool False)]]"

lemma demo_store_valid: "validateTickets False True (VArr demo_store) = Inr demo_store"
proof -
  have k: "store_by demo_store = [(''A'', demo_store ! 0), (''B'', demo_store ! Suc 0)]"
    by (simp add: store_by_def demo_store_def ticket_id_def js_get_def)
  have e: "ticket_edges (demo_store ! 0) = [VObj [(''to'', VStr ''B'')]]" "ticket_edges (demo_store ! Suc 0) = []"
    by (simp_all add: demo_store_def ticket_edges_def js_get_def)
  have "dep_edges (store_by demo_store) \<subseteq> {(''A'', ''B'')}"
    by (auto simp: dep_edges_def k node_edges_def e known_target_def js_get_def split: if_splits)
  then have a: "acyclic (dep_edges (store_by demo_store))" using acyclic_demo(1) acyclic_subset by blast
  have v: "validateTicket False (demo_store ! 0) = []" "validateTicket False (demo_store ! Suc 0) = []" by code_simp+
  have s: "set demo_store = {demo_store ! 0, demo_store ! Suc 0}" by (simp add: demo_store_def)
  have i: "ticket_id (demo_store ! 0) = ''A''" "ticket_id (demo_store ! Suc 0) = ''B''" "map ticket_id demo_store = [''A'', ''B'']"
    by (simp_all add: demo_store_def ticket_id_def js_get_def)
  have "valid_store demo_store"
    unfolding valid_store_def i(3) s using v a by (simp add: e i js_get_def)
  then show ?thesis using validate_Inr_iff by blast
qed

theorem validated_store_schedules_witness:
  "\<exists>r. computeFloat (activeTickets (map as_ticket demo_store)) = Inr r"
  using validated_store_schedules [OF demo_store_valid] by blast

text \<open>A store that \<open>validateTickets\<close> accepts is never refused by the router: with a floor in
  (0, 1] the router assigns every open ticket of the store once, in the order of the store.\<close>

theorem validated_store_routes:
  assumes "validateTickets False True (VArr js) = Inr ts" and "0 < q" and "q \<le> 1"
  shows "\<exists>as p3. runRouter stringify (Some q) (Inr (map as_ticket ts)) entries None = Inr (as, p3)
    \<and> map a_id as = ids (activeTickets (map as_ticket ts)) \<and> set p3 \<subseteq> set as"
  by (rule routes_wf [OF accepted_wf [OF assms(1)] assms(2,3)])

theorem validated_store_routes_witness:
  "\<exists>as p3. runRouter (\<lambda>_. ''entry'') (Some (2 / 10)) (Inr (map as_ticket demo_store)) [] None = Inr (as, p3)"
proof -
  have q: "(0::rat) < 2 / 10" "(2 / 10 :: rat) \<le> 1" by simp_all
  from validated_store_routes [OF demo_store_valid q, of "\<lambda>_. ''entry''" "[]"] show ?thesis by (elim exE conjE) (intro exI)
qed

end
